(* ===== verification/Prelude.thy ===== *)
theory Prelude
  imports Main "HOL-Library.Word"
begin

text \<open>
  Shared vocabulary of the development: the integer types of the C code, C pointers as
  addresses, the faults an operation of the C code can run into, computations that may
  fault, and computations that in addition may never return. Generic lemmas on lists,
  words and results that several components use are collected here.
\<close>

section \<open>Types\<close>

type_synonym byte = "8 word"
type_synonym u16 = "16 word"
type_synonym u32 = "32 word"

text \<open>An address of a heap cell; the null pointer is address 0.\<close>

type_synonym ptr = nat

abbreviation (input) NULL :: ptr where "NULL \<equiv> 0"

section \<open>Faults and results\<close>

text \<open>
  What the C standard leaves undefined is a fault of the model: access through a null
  pointer, access to a cell that is not (or no longer) allocated, a free of such a cell,
  an access outside an object's bounds, and an integer conversion whose value is not
  representable. \<open>Exit\<close> is the end of the process through \<open>exit\<close>.
\<close>

datatype fault = NullDeref | BadPointer | BadFree | OutOfBounds | NotRepresentable | Exit

type_synonym 'a res = "fault + 'a"

text \<open>A computation with an unbounded loop: \<open>None\<close> means that it never returns.\<close>

type_synonym 'a run = "(fault + 'a) option"

definition bind_res :: "'a res \<Rightarrow> ('a \<Rightarrow> 'b res) \<Rightarrow> 'b res" where
  "bind_res m f = (case m of Inl e \<Rightarrow> Inl e | Inr x \<Rightarrow> f x)"

named_theorems res_simps \<open>evaluation of results that may fault\<close>
named_theorems heap_simps \<open>reads and updates of typed heaps\<close>
named_theorems chain_simps \<open>chains of pointers\<close>

lemma bind_res_Inl [simp, res_simps]: "bind_res (Inl e) f = Inl e"
  by (simp add: bind_res_def)

lemma bind_res_Inr [simp, res_simps]: "bind_res (Inr x) f = f x"
  by (simp add: bind_res_def)

lemma bind_res_eq_Inr: "bind_res m f = Inr y \<longleftrightarrow> (\<exists>x. m = Inr x \<and> f x = Inr y)"
  by (cases m) auto

lemma bind_res_InrE:
  assumes "bind_res m f = Inr y"
  obtains x where "m = Inr x" and "f x = Inr y"
  using assms by (auto simp: bind_res_eq_Inr)

lemma bind_res_eq_Inl:
  "bind_res m f = Inl e \<longleftrightarrow> m = Inl e \<or> (\<exists>x. m = Inr x \<and> f x = Inl e)"
  by (cases m) auto

lemma bind_res_assoc: "bind_res (bind_res m f) g = bind_res m (\<lambda>x. bind_res (f x) g)"
  by (cases m) auto

definition bind_run :: "'a run \<Rightarrow> ('a \<Rightarrow> 'b run) \<Rightarrow> 'b run" where
  "bind_run m f = (case m of None \<Rightarrow> None | Some (Inl e) \<Rightarrow> Some (Inl e) | Some (Inr x) \<Rightarrow> f x)"

lemma bind_run_simps [simp, res_simps]:
  "bind_run None f = None" "bind_run (Some (Inl e)) f = Some (Inl e)" "bind_run (Some (Inr x)) f = f x"
  by (simp_all add: bind_run_def)

lemma bind_run_cong_fun: "(\<And>x. m = Some (Inr x) \<Longrightarrow> f x = g x) \<Longrightarrow> bind_run m f = bind_run m g"
  by (cases m) (auto simp: bind_run_def split: sum.splits)

text \<open>Sequencing is associative, and returns when both parts do.\<close>

lemma bind_run_assoc: "bind_run (bind_run m f) g = bind_run m (\<lambda>x. bind_run (f x) g)"
  by (auto simp: bind_run_def split: option.splits sum.splits)

lemma bind_run_eq_Inr: "bind_run m f = Some (Inr y) \<longleftrightarrow> (\<exists>x. m = Some (Inr x) \<and> f x = Some (Inr y))"
  by (auto simp: bind_run_def split: option.splits sum.splits)

text \<open>Sequencing is monotone, so loops over it are accepted as \<open>partial_function\<close>s.\<close>

lemma bind_run_bind:
  "bind_run m f = Option.bind m (\<lambda>r. case r of Inl e \<Rightarrow> Some (Inl e) | Inr x \<Rightarrow> f x)"
  by (cases m) (auto simp: bind_run_def split: sum.splits)

lemma bind_run_mono [partial_function_mono]:
  assumes "mono_option B" and "\<And>y. mono_option (\<lambda>f. C y f)"
  shows "mono_option (\<lambda>f. bind_run (B f) (\<lambda>y. C y f))"
  unfolding bind_run_bind
proof (rule bind_mono [OF assms(1)])
  fix r :: "fault + 'c"
  show "mono_option (\<lambda>f. case r of Inl e \<Rightarrow> Some (Inl e) | Inr x \<Rightarrow> C x f)"
    using assms(2) by (cases r) (simp_all add: option.const_mono)
qed

section \<open>Lists\<close>

lemma map_eq_map_Some_upd:
  "map f ps = map Some xs \<Longrightarrow> a \<notin> set ps \<Longrightarrow> map (f(a := v)) ps = map Some xs"
  by (simp add: map_fun_upd)

lemma last_ConsR_conv: "xs \<noteq> [] \<Longrightarrow> last (x # xs) = last xs"
  by simp

lemma take_drop_nth_split:
  "i < length xs \<Longrightarrow> xs = take i xs @ xs ! i # drop (Suc i) xs"
  by (simp add: id_take_nth_drop)

lemma remove1_split:
  "x \<notin> set as \<Longrightarrow> remove1 x (as @ x # bs) = as @ bs"
  by (simp add: remove1_append)

lemma list_update_last:
  "xs \<noteq> [] \<Longrightarrow> xs[length xs - 1 := y] = butlast xs @ [y]"
  by (induction xs) (auto simp: nth_append split: nat.splits)

section \<open>Words\<close>

lemma unat_of_nat_small: "n < 2 ^ LENGTH('a) \<Longrightarrow> unat (of_nat n :: 'a::len word) = n"
  by (simp add: unat_of_nat take_bit_nat_eq_self)

lemma unat_exp32:
  assumes "k < 32" shows "unat ((2::u32) ^ k) = 2 ^ k"
proof -
  have "(2::nat) ^ k < 2 ^ LENGTH(32)" using power_strict_increasing [OF assms, of "2::nat"] by simp
  then have "unat (of_nat (2 ^ k) :: u32) = 2 ^ k" by (rule unat_of_nat_small)
  then show ?thesis by simp
qed

lemma sint32: "sint (x::u32) = (int (unat x) + 2147483648) mod 4294967296 - 2147483648"
  by (simp add: sint_uint signed_take_bit_eq_take_bit_shift take_bit_eq_mod)

lemma mod_shift_small: "n < 2147483648 \<Longrightarrow> (int n + 2147483648) mod 4294967296 - 2147483648 = int n"
  by simp

lemma mod_shift_big:
  assumes "2147483648 \<le> n" "n < 4294967296"
  shows "(int n + 2147483648) mod 4294967296 - 2147483648 = int n - 4294967296"
proof -
  have "int n + 2147483648 = int n - 2147483648 + 4294967296" by simp
  moreover have "(int n - 2147483648) mod 4294967296 = int n - 2147483648"
    using assms by (intro mod_pos_pos_trivial) auto
  ultimately show ?thesis by (simp only: mod_add_self2)
qed

lemma sint_small_unat: "unat (x::u32) < 2 ^ 31 \<Longrightarrow> sint x = int (unat x)"
  by (simp only: sint32) (rule mod_shift_small, simp)

lemma sint_big_unat:
  assumes "2 ^ 31 \<le> unat (x::u32)"
  shows "sint x = int (unat x) - 2 ^ 32"
proof -
  have "unat x < 2 ^ LENGTH(32)" by (rule unsigned_less)
  with assms have "(int (unat x) + 2147483648) mod 4294967296 - 2147483648 = int (unat x) - 4294967296"
    by (intro mod_shift_big) simp_all
  then show ?thesis by (simp only: sint32) simp
qed

end
