(* ===== verification/Chains.thy ===== *)
theory Chains
  imports Prelude
begin

text \<open>
  Chains of pointers through one pointer field, for any heap. A field is given as a
  partial map from the address of a cell to the pointer it stores, so the \<open>next\<close>
  pointers of one structure, its \<open>prev\<close> pointers and the pointers of another
  structure are all chains. The lemmas are the only facts about the shape of heap lists
  that the components use.
\<close>

primrec chain :: "(ptr \<rightharpoonup> ptr) \<Rightarrow> ptr \<Rightarrow> ptr list \<Rightarrow> ptr \<Rightarrow> bool" where
  "chain f p [] q \<longleftrightarrow> p = q"
| "chain f p (a # as) q \<longleftrightarrow> p = a \<and> a \<noteq> NULL \<and> (\<exists>r. f a = Some r \<and> chain f r as q)"

abbreviation nchain :: "(ptr \<rightharpoonup> ptr) \<Rightarrow> ptr \<Rightarrow> ptr list \<Rightarrow> bool" where
  "nchain f p as \<equiv> chain f p as NULL"

text \<open>The head of a list of elements.\<close>

abbreviation first_of :: "ptr list \<Rightarrow> ptr" where
  "first_of es \<equiv> (if es = [] then NULL else hd es)"

lemma chain_NULL [simp, chain_simps]: "chain f NULL as q \<longleftrightarrow> as = [] \<and> q = NULL"
  by (cases as) auto

lemma chain_append [simp, chain_simps]:
  "chain f p (as @ bs) q \<longleftrightarrow> (\<exists>r. chain f p as r \<and> chain f r bs q)"
  by (induction as arbitrary: p) auto

lemma chain_upd [simp, chain_simps]:
  "a \<notin> set as \<Longrightarrow> chain (f(a := v)) p as q = chain f p as q"
  by (induction as arbitrary: p) auto

lemma chain_cong:
  "(\<And>a. a \<in> set as \<Longrightarrow> f a = g a) \<Longrightarrow> chain f p as q = chain g p as q"
  by (induction as arbitrary: p) auto

lemma chain_NULL_notin: "chain f p as q \<Longrightarrow> NULL \<notin> set as"
  by (induction as arbitrary: p) auto

lemma chain_dom: "chain f p as q \<Longrightarrow> set as \<subseteq> dom f"
  by (induction as arbitrary: p) auto

lemma chain_hd: "chain f p as q \<Longrightarrow> p = (if as = [] then q else hd as)"
  by (cases as) auto

lemma nchain_nonnull:
  "p \<noteq> NULL \<Longrightarrow> nchain f p as \<longleftrightarrow> (\<exists>r bs. as = p # bs \<and> f p = Some r \<and> nchain f r bs)"
  by (cases as) auto

lemma nchain_unique: "nchain f p as \<Longrightarrow> nchain f p bs \<Longrightarrow> as = bs"
  by (induction as arbitrary: p bs) (auto simp: nchain_nonnull)

lemma nchain_distinct: "nchain f p as \<Longrightarrow> distinct as"
proof (induction as arbitrary: p)
  case Nil
  then show ?case by simp
next
  case (Cons a as)
  from Cons.prems obtain r where a: "a \<noteq> NULL" "f a = Some r" "nchain f r as" by auto
  have "a \<notin> set as"
  proof
    assume "a \<in> set as"
    then obtain us vs where as: "as = us @ a # vs" by (auto simp: in_set_conv_decomp)
    with a have "nchain f r vs" and "nchain f r as" by auto
    then have "vs = as" by (rule nchain_unique)
    with as have "length as = length (us @ a # as)" by simp
    then show False by simp
  qed
  with Cons.IH a show ?case by auto
qed

text \<open>Appending one cell: the last cell's field is redirected to the new cell.\<close>

lemma chain_snoc:
  "chain f p as a \<Longrightarrow> a \<noteq> NULL \<Longrightarrow> f a = Some q \<Longrightarrow> chain f p (as @ [a]) q"
  by simp

lemma nchain_extend:
  assumes "nchain f p (as @ [a])" and "b \<noteq> NULL" and "b \<notin> set (as @ [a])"
  shows "nchain (f(b \<mapsto> NULL, a \<mapsto> b)) p (as @ [a, b])"
proof -
  from assms(1) have "distinct (as @ [a])" by (rule nchain_distinct)
  with assms show ?thesis by (auto simp: chain_NULL_notin)
qed

lemma nchain_append_last:
  assumes "nchain f p as" "as \<noteq> []" "b \<noteq> NULL" "b \<notin> set as"
  shows "nchain (f(b \<mapsto> NULL, last as \<mapsto> b)) p (as @ [b])"
proof -
  obtain us where us: "as = us @ [last as]" using assms(2) by (metis append_butlast_last_id)
  with nchain_extend [of f p us "last as" b] assms(1,3,4) have "nchain (f(b \<mapsto> NULL, last as \<mapsto> b)) p (us @ [last as, b])" by metis
  with us show ?thesis by (metis append.assoc append_Cons append_Nil)
qed

text \<open>Prepending one cell.\<close>

lemma nchain_prepend:
  "nchain f p as \<Longrightarrow> b \<noteq> NULL \<Longrightarrow> b \<notin> set as \<Longrightarrow> nchain (f(b \<mapsto> p)) b (b # as)"
  by auto

text \<open>Cutting the last cell off: the cell before it ends the chain.\<close>

lemma nchain_cut_last:
  assumes "nchain f p (as @ [a, b])"
  shows "nchain (f(a \<mapsto> NULL)) p (as @ [a])"
proof -
  from assms have "distinct (as @ [a, b])" by (rule nchain_distinct)
  with assms show ?thesis by auto
qed

text \<open>Unlinking a cell in the middle.\<close>

lemma nchain_unlink:
  assumes "nchain f p (as @ a # b # bs)" and "f b = Some r"
  shows "nchain (f(a \<mapsto> r)) p (as @ a # bs)"
proof -
  from assms have "distinct (as @ a # b # bs)" by (meson nchain_distinct)
  with assms show ?thesis by auto
qed

lemma nchain_field:
  assumes "nchain f p (as @ a # bs)"
  shows "f a = Some (if bs = [] then NULL else hd bs)"
  using assms by (auto dest: chain_hd)

section \<open>Back links\<close>

text \<open>
  The other direction of a doubly linked list: every cell's field \<open>g\<close> holds the cell before it,
  the first cell's the address \<open>q\<close>.
\<close>

primrec backs :: "(ptr \<rightharpoonup> ptr) \<Rightarrow> ptr \<Rightarrow> ptr list \<Rightarrow> bool" where
  "backs g q [] \<longleftrightarrow> True"
| "backs g q (a # as) \<longleftrightarrow> g a = Some q \<and> backs g a as"

lemma backs_append [simp, chain_simps]:
  "backs g q (as @ bs) \<longleftrightarrow> backs g q as \<and> backs g (last (q # as)) bs"
  by (induction as arbitrary: q) auto

lemma backs_upd [simp, chain_simps]: "a \<notin> set as \<Longrightarrow> backs (g(a := v)) q as = backs g q as"
  by (induction as arbitrary: q) auto

lemma backs_cong: "(\<And>a. a \<in> set as \<Longrightarrow> f a = g a) \<Longrightarrow> backs f q as = backs g q as"
  by (induction as arbitrary: q) auto

lemma backs_field: "backs g q (as @ a # bs) \<Longrightarrow> g a = Some (last (q # as))"
  by simp

text \<open>A cell put in front: the cell that was first now points back to it.\<close>

lemma backs_push:
  assumes "backs g q as" "b \<notin> set as" "distinct as"
  shows "backs ((if as = [] then g else g(hd as \<mapsto> b))(b \<mapsto> r)) r (b # as)"
  using assms by (cases as) auto

text \<open>A cell taken out of the middle of a doubly linked list, or off one of its ends.\<close>

lemma last_NULL_iff: "NULL \<notin> set as \<Longrightarrow> last (NULL # as) = NULL \<longleftrightarrow> as = []"
  by (metis last.simps last_in_set)

lemma chain_unlink:
  assumes "nchain f p (as @ a # bs)" and "r = (if bs = [] then NULL else hd bs)"
  shows "nchain (if as = [] then f else f(last as \<mapsto> r)) (if as = [] then r else p) (as @ bs)"
proof -
  have d: "distinct (as @ a # bs)" using assms(1) by (rule nchain_distinct)
  obtain r' where r': "chain f p as a" "f a = Some r'" "nchain f r' bs" using assms(1) by auto
  then have rr: "r' = r" using chain_hd [OF r'(3)] assms(2) by simp
  show ?thesis
  proof (cases "as = []")
    case True
    with r' rr show ?thesis by simp
  next
    case False
    then obtain us u where us: "as = us @ [u]" by (cases as rule: rev_cases) auto
    have "nchain f p (us @ u # a # bs)" using assms(1) us by simp
    from nchain_unlink [OF this r'(2)] show ?thesis by (simp add: us rr)
  qed
qed

lemma backs_unlink:
  assumes "backs g q (as @ a # bs)" "distinct (as @ a # bs)"
  shows "backs (if bs = [] then g else g(hd bs \<mapsto> last (q # as))) q (as @ bs)"
  using assms by (cases bs) auto

section \<open>One element in, or out\<close>

lemma chain_first: "chain f p as q \<Longrightarrow> as \<noteq> [] \<Longrightarrow> p \<noteq> NULL \<and> p = hd as \<and> p \<in> set as"
  by (cases as) auto

lemma chain_last: "chain f p as q \<Longrightarrow> as \<noteq> [] \<Longrightarrow> last as \<noteq> NULL \<and> f (last as) = Some q"
  by (cases as rule: rev_cases) auto

text \<open>An element between two parts of a list, for any end of the list.\<close>

lemma chain_link:
  assumes "chain f p (as @ bs) q" "distinct as" "set as \<inter> set bs = {}" "b \<noteq> NULL" "b \<notin> set (as @ bs)"
    and "r = (if bs = [] then q else hd bs)"
  shows "chain ((if as = [] then f else f(last as \<mapsto> b))(b \<mapsto> r)) (if as = [] then b else p) (as @ b # bs) q"
proof -
  obtain m where m: "chain f p as m" "chain f m bs q" using assms(1) by auto
  then have r: "m = r" using chain_hd [OF m(2)] assms(6) by simp
  show ?thesis
  proof (cases as rule: rev_cases)
    case Nil
    with m r assms(4,5) show ?thesis by simp
  next
    case (snoc us u)
    with assms(2,3) have u: "u \<notin> set us" "u \<notin> set bs" by auto
    with m r assms(4,5) snoc show ?thesis by simp
  qed
qed

lemma backs_link:
  assumes "backs g q (as @ bs)" "distinct (as @ bs)" "b \<notin> set (as @ bs)"
  shows "backs ((if bs = [] then g else g(hd bs \<mapsto> b))(b \<mapsto> last (q # as))) q (as @ b # bs)"
  using assms by (cases bs) auto

text \<open>An element that takes the place of another.\<close>

lemma chain_replace:
  assumes "chain f p (as @ a # bs) q" "distinct (as @ a # bs)" "b \<noteq> NULL" "b \<notin> set (as @ bs)" "f a = Some r"
  shows "chain ((if as = [] then f else f(last as \<mapsto> b))(b \<mapsto> r)) (if as = [] then b else p) (as @ b # bs) q"
proof -
  obtain m where m: "chain f p as m" "chain f m (a # bs) q" using assms(1) by auto
  then have bs: "chain f r bs q" using assms(5) by auto
  show ?thesis
  proof (cases as rule: rev_cases)
    case Nil
    with bs assms(3,4) show ?thesis by simp
  next
    case (snoc us u)
    with assms(2) have u: "u \<notin> set us" "u \<notin> set bs" by auto
    with m(1) bs assms(3,4) snoc show ?thesis by simp
  qed
qed

lemma backs_replace:
  assumes "backs g q (as @ a # bs)" "distinct (as @ bs)" "b \<notin> set (as @ bs)"
  shows "backs ((if bs = [] then g else g(hd bs \<mapsto> b))(b \<mapsto> last (q # as))) q (as @ b # bs)"
  using assms by (cases bs) auto

end
