(* ===== verification/Job_Queue.thy ===== *)
theory Job_Queue
  imports Chains
begin

text \<open>
  The blocking queue of \<^verbatim>\<open>jobqueue.c\<close>. The store holds the \<open>jobqueue_node\<close> cells and
  the \<open>jobqueue\<close> headers. The critical sections of \<open>jobqueue_enqueue\<close> and
  \<open>jobqueue_dequeue\<close> are store transformers; the mutex makes them atomic, and the
  condition variable is the step relation \<open>jq_step\<close> of \<open>Queue_Monitor\<close>, over any
  number of threads. Dequeuing leaves the tail pointer and the \<open>prev\<close>
  pointers stale; \<open>jq_rep\<close> says only what the code keeps true.
\<close>

section \<open>The store\<close>

record 'a jobqueue_node =
  j_prev :: ptr
  j_next :: ptr
  j_data :: 'a

record jobqueue =
  q_head :: ptr
  q_tail :: ptr
  q_broadcast :: int

record 'a jstore =
  jnodes :: "ptr \<rightharpoonup> 'a jobqueue_node"
  queues :: "ptr \<rightharpoonup> jobqueue"

text \<open>What the critical section of an enqueue tells the condition variable.\<close>

datatype wakeup = Signal | Broadcast

definition get_jnode :: "'a jstore \<Rightarrow> ptr \<Rightarrow> 'a jobqueue_node res" where
  "get_jnode s p = (if p = NULL then Inl NullDeref
     else case jnodes s p of None \<Rightarrow> Inl BadPointer | Some n \<Rightarrow> Inr n)"

definition set_jnode :: "'a jstore \<Rightarrow> ptr \<Rightarrow> 'a jobqueue_node \<Rightarrow> 'a jstore" where
  "set_jnode s p n = s\<lparr>jnodes := (jnodes s)(p \<mapsto> n)\<rparr>"

definition del_jnode :: "'a jstore \<Rightarrow> ptr \<Rightarrow> 'a jstore" where
  "del_jnode s p = s\<lparr>jnodes := (jnodes s)(p := None)\<rparr>"

definition get_queue :: "'a jstore \<Rightarrow> ptr \<Rightarrow> jobqueue res" where
  "get_queue s q = (if q = NULL then Inl NullDeref
     else case queues s q of None \<Rightarrow> Inl BadPointer | Some r \<Rightarrow> Inr r)"

definition set_queue :: "'a jstore \<Rightarrow> ptr \<Rightarrow> jobqueue \<Rightarrow> 'a jstore" where
  "set_queue s q r = s\<lparr>queues := (queues s)(q \<mapsto> r)\<rparr>"

section \<open>The operations\<close>

definition create_node :: "'a \<Rightarrow> ptr \<Rightarrow> 'a jstore \<Rightarrow> (ptr \<times> 'a jstore) res" where
  "create_node d p s =
     (if p = NULL then Inl NullDeref
      else Inr (p, set_jnode s p \<lparr>j_prev = NULL, j_next = NULL, j_data = d\<rparr>))"

definition free_node :: "ptr \<Rightarrow> 'a jstore \<Rightarrow> 'a jstore res" where
  "free_node p s =
     (if p = NULL then Inr s
      else if jnodes s p = None then Inl BadFree
      else Inr (del_jnode s p))"

definition create_jobqueue :: "int \<Rightarrow> ptr \<Rightarrow> 'a jstore \<Rightarrow> (ptr \<times> 'a jstore) res" where
  "create_jobqueue broadcast p s =
     (if p = NULL then Inl NullDeref
      else Inr (p, set_queue s p \<lparr>q_head = NULL, q_tail = NULL, q_broadcast = broadcast\<rparr>))"

partial_function (option) free_jobs_loop :: "ptr \<Rightarrow> 'a jstore \<Rightarrow> 'a jstore run" where
  "free_jobs_loop cur s =
     (if cur = NULL then Some (Inr s)
      else case get_jnode s cur of Inl x \<Rightarrow> Some (Inl x)
      | Inr n \<Rightarrow>
          (case free_node cur s of Inl x \<Rightarrow> Some (Inl x)
           | Inr s' \<Rightarrow> free_jobs_loop (j_next n) s'))"

definition free_jobqueue :: "ptr \<Rightarrow> 'a jstore \<Rightarrow> 'a jstore run" where
  "free_jobqueue q s =
     (case get_queue s q of Inl x \<Rightarrow> Some (Inl x)
      | Inr r \<Rightarrow>
          (case free_jobs_loop (q_head r) s of None \<Rightarrow> None
           | Some (Inl x) \<Rightarrow> Some (Inl x)
           | Some (Inr s') \<Rightarrow>
               Some (if queues s' q = None then Inl BadFree
                     else Inr (s'\<lparr>queues := (queues s')(q := None)\<rparr>))))"

definition jobqueue_enqueue ::
    "ptr \<Rightarrow> 'a \<Rightarrow> ptr \<Rightarrow> 'a jstore \<Rightarrow> ('a jstore \<times> wakeup) res" where
  "jobqueue_enqueue q d p s =
     bind_res (create_node d p s) (\<lambda>(node, s1).
     bind_res (get_queue s1 q) (\<lambda>r.
     bind_res
       (if q_head r \<noteq> NULL then
          bind_res (get_jnode s1 (q_tail r)) (\<lambda>t.
          let s2 = set_jnode s1 (q_tail r) (t\<lparr>j_next := node\<rparr>) in
          bind_res (get_jnode s2 node) (\<lambda>n.
          let s3 = set_jnode s2 node (n\<lparr>j_next := NULL, j_prev := q_tail r\<rparr>) in
          Inr (set_queue s3 q (r\<lparr>q_tail := node\<rparr>))))
        else Inr (set_queue s1 q (r\<lparr>q_head := node, q_tail := node\<rparr>))) (\<lambda>s4.
     Inr (s4, if q_broadcast r \<noteq> 0 then Broadcast else Signal))))"

definition jobqueue_is_empty :: "ptr \<Rightarrow> 'a jstore \<Rightarrow> bool res" where
  "jobqueue_is_empty q s = bind_res (get_queue s q) (\<lambda>r. Inr (q_head r = NULL))"

text \<open>
  One pass of the critical section of \<open>jobqueue_dequeue\<close>: \<open>None\<close> when the queue is
  empty and the thread goes to sleep in \<open>pthread_cond_wait\<close>, otherwise the first
  item and the store without it.
\<close>

definition jobqueue_dequeue :: "ptr \<Rightarrow> 'a jstore \<Rightarrow> ('a \<times> 'a jstore) option res" where
  "jobqueue_dequeue q s =
     bind_res (jobqueue_is_empty q s) (\<lambda>e.
       if e then Inr None
       else
         bind_res (get_queue s q) (\<lambda>r.
         bind_res (get_jnode s (q_head r)) (\<lambda>tmp.
         let s1 = set_queue s q (r\<lparr>q_head := j_next tmp\<rparr>) in
         bind_res (free_node (q_head r) s1) (\<lambda>s2.
         Inr (Some (j_data tmp, s2))))))"

section \<open>What a queue holds\<close>

definition jnexts :: "'a jstore \<Rightarrow> ptr \<rightharpoonup> ptr" where
  "jnexts s p = map_option j_next (jnodes s p)"

definition jdatas :: "'a jstore \<Rightarrow> ptr \<rightharpoonup> 'a" where
  "jdatas s p = map_option j_data (jnodes s p)"

definition jq_rep :: "'a jstore \<Rightarrow> ptr \<Rightarrow> ptr list \<Rightarrow> 'a list \<Rightarrow> bool" where
  "jq_rep s q ps xs \<longleftrightarrow> q \<noteq> NULL \<and>
     (\<exists>r. queues s q = Some r \<and> nchain (jnexts s) (q_head r) ps \<and>
          (ps \<noteq> [] \<longrightarrow> q_tail r = last ps)) \<and>
     map (jdatas s) ps = map Some xs"

definition jq_holds :: "ptr \<Rightarrow> 'a jstore \<Rightarrow> 'a list \<Rightarrow> bool" where
  "jq_holds q s xs \<longleftrightarrow> (\<exists>ps. jq_rep s q ps xs)"

lemma jfield_doms [simp]:
  "dom (jnexts s) = dom (jnodes s)" "dom (jdatas s) = dom (jnodes s)"
  by (auto simp: jnexts_def jdatas_def dom_def)

lemma jfields_at [simp, heap_simps]:
  "jnodes s p = Some n \<Longrightarrow> jnexts s p = Some (j_next n)"
  "jnodes s p = Some n \<Longrightarrow> jdatas s p = Some (j_data n)"
  by (simp_all add: jnexts_def jdatas_def)

lemma jfields_set_jnode [simp, heap_simps]:
  "jnexts (set_jnode s p n) = (jnexts s)(p \<mapsto> j_next n)"
  "jdatas (set_jnode s p n) = (jdatas s)(p \<mapsto> j_data n)"
  "queues (set_jnode s p n) = queues s"
  "jnodes (set_jnode s p n) = (jnodes s)(p \<mapsto> n)"
  by (auto simp: jnexts_def jdatas_def set_jnode_def)

lemma jfields_set_queue [simp, heap_simps]:
  "jnexts (set_queue s q r) = jnexts s" "jdatas (set_queue s q r) = jdatas s"
  "jnodes (set_queue s q r) = jnodes s" "queues (set_queue s q r) = (queues s)(q \<mapsto> r)"
  by (auto simp: jnexts_def jdatas_def set_queue_def)

lemma jfields_del_jnode [simp, heap_simps]:
  "jnexts (del_jnode s p) = (jnexts s)(p := None)"
  "jdatas (del_jnode s p) = (jdatas s)(p := None)"
  "jnodes (del_jnode s p) = (jnodes s)(p := None)" "queues (del_jnode s p) = queues s"
  by (auto simp: jnexts_def jdatas_def del_jnode_def)

lemma get_jnode_ok [simp, heap_simps]:
  "p \<noteq> NULL \<Longrightarrow> jnodes s p = Some n \<Longrightarrow> get_jnode s p = Inr n"
  by (simp add: get_jnode_def)

lemma get_queue_ok [simp, heap_simps]:
  "q \<noteq> NULL \<Longrightarrow> queues s q = Some r \<Longrightarrow> get_queue s q = Inr r"
  by (simp add: get_queue_def)

lemma jq_repE:
  assumes "jq_rep s q ps xs"
  obtains r where "q \<noteq> NULL" and "queues s q = Some r" and "nchain (jnexts s) (q_head r) ps"
    and "ps \<noteq> [] \<longrightarrow> q_tail r = last ps" and "map (jdatas s) ps = map Some xs"
    and "set ps \<subseteq> dom (jnodes s)" and "NULL \<notin> set ps" and "distinct ps"
    and "q_head r = (if ps = [] then NULL else hd ps)"
proof -
  from assms obtain r where r: "q \<noteq> NULL" "queues s q = Some r"
    "nchain (jnexts s) (q_head r) ps" "ps \<noteq> [] \<longrightarrow> q_tail r = last ps"
    "map (jdatas s) ps = map Some xs"
    by (auto simp: jq_rep_def)
  moreover from r(3) have "set ps \<subseteq> dom (jnodes s)" by (metis chain_dom jfield_doms(1))
  moreover from r(3) have "NULL \<notin> set ps" by (rule chain_NULL_notin)
  moreover from r(3) have "distinct ps" by (rule nchain_distinct)
  moreover from r(3) have "q_head r = (if ps = [] then NULL else hd ps)" by (rule chain_hd)
  ultimately show ?thesis by (rule that)
qed

lemma jq_rep_length: "jq_rep s q ps xs \<Longrightarrow> length ps = length xs"
  by (auto simp: jq_rep_def dest: map_eq_imp_length_eq)

lemma jq_holds_unique:
  assumes "jq_holds q s xs" and "jq_holds q s ys"
  shows "xs = ys"
proof -
  from assms obtain ps qs where rep: "jq_rep s q ps xs" "jq_rep s q qs ys"
    by (auto simp: jq_holds_def)
  then have "ps = qs" by (auto simp: jq_rep_def dest: nchain_unique)
  with rep show ?thesis by (auto simp: jq_rep_def)
qed

lemma create_jobqueue_correct:
  "p \<noteq> NULL \<Longrightarrow> \<exists>s'. create_jobqueue b p s = Inr (p, s') \<and> jq_rep s' p [] [] \<and>
     jnodes s' = jnodes s"
  by (simp add: create_jobqueue_def jq_rep_def)

lemma jobqueue_is_empty_correct:
  assumes "jq_rep s q ps xs"
  shows "jobqueue_is_empty q s = Inr (xs = [])"
proof -
  from assms have "length ps = length xs" by (rule jq_rep_length)
  with assms show ?thesis by (elim jq_repE) (auto simp: jobqueue_is_empty_def)
qed

definition jq_fresh :: "'a jstore \<Rightarrow> ptr \<Rightarrow> bool" where
  "jq_fresh s p \<longleftrightarrow> p \<noteq> NULL \<and> jnodes s p = None"

definition jq_flag :: "'a jstore \<Rightarrow> ptr \<Rightarrow> int option" where
  "jq_flag s q = map_option q_broadcast (queues s q)"

lemma jobqueue_enqueue_correct:
  assumes rep: "jq_rep s q ps xs" and fr: "jq_fresh s p" and flag: "jq_flag s q = Some b"
  shows "\<exists>s'. jobqueue_enqueue q x p s = Inr (s', if b \<noteq> 0 then Broadcast else Signal) \<and>
     jq_rep s' q (ps @ [p]) (xs @ [x]) \<and> jq_flag s' q = Some b"
proof -
  from rep obtain r where r: "q \<noteq> NULL" "queues s q = Some r" "nchain (jnexts s) (q_head r) ps"
    "ps \<noteq> [] \<longrightarrow> q_tail r = last ps" "map (jdatas s) ps = map Some xs"
    "set ps \<subseteq> dom (jnodes s)" "NULL \<notin> set ps" "distinct ps"
    "q_head r = (if ps = [] then NULL else hd ps)"
    by (rule jq_repE)
  from fr have p: "p \<noteq> NULL" "jnodes s p = None" by (auto simp: jq_fresh_def)
  with r(6) have fresh: "p \<notin> set ps" by auto
  define s1 where "s1 = set_jnode s p \<lparr>j_prev = NULL, j_next = NULL, j_data = x\<rparr>"
  have new: "create_node x p s = Inr (p, s1)" "get_queue s1 q = Inr r" "q_broadcast r = b"
    using p r flag by (simp_all add: create_node_def s1_def jq_flag_def)
  show ?thesis
  proof (cases ps rule: rev_cases)
    case Nil
    with r p new show ?thesis
      by (auto simp: jobqueue_enqueue_def s1_def jq_rep_def jq_flag_def)
  next
    case (snoc qs t)
    with r fresh have t: "q_tail r = t" "t \<noteq> NULL" "t \<noteq> p" "t \<in> dom (jnodes s)" "q_head r \<noteq> NULL"
      by (cases qs; auto)+
    then obtain c where c: "jnodes s1 t = Some c" "jnodes s t = Some c" by (auto simp: s1_def)
    define s2 where "s2 = set_jnode s1 t (c\<lparr>j_next := p\<rparr>)"
    define s3 where "s3 = set_jnode s2 p \<lparr>j_prev = t, j_next = NULL, j_data = x\<rparr>"
    let ?s = "set_queue s3 q (r\<lparr>q_tail := p\<rparr>)"
    have "jnodes s2 p = Some \<lparr>j_prev = NULL, j_next = NULL, j_data = x\<rparr>"
      using t(3) by (simp add: s2_def s1_def)
    then have "jobqueue_enqueue q x p s = Inr (?s, if b \<noteq> 0 then Broadcast else Signal)"
      using new t c p(1)
      by (simp add: jobqueue_enqueue_def Let_def s2_def [symmetric] s3_def)
    moreover have "jnexts ?s = (jnexts s)(p \<mapsto> NULL, t \<mapsto> p)"
      and "jdatas ?s = (jdatas s)(p \<mapsto> x)"
      using t(3) c by (auto simp: s3_def s2_def s1_def)
    moreover have "nchain ((jnexts s)(p \<mapsto> NULL, t \<mapsto> p)) (q_head r) (qs @ [t, p])"
      using nchain_extend [of "jnexts s" "q_head r" qs t p] r(3) snoc p(1) fresh by simp
    ultimately show ?thesis
      using r(1,2,5) snoc fresh flag
      by (intro exI [of _ ?s])
         (auto simp: jq_rep_def jq_flag_def map_fun_upd s3_def s2_def s1_def)
  qed
qed

lemma jobqueue_dequeue_empty:
  assumes "jq_rep s q ps []"
  shows "jobqueue_dequeue q s = Inr None"
  using jobqueue_is_empty_correct [OF assms] by (simp add: jobqueue_dequeue_def)

lemma jobqueue_dequeue_correct:
  assumes rep: "jq_rep s q (p # ps) (x # xs)"
  shows "\<exists>s'. jobqueue_dequeue q s = Inr (Some (x, s')) \<and> jq_rep s' q ps xs \<and>
     jq_flag s' q = jq_flag s q \<and> jnodes s' = (jnodes s)(p := None)"
proof -
  from rep obtain r where r: "q \<noteq> NULL" "queues s q = Some r"
    "nchain (jnexts s) (q_head r) (p # ps)" "p # ps \<noteq> [] \<longrightarrow> q_tail r = last (p # ps)"
    "map (jdatas s) (p # ps) = map Some (x # xs)" "set (p # ps) \<subseteq> dom (jnodes s)"
    "NULL \<notin> set (p # ps)" "distinct (p # ps)"
    by (rule jq_repE)
  from r obtain c where c: "jnodes s p = Some c" "j_data c = x" "p \<noteq> NULL" "q_head r = p"
    by auto
  let ?s1 = "set_queue s q (r\<lparr>q_head := j_next c\<rparr>)"
  let ?s = "del_jnode ?s1 p"
  have "jobqueue_dequeue q s = Inr (Some (x, ?s))"
    using r c jobqueue_is_empty_correct [OF rep]
    by (simp add: jobqueue_dequeue_def Let_def free_node_def)
  moreover have "nchain ((jnexts s)(p := None)) (j_next c) ps" using r(3,8) c(1) by auto
  ultimately show ?thesis
    using r c by (intro exI [of _ ?s]) (auto simp: jq_rep_def jq_flag_def)
qed

lemma free_jobs_loop_correct:
  "nchain (jnexts s) p ps \<Longrightarrow>
   \<exists>s'. free_jobs_loop p s = Some (Inr s') \<and> queues s' = queues s \<and>
     (\<forall>a. jnodes s' a = (if a \<in> set ps then None else jnodes s a))"
proof (induction ps arbitrary: p s)
  case Nil
  then show ?case by (simp add: free_jobs_loop.simps [of NULL])
next
  case (Cons a ps)
  from Cons.prems have "a \<notin> set ps" by (meson distinct.simps(2) nchain_distinct)
  from Cons.prems obtain c where "jnodes s a = Some c" by (auto simp: jnexts_def)
  with Cons.prems have c: "p = a" "a \<noteq> NULL" "jnodes s a = Some c"
    "nchain (jnexts s) (j_next c) ps" by auto
  let ?s1 = "del_jnode s a"
  have "nchain (jnexts ?s1) (j_next c) ps" using c(4) \<open>a \<notin> set ps\<close> by simp
  then obtain s' where "free_jobs_loop (j_next c) ?s1 = Some (Inr s')" "queues s' = queues ?s1"
    "\<forall>k. jnodes s' k = (if k \<in> set ps then None else jnodes ?s1 k)"
    using Cons.IH by blast
  with c show ?case by (subst free_jobs_loop.simps) (auto simp: free_node_def)
qed

lemma free_jobqueue_correct:
  assumes rep: "jq_rep s q ps xs"
  shows "\<exists>s'. free_jobqueue q s = Some (Inr s') \<and>
     jnodes s' = jnodes s |` (- set ps) \<and> queues s' = (queues s)(q := None)"
proof -
  from rep obtain r where r: "q \<noteq> NULL" "queues s q = Some r" "nchain (jnexts s) (q_head r) ps"
    by (rule jq_repE)
  from free_jobs_loop_correct [OF r(3)] obtain s1 where
    s1: "free_jobs_loop (q_head r) s = Some (Inr s1)" "queues s1 = queues s"
    "\<forall>a. jnodes s1 a = (if a \<in> set ps then None else jnodes s a)" by blast
  then have "jnodes s1 = jnodes s |` (- set ps)" by (auto simp: restrict_map_def)
  with r s1 show ?thesis by (simp add: free_jobqueue_def)
qed

section \<open>The interface of a queue\<close>

text \<open>
  What the sender and the listeners rely on: an enqueue of an item in a fresh cell appends
  it, a dequeue takes the oldest item, and only an empty queue makes it wait.
\<close>

locale fifo_queue =
  fixes holds :: "'s \<Rightarrow> 'x list \<Rightarrow> bool"
    and fresh :: "'s \<Rightarrow> ptr \<Rightarrow> bool"
    and enq :: "'x \<Rightarrow> ptr \<Rightarrow> 's \<Rightarrow> ('s \<times> wakeup) res"
    and deq :: "'s \<Rightarrow> ('x \<times> 's) option res"
  assumes enq_law: "holds s xs \<Longrightarrow> fresh s p \<Longrightarrow> \<exists>s' w. enq x p s = Inr (s', w) \<and> holds s' (xs @ [x])"
    and deq_law: "holds s (x # xs) \<Longrightarrow> \<exists>s'. deq s = Inr (Some (x, s')) \<and> holds s' xs"
    and deq_empty_law: "holds s [] \<Longrightarrow> deq s = Inr None"
begin

lemma deq_waits_iff: "holds s xs \<Longrightarrow> deq s = Inr None \<longleftrightarrow> xs = []"
  using deq_law [of s] deq_empty_law [of s] by (cases xs) fastforce+

lemma deq_takes_oldest:
  "holds s xs \<Longrightarrow> deq s = Inr (Some (x, s')) \<Longrightarrow> \<exists>ys. xs = x # ys \<and> holds s' ys"
  using deq_law [of s] deq_empty_law [of s] by (cases xs) fastforce+

lemma enq_appends:
  "holds s xs \<Longrightarrow> fresh s p \<Longrightarrow> enq x p s = Inr (s', w) \<Longrightarrow> holds s' (xs @ [x])"
  using enq_law [of s xs p x] by fastforce

lemma deq_never_faults: "holds s xs \<Longrightarrow> deq s \<noteq> Inl e"
  using deq_law [of s] deq_empty_law [of s] by (cases xs) fastforce+

lemma enq_never_faults: "holds s xs \<Longrightarrow> fresh s p \<Longrightarrow> enq x p s \<noteq> Inl e"
  using enq_law [of s xs p x] by fastforce

lemma enq_then_deq:
  assumes "holds s xs" and "fresh s p" and "enq x p s = Inr (s', w)"
  shows "\<exists>s''. deq s' = Inr (Some (hd (xs @ [x]), s'')) \<and> holds s'' (tl (xs @ [x]))"
proof -
  from enq_appends [OF assms] have "holds s' (hd (xs @ [x]) # tl (xs @ [x]))" by simp
  then show ?thesis by (rule deq_law)
qed

end

interpretation jq: fifo_queue "jq_holds q" jq_fresh "jobqueue_enqueue q" "jobqueue_dequeue q"
proof unfold_locales
  fix s :: "'a jstore" and xs p and x :: 'a
  assume "jq_holds q s xs" and fresh: "jq_fresh s p"
  then obtain ps where rep: "jq_rep s q ps xs" by (auto simp: jq_holds_def)
  then obtain b where "jq_flag s q = Some b" by (auto simp: jq_rep_def jq_flag_def)
  from jobqueue_enqueue_correct [OF rep fresh this, of x]
  show "\<exists>s' w. jobqueue_enqueue q x p s = Inr (s', w) \<and> jq_holds q s' (xs @ [x])"
    by (auto simp: jq_holds_def intro: exI [of _ "ps @ [p]"])
next
  fix s and x :: 'a and xs
  assume "jq_holds q s (x # xs)"
  then obtain ps where rep: "jq_rep s q ps (x # xs)" by (auto simp: jq_holds_def)
  with jq_rep_length [OF rep] obtain p ps' where "ps = p # ps'" by (cases ps) auto
  with rep jobqueue_dequeue_correct [of s q p ps' x xs]
  show "\<exists>s'. jobqueue_dequeue q s = Inr (Some (x, s')) \<and> jq_holds q s' xs"
    by (auto simp: jq_holds_def)
next
  fix s :: "'a jstore"
  assume "jq_holds q s []"
  then show "jobqueue_dequeue q s = Inr None"
    by (auto simp: jq_holds_def jobqueue_dequeue_empty)
qed

section \<open>Properties\<close>

text \<open>A queue of two items whose stale pointers are deliberately wrong, for the witnesses.\<close>

definition stale_queue :: "nat jstore" where
  "stale_queue = \<lparr>jnodes = [1 \<mapsto> \<lparr>j_prev = 99, j_next = 2, j_data = 10\<rparr>,
       2 \<mapsto> \<lparr>j_prev = 1, j_next = 0, j_data = 20\<rparr>],
     queues = [100 \<mapsto> \<lparr>q_head = 1, q_tail = 2, q_broadcast = 0\<rparr>]\<rparr>"

lemma stale_queue_rep:
  "jq_rep stale_queue 100 [1, 2] [10, 20]" "jq_fresh stale_queue 7"
  "jq_flag stale_queue 100 = Some 0"
  by (auto simp: jq_rep_def jq_fresh_def jq_flag_def stale_queue_def jnexts_def jdatas_def)

text \<open>An enqueue into a fresh cell appends the item, whatever the stale tail of a drained
  queue points to, and signals one waiter, or all of them when the queue was created with
  the broadcast flag; the cells of the queued items stay in place.\<close>

theorem enqueue_appends:
  assumes "jq_rep s q ps xs" and "jq_fresh s p" and "jq_flag s q = Some b"
  shows "\<exists>s'. jobqueue_enqueue q x p s = Inr (s', if b \<noteq> 0 then Broadcast else Signal) \<and>
     jq_rep s' q (ps @ [p]) (xs @ [x])"
  using jobqueue_enqueue_correct [OF assms, of x] by blast

theorem enqueue_appends_witness:
  "\<exists>s'. jobqueue_enqueue 100 30 7 stale_queue = Inr (s', Signal) \<and>
     jq_rep s' 100 [1, 2, 7] [10, 20, 30]"
  using enqueue_appends [OF stale_queue_rep, of 30] by simp

text \<open>A dequeue of a nonempty queue returns the oldest item, frees its cell and leaves the
  rest queued in order; on an empty queue it waits. The result is usable again: the next
  enqueue appends behind what is left, also when the queue was just drained and its tail
  pointer points to the freed cell.\<close>

theorem dequeue_takes_oldest:
  assumes "jq_rep s q ps xs" and "jq_flag s q = Some b"
  shows "case xs of [] \<Rightarrow> jobqueue_dequeue q s = Inr None
    | y # ys \<Rightarrow> \<exists>s'. jobqueue_dequeue q s = Inr (Some (y, s')) \<and> jq_rep s' q (tl ps) ys \<and>
        jnodes s' (hd ps) = None \<and>
        (\<exists>s'' w. jobqueue_enqueue q x (hd ps) s' = Inr (s'', w) \<and>
           jq_rep s'' q (tl ps @ [hd ps]) (ys @ [x]))"
proof (cases xs)
  case Nil
  with jq_rep_length [OF assms(1)] assms(1) show ?thesis
    by (simp add: jobqueue_dequeue_empty)
next
  case (Cons y ys)
  with jq_rep_length [OF assms(1)] obtain p ps' where ps: "ps = p # ps'" by (cases ps) auto
  with assms Cons have rep: "jq_rep s q (p # ps') (y # ys)" by simp
  from jobqueue_dequeue_correct [OF this] obtain s' where
    s': "jobqueue_dequeue q s = Inr (Some (y, s'))" "jq_rep s' q ps' ys"
    "jq_flag s' q = Some b" "jnodes s' = (jnodes s)(p := None)" using assms(2) by auto
  moreover have "p \<noteq> NULL" using rep by (auto elim!: jq_repE)
  then have "jq_fresh s' p" using s'(4) by (simp add: jq_fresh_def)
  from jobqueue_enqueue_correct [OF s'(2) this s'(3), of x] obtain s'' w where
    "jobqueue_enqueue q x p s' = Inr (s'', w)" "jq_rep s'' q (ps' @ [p]) (ys @ [x])" by blast
  ultimately show ?thesis using ps Cons by auto
qed

theorem dequeue_takes_oldest_witness:
  "\<exists>s'. jobqueue_dequeue 100 stale_queue = Inr (Some (10, s')) \<and> jq_rep s' 100 [2] [20] \<and>
     jnodes s' 1 = None \<and>
     (\<exists>s'' w. jobqueue_enqueue 100 30 1 s' = Inr (s'', w) \<and> jq_rep s'' 100 [2, 1] [20, 30])"
  using dequeue_takes_oldest [OF stale_queue_rep(1,3), of 30] by simp

text \<open>\<open>free_jobqueue\<close> returns, and frees exactly the cells of the queued items and the
  queue itself.\<close>

theorem free_queue_exact:
  assumes "jq_rep s q ps xs"
  shows "\<exists>s'. free_jobqueue q s = Some (Inr s') \<and>
     jnodes s' = jnodes s |` (- set ps) \<and> queues s' = (queues s)(q := None)"
  using assms by (rule free_jobqueue_correct)

theorem free_queue_exact_witness:
  "\<exists>s'. free_jobqueue 100 stale_queue = Some (Inr s') \<and>
     jnodes s' = jnodes stale_queue |` (- {1, 2}) \<and> queues s' = (queues stale_queue)(100 := None)"
  using free_queue_exact [OF stale_queue_rep(1)] by simp

end
