(* ===== verification/Queue_Monitor.thy ===== *)
theory Queue_Monitor
  imports Job_Queue
begin

text \<open>
  The queue of \<^verbatim>\<open>jobqueue.c\<close> as a monitor. The mutex makes a critical section one
  step; what is left to interleave is when a thread enters \<open>jobqueue_dequeue\<close>, goes to
  sleep on the condition variable, is woken by an enqueue or for no reason, and takes an
  item. Any number of producers and consumers take part.
\<close>

text \<open>
  Where a consumer is: not in \<open>jobqueue_dequeue\<close>, about to test
  \<open>jobqueue_is_empty\<close> with the mutex, or asleep in \<open>pthread_cond_wait\<close>.
\<close>

datatype cpc = Outside | Ready | Waiting

record 'a monitor =
  m_queue :: ptr
  m_store :: "'a jstore"
  m_pcs :: "nat \<Rightarrow> cpc"
  m_sent :: "'a list"
  m_got :: "'a list"

definition waiters :: "'a monitor \<Rightarrow> nat set" where
  "waiters m = {c. m_pcs m c = Waiting}"

definition readies :: "'a monitor \<Rightarrow> nat set" where
  "readies m = {c. m_pcs m c = Ready}"

text \<open>
  A signal wakes at least one of the sleeping threads, if there are any; a broadcast
  wakes them all.
\<close>

fun woken :: "wakeup \<Rightarrow> 'a monitor \<Rightarrow> nat set \<Rightarrow> bool" where
  "woken Signal m W \<longleftrightarrow> W \<subseteq> waiters m \<and> (W = {} \<longrightarrow> waiters m = {})"
| "woken Broadcast m W \<longleftrightarrow> W = waiters m"

definition wake :: "'a monitor \<Rightarrow> nat set \<Rightarrow> nat \<Rightarrow> cpc" where
  "wake m W = (\<lambda>c. if c \<in> W then Ready else m_pcs m c)"

inductive jq_step :: "'a monitor \<Rightarrow> 'a monitor \<Rightarrow> bool" where
  put: "jq_fresh (m_store m) p \<Longrightarrow>
     jobqueue_enqueue (m_queue m) x p (m_store m) = Inr (st, w) \<Longrightarrow> woken w m W \<Longrightarrow>
     jq_step m (m\<lparr>m_store := st, m_pcs := wake m W, m_sent := m_sent m @ [x]\<rparr>)"
| enter: "m_pcs m c = Outside \<Longrightarrow> jq_step m (m\<lparr>m_pcs := (m_pcs m)(c := Ready)\<rparr>)"
| sleep: "m_pcs m c = Ready \<Longrightarrow> jobqueue_dequeue (m_queue m) (m_store m) = Inr None \<Longrightarrow>
     jq_step m (m\<lparr>m_pcs := (m_pcs m)(c := Waiting)\<rparr>)"
| spurious: "m_pcs m c = Waiting \<Longrightarrow> jq_step m (m\<lparr>m_pcs := (m_pcs m)(c := Ready)\<rparr>)"
| take_item: "m_pcs m c = Ready \<Longrightarrow>
     jobqueue_dequeue (m_queue m) (m_store m) = Inr (Some (x, st)) \<Longrightarrow>
     jq_step m (m\<lparr>m_store := st, m_pcs := (m_pcs m)(c := Outside), m_got := m_got m @ [x]\<rparr>)"

definition init_monitor :: "ptr \<Rightarrow> 'a jstore \<Rightarrow> 'a monitor" where
  "init_monitor q st =
     \<lparr>m_queue = q, m_store = st, m_pcs = (\<lambda>_. Outside), m_sent = [], m_got = []\<rparr>"

inductive jq_reachable :: "int \<Rightarrow> 'a monitor \<Rightarrow> bool" for b where
  start: "create_jobqueue b q st = Inr (q, st') \<Longrightarrow> jq_reachable b (init_monitor q st')"
| step: "jq_reachable b m \<Longrightarrow> jq_step m m' \<Longrightarrow> jq_reachable b m'"

inductive_cases jq_stepE: "jq_step m m'"

section \<open>The invariant\<close>

text \<open>
  The queue holds what was sent and not yet taken, in order; only finitely many consumers
  are inside; and while one of them sleeps, every queued item has a consumer that is
  awake and about to look.
\<close>

definition jq_inv :: "'a monitor \<Rightarrow> bool" where
  "jq_inv m \<longleftrightarrow> (\<exists>xs. jq_holds (m_queue m) (m_store m) xs \<and> m_sent m = m_got m @ xs \<and>
     (waiters m \<noteq> {} \<longrightarrow> length xs \<le> card (readies m))) \<and>
     finite (waiters m \<union> readies m)"

lemma jq_invI:
  "jq_holds (m_queue m) (m_store m) xs \<Longrightarrow> m_sent m = m_got m @ xs \<Longrightarrow>
   (waiters m \<noteq> {} \<Longrightarrow> length xs \<le> card (readies m)) \<Longrightarrow> finite (waiters m \<union> readies m) \<Longrightarrow>
   jq_inv m"
  by (auto simp: jq_inv_def)

lemma sets_upd:
  assumes "m_pcs m' = (m_pcs m)(c := k)"
  shows "waiters m' = (if k = Waiting then insert c (waiters m) else waiters m - {c})"
    and "readies m' = (if k = Ready then insert c (readies m) else readies m - {c})"
  using assms by (auto simp: waiters_def readies_def)

text \<open>A step of one consumer that leaves the queue alone.\<close>

lemma jq_inv_move:
  assumes inv: "jq_inv m" and m': "m' = m\<lparr>m_pcs := (m_pcs m)(c := k)\<rparr>"
    and ok: "k = Ready \<or> k = Waiting \<and> jq_holds (m_queue m) (m_store m) []"
  shows "jq_inv m'"
proof -
  from inv obtain xs where xs: "jq_holds (m_queue m) (m_store m) xs" "m_sent m = m_got m @ xs"
    "waiters m \<noteq> {} \<longrightarrow> length xs \<le> card (readies m)" and fin: "finite (waiters m \<union> readies m)"
    by (auto simp: jq_inv_def)
  have upd: "m_pcs m' = (m_pcs m)(c := k)" by (simp add: m')
  show ?thesis
  proof (rule jq_invI)
    show "jq_holds (m_queue m') (m_store m') xs" and "m_sent m' = m_got m' @ xs"
      using xs by (simp_all add: m')
    show "finite (waiters m' \<union> readies m')" using fin by (simp add: sets_upd [OF upd])
    assume wait: "waiters m' \<noteq> {}"
    show "length xs \<le> card (readies m')"
    proof (cases "k = Ready")
      case True
      with wait xs(3) fin show ?thesis
        by (auto simp: sets_upd [OF upd] intro: le_trans card_mono)
    next
      case False
      with ok xs(1) have "xs = []" by (auto dest: jq_holds_unique)
      then show ?thesis by simp
    qed
  qed
qed

lemma jq_inv_init: "create_jobqueue b q st = Inr (q, st') \<Longrightarrow> jq_inv (init_monitor q st')"
  using create_jobqueue_correct [of q b st]
  by (intro jq_invI [where xs = "[]"])
     (auto simp: init_monitor_def jq_holds_def create_jobqueue_def waiters_def readies_def
       split: if_splits)

lemma jq_inv_step: "jq_step m m' \<Longrightarrow> jq_inv m \<Longrightarrow> jq_inv m'"
proof (induction rule: jq_step.induct)
  case (put m p x st w W)
  then obtain xs where xs: "jq_holds (m_queue m) (m_store m) xs" "m_sent m = m_got m @ xs"
    "waiters m \<noteq> {} \<longrightarrow> length xs \<le> card (readies m)" and fin: "finite (waiters m \<union> readies m)"
    by (auto simp: jq_inv_def)
  let ?m = "m\<lparr>m_store := st, m_pcs := wake m W, m_sent := m_sent m @ [x]\<rparr>"
  have W: "W \<subseteq> waiters m" "W = {} \<Longrightarrow> waiters m = {}" using put(3) by (cases w; simp)+
  have sets: "waiters ?m = waiters m - W" "readies ?m = readies m \<union> W"
    using W(1) by (auto simp: waiters_def readies_def wake_def)
  show ?case
  proof (rule jq_invI)
    show "jq_holds (m_queue ?m) (m_store ?m) (xs @ [x])"
      using jq.enq_appends [OF xs(1) put(1,2)] by simp
    show "finite (waiters ?m \<union> readies ?m)" using fin W(1) by (auto simp: sets intro: finite_subset)
    assume "waiters ?m \<noteq> {}"
    then have "waiters m \<noteq> {}" and "W \<noteq> {}" using W(2) by (auto simp: sets)
    moreover have "readies m \<inter> W = {}" using W(1) by (auto simp: waiters_def readies_def)
    moreover have "finite W" using fin W(1) by (auto intro: finite_subset)
    moreover from \<open>W \<noteq> {}\<close> \<open>finite W\<close> have "0 < card W" by (simp add: card_gt_0_iff)
    ultimately show "length (xs @ [x]) \<le> card (readies ?m)"
      using xs(3) fin by (simp add: sets card_Un_disjoint)
  qed (simp add: xs(2))
next
  case (enter m c)
  then show ?case by (blast intro: jq_inv_move)
next
  case (sleep m c)
  then have "jq_holds (m_queue m) (m_store m) []"
    by (auto simp: jq_inv_def dest: jq.deq_waits_iff)
  with sleep show ?case by (blast intro: jq_inv_move)
next
  case (spurious m c)
  then show ?case by (blast intro: jq_inv_move)
next
  case (take_item m c x st)
  then obtain xs where xs: "jq_holds (m_queue m) (m_store m) xs" "m_sent m = m_got m @ xs"
    "waiters m \<noteq> {} \<longrightarrow> length xs \<le> card (readies m)" and fin: "finite (waiters m \<union> readies m)"
    by (auto simp: jq_inv_def)
  let ?m = "m\<lparr>m_store := st, m_pcs := (m_pcs m)(c := Outside), m_got := m_got m @ [x]\<rparr>"
  have upd: "m_pcs ?m = (m_pcs m)(c := Outside)" by simp
  from jq.deq_takes_oldest [OF xs(1) take_item(2)] obtain ys where
    ys: "xs = x # ys" "jq_holds (m_queue m) st ys" by blast
  have c: "c \<in> readies m" "c \<notin> waiters m"
    using take_item(1) by (auto simp: readies_def waiters_def)
  show ?case
  proof (rule jq_invI)
    show "finite (waiters ?m \<union> readies ?m)" using fin by (simp add: sets_upd [OF upd])
    assume "waiters ?m \<noteq> {}"
    with c xs(3) ys(1) fin show "length ys \<le> card (readies ?m)"
      by (simp add: sets_upd [OF upd] card_Diff_singleton)
  qed (use ys xs in simp_all)
qed

lemma reachable_jq_inv: "jq_reachable b m \<Longrightarrow> jq_inv m"
  by (induction rule: jq_reachable.induct) (auto intro: jq_inv_init jq_inv_step)

lemma ready_can_take:
  assumes "jq_holds (m_queue m) (m_store m) (x # xs)" and "c \<in> readies m"
  shows "\<exists>m'. jq_step m m' \<and> m_got m' = m_got m @ [x]"
proof -
  from jq.deq_law [OF assms(1)] obtain st where
    "jobqueue_dequeue (m_queue m) (m_store m) = Inr (Some (x, st))" by blast
  moreover from assms(2) have "m_pcs m c = Ready" by (simp add: readies_def)
  ultimately have "jq_step m (m\<lparr>m_store := st, m_pcs := (m_pcs m)(c := Outside),
      m_got := m_got m @ [x]\<rparr>)" by (intro take_item)
  then show ?thesis by (intro exI conjI) (assumption, simp)
qed

section \<open>Properties\<close>

text \<open>A run for the witnesses: consumers 3 and 4 go to sleep, then 7 is enqueued and wakes 3.\<close>

definition drained :: "nat jstore" where
  "drained = \<lparr>jnodes = Map.empty,
     queues = [100 \<mapsto> \<lparr>q_head = 0, q_tail = 0, q_broadcast = 0\<rparr>]\<rparr>"

definition one_job :: "nat jstore" where
  "one_job = \<lparr>jnodes = [1 \<mapsto> \<lparr>j_prev = 0, j_next = 0, j_data = 7\<rparr>],
     queues = [100 \<mapsto> \<lparr>q_head = 1, q_tail = 1, q_broadcast = 0\<rparr>]\<rparr>"

definition both_asleep :: "nat monitor" where
  "both_asleep = \<lparr>m_queue = 100, m_store = drained,
     m_pcs = (\<lambda>_. Outside)(3 := Waiting, 4 := Waiting), m_sent = [], m_got = []\<rparr>"

definition one_woken :: "nat monitor" where
  "one_woken = \<lparr>m_queue = 100, m_store = one_job,
     m_pcs = (\<lambda>_. Outside)(3 := Ready, 4 := Waiting), m_sent = [7], m_got = []\<rparr>"

lemma drained_steps:
  "create_jobqueue 0 100 \<lparr>jnodes = Map.empty, queues = Map.empty\<rparr> = Inr (100, drained)"
  "jobqueue_dequeue 100 drained = Inr None"
  "jobqueue_enqueue 100 7 1 drained = Inr (one_job, Signal)" "jq_fresh drained 1"
  by (simp_all add: create_jobqueue_def drained_def one_job_def set_queue_def set_jnode_def
      jobqueue_dequeue_def jobqueue_is_empty_def get_queue_def jobqueue_enqueue_def
      create_node_def jq_fresh_def)

lemma reachable_both_asleep: "jq_reachable 0 both_asleep"
proof -
  let ?m0 = "init_monitor 100 drained"
  let ?m1 = "?m0\<lparr>m_pcs := (m_pcs ?m0)(3 := Ready)\<rparr>"
  let ?m2 = "?m1\<lparr>m_pcs := (m_pcs ?m1)(3 := Waiting)\<rparr>"
  let ?m3 = "?m2\<lparr>m_pcs := (m_pcs ?m2)(4 := Ready)\<rparr>"
  let ?m4 = "?m3\<lparr>m_pcs := (m_pcs ?m3)(4 := Waiting)\<rparr>"
  note init = init_monitor_def drained_steps
  have "jq_step ?m0 ?m1" by (rule enter) (simp add: init)
  moreover have "jq_step ?m1 ?m2" by (rule sleep) (simp_all add: init)
  moreover have "jq_step ?m2 ?m3" by (rule enter) (simp add: init)
  moreover have "jq_step ?m3 ?m4" by (rule sleep) (simp_all add: init)
  moreover have "jq_reachable 0 ?m0" by (rule start) (rule drained_steps)
  ultimately have "jq_reachable 0 ?m4" by (blast intro: step)
  then show ?thesis by (simp add: both_asleep_def init_monitor_def)
qed

lemma reachable_one_woken: "jq_reachable 0 one_woken"
proof -
  have w: "waiters both_asleep = {3, 4}" by (auto simp: waiters_def both_asleep_def)
  let ?m = "both_asleep\<lparr>m_store := one_job, m_pcs := wake both_asleep {3},
      m_sent := m_sent both_asleep @ [7]\<rparr>"
  have "jq_step both_asleep ?m"
  proof (rule put)
    show "jq_fresh (m_store both_asleep) 1"
      by (simp add: both_asleep_def jq_fresh_def drained_def)
    show "jobqueue_enqueue (m_queue both_asleep) 7 1 (m_store both_asleep) = Inr (one_job, Signal)"
      by (simp only: both_asleep_def monitor.select_convs drained_steps)
    show "woken Signal both_asleep {3}" by (simp add: w)
  qed
  with reachable_both_asleep have "jq_reachable 0 ?m" by (rule step)
  moreover have "?m = one_woken" by (auto simp: both_asleep_def one_woken_def wake_def)
  ultimately show ?thesis by simp
qed

lemma one_woken_holds: "jq_holds (m_queue one_woken) (m_store one_woken) [7]"
  by (auto simp: jq_holds_def jq_rep_def one_woken_def one_job_def jnexts_def jdatas_def
      intro!: exI [of _ "[1]"])

text \<open>C7: In every reachable state of the monitor, with any number of producers and consumers
  and any interleaving and spurious wakeup, what the consumers took followed by what is
  queued is what the producers sent, in the same order: nothing is lost, duplicated or
  reordered.\<close>

theorem queue_is_fifo:
  assumes "jq_reachable b m"
  shows "\<exists>xs. jq_holds (m_queue m) (m_store m) xs \<and> m_sent m = m_got m @ xs"
  using reachable_jq_inv [OF assms] by (auto simp: jq_inv_def)

theorem queue_is_fifo_witness:
  "\<exists>xs. jq_holds 100 one_job xs \<and> [7] = [] @ xs"
  using queue_is_fifo [OF reachable_one_woken] by (simp add: one_woken_def)

text \<open>C29: No wakeup is lost: while some consumer sleeps on the condition variable, there are
  at least as many consumers awake and about to look as there are queued items, although an
  enqueue signals only one waiter; so a nonempty queue always has a consumer whose next
  step takes the oldest item.\<close>

theorem no_lost_wakeup:
  assumes "jq_reachable b m" and "waiters m \<noteq> {}"
    and "jq_holds (m_queue m) (m_store m) xs"
  shows "length xs \<le> card (readies m) \<and>
     (\<forall>x ys. xs = x # ys \<longrightarrow> (\<exists>m'. jq_step m m' \<and> m_got m' = m_got m @ [x]))"
proof -
  from reachable_jq_inv [OF assms(1)] obtain zs where
    zs: "jq_holds (m_queue m) (m_store m) zs" "length zs \<le> card (readies m)"
    using assms(2) by (auto simp: jq_inv_def)
  with assms(3) have len: "length xs \<le> card (readies m)" by (metis jq_holds_unique)
  have "\<exists>m'. jq_step m m' \<and> m_got m' = m_got m @ [x]" if "xs = x # ys" for x ys
  proof -
    from len that obtain c where "c \<in> readies m" by fastforce
    with assms(3) that show ?thesis by (blast intro: ready_can_take)
  qed
  with len show ?thesis by blast
qed

theorem no_lost_wakeup_witness:
  "1 \<le> card (readies one_woken) \<and> (\<exists>m'. jq_step one_woken m' \<and> m_got m' = [7])"
proof -
  have "4 \<in> waiters one_woken" by (simp add: waiters_def one_woken_def)
  then have "waiters one_woken \<noteq> {}" by blast
  from no_lost_wakeup [OF reachable_one_woken this one_woken_holds]
  show ?thesis by (simp add: one_woken_def)
qed

end
