(* ===== verification/Linked_List.thy ===== *)
theory Linked_List
  imports Chains
begin

text \<open>
  The doubly linked list of \<^verbatim>\<open>linked_list.c\<close>, at the level of its pointers. The store holds
  the \<open>llist_node\<close> cells and the \<open>llist\<close> headers, each in a heap of its own.
  An operation that allocates takes the address the allocator returned, which may be
  null; whatever address is fresh will do, one that was freed before included.
  \<open>llist_rep s l ps xs\<close> says that header \<open>l\<close> represents the list \<open>xs\<close>, held
  in the cells at the addresses \<open>ps\<close>; every operation is characterised by it.
\<close>

section \<open>The store\<close>

record 'a llist_node =
  n_prev :: ptr
  n_next :: ptr
  n_data :: 'a

record llist =
  l_head :: ptr
  l_tail :: ptr

record 'a lstore =
  nodes :: "ptr \<rightharpoonup> 'a llist_node"
  lists :: "ptr \<rightharpoonup> llist"

definition get_node :: "'a lstore \<Rightarrow> ptr \<Rightarrow> 'a llist_node res" where
  "get_node s p = (if p = NULL then Inl NullDeref
     else case nodes s p of None \<Rightarrow> Inl BadPointer | Some n \<Rightarrow> Inr n)"

definition set_node :: "'a lstore \<Rightarrow> ptr \<Rightarrow> 'a llist_node \<Rightarrow> 'a lstore" where
  "set_node s p n = s\<lparr>nodes := (nodes s)(p \<mapsto> n)\<rparr>"

definition get_list :: "'a lstore \<Rightarrow> ptr \<Rightarrow> llist res" where
  "get_list s l = (if l = NULL then Inl NullDeref
     else case lists s l of None \<Rightarrow> Inl BadPointer | Some r \<Rightarrow> Inr r)"

definition set_list :: "'a lstore \<Rightarrow> ptr \<Rightarrow> llist \<Rightarrow> 'a lstore" where
  "set_list s l r = s\<lparr>lists := (lists s)(l \<mapsto> r)\<rparr>"

text \<open>Writes of one field through a pointer: the target must be an allocated cell.\<close>

definition write_prev :: "'a lstore \<Rightarrow> ptr \<Rightarrow> ptr \<Rightarrow> 'a lstore res" where
  "write_prev s p q = bind_res (get_node s p) (\<lambda>n. Inr (set_node s p (n\<lparr>n_prev := q\<rparr>)))"

definition write_next :: "'a lstore \<Rightarrow> ptr \<Rightarrow> ptr \<Rightarrow> 'a lstore res" where
  "write_next s p q = bind_res (get_node s p) (\<lambda>n. Inr (set_node s p (n\<lparr>n_next := q\<rparr>)))"

section \<open>The operations\<close>

text \<open>\<open>p\<close> is the address \<open>calloc\<close> returned; a null one is dereferenced by the code.\<close>

definition create_llist_node :: "'a \<Rightarrow> ptr \<Rightarrow> 'a lstore \<Rightarrow> (ptr \<times> 'a lstore) res" where
  "create_llist_node d p s =
     (if p = NULL then Inl NullDeref
      else Inr (p, set_node s p \<lparr>n_prev = NULL, n_next = NULL, n_data = d\<rparr>))"

definition free_llist_node :: "ptr \<Rightarrow> 'a lstore \<Rightarrow> 'a lstore res" where
  "free_llist_node p s =
     (if p = NULL then Inr s
      else if nodes s p = None then Inl BadFree
      else Inr (s\<lparr>nodes := (nodes s)(p := None)\<rparr>))"

definition create_llist :: "ptr \<Rightarrow> 'a lstore \<Rightarrow> (ptr \<times> 'a lstore) res" where
  "create_llist p s =
     (if p = NULL then Inl NullDeref
      else Inr (p, set_list s p \<lparr>l_head = NULL, l_tail = NULL\<rparr>))"

definition free_list_header :: "ptr \<Rightarrow> 'a lstore \<Rightarrow> 'a lstore res" where
  "free_list_header l s =
     (if l = NULL then Inr s
      else if lists s l = None then Inl BadFree
      else Inr (s\<lparr>lists := (lists s)(l := None)\<rparr>))"

text \<open>
  The loop of \<open>free_llist\<close> and \<open>free_llist_nodes\<close>: the two differ in the callback
  \<open>freefn\<close> on the data, which is the state transformer \<open>f\<close> here.
\<close>

partial_function (option) free_loop ::
    "('a \<Rightarrow> 'e \<Rightarrow> 'e) \<Rightarrow> ptr \<Rightarrow> 'a lstore \<Rightarrow> 'e \<Rightarrow> ('a lstore \<times> 'e) run" where
  "free_loop f cursor s e =
     (if cursor = NULL then Some (Inr (s, e))
      else case get_node s cursor of Inl x \<Rightarrow> Some (Inl x)
      | Inr n \<Rightarrow>
          (case free_llist_node cursor s of Inl x \<Rightarrow> Some (Inl x)
           | Inr s' \<Rightarrow> free_loop f (n_next n) s' (f (n_data n) e)))"

definition free_llist_nodes ::
    "ptr \<Rightarrow> ('a \<Rightarrow> 'e \<Rightarrow> 'e) \<Rightarrow> 'a lstore \<Rightarrow> 'e \<Rightarrow> ('a lstore \<times> 'e) run" where
  "free_llist_nodes l f s e =
     (case get_list s l of Inl x \<Rightarrow> Some (Inl x)
      | Inr r \<Rightarrow>
          (case free_loop f (l_head r) s e of None \<Rightarrow> None
           | Some (Inl x) \<Rightarrow> Some (Inl x)
           | Some (Inr (s', e')) \<Rightarrow>
               Some (bind_res (free_list_header l s') (\<lambda>s''. Inr (s'', e')))))"

definition free_llist :: "ptr \<Rightarrow> 'a lstore \<Rightarrow> 'a lstore run" where
  "free_llist l s =
     (case get_list s l of Inl x \<Rightarrow> Some (Inl x)
      | Inr r \<Rightarrow>
          (case free_loop (\<lambda>_ u. u) (l_head r) s () of None \<Rightarrow> None
           | Some (Inl x) \<Rightarrow> Some (Inl x)
           | Some (Inr (s', _)) \<Rightarrow> Some (free_list_header l s')))"

definition llist_is_empty :: "ptr \<Rightarrow> 'a lstore \<Rightarrow> bool res" where
  "llist_is_empty l s =
     bind_res (get_list s l) (\<lambda>r. Inr (l_head r = NULL \<and> l_tail r = NULL))"

definition llist_insert_head :: "ptr \<Rightarrow> 'a \<Rightarrow> ptr \<Rightarrow> 'a lstore \<Rightarrow> 'a lstore res" where
  "llist_insert_head l d p s =
     bind_res (create_llist_node d p s) (\<lambda>(n, s1).
     bind_res (get_list s1 l) (\<lambda>r.
       if l_head r = NULL then Inr (set_list s1 l \<lparr>l_head = n, l_tail = n\<rparr>)
       else bind_res (write_prev s1 (l_head r) n) (\<lambda>s2.
            bind_res (write_next s2 n (l_head r)) (\<lambda>s3.
            Inr (set_list s3 l (r\<lparr>l_head := n\<rparr>))))))"

definition llist_insert_tail :: "ptr \<Rightarrow> 'a \<Rightarrow> ptr \<Rightarrow> 'a lstore \<Rightarrow> 'a lstore res" where
  "llist_insert_tail l d p s =
     bind_res (create_llist_node d p s) (\<lambda>(n, s1).
     bind_res (get_list s1 l) (\<lambda>r.
       if l_tail r = NULL then Inr (set_list s1 l \<lparr>l_head = n, l_tail = n\<rparr>)
       else bind_res (write_next s1 (l_tail r) n) (\<lambda>s2.
            bind_res (write_prev s2 n (l_tail r)) (\<lambda>s3.
            Inr (set_list s3 l (r\<lparr>l_tail := n\<rparr>))))))"

definition llist_remove_head :: "ptr \<Rightarrow> 'a lstore \<Rightarrow> ('a \<times> 'a lstore) res" where
  "llist_remove_head l s =
     bind_res (get_list s l) (\<lambda>r.
     bind_res (get_node s (l_head r)) (\<lambda>tmp.
     bind_res
       (if l_head r = l_tail r then Inr (set_list s l \<lparr>l_head = NULL, l_tail = NULL\<rparr>)
        else write_prev (set_list s l (r\<lparr>l_head := n_next tmp\<rparr>)) (n_next tmp) NULL) (\<lambda>s1.
     bind_res (free_llist_node (l_head r) s1) (\<lambda>s2.
     Inr (n_data tmp, s2)))))"

definition llist_remove_tail :: "ptr \<Rightarrow> 'a lstore \<Rightarrow> ('a \<times> 'a lstore) res" where
  "llist_remove_tail l s =
     bind_res (get_list s l) (\<lambda>r.
     bind_res (get_node s (l_tail r)) (\<lambda>tmp.
     bind_res
       (if l_head r = l_tail r then Inr (set_list s l \<lparr>l_head = NULL, l_tail = NULL\<rparr>)
        else write_next (set_list s l (r\<lparr>l_tail := n_prev tmp\<rparr>)) (n_prev tmp) NULL) (\<lambda>s1.
     bind_res (free_llist_node (l_tail r) s1) (\<lambda>s2.
     Inr (n_data tmp, s2)))))"

definition llist_remove_node :: "ptr \<Rightarrow> ptr \<Rightarrow> 'a lstore \<Rightarrow> ('a \<times> 'a lstore) res" where
  "llist_remove_node l n s =
     bind_res (get_list s l) (\<lambda>r.
       if n = l_head r then llist_remove_head l s
       else if n = l_tail r then llist_remove_tail l s
       else
         bind_res (get_node s n) (\<lambda>c.
         bind_res (write_next s (n_prev c) (n_next c)) (\<lambda>s1.
         bind_res (get_node s1 n) (\<lambda>c1.
         bind_res (write_prev s1 (n_next c1) (n_prev c1)) (\<lambda>s2.
         bind_res (free_llist_node n s2) (\<lambda>s3.
         Inr (n_data c, s3)))))))"

text \<open>
  \<open>llist_remove_value\<close> compares data pointers; it returns the removed datum, or a null
  pointer (\<open>None\<close>) when no cell holds the value.
\<close>

partial_function (option) remove_value_loop ::
    "ptr \<Rightarrow> 'a \<Rightarrow> ptr \<Rightarrow> 'a lstore \<Rightarrow> ('a option \<times> 'a lstore) run" where
  "remove_value_loop l v cursor s =
     (if cursor = NULL then Some (Inr (None, s))
      else case get_node s cursor of Inl x \<Rightarrow> Some (Inl x)
      | Inr n \<Rightarrow>
          if n_data n = v
          then Some (bind_res (llist_remove_node l cursor s) (\<lambda>(d, s'). Inr (Some d, s')))
          else remove_value_loop l v (n_next n) s)"

definition llist_remove_value ::
    "ptr \<Rightarrow> 'a \<Rightarrow> 'a lstore \<Rightarrow> ('a option \<times> 'a lstore) run" where
  "llist_remove_value l v s =
     (case get_list s l of Inl x \<Rightarrow> Some (Inl x)
      | Inr r \<Rightarrow> remove_value_loop l v (l_head r) s)"

text \<open>\<open>llist_for_each\<close>: the callback changes the caller's argument, not the list.\<close>

partial_function (option) for_each_loop ::
    "('a \<Rightarrow> 'e \<Rightarrow> 'e) \<Rightarrow> ptr \<Rightarrow> 'a lstore \<Rightarrow> 'e \<Rightarrow> 'e run" where
  "for_each_loop fn cursor s arg =
     (if cursor = NULL then Some (Inr arg)
      else case get_node s cursor of Inl x \<Rightarrow> Some (Inl x)
      | Inr n \<Rightarrow> for_each_loop fn (n_next n) s (fn (n_data n) arg))"

definition llist_for_each :: "ptr \<Rightarrow> ('a \<Rightarrow> 'e \<Rightarrow> 'e) \<Rightarrow> 'a lstore \<Rightarrow> 'e \<Rightarrow> 'e run" where
  "llist_for_each l fn s arg =
     (case get_list s l of Inl x \<Rightarrow> Some (Inl x)
      | Inr r \<Rightarrow> for_each_loop fn (l_head r) s arg)"

section \<open>What a header represents\<close>

definition nexts :: "'a lstore \<Rightarrow> ptr \<rightharpoonup> ptr" where
  "nexts s p = map_option n_next (nodes s p)"

definition prevs :: "'a lstore \<Rightarrow> ptr \<rightharpoonup> ptr" where
  "prevs s p = map_option n_prev (nodes s p)"

definition datas :: "'a lstore \<Rightarrow> ptr \<rightharpoonup> 'a" where
  "datas s p = map_option n_data (nodes s p)"

definition llist_rep :: "'a lstore \<Rightarrow> ptr \<Rightarrow> ptr list \<Rightarrow> 'a list \<Rightarrow> bool" where
  "llist_rep s l ps xs \<longleftrightarrow> l \<noteq> NULL \<and>
     (\<exists>r. lists s l = Some r \<and> nchain (nexts s) (l_head r) ps \<and>
          nchain (prevs s) (l_tail r) (rev ps)) \<and>
     map (datas s) ps = map Some xs"

text \<open>The cells outside \<open>A\<close> and the headers other than \<open>l\<close> are untouched.\<close>

definition only_changes :: "'a lstore \<Rightarrow> 'a lstore \<Rightarrow> ptr set \<Rightarrow> ptr \<Rightarrow> bool" where
  "only_changes s s' A l \<longleftrightarrow>
     (\<forall>a. a \<notin> A \<longrightarrow> nodes s' a = nodes s a) \<and> (\<forall>k. k \<noteq> l \<longrightarrow> lists s' k = lists s k)"

subsection \<open>Fields after each primitive\<close>

lemma field_doms [simp]:
  "dom (nexts s) = dom (nodes s)" "dom (prevs s) = dom (nodes s)"
  "dom (datas s) = dom (nodes s)"
  by (auto simp: nexts_def prevs_def datas_def dom_def)

lemma fields_at [simp, heap_simps]:
  "nodes s p = Some n \<Longrightarrow> nexts s p = Some (n_next n)"
  "nodes s p = Some n \<Longrightarrow> prevs s p = Some (n_prev n)"
  "nodes s p = Some n \<Longrightarrow> datas s p = Some (n_data n)"
  by (simp_all add: nexts_def prevs_def datas_def)

lemma fields_set_node [simp, heap_simps]:
  "nexts (set_node s p n) = (nexts s)(p \<mapsto> n_next n)"
  "prevs (set_node s p n) = (prevs s)(p \<mapsto> n_prev n)"
  "datas (set_node s p n) = (datas s)(p \<mapsto> n_data n)"
  "lists (set_node s p n) = lists s"
  "nodes (set_node s p n) = (nodes s)(p \<mapsto> n)"
  by (auto simp: nexts_def prevs_def datas_def set_node_def)

lemma fields_set_list [simp, heap_simps]:
  "nexts (set_list s l r) = nexts s" "prevs (set_list s l r) = prevs s"
  "datas (set_list s l r) = datas s" "nodes (set_list s l r) = nodes s"
  "lists (set_list s l r) = (lists s)(l \<mapsto> r)"
  by (auto simp: nexts_def prevs_def datas_def set_list_def)

lemma get_node_ok [simp, heap_simps]:
  "p \<noteq> NULL \<Longrightarrow> nodes s p = Some n \<Longrightarrow> get_node s p = Inr n"
  by (simp add: get_node_def)

lemma get_list_ok [simp, heap_simps]:
  "l \<noteq> NULL \<Longrightarrow> lists s l = Some r \<Longrightarrow> get_list s l = Inr r"
  by (simp add: get_list_def)

lemma get_node_NULL [simp, heap_simps]: "get_node s NULL = Inl NullDeref"
  by (simp add: get_node_def)

lemma write_next_ok:
  assumes "p \<noteq> NULL" and "p \<in> dom (nodes s)"
  obtains s' where "write_next s p q = Inr s'" and "nexts s' = (nexts s)(p \<mapsto> q)"
    and "prevs s' = prevs s" and "datas s' = datas s" and "lists s' = lists s"
    and "\<And>a. a \<noteq> p \<Longrightarrow> nodes s' a = nodes s a" and "dom (nodes s') = dom (nodes s)"
proof -
  from assms(2) obtain n where n: "nodes s p = Some n" by auto
  with assms(1) show ?thesis
    by (intro that [of "set_node s p (n\<lparr>n_next := q\<rparr>)"])
       (auto simp: write_next_def prevs_def datas_def fun_upd_idem_iff)
qed

lemma write_prev_ok:
  assumes "p \<noteq> NULL" and "p \<in> dom (nodes s)"
  obtains s' where "write_prev s p q = Inr s'" and "prevs s' = (prevs s)(p \<mapsto> q)"
    and "nexts s' = nexts s" and "datas s' = datas s" and "lists s' = lists s"
    and "\<And>a. a \<noteq> p \<Longrightarrow> nodes s' a = nodes s a" and "dom (nodes s') = dom (nodes s)"
proof -
  from assms(2) obtain n where n: "nodes s p = Some n" by auto
  with assms(1) show ?thesis
    by (intro that [of "set_node s p (n\<lparr>n_prev := q\<rparr>)"])
       (auto simp: write_prev_def nexts_def datas_def fun_upd_idem_iff)
qed

lemma free_llist_node_ok:
  assumes "p \<noteq> NULL" and "p \<in> dom (nodes s)"
  obtains s' where "free_llist_node p s = Inr s'" and "nexts s' = (nexts s)(p := None)"
    and "prevs s' = (prevs s)(p := None)" and "datas s' = (datas s)(p := None)"
    and "lists s' = lists s" and "\<And>a. a \<noteq> p \<Longrightarrow> nodes s' a = nodes s a"
    and "nodes s' p = None"
  using assms
  by (intro that [of "s\<lparr>nodes := (nodes s)(p := None)\<rparr>"])
     (auto simp: free_llist_node_def nexts_def prevs_def datas_def)

subsection \<open>Facts about representations\<close>

lemma llist_repI:
  "l \<noteq> NULL \<Longrightarrow> lists s l = Some r \<Longrightarrow> nchain (nexts s) (l_head r) ps \<Longrightarrow>
   nchain (prevs s) (l_tail r) (rev ps) \<Longrightarrow> map (datas s) ps = map Some xs \<Longrightarrow>
   llist_rep s l ps xs"
  by (auto simp: llist_rep_def)

lemma llist_repE:
  assumes "llist_rep s l ps xs"
  obtains r where "l \<noteq> NULL" and "lists s l = Some r"
    and "nchain (nexts s) (l_head r) ps" and "nchain (prevs s) (l_tail r) (rev ps)"
    and "map (datas s) ps = map Some xs"
    and "set ps \<subseteq> dom (nodes s)" and "NULL \<notin> set ps" and "distinct ps"
    and "l_head r = (if ps = [] then NULL else hd ps)"
    and "l_tail r = (if ps = [] then NULL else last ps)"
proof -
  from assms obtain r where r: "l \<noteq> NULL" "lists s l = Some r"
    "nchain (nexts s) (l_head r) ps" "nchain (prevs s) (l_tail r) (rev ps)"
    "map (datas s) ps = map Some xs"
    by (auto simp: llist_rep_def)
  moreover from r(3) have "set ps \<subseteq> dom (nodes s)" by (metis chain_dom field_doms(1))
  moreover from r(3) have "NULL \<notin> set ps" by (rule chain_NULL_notin)
  moreover from r(3) have "distinct ps" by (rule nchain_distinct)
  moreover from r(3) have "l_head r = (if ps = [] then NULL else hd ps)" by (rule chain_hd)
  moreover from chain_hd [OF r(4)] have "l_tail r = (if ps = [] then NULL else last ps)"
    by (simp add: hd_rev)
  ultimately show ?thesis by (rule that)
qed

lemma llist_rep_length: "llist_rep s l ps xs \<Longrightarrow> length ps = length xs"
  by (auto simp: llist_rep_def dest: map_eq_imp_length_eq)

lemma llist_rep_unique:
  assumes "llist_rep s l ps xs" and "llist_rep s l qs ys"
  shows "ps = qs" and "xs = ys"
proof -
  from assms show "ps = qs" by (auto simp: llist_rep_def dest: nchain_unique)
  with assms show "xs = ys" by (auto simp: llist_rep_def)
qed

lemma llist_rep_frame:
  assumes rep: "llist_rep s k qs ys" and ch: "only_changes s s' A l"
    and "k \<noteq> l" and dis: "set qs \<inter> A = {}"
  shows "llist_rep s' k qs ys"
proof -
  have same: "nodes s' a = nodes s a" if "a \<in> set qs" for a
    using that dis ch by (auto simp: only_changes_def)
  then have "nchain (nexts s') p qs = nchain (nexts s) p qs"
    and "nchain (prevs s') p (rev qs) = nchain (prevs s) p (rev qs)"
    and "map (datas s') qs = map (datas s) qs" for p
    by (auto simp: nexts_def prevs_def datas_def intro!: chain_cong)
  moreover have "lists s' k = lists s k"
    using ch \<open>k \<noteq> l\<close> by (simp add: only_changes_def)
  ultimately show ?thesis using rep by (simp only: llist_rep_def) simp
qed

section \<open>The operations on represented lists\<close>

lemma create_llist_correct:
  assumes "p \<noteq> NULL"
  shows "\<exists>s'. create_llist p s = Inr (p, s') \<and> llist_rep s' p [] [] \<and> only_changes s s' {} p"
  using assms by (auto simp: create_llist_def llist_rep_def only_changes_def)

lemma llist_is_empty_correct:
  assumes "llist_rep s l ps xs"
  shows "llist_is_empty l s = Inr (xs = [])"
proof -
  from assms have "length ps = length xs" by (rule llist_rep_length)
  with assms show ?thesis
    by (elim llist_repE) (auto simp: llist_is_empty_def)
qed

lemma llist_insert_tail_correct:
  assumes rep: "llist_rep s l ps xs" and p: "p \<noteq> NULL" "nodes s p = None"
  shows "\<exists>s'. llist_insert_tail l x p s = Inr s' \<and> llist_rep s' l (ps @ [p]) (xs @ [x]) \<and>
     only_changes s s' (insert p (set ps)) l"
proof -
  from rep obtain r where r: "l \<noteq> NULL" "lists s l = Some r"
    "nchain (nexts s) (l_head r) ps" "nchain (prevs s) (l_tail r) (rev ps)"
    "map (datas s) ps = map Some xs" "set ps \<subseteq> dom (nodes s)" "NULL \<notin> set ps"
    "l_tail r = (if ps = [] then NULL else last ps)"
    by (elim llist_repE)
  define s1 where "s1 = set_node s p \<lparr>n_prev = NULL, n_next = NULL, n_data = x\<rparr>"
  have new: "create_llist_node x p s = Inr (p, s1)" and hdr: "get_list s1 l = Inr r"
    using p r by (simp_all add: create_llist_node_def s1_def)
  from p(2) r(6) have fresh: "p \<notin> set ps" by auto
  show ?thesis
  proof (cases ps rule: rev_cases)
    case Nil
    with r p new hdr show ?thesis
      by (auto simp: llist_insert_tail_def s1_def llist_rep_def only_changes_def)
  next
    case (snoc qs t)
    with r have t: "l_tail r = t" "t \<noteq> NULL" "t \<in> dom (nodes s1)" and "t \<noteq> p"
      using fresh by (auto simp: s1_def)
    obtain s2 where s2: "write_next s1 t p = Inr s2" "nexts s2 = (nexts s1)(t \<mapsto> p)"
      "prevs s2 = prevs s1" "datas s2 = datas s1" "lists s2 = lists s1"
      "\<And>a. a \<noteq> t \<Longrightarrow> nodes s2 a = nodes s1 a" "dom (nodes s2) = dom (nodes s1)"
      by (rule write_next_ok [OF t(2,3), where q = p]) blast
    have "p \<in> dom (nodes s2)" by (simp add: s2 s1_def)
    then obtain s3 where s3: "write_prev s2 p t = Inr s3" "prevs s3 = (prevs s2)(p \<mapsto> t)"
      "nexts s3 = nexts s2" "datas s3 = datas s2" "lists s3 = lists s2"
      "\<And>a. a \<noteq> p \<Longrightarrow> nodes s3 a = nodes s2 a"
      by (rule write_prev_ok [OF p(1), where q = t]) blast
    let ?s = "set_list s3 l (r\<lparr>l_tail := p\<rparr>)"
    have "llist_insert_tail l x p s = Inr ?s"
      using new hdr t s2(1) s3(1) by (simp add: llist_insert_tail_def)
    moreover have "nchain (nexts ?s) (l_head r) (qs @ [t, p])"
      using nchain_extend [of "nexts s" "l_head r" qs t p] r(3) snoc p(1) fresh
      by (simp add: s3 s2 s1_def)
    moreover have "nchain (prevs ?s) p (p # rev ps)"
      using r(4) t(1) fresh p(1) snoc by (auto simp: s3 s2 s1_def)
    ultimately show ?thesis
      using r(1,5) snoc fresh
      by (intro exI [of _ ?s])
         (auto simp: llist_rep_def only_changes_def s3 s2 s1_def map_fun_upd)
  qed
qed

text \<open>Addresses that are free stay free, but for the one of the new node.\<close>

lemma inserted_free:
  assumes "llist_rep s l ps xs" "only_changes s s' (insert p (set ps)) l" "nodes s q = None" "q \<noteq> p"
  shows "nodes s' q = None"
proof -
  have "set ps \<subseteq> dom (nodes s)" using assms(1) by (auto elim: llist_repE)
  then have "q \<notin> insert p (set ps)" using assms(3,4) by auto
  with assms(2,3) show ?thesis by (simp add: only_changes_def)
qed

lemma llist_insert_head_correct:
  assumes rep: "llist_rep s l ps xs" and p: "p \<noteq> NULL" "nodes s p = None"
  shows "\<exists>s'. llist_insert_head l x p s = Inr s' \<and> llist_rep s' l (p # ps) (x # xs) \<and>
     only_changes s s' (insert p (set ps)) l"
proof -
  from rep obtain r where r: "l \<noteq> NULL" "lists s l = Some r"
    "nchain (nexts s) (l_head r) ps" "nchain (prevs s) (l_tail r) (rev ps)"
    "map (datas s) ps = map Some xs" "set ps \<subseteq> dom (nodes s)" "NULL \<notin> set ps"
    "l_head r = (if ps = [] then NULL else hd ps)"
    by (elim llist_repE)
  define s1 where "s1 = set_node s p \<lparr>n_prev = NULL, n_next = NULL, n_data = x\<rparr>"
  have new: "create_llist_node x p s = Inr (p, s1)" and hdr: "get_list s1 l = Inr r"
    using p r by (simp_all add: create_llist_node_def s1_def)
  from p(2) r(6) have fresh: "p \<notin> set ps" by auto
  show ?thesis
  proof (cases ps)
    case Nil
    with r p new hdr show ?thesis
      by (auto simp: llist_insert_head_def s1_def llist_rep_def only_changes_def)
  next
    case (Cons t qs)
    with r have t: "l_head r = t" "t \<noteq> NULL" "t \<in> dom (nodes s1)" and "t \<noteq> p"
      using fresh by (auto simp: s1_def)
    obtain s2 where s2: "write_prev s1 t p = Inr s2" "prevs s2 = (prevs s1)(t \<mapsto> p)"
      "nexts s2 = nexts s1" "datas s2 = datas s1" "lists s2 = lists s1"
      "\<And>a. a \<noteq> t \<Longrightarrow> nodes s2 a = nodes s1 a" "dom (nodes s2) = dom (nodes s1)"
      by (rule write_prev_ok [OF t(2,3), where q = p]) blast
    have "p \<in> dom (nodes s2)" by (simp add: s2 s1_def)
    then obtain s3 where s3: "write_next s2 p t = Inr s3" "nexts s3 = (nexts s2)(p \<mapsto> t)"
      "prevs s3 = prevs s2" "datas s3 = datas s2" "lists s3 = lists s2"
      "\<And>a. a \<noteq> p \<Longrightarrow> nodes s3 a = nodes s2 a"
      by (rule write_next_ok [OF p(1), where q = t]) blast
    let ?s = "set_list s3 l (r\<lparr>l_head := p\<rparr>)"
    have "llist_insert_head l x p s = Inr ?s"
      using new hdr t s2(1) s3(1) by (simp add: llist_insert_head_def)
    moreover have "nchain (prevs ?s) (l_tail r) (rev qs @ [t, p])"
      using nchain_extend [of "prevs s" "l_tail r" "rev qs" t p] r(4) Cons p(1) fresh
      by (simp add: s3 s2 s1_def)
    moreover have "nchain (nexts ?s) p (p # ps)"
      using r(3) t(1) fresh p(1) Cons by (auto simp: s3 s2 s1_def)
    ultimately show ?thesis
      using r(1,5) Cons fresh
      by (intro exI [of _ ?s])
         (auto simp: llist_rep_def only_changes_def s3 s2 s1_def map_fun_upd)
  qed
qed

text \<open>On an empty list both removals dereference a null pointer.\<close>

lemma llist_remove_empty_faults:
  assumes "llist_rep s l [] []"
  shows "llist_remove_head l s = Inl NullDeref" and "llist_remove_tail l s = Inl NullDeref"
  using assms
  by (auto simp: llist_rep_def llist_remove_head_def llist_remove_tail_def)

lemma llist_remove_head_correct:
  assumes rep: "llist_rep s l (p # ps) (x # xs)"
  shows "\<exists>s'. llist_remove_head l s = Inr (x, s') \<and> llist_rep s' l ps xs \<and>
     only_changes s s' (insert p (set ps)) l \<and> nodes s' p = None"
proof -
  from rep obtain r where r: "l \<noteq> NULL" "lists s l = Some r"
    "nchain (nexts s) (l_head r) (p # ps)" "nchain (prevs s) (l_tail r) (rev (p # ps))"
    "map (datas s) (p # ps) = map Some (x # xs)" "set (p # ps) \<subseteq> dom (nodes s)"
    "NULL \<notin> set (p # ps)" "distinct (p # ps)"
    "l_tail r = (if p # ps = [] then NULL else last (p # ps))"
    by (rule llist_repE)
  from r obtain c where c: "nodes s p = Some c" "n_data c = x" "p \<noteq> NULL" "l_head r = p"
    by (auto simp: datas_def)
  show ?thesis
  proof (cases ps)
    case Nil
    let ?s1 = "set_list s l \<lparr>l_head = NULL, l_tail = NULL\<rparr>"
    have "p \<in> dom (nodes ?s1)" using c by auto
    then obtain s2 where "free_llist_node p ?s1 = Inr s2" "lists s2 = lists ?s1"
      "\<And>a. a \<noteq> p \<Longrightarrow> nodes s2 a = nodes ?s1 a" "nodes s2 p = None"
      by (rule free_llist_node_ok [OF c(3)]) blast
    with Nil r c show ?thesis
      by (auto simp: llist_remove_head_def llist_rep_def only_changes_def)
  next
    case (Cons q qs)
    let ?s0 = "set_list s l (r\<lparr>l_head := q\<rparr>)"
    from Cons r(3) c have nx: "n_next c = q" by (auto simp: nexts_def)
    from Cons r have q: "q \<noteq> NULL" "q \<in> dom (nodes ?s0)" "q \<noteq> p" by auto
    obtain s1 where s1: "write_prev ?s0 q NULL = Inr s1" "prevs s1 = (prevs s)(q \<mapsto> NULL)"
      "nexts s1 = nexts s" "datas s1 = datas s" "lists s1 = lists ?s0"
      "\<And>a. a \<noteq> q \<Longrightarrow> nodes s1 a = nodes s a" "dom (nodes s1) = dom (nodes s)"
      by (rule write_prev_ok [OF q(1,2), where q = NULL]) simp
    have "p \<in> dom (nodes s1)" using c s1 by auto
    then obtain s2 where s2: "free_llist_node p s1 = Inr s2"
      "nexts s2 = (nexts s1)(p := None)" "prevs s2 = (prevs s1)(p := None)"
      "datas s2 = (datas s1)(p := None)" "lists s2 = lists s1"
      "\<And>a. a \<noteq> p \<Longrightarrow> nodes s2 a = nodes s1 a" "nodes s2 p = None"
      by (rule free_llist_node_ok [OF c(3)]) blast
    have "p \<noteq> last (p # ps)" using r(8) Cons by auto
    then have "llist_remove_head l s = Inr (x, s2)"
      using r c nx s1(1) s2(1) by (simp add: llist_remove_head_def)
    moreover have "nchain (nexts s2) q ps"
      using r(3,8) c(1,4) nx by (auto simp: s1 s2 nexts_def)
    moreover have "nchain (prevs s2) (l_tail r) (rev ps)"
      using nchain_cut_last [of "prevs s" "l_tail r" "rev qs" q p] r(4,8) Cons
      by (simp add: s1 s2)
    ultimately show ?thesis
      using r(1,5,8) Cons
      by (intro exI [of _ s2]) (auto simp: llist_rep_def only_changes_def s1 s2)
  qed
qed

lemma llist_remove_tail_correct:
  assumes rep: "llist_rep s l (ps @ [p]) (xs @ [x])"
  shows "\<exists>s'. llist_remove_tail l s = Inr (x, s') \<and> llist_rep s' l ps xs \<and>
     only_changes s s' (insert p (set ps)) l \<and> nodes s' p = None"
proof -
  from rep obtain r where r: "l \<noteq> NULL" "lists s l = Some r"
    "nchain (nexts s) (l_head r) (ps @ [p])" "nchain (prevs s) (l_tail r) (rev (ps @ [p]))"
    "map (datas s) (ps @ [p]) = map Some (xs @ [x])" "set (ps @ [p]) \<subseteq> dom (nodes s)"
    "NULL \<notin> set (ps @ [p])" "distinct (ps @ [p])"
    "l_head r = (if ps @ [p] = [] then NULL else hd (ps @ [p]))"
    by (rule llist_repE)
  from r obtain c where c: "nodes s p = Some c" "n_data c = x" "p \<noteq> NULL" "l_tail r = p"
    by (auto simp: datas_def)
  show ?thesis
  proof (cases ps rule: rev_cases)
    case Nil
    let ?s1 = "set_list s l \<lparr>l_head = NULL, l_tail = NULL\<rparr>"
    have "p \<in> dom (nodes ?s1)" using c by auto
    then obtain s2 where "free_llist_node p ?s1 = Inr s2" "lists s2 = lists ?s1"
      "\<And>a. a \<noteq> p \<Longrightarrow> nodes s2 a = nodes ?s1 a" "nodes s2 p = None"
      by (rule free_llist_node_ok [OF c(3)]) blast
    with Nil r c show ?thesis
      by (auto simp: llist_remove_tail_def llist_rep_def only_changes_def)
  next
    case (snoc qs q)
    let ?s0 = "set_list s l (r\<lparr>l_tail := q\<rparr>)"
    from snoc r(4) c have pv: "n_prev c = q" by (auto simp: prevs_def)
    from snoc r have q: "q \<noteq> NULL" "q \<in> dom (nodes ?s0)" "q \<noteq> p" by auto
    obtain s1 where s1: "write_next ?s0 q NULL = Inr s1" "nexts s1 = (nexts s)(q \<mapsto> NULL)"
      "prevs s1 = prevs s" "datas s1 = datas s" "lists s1 = lists ?s0"
      "\<And>a. a \<noteq> q \<Longrightarrow> nodes s1 a = nodes s a" "dom (nodes s1) = dom (nodes s)"
      by (rule write_next_ok [OF q(1,2), where q = NULL]) simp
    have "p \<in> dom (nodes s1)" using c s1 by auto
    then obtain s2 where s2: "free_llist_node p s1 = Inr s2"
      "nexts s2 = (nexts s1)(p := None)" "prevs s2 = (prevs s1)(p := None)"
      "datas s2 = (datas s1)(p := None)" "lists s2 = lists s1"
      "\<And>a. a \<noteq> p \<Longrightarrow> nodes s2 a = nodes s1 a" "nodes s2 p = None"
      by (rule free_llist_node_ok [OF c(3)]) blast
    have "p \<noteq> hd (ps @ [p])" using r(8) snoc by (cases qs) auto
    then have "llist_remove_tail l s = Inr (x, s2)"
      using r c pv s1(1) s2(1) by (auto simp: llist_remove_tail_def)
    moreover have "nchain (prevs s2) q (rev ps)"
      using r(4,8) c(1,4) pv by (auto simp: s1 s2 prevs_def)
    moreover have "nchain (nexts s2) (l_head r) ps"
      using nchain_cut_last [of "nexts s" "l_head r" qs q p] r(3,8) snoc
      by (simp add: s1 s2)
    ultimately show ?thesis
      using r(1,5,8) snoc
      by (intro exI [of _ s2]) (auto simp: llist_rep_def only_changes_def s1 s2)
  qed
qed

text \<open>A cell that is neither the first nor the last is unlinked from both sides.\<close>

lemma llist_remove_inner_correct:
  assumes rep: "llist_rep s l (us @ a # n # b # vs) (xs @ x # ys)"
    and len: "length xs = Suc (length us)"
  shows "\<exists>s'. llist_remove_node l n s = Inr (x, s') \<and>
     llist_rep s' l (us @ a # b # vs) (xs @ ys) \<and>
     only_changes s s' (set (us @ a # n # b # vs)) l \<and> nodes s' n = None"
proof -
  let ?ps = "us @ a # n # b # vs"
  from rep obtain r where r: "l \<noteq> NULL" "lists s l = Some r"
    "nchain (nexts s) (l_head r) ?ps" "nchain (prevs s) (l_tail r) (rev ?ps)"
    "map (datas s) ?ps = map Some (xs @ x # ys)" "set ?ps \<subseteq> dom (nodes s)"
    "NULL \<notin> set ?ps" "distinct ?ps"
    "l_head r = (if ?ps = [] then NULL else hd ?ps)"
    "l_tail r = (if ?ps = [] then NULL else last ?ps)"
    by (rule llist_repE)
  have dat: "map (datas s) (us @ [a]) = map Some xs" "datas s n = Some x"
    "map (datas s) (b # vs) = map Some ys"
    using r(5) len append_eq_append_conv [of "map (datas s) (us @ [a])" "map Some xs"]
    by (auto simp: append_eq_append_conv)
  then obtain c where c: "nodes s n = Some c" "n_data c = x" by (auto simp: datas_def)
  have "nexts s n = Some b" using nchain_field [of "nexts s" "l_head r" "us @ [a]" n "b # vs"] r(3)
    by simp
  with c have nx: "n_next c = b" by (simp add: nexts_def)
  have "prevs s n = Some a"
    using nchain_field [of "prevs s" "l_tail r" "rev vs @ [b]" n "a # rev us"] r(4) by simp
  with c have pv: "n_prev c = a" by (simp add: prevs_def)
  from r have ab: "a \<noteq> NULL" "n \<noteq> NULL" "b \<noteq> NULL" "a \<in> dom (nodes s)" "b \<in> dom (nodes s)"
    "a \<noteq> n" "b \<noteq> n" "a \<noteq> b" by auto
  obtain s1 where s1: "write_next s a b = Inr s1" "nexts s1 = (nexts s)(a \<mapsto> b)"
    "prevs s1 = prevs s" "datas s1 = datas s" "lists s1 = lists s"
    "\<And>k. k \<noteq> a \<Longrightarrow> nodes s1 k = nodes s k" "dom (nodes s1) = dom (nodes s)"
    by (rule write_next_ok [OF ab(1,4), where q = b]) blast
  have "b \<in> dom (nodes s1)" using ab s1 by simp
  then obtain s2 where s2: "write_prev s1 b a = Inr s2" "prevs s2 = (prevs s1)(b \<mapsto> a)"
    "nexts s2 = nexts s1" "datas s2 = datas s1" "lists s2 = lists s1"
    "\<And>k. k \<noteq> b \<Longrightarrow> nodes s2 k = nodes s1 k" "dom (nodes s2) = dom (nodes s1)"
    by (rule write_prev_ok [OF ab(3), where q = a]) blast
  have "n \<in> dom (nodes s2)" using c s1 s2 by auto
  then obtain s3 where s3: "free_llist_node n s2 = Inr s3"
    "nexts s3 = (nexts s2)(n := None)" "prevs s3 = (prevs s2)(n := None)"
    "datas s3 = (datas s2)(n := None)" "lists s3 = lists s2"
    "\<And>k. k \<noteq> n \<Longrightarrow> nodes s3 k = nodes s2 k" "nodes s3 n = None"
    by (rule free_llist_node_ok [OF ab(2)]) blast
  have "n \<noteq> l_head r" "n \<noteq> l_tail r" using r(8,9,10) by (cases us; auto)+
  then have "llist_remove_node l n s = Inr (x, s3)"
    using r(1,2) c nx pv ab s1(1,6) s2(1) s3(1) by (simp add: llist_remove_node_def)
  moreover have "nchain (nexts s3) (l_head r) (us @ a # b # vs)"
    using nchain_unlink [OF r(3) \<open>nexts s n = Some b\<close>] r(8) by (simp add: s1 s2 s3)
  moreover have "nchain (prevs s3) (l_tail r) (rev vs @ b # a # rev us)"
    using nchain_unlink [of "prevs s" "l_tail r" "rev vs" b n "a # rev us" a] r(4,8)
      \<open>prevs s n = Some a\<close> by (simp add: s1 s2 s3)
  moreover have "map (datas s3) (us @ a # b # vs) = map Some (xs @ ys)"
    using dat r(8) by (simp add: s1 s2 s3 map_fun_upd)
  ultimately show ?thesis
    using r(1,2) by (intro exI [of _ s3]) (auto simp: llist_rep_def only_changes_def s1 s2 s3)
qed

lemma llist_remove_node_correct:
  assumes rep: "llist_rep s l (ps @ n # qs) (xs @ x # ys)" and len: "length ps = length xs"
  shows "\<exists>s'. llist_remove_node l n s = Inr (x, s') \<and> llist_rep s' l (ps @ qs) (xs @ ys) \<and>
     only_changes s s' (set (ps @ n # qs)) l \<and> nodes s' n = None"
proof (cases ps)
  case Nil
  with len rep have *: "llist_rep s l (n # qs) (x # ys)" "xs = []" by simp_all
  then have "llist_remove_node l n s = llist_remove_head l s"
    by (auto simp: llist_remove_node_def elim!: llist_repE)
  with llist_remove_head_correct [OF *(1)] Nil \<open>xs = []\<close> show ?thesis by simp
next
  case (Cons p ps')
  show ?thesis
  proof (cases qs)
    case Nil
    with rep have "length (ps @ [n]) = length (xs @ x # ys)" using llist_rep_length by blast
    with len have "ys = []" by simp
    with Nil rep have *: "llist_rep s l (ps @ [n]) (xs @ [x])" by simp
    then have "llist_remove_node l n s = llist_remove_tail l s"
      using Cons by (auto simp: llist_remove_node_def elim!: llist_repE)
    with llist_remove_tail_correct [OF *] Nil \<open>ys = []\<close> show ?thesis by simp
  next
    case (Cons b vs)
    from \<open>ps = p # ps'\<close> obtain us a where ps: "ps = us @ [a]"
      by (metis append_butlast_last_id list.distinct(1))
    with rep Cons have "llist_rep s l (us @ a # n # b # vs) (xs @ x # ys)" by simp
    moreover from len ps have "length xs = Suc (length us)" by simp
    ultimately show ?thesis
      using llist_remove_inner_correct [of s l us a n b vs xs x ys] Cons ps by simp
  qed
qed

subsection \<open>Traversals\<close>

lemma remove_value_loop_correct:
  assumes "llist_rep s l (ps @ qs) (xs @ ys)" and "length ps = length xs" and "v \<notin> set xs"
    and "cursor = (if qs = [] then NULL else hd qs)"
  shows "\<exists>s'. remove_value_loop l v cursor s
       = Some (Inr (if v \<in> set ys then Some v else None, s')) \<and>
     (\<exists>rs. llist_rep s' l rs (remove1 v (xs @ ys)) \<and> set rs \<subseteq> set (ps @ qs)) \<and>
     only_changes s s' (set (ps @ qs)) l"
  using assms
proof (induction qs arbitrary: ps xs ys cursor)
  case Nil
  from Nil.prems(1) have "length (ps @ []) = length (xs @ ys)" by (rule llist_rep_length)
  with Nil.prems show ?case
    by (auto simp: remove_value_loop.simps [of l v NULL] remove1_idem only_changes_def)
next
  case (Cons q qs)
  from Cons.prems(1) have "length (ps @ q # qs) = length (xs @ ys)" by (rule llist_rep_length)
  with Cons.prems(2) obtain y ys' where ys: "ys = y # ys'" by (cases ys) auto
  from Cons.prems(1) obtain r where r: "nchain (nexts s) (l_head r) (ps @ q # qs)"
    "map (datas s) (ps @ q # qs) = map Some (xs @ ys)" "NULL \<notin> set (ps @ q # qs)" "lists s l = Some r"
    by (rule llist_repE) blast
  from r(2) Cons.prems(2) ys have "datas s q = Some y"
    by (simp add: append_eq_append_conv)
  then obtain c where c: "nodes s q = Some c" "n_data c = y" by (auto simp: datas_def)
  from nchain_field [OF r(1)] c have nx: "n_next c = (if qs = [] then NULL else hd qs)"
    by (simp add: nexts_def)
  have step: "remove_value_loop l v cursor s =
      (if y = v then Some (bind_res (llist_remove_node l q s) (\<lambda>(d, s'). Inr (Some d, s')))
       else remove_value_loop l v (n_next c) s)"
    using Cons.prems(4) r(3) c(1,2) by (subst remove_value_loop.simps) simp
  show ?case
  proof (cases "y = v")
    case True
    from llist_remove_node_correct [of s l ps q qs xs y ys'] Cons.prems(1,2) ys obtain s' where
      "llist_remove_node l q s = Inr (y, s')" "llist_rep s' l (ps @ qs) (xs @ ys')"
      "only_changes s s' (set (ps @ q # qs)) l" by auto
    with step True ys Cons.prems(3) show ?thesis
      by (intro exI [of _ s']) (auto simp: remove1_split intro!: exI [of _ "ps @ qs"])
  next
    case False
    have "llist_rep s l ((ps @ [q]) @ qs) ((xs @ [y]) @ ys')" using Cons.prems(1) ys by simp
    from Cons.IH [OF this _ _ nx] step False ys Cons.prems(2,3) show ?thesis by auto
  qed
qed

lemma llist_remove_value_correct:
  assumes rep: "llist_rep s l ps xs"
  shows "\<exists>s' rs. llist_remove_value l v s = Some (Inr (if v \<in> set xs then Some v else None, s')) \<and>
     llist_rep s' l rs (remove1 v xs) \<and> set rs \<subseteq> set ps \<and> only_changes s s' (set ps) l"
proof -
  from rep obtain r where r: "get_list s l = Inr r" "l_head r = (if ps = [] then NULL else hd ps)"
    by (elim llist_repE) simp
  from remove_value_loop_correct [of s l "[]" ps "[]" xs v "l_head r"] rep r
  show ?thesis by (auto simp: llist_remove_value_def)
qed

lemma for_each_loop_correct:
  "nchain (nexts s) p ps \<Longrightarrow> map (datas s) ps = map Some xs \<Longrightarrow>
   for_each_loop fn p s arg = Some (Inr (fold fn xs arg))"
proof (induction ps arbitrary: p xs arg)
  case Nil
  then show ?case by (simp add: for_each_loop.simps [of fn NULL])
next
  case (Cons a ps)
  then obtain x xs' c where "xs = x # xs'" "nodes s a = Some c" "n_data c = x"
    by (cases xs) (auto simp: datas_def)
  moreover from this Cons.prems have "nchain (nexts s) (n_next c) ps" "p = a" "a \<noteq> NULL"
    "map (datas s) ps = map Some xs'" by auto
  ultimately show ?case
    using Cons.IH [of "n_next c" xs' "fn x arg"] by (subst for_each_loop.simps) simp
qed

lemma llist_for_each_correct:
  assumes "llist_rep s l ps xs"
  shows "llist_for_each l fn s arg = Some (Inr (fold fn xs arg))"
  using assms
  by (elim llist_repE) (simp add: llist_for_each_def for_each_loop_correct)

lemma free_loop_correct:
  "nchain (nexts s) p ps \<Longrightarrow> map (datas s) ps = map Some xs \<Longrightarrow>
   \<exists>s'. free_loop f p s e = Some (Inr (s', fold f xs e)) \<and>
     (\<forall>a. nodes s' a = (if a \<in> set ps then None else nodes s a)) \<and> lists s' = lists s"
proof (induction ps arbitrary: p xs s e)
  case Nil
  then show ?case by (simp add: free_loop.simps [of f NULL])
next
  case (Cons a ps)
  then obtain x xs' c where x: "xs = x # xs'" "nodes s a = Some c" "n_data c = x"
    by (cases xs) (auto simp: datas_def)
  with Cons.prems have c: "nchain (nexts s) (n_next c) ps" "p = a" "a \<noteq> NULL"
    "map (datas s) ps = map Some xs'" by auto
  from Cons.prems(1) have "a \<notin> set ps" by (meson distinct.simps(2) nchain_distinct)
  have "a \<in> dom (nodes s)" using x by auto
  with c(3) obtain s1 where s1: "free_llist_node a s = Inr s1"
    "nexts s1 = (nexts s)(a := None)" "datas s1 = (datas s)(a := None)" "lists s1 = lists s"
    "\<And>k. k \<noteq> a \<Longrightarrow> nodes s1 k = nodes s k" "nodes s1 a = None"
    by (rule free_llist_node_ok) blast
  have "\<exists>s'. free_loop f (n_next c) s1 (f x e) = Some (Inr (s', fold f xs' (f x e))) \<and>
     (\<forall>k. nodes s' k = (if k \<in> set ps then None else nodes s1 k)) \<and> lists s' = lists s1"
  proof (rule Cons.IH)
    show "nchain (nexts s1) (n_next c) ps"
      unfolding s1(2) using c(1) \<open>a \<notin> set ps\<close> by simp
    show "map (datas s1) ps = map Some xs'"
      unfolding s1(3) using c(4) \<open>a \<notin> set ps\<close> by (simp add: map_fun_upd del: map_eq_conv)
  qed
  then obtain s' where "free_loop f (n_next c) s1 (f x e) = Some (Inr (s', fold f xs' (f x e)))"
    "\<forall>k. nodes s' k = (if k \<in> set ps then None else nodes s1 k)" "lists s' = lists s1"
    by blast
  with x c s1 \<open>a \<notin> set ps\<close> show ?case
    by (subst free_loop.simps) (auto simp: x)
qed

lemma free_llist_nodes_correct:
  assumes rep: "llist_rep s l ps xs"
  shows "\<exists>s'. free_llist_nodes l f s e = Some (Inr (s', fold f xs e)) \<and>
     nodes s' = nodes s |` (- set ps) \<and> lists s' = (lists s)(l := None)"
proof -
  from rep obtain r where r: "l \<noteq> NULL" "lists s l = Some r" "nchain (nexts s) (l_head r) ps"
    "map (datas s) ps = map Some xs"
    by (elim llist_repE)
  from free_loop_correct [OF r(3,4), of f e] obtain s1 where
    s1: "free_loop f (l_head r) s e = Some (Inr (s1, fold f xs e))"
    "\<forall>a. nodes s1 a = (if a \<in> set ps then None else nodes s a)" "lists s1 = lists s" by blast
  then have "nodes s1 = nodes s |` (- set ps)" by (auto simp: restrict_map_def)
  with r s1 show ?thesis by (simp add: free_llist_nodes_def free_list_header_def)
qed

lemma free_llist_correct:
  assumes rep: "llist_rep s l ps xs"
  shows "\<exists>s'. free_llist l s = Some (Inr s') \<and>
     nodes s' = nodes s |` (- set ps) \<and> lists s' = (lists s)(l := None)"
proof -
  from rep obtain r where r: "l \<noteq> NULL" "lists s l = Some r" "nchain (nexts s) (l_head r) ps"
    "map (datas s) ps = map Some xs"
    by (elim llist_repE)
  from free_loop_correct [OF r(3,4), of "\<lambda>_ u. u" "()"] obtain s1 where
    s1: "free_loop (\<lambda>_ u. u) (l_head r) s () = Some (Inr (s1, ()))"
    "\<forall>a. nodes s1 a = (if a \<in> set ps then None else nodes s a)" "lists s1 = lists s" by auto
  then have "nodes s1 = nodes s |` (- set ps)" by (auto simp: restrict_map_def)
  with r s1 show ?thesis by (simp add: free_llist_def free_list_header_def)
qed

section \<open>Properties\<close>

text \<open>A store with two lists, for the witnesses: \<open>[10, 20]\<close> and \<open>[30]\<close>.\<close>

definition two_lists :: "nat lstore" where
  "two_lists = \<lparr>nodes = [1 \<mapsto> \<lparr>n_prev = 0, n_next = 2, n_data = 10\<rparr>,
       2 \<mapsto> \<lparr>n_prev = 1, n_next = 0, n_data = 20\<rparr>, 3 \<mapsto> \<lparr>n_prev = 0, n_next = 0, n_data = 30\<rparr>],
     lists = [100 \<mapsto> \<lparr>l_head = 1, l_tail = 2\<rparr>, 200 \<mapsto> \<lparr>l_head = 3, l_tail = 3\<rparr>]\<rparr>"

lemma two_lists_rep:
  "llist_rep two_lists 100 [1, 2] [10, 20]" "llist_rep two_lists 200 [3] [30]"
  "nodes two_lists 7 = None"
  by (auto simp: llist_rep_def two_lists_def nexts_def prevs_def datas_def)

text \<open>Inserting at the tail appends the value in the new cell to the list the header
  represents, leaves every existing cell where it was, and leaves every other list of the
  store represented exactly as before.\<close>

theorem insert_tail_appends:
  assumes "llist_rep s l ps xs" and "p \<noteq> NULL" and "nodes s p = None"
    and "llist_rep s k qs ys" and "k \<noteq> l" and "set qs \<inter> set ps = {}"
  shows "\<exists>s'. llist_insert_tail l x p s = Inr s' \<and> llist_rep s' l (ps @ [p]) (xs @ [x]) \<and>
     llist_rep s' k qs ys"
proof -
  have "p \<notin> set qs" using assms(3,4) by (auto elim!: llist_repE)
  with assms(6) have "set qs \<inter> insert p (set ps) = {}" by simp
  with llist_insert_tail_correct [OF assms(1-3), of x] assms(4,5) show ?thesis
    by (blast intro: llist_rep_frame)
qed

theorem insert_tail_appends_witness:
  "\<exists>s'. llist_insert_tail 100 (5::nat) 7 two_lists = Inr s' \<and>
     llist_rep s' 100 [1, 2, 7] [10, 20, 5] \<and> llist_rep s' 200 [3] [30]"
  using insert_tail_appends [OF two_lists_rep(1) _ two_lists_rep(3,2), of 5] by simp

text \<open>Inserting at the head puts the value in front of the list the header represents
  and leaves every other list of the store as it was.\<close>

theorem insert_head_prepends:
  assumes "llist_rep s l ps xs" and "p \<noteq> NULL" and "nodes s p = None"
    and "llist_rep s k qs ys" and "k \<noteq> l" and "set qs \<inter> set ps = {}"
  shows "\<exists>s'. llist_insert_head l x p s = Inr s' \<and> llist_rep s' l (p # ps) (x # xs) \<and>
     llist_rep s' k qs ys"
proof -
  have "p \<notin> set qs" using assms(3,4) by (auto elim!: llist_repE)
  with assms(6) have "set qs \<inter> insert p (set ps) = {}" by simp
  with llist_insert_head_correct [OF assms(1-3), of x] assms(4,5) show ?thesis
    by (blast intro: llist_rep_frame)
qed

theorem insert_head_prepends_witness:
  "\<exists>s'. llist_insert_head 100 (5::nat) 7 two_lists = Inr s' \<and>
     llist_rep s' 100 [7, 1, 2] [5, 10, 20] \<and> llist_rep s' 200 [3] [30]"
  using insert_head_prepends [OF two_lists_rep(1) _ two_lists_rep(3,2), of 5] by simp

text \<open>C33: Removing a value returns, removes the first cell that holds it and returns the
  value, or returns a null pointer and changes no list when no cell holds it; the other
  lists of the store stay as they were.\<close>

theorem remove_value_removes_first:
  assumes "llist_rep s l ps xs" and "llist_rep s k qs ys" and "k \<noteq> l" and "set qs \<inter> set ps = {}"
  shows "\<exists>s' rs. llist_remove_value l v s = Some (Inr (if v \<in> set xs then Some v else None, s')) \<and>
     llist_rep s' l rs (remove1 v xs) \<and> llist_rep s' k qs ys"
  using llist_remove_value_correct [OF assms(1), of v] assms(2-4)
  by (blast intro: llist_rep_frame)

theorem remove_value_removes_first_witness:
  "\<exists>s' rs. llist_remove_value 100 20 two_lists = Some (Inr (Some 20, s')) \<and>
     llist_rep s' 100 rs [10] \<and> llist_rep s' 200 [3] [30]"
  using remove_value_removes_first [OF two_lists_rep(1,2), of 20] by simp

text \<open>Removing a given node takes exactly that cell out of the list, wherever it stands,
  returns its datum, frees the cell, and leaves the other lists as they were.\<close>

theorem remove_node_unlinks:
  assumes "llist_rep s l (ps @ n # rs) (xs @ x # ys)" and "length ps = length xs"
    and "llist_rep s k qs zs" and "k \<noteq> l" and "set qs \<inter> set (ps @ n # rs) = {}"
  shows "\<exists>s'. llist_remove_node l n s = Inr (x, s') \<and> llist_rep s' l (ps @ rs) (xs @ ys) \<and>
     nodes s' n = None \<and> llist_rep s' k qs zs"
  using llist_remove_node_correct [OF assms(1,2)] assms(3-5) by (blast intro: llist_rep_frame)

theorem remove_node_unlinks_witness:
  "\<exists>s'. llist_remove_node 100 2 two_lists = Inr (20, s') \<and> llist_rep s' 100 [1] [10] \<and>
     nodes s' 2 = None \<and> llist_rep s' 200 [3] [30]"
  using remove_node_unlinks [of two_lists 100 "[1]" 2 "[]" "[10]" 20 "[]" 200 "[3]" "[30]"]
    two_lists_rep by simp

text \<open>\<open>llist_remove_head\<close> and \<open>llist_remove_tail\<close> take the first and the last value
  of a nonempty list and free its cell; on an empty list, which they do not test for,
  both dereference a null pointer.\<close>

theorem remove_ends:
  assumes "llist_rep s l ps xs"
  shows "case xs of
      [] \<Rightarrow> llist_remove_head l s = Inl NullDeref \<and> llist_remove_tail l s = Inl NullDeref
    | _ \<Rightarrow> (\<exists>s'. llist_remove_head l s = Inr (hd xs, s') \<and> llist_rep s' l (tl ps) (tl xs) \<and>
          nodes s' (hd ps) = None) \<and>
        (\<exists>s'. llist_remove_tail l s = Inr (last xs, s') \<and> llist_rep s' l (butlast ps) (butlast xs) \<and>
          nodes s' (last ps) = None)"
proof (cases xs)
  case Nil
  with llist_rep_length [OF assms] assms show ?thesis
    by (simp add: llist_remove_empty_faults)
next
  case (Cons x ys)
  with llist_rep_length [OF assms] have ne: "ps \<noteq> []" "xs \<noteq> []" by auto
  from ne have ps: "ps = hd ps # tl ps" "ps = butlast ps @ [last ps]"
    and xs: "xs = hd xs # tl xs" "xs = butlast xs @ [last xs]" by simp_all
  from assms ps xs have "llist_rep s l (hd ps # tl ps) (hd xs # tl xs)"
    and "llist_rep s l (butlast ps @ [last ps]) (butlast xs @ [last xs])" by simp_all
  from llist_remove_head_correct [OF this(1)] llist_remove_tail_correct [OF this(2)]
  show ?thesis using Cons by auto
qed

theorem remove_ends_witness:
  "(\<exists>s'. llist_remove_head 100 two_lists = Inr (10, s') \<and> llist_rep s' 100 [2] [20] \<and>
     nodes s' 1 = None) \<and>
   (\<exists>s'. llist_remove_tail 100 two_lists = Inr (20, s') \<and> llist_rep s' 100 [1] [10] \<and>
     nodes s' 2 = None)"
  using remove_ends [OF two_lists_rep(1)] by simp

text \<open>\<open>free_llist_nodes\<close> returns, calls the callback once on every value in list order,
  frees exactly the cells of the list and its header (none twice, none left), and
  \<open>llist_for_each\<close> on the same list visits the same values in the same order.\<close>

theorem free_nodes_exact:
  assumes "llist_rep s l ps xs"
  shows "\<exists>s'. free_llist_nodes l f s e = Some (Inr (s', fold f xs e)) \<and>
     nodes s' = nodes s |` (- set ps) \<and> lists s' = (lists s)(l := None) \<and>
     llist_for_each l f s e = Some (Inr (fold f xs e))"
  using free_llist_nodes_correct [OF assms, of f e] llist_for_each_correct [OF assms, of f e]
  by blast

theorem free_nodes_exact_witness:
  "\<exists>s'. free_llist_nodes 100 (\<lambda>x acc. acc @ [x]) two_lists [] = Some (Inr (s', [10, 20])) \<and>
     nodes s' = nodes two_lists |` (- {1, 2}) \<and> lists s' = (lists two_lists)(100 := None) \<and>
     llist_for_each 100 (\<lambda>x acc. acc @ [x]) two_lists [] = Some (Inr [10, 20])"
  using free_nodes_exact [OF two_lists_rep(1), of "\<lambda>x acc. acc @ [x]" "[]"] by simp

end
