(* ===== verification/Message.thy ===== *)
theory Message
  imports Prelude
begin

text \<open>
  The messages of \<^verbatim>\<open>message.h\<close> and \<^verbatim>\<open>message.c\<close> and their wire format. A buffer is a list
  of bytes; reads and writes go through \<open>read_at\<close> and \<open>write_at\<close>, which fault outside
  it. The host is little endian (as on the x86 machines the code targets), so
  \<open>htons\<close> and \<open>htonl\<close> reverse the bytes of a value and a store puts the low byte first.
  Memory that \<open>malloc\<close> returns holds the bytes of the parameter \<open>junk\<close>.
\<close>

unbundle bit_operations_syntax

section \<open>Constants and the message structure\<close>

definition MESG_DATA :: u16 where "MESG_DATA = 0"
definition MESG_CONN :: u16 where "MESG_CONN = 1"
definition MESG_DCON :: u16 where "MESG_DCON = 2"

definition MESG_HEADER_LEN :: nat where "MESG_HEADER_LEN = 8"
definition MESG_MAX_LEN :: u32 where "MESG_MAX_LEN = 2040"

lemmas mesg_kinds = MESG_DATA_def MESG_CONN_def MESG_DCON_def

record message =
  msg_id :: u16
  msg_kind :: u16
  msg_length :: u32
  msg_payload :: "byte list option"

section \<open>Buffers\<close>

definition read_at :: "byte list \<Rightarrow> nat \<Rightarrow> nat \<Rightarrow> byte list res" where
  "read_at buf off n =
     (if off + n \<le> length buf then Inr (take n (drop off buf)) else Inl OutOfBounds)"

definition write_at :: "byte list \<Rightarrow> nat \<Rightarrow> byte list \<Rightarrow> byte list res" where
  "write_at buf off bs =
     (if off + length bs \<le> length buf
      then Inr (take off buf @ bs @ drop (off + length bs) buf) else Inl OutOfBounds)"

text \<open>The byte order of the host and of the network.\<close>

definition htons :: "u16 \<Rightarrow> u16" where
  "htons x = push_bit 8 x OR drop_bit 8 x"

definition htonl :: "u32 \<Rightarrow> u32" where
  "htonl x = push_bit 24 x OR push_bit 16 (take_bit 8 (drop_bit 8 x))
     OR push_bit 8 (take_bit 8 (drop_bit 16 x)) OR drop_bit 24 x"

definition store16 :: "u16 \<Rightarrow> byte list" where
  "store16 x = [ucast x, ucast (drop_bit 8 x)]"

definition store32 :: "u32 \<Rightarrow> byte list" where
  "store32 x = [ucast x, ucast (drop_bit 8 x), ucast (drop_bit 16 x), ucast (drop_bit 24 x)]"

fun load16 :: "byte list \<Rightarrow> u16" where
  "load16 [a, b] = ucast a OR push_bit 8 (ucast b)"
| "load16 _ = 0"

fun load32 :: "byte list \<Rightarrow> u32" where
  "load32 [a, b, c, d] = ucast a OR push_bit 8 (ucast b) OR push_bit 16 (ucast c)
     OR push_bit 24 (ucast d)"
| "load32 _ = 0"

section \<open>Creation\<close>

text \<open>
  \<open>payload\<close> is the caller's array from the pointer on. The copy reads
  \<open>length\<close> bytes of it, and the terminator goes to index \<open>length - 1\<close>, computed in
  32 bits: for length 0 it is far outside the buffer.
\<close>

definition create_message :: "u32 \<Rightarrow> u16 \<Rightarrow> u16 \<Rightarrow> byte list \<Rightarrow> message res" where
  "create_message len i k payload =
     (let l = (if len > MESG_MAX_LEN then MESG_MAX_LEN else len) in
      bind_res (read_at payload 0 (unat l)) (\<lambda>bs.
      bind_res (write_at bs (unat (l - 1)) [0]) (\<lambda>bs'.
      Inr \<lparr>msg_id = i, msg_kind = k, msg_length = l, msg_payload = Some bs'\<rparr>)))"

definition create_message_header :: "u32 \<Rightarrow> u16 \<Rightarrow> u16 \<Rightarrow> message" where
  "create_message_header len i k =
     \<lparr>msg_id = i, msg_kind = k, msg_length = len, msg_payload = None\<rparr>"

text \<open>\<open>free_message\<close> reads the message it is given, so a null pointer faults.\<close>

definition free_message :: "message option \<Rightarrow> unit res" where
  "free_message m = (case m of None \<Rightarrow> Inl NullDeref | Some _ \<Rightarrow> Inr ())"

section \<open>Marshalling\<close>

text \<open>
  \<open>size\<close> is an \<open>int\<close>, so it is the 32-bit sum read as a signed number. A negative size
  is a huge \<open>size_t\<close>, for which \<open>calloc\<close> returns null and the first store faults.
\<close>

definition calloc_bytes :: "int \<Rightarrow> byte list res" where
  "calloc_bytes sz = (if sz < 0 then Inl NullDeref else Inr (replicate (nat sz) 0))"

definition marshal_size :: "message \<Rightarrow> int" where
  "marshal_size m = sint (8 + msg_length m)"

definition message_marshal :: "message option \<Rightarrow> (byte list option \<times> int) res" where
  "message_marshal mp =
     (case mp of None \<Rightarrow> Inr (None, 0)
      | Some m \<Rightarrow>
          let sz = marshal_size m in
          bind_res (calloc_bytes sz) (\<lambda>b0.
          bind_res (write_at b0 0 (store16 (htons (msg_id m)))) (\<lambda>b1.
          bind_res (write_at b1 2 (store16 (htons (msg_kind m)))) (\<lambda>b2.
          bind_res (write_at b2 4 (store32 (htonl (msg_length m)))) (\<lambda>b3.
          bind_res
            (case msg_payload m of None \<Rightarrow> Inr b3
             | Some p \<Rightarrow>
                 bind_res (read_at p 0 (unat (msg_length m))) (\<lambda>bs. write_at b3 8 bs)) (\<lambda>b4.
          Inr (Some b4, sz)))))))"

definition message_unmarshal_header :: "byte list \<Rightarrow> message res" where
  "message_unmarshal_header buf =
     bind_res (read_at buf 0 2) (\<lambda>i.
     bind_res (read_at buf 2 2) (\<lambda>k.
     bind_res (read_at buf 4 4) (\<lambda>l.
     Inr \<lparr>msg_id = htons (load16 i), msg_kind = htons (load16 k),
          msg_length = htonl (load32 l), msg_payload = None\<rparr>)))"

definition message_unmarshal :: "byte list \<Rightarrow> message res" where
  "message_unmarshal buf =
     bind_res (read_at buf 0 2) (\<lambda>i.
     bind_res (read_at buf 2 2) (\<lambda>k.
     bind_res (read_at buf 4 4) (\<lambda>l.
     let len = htonl (load32 l) in
     bind_res (read_at buf 8 (unat len)) (\<lambda>p.
     Inr \<lparr>msg_id = htons (load16 i), msg_kind = htons (load16 k),
          msg_length = len, msg_payload = Some p\<rparr>))))"

section \<open>Byte order\<close>

lemma length_store [simp]: "length (store16 x) = 2" "length (store32 y) = 4"
  by (simp_all add: store16_def store32_def)

lemma store16_htons: "store16 (htons x) = [ucast (drop_bit 8 x), ucast x]"
  by (auto simp: store16_def htons_def bit_eq_iff bit_simps)

lemma store32_htonl:
  "store32 (htonl x) =
     [ucast (drop_bit 24 x), ucast (drop_bit 16 x), ucast (drop_bit 8 x), ucast x]"
  by (auto simp: store32_def htonl_def bit_eq_iff bit_simps)

lemma load16_store16: "load16 (store16 x) = x"
  by (auto simp: store16_def bit_eq_iff bit_simps)

lemma load32_store32: "load32 (store32 x) = x"
proof (rule bit_word_eqI)
  fix n :: nat
  assume "n < LENGTH(32)"
  then show "bit (load32 (store32 x)) n \<longleftrightarrow> bit x n"
    by (cases "n < 8"; cases "n < 16"; cases "n < 24") (auto simp: store32_def bit_simps)
qed

lemma htons_htons: "htons (htons x) = x"
  by (auto simp: htons_def bit_eq_iff bit_simps)

lemma store32_htonl_rev: "store32 (htonl x) = rev (store32 x)"
  by (simp only: store32_htonl) (simp add: store32_def)

lemma htonl_htonl: "htonl (htonl x) = x"
  by (metis load32_store32 rev_rev_ident store32_htonl_rev)

section \<open>Reads and writes of buffers\<close>

lemma write_at_append:
  "off = length xs \<Longrightarrow> length bs \<le> length ys \<Longrightarrow>
   write_at (xs @ ys) off bs = Inr (xs @ bs @ drop (length bs) ys)"
  by (simp add: write_at_def)

lemma read_at_append:
  "off = length xs \<Longrightarrow> length bs = n \<Longrightarrow> read_at (xs @ bs @ ys) off n = Inr bs"
  by (auto simp: read_at_def)

lemma read_at_take: "n \<le> length p \<Longrightarrow> read_at p 0 n = Inr (take n p)"
  by (simp add: read_at_def)

lemma write_at_last:
  "0 < length bs \<Longrightarrow> write_at bs (length bs - 1) [b] = Inr (butlast bs @ [b])"
  by (simp add: write_at_def butlast_conv_take)

section \<open>The wire format\<close>

definition header_bytes :: "message \<Rightarrow> byte list" where
  "header_bytes m = store16 (htons (msg_id m)) @ store16 (htons (msg_kind m))
     @ store32 (htonl (msg_length m))"

text \<open>What follows the header: the payload, or as many zeros for a message without one.\<close>

definition body_bytes :: "message \<Rightarrow> byte list" where
  "body_bytes m = (case msg_payload m of None \<Rightarrow> replicate (unat (msg_length m)) 0
     | Some p \<Rightarrow> take (unat (msg_length m)) p)"

definition wire_bytes :: "message \<Rightarrow> byte list" where
  "wire_bytes m = header_bytes m @ body_bytes m"

text \<open>
  A message that can be marshalled: its payload, if it has one, holds at least
  \<open>length\<close> bytes, and its size is an \<open>int\<close>.
\<close>

definition sendable :: "message \<Rightarrow> bool" where
  "sendable m \<longleftrightarrow> unat (msg_length m) < 2 ^ 31 - 8 \<and>
     (case msg_payload m of None \<Rightarrow> True | Some p \<Rightarrow> unat (msg_length m) \<le> length p)"

lemma length_header_bytes [simp]: "length (header_bytes m) = 8"
  by (simp add: header_bytes_def)

lemma length_body_bytes: "sendable m \<Longrightarrow> length (body_bytes m) = unat (msg_length m)"
  by (auto simp: sendable_def body_bytes_def split: option.splits)

lemma length_wire_bytes: "sendable m \<Longrightarrow> length (wire_bytes m) = 8 + unat (msg_length m)"
  by (simp add: wire_bytes_def length_body_bytes)

lemma unat_size: "unat (8 + msg_length m) = (8 + unat (msg_length m)) mod 2 ^ 32"
  by (simp add: unat_word_ariths)

lemma marshal_size_sendable:
  assumes "unat (msg_length m) < 2 ^ 31 - 8"
  shows "marshal_size m = int (8 + unat (msg_length m))"
proof -
  from assms have "unat (8 + msg_length m) = 8 + unat (msg_length m)" by (simp add: unat_size)
  with assms show ?thesis
    unfolding marshal_size_def by (subst sint_small_unat) simp_all
qed

lemma message_marshal_sendable:
  assumes "sendable m"
  shows "message_marshal (Some m) = Inr (Some (wire_bytes m), int (length (wire_bytes m)))"
proof -
  let ?n = "unat (msg_length m)"
  let ?i = "store16 (htons (msg_id m))" and ?k = "store16 (htons (msg_kind m))"
    and ?l = "store32 (htonl (msg_length m))"
  have size: "marshal_size m = int (8 + ?n)"
    using assms by (intro marshal_size_sendable) (simp add: sendable_def)
  have w0: "write_at (replicate (8 + ?n) 0) 0 ?i = Inr (?i @ replicate (6 + ?n) 0)"
    using write_at_append [of 0 "[]" ?i "replicate (8 + ?n) 0"] by simp
  have w1: "write_at (?i @ replicate (6 + ?n) 0) 2 ?k = Inr (?i @ ?k @ replicate (4 + ?n) 0)"
    using write_at_append [of 2 ?i ?k "replicate (6 + ?n) 0"] by simp
  have w2: "write_at (?i @ ?k @ replicate (4 + ?n) 0) 4 ?l = Inr (header_bytes m @ replicate ?n 0)"
    using write_at_append [of 4 "?i @ ?k" ?l "replicate (4 + ?n) 0"]
    by (simp add: header_bytes_def)
  have w3: "write_at (header_bytes m @ replicate ?n 0) 8 (take ?n p)
      = Inr (header_bytes m @ take ?n p)" if "?n \<le> length p" for p
    using write_at_append [of 8 "header_bytes m" "take ?n p" "replicate ?n 0"] that by simp
  have calloc: "calloc_bytes (int (8 + ?n)) = Inr (replicate (8 + ?n) 0)"
    unfolding calloc_bytes_def by (simp only: nat_int of_nat_less_0_iff if_False)
  from assms have fits: "msg_payload m = Some p \<Longrightarrow> ?n \<le> length p" for p
    by (simp add: sendable_def)
  show ?thesis
    unfolding message_marshal_def Let_def option.case size calloc bind_res_Inr w0 w1 w2
      length_wire_bytes [OF assms]
    by (cases "msg_payload m")
       (simp_all add: fits w3 read_at_take wire_bytes_def body_bytes_def del: of_nat_add)
qed

text \<open>The two ways an oversized length field makes marshalling fault.\<close>

lemma message_marshal_negative_size:
  assumes "2 ^ 31 - 8 \<le> unat (msg_length m)" and "unat (msg_length m) < 2 ^ 32 - 8"
  shows "message_marshal (Some m) = Inl NullDeref"
proof -
  from assms have "unat (8 + msg_length m) = 8 + unat (msg_length m)" by (simp add: unat_size)
  with assms have "2 ^ 31 \<le> unat (8 + msg_length m)" by simp
  then have "marshal_size m = uint (8 + msg_length m) - 2 ^ 32"
    unfolding marshal_size_def by (simp add: sint_big_unat)
  with uint_lt2p [of "8 + msg_length m"] have "marshal_size m < 0" by simp
  then show ?thesis by (simp add: message_marshal_def calloc_bytes_def)
qed

lemma message_marshal_wrapped_size:
  assumes "2 ^ 32 - 8 \<le> unat (msg_length m)"
  shows "message_marshal (Some m) = Inl OutOfBounds"
proof -
  have "unat (msg_length m) < 2 ^ 32" using unsigned_less [of "msg_length m"] by simp
  with assms have n: "unat (8 + msg_length m) = unat (msg_length m) - (2 ^ 32 - 8)"
    by (simp add: unat_size mod_if)
  with \<open>unat (msg_length m) < 2 ^ 32\<close> have "unat (8 + msg_length m) < 8" by simp
  then have "marshal_size m = int (unat (8 + msg_length m))"
    unfolding marshal_size_def by (intro sint_small_unat) simp
  with \<open>unat (8 + msg_length m) < 8\<close> show ?thesis
    by (auto simp: message_marshal_def Let_def calloc_bytes_def write_at_def bind_res_def)
qed

lemma unmarshal_fields:
  "htons (load16 (store16 (htons x))) = x" "htonl (load32 (store32 (htonl y))) = y"
  by (simp_all add: load16_store16 load32_store32 htons_htons htonl_htonl)

lemma header_reads:
  "read_at (header_bytes m @ rest) 0 2 = Inr (store16 (htons (msg_id m)))"
  "read_at (header_bytes m @ rest) 2 2 = Inr (store16 (htons (msg_kind m)))"
  "read_at (header_bytes m @ rest) 4 4 = Inr (store32 (htonl (msg_length m)))"
  by (simp_all add: header_bytes_def read_at_def)

lemma unmarshal_header_bytes:
  "message_unmarshal_header (header_bytes m @ rest) = Inr (m\<lparr>msg_payload := None\<rparr>)"
  by (simp add: message_unmarshal_header_def header_reads unmarshal_fields)

text \<open>Conversely, eight bytes are the header of the message they unmarshal to.\<close>

lemma store_load16_bytes: "store16 (load16 [a, b]) = [a, b]"
  by (auto simp: store16_def bit_eq_iff bit_simps dest: bit_imp_le_length)

lemma store_load32_bytes: "store32 (load32 [a, b, c, d]) = [a, b, c, d]"
  by (auto simp: store32_def bit_eq_iff bit_simps dest: bit_imp_le_length)

lemma store_load16: "length bs = 2 \<Longrightarrow> store16 (load16 bs) = bs"
  by (auto simp: eval_nat_numeral length_Suc_conv store_load16_bytes simp del: load16.simps)

lemma store_load32: "length bs = 4 \<Longrightarrow> store32 (load32 bs) = bs"
  by (auto simp: eval_nat_numeral length_Suc_conv store_load32_bytes simp del: load32.simps)

lemma header_bytes_unmarshal:
  assumes "length buf = 8" and "message_unmarshal_header buf = Inr m"
  shows "header_bytes m = buf" and "msg_payload m = None"
proof -
  from assms have m: "m = \<lparr>msg_id = htons (load16 (take 2 buf)),
      msg_kind = htons (load16 (take 2 (drop 2 buf))),
      msg_length = htonl (load32 (take 4 (drop 4 buf))), msg_payload = None\<rparr>"
    by (simp add: message_unmarshal_header_def read_at_def)
  then show "msg_payload m = None" by simp
  have "header_bytes m = take 2 buf @ take 2 (drop 2 buf) @ take 4 (drop 4 buf)"
    using assms(1)
    by (simp add: header_bytes_def m htons_htons htonl_htonl store_load16 store_load32)
  also have "\<dots> = buf"
    using assms(1) append_take_drop_id [of 2 buf] append_take_drop_id [of 2 "drop 2 buf"]
    by simp
  finally show "header_bytes m = buf" .
qed

lemma unmarshal_wire_bytes:
  assumes "sendable m"
  shows "message_unmarshal (wire_bytes m @ rest) = Inr (m\<lparr>msg_payload := Some (body_bytes m)\<rparr>)"
proof -
  have "read_at (wire_bytes m @ rest) 8 (unat (msg_length m)) = Inr (body_bytes m)"
    using assms by (simp add: wire_bytes_def read_at_append length_body_bytes)
  then show ?thesis
    by (simp add: message_unmarshal_def wire_bytes_def header_reads unmarshal_fields Let_def)
qed

section \<open>Created messages\<close>

lemma create_message_correct:
  assumes "0 < unat len" and "min (unat len) 2040 \<le> length src"
  shows "\<exists>p. create_message len i k src = Inr \<lparr>msg_id = i, msg_kind = k,
       msg_length = of_nat (min (unat len) 2040), msg_payload = Some p\<rparr> \<and>
     length p = min (unat len) 2040 \<and>
     p = take (min (unat len) 2040 - 1) src @ [0]"
proof -
  let ?l = "if len > MESG_MAX_LEN then MESG_MAX_LEN else len"
  have l: "unat ?l = min (unat len) 2040" "?l = of_nat (min (unat len) 2040)"
    by (auto simp: MESG_MAX_LEN_def word_less_nat_alt min_def)
  let ?bs = "take (min (unat len) 2040) src"
  have "0 < ?l" using assms(1) l(1) by (auto simp: word_gt_0_no word_greater_zero_iff MESG_MAX_LEN_def)
  then have "unat (?l - 1) = length ?bs - 1"
    using assms(2) l(1) by (simp add: unat_minus_one)
  have "write_at ?bs (length ?bs - 1) [0] = Inr (butlast ?bs @ [0])"
    using assms by (intro write_at_last) simp
  then show ?thesis
    using assms l \<open>unat (?l - 1) = length ?bs - 1\<close>
    by (auto simp: create_message_def Let_def read_at_take butlast_take)
qed

lemma create_message_empty_faults: "create_message 0 i k src = Inl OutOfBounds"
  by (simp add: create_message_def Let_def read_at_def write_at_def)

section \<open>Properties\<close>

text \<open>C32: A message that can be marshalled survives the round trip: marshalling returns a
  buffer of exactly the announced size, and unmarshalling that buffer, with anything behind
  it in memory, gives the same sender, kind and length and the payload that was marshalled
  (zeros for a message that has a length but no payload).\<close>

theorem marshal_roundtrip:
  assumes "sendable m"
  shows "\<exists>bs. message_marshal (Some m) = Inr (Some bs, int (length bs)) \<and>
     length bs = 8 + unat (msg_length m) \<and>
     message_unmarshal (bs @ rest) = Inr (m\<lparr>msg_payload := Some (body_bytes m)\<rparr>) \<and>
     message_unmarshal_header (bs @ rest) = Inr (m\<lparr>msg_payload := None\<rparr>)"
  using message_marshal_sendable [OF assms] length_wire_bytes [OF assms]
    unmarshal_wire_bytes [OF assms] unmarshal_header_bytes [of m "body_bytes m @ rest"]
  by (intro exI [of _ "wire_bytes m"]) (simp add: wire_bytes_def)

definition hello :: message where
  "hello = \<lparr>msg_id = 258, msg_kind = MESG_DATA, msg_length = 3, msg_payload = Some [104, 105, 0]\<rparr>"

theorem marshal_roundtrip_witness:
  "\<exists>bs. message_marshal (Some hello) = Inr (Some bs, int (length bs)) \<and> length bs = 11 \<and>
     message_unmarshal (bs @ []) = Inr hello \<and>
     message_unmarshal_header (bs @ []) = Inr (hello\<lparr>msg_payload := None\<rparr>)"
  using marshal_roundtrip [of hello "[]"] by (simp add: sendable_def hello_def body_bytes_def)

text \<open>The wire format is the one \<^verbatim>\<open>message.h\<close> documents, independent of the host's byte
  order: sender in bytes 0 and 1, kind in bytes 2 and 3, length in bytes 4 to 7, each with
  the most significant byte first, and the payload from byte 8 on.\<close>

theorem wire_format:
  assumes "sendable m"
  shows "message_marshal (Some m) = Inr (Some (
     [ucast (drop_bit 8 (msg_id m)), ucast (msg_id m),
      ucast (drop_bit 8 (msg_kind m)), ucast (msg_kind m),
      ucast (drop_bit 24 (msg_length m)), ucast (drop_bit 16 (msg_length m)),
      ucast (drop_bit 8 (msg_length m)), ucast (msg_length m)] @ body_bytes m),
     8 + int (unat (msg_length m)))"
  using message_marshal_sendable [OF assms] length_wire_bytes [OF assms]
  by (simp add: wire_bytes_def header_bytes_def store16_htons store32_htonl)

theorem wire_format_witness:
  "message_marshal (Some hello) = Inr (Some [1, 2, 0, 0, 0, 0, 0, 3, 104, 105, 0], 11)"
  using wire_format [of hello] by (simp add: sendable_def hello_def body_bytes_def MESG_DATA_def)

text \<open>C38: A length field of \<open>2 ^ 31 - 8\<close> or more cannot be marshalled: the size is negative
  as an \<open>int\<close>, so \<open>calloc\<close> fails and the first store goes through a null pointer, or the
  32-bit sum wraps to less than a header and the header is written outside the buffer. For
  every smaller length a message with enough payload is marshalled.\<close>

theorem oversized_length_faults:
  "(sendable m \<longrightarrow> (\<exists>bs n. message_marshal (Some m) = Inr (Some bs, n))) \<and>
   (2 ^ 31 - 8 \<le> unat (msg_length m) \<longrightarrow>
      message_marshal (Some m) =
        Inl (if unat (msg_length m) < 2 ^ 32 - 8 then NullDeref else OutOfBounds))"
  using message_marshal_sendable [of m] message_marshal_negative_size [of m]
    message_marshal_wrapped_size [of m]
  by auto

theorem oversized_length_faults_witness:
  "message_marshal (Some (create_message_header 0xFFFFFFFF 7 MESG_DCON)) = Inl OutOfBounds \<and>
   (\<exists>bs n. message_marshal (Some hello) = Inr (Some bs, n))"
  using oversized_length_faults [of "create_message_header 0xFFFFFFFF 7 MESG_DCON"]
    oversized_length_faults [of hello]
  by (simp add: create_message_header_def sendable_def hello_def)

text \<open>A message created from a buffer that is long enough has the sender and kind it was
  given, its length cut to the maximum, and a payload of exactly that length that is the
  start of the buffer with its last byte replaced by the terminator; it can be marshalled.
  A length of 0 writes the terminator outside the payload.\<close>

theorem created_message:
  assumes "min (unat len) 2040 \<le> length src"
  shows "if len = 0 then create_message len i k src = Inl OutOfBounds
     else \<exists>m. create_message len i k src = Inr m \<and> msg_id m = i \<and> msg_kind m = k \<and>
       unat (msg_length m) = min (unat len) 2040 \<and>
       msg_payload m = Some (take (min (unat len) 2040 - 1) src @ [0]) \<and> sendable m"
proof (cases "len = 0")
  case True
  then show ?thesis by (simp add: create_message_empty_faults)
next
  case False
  then have "0 < unat len" by (simp add: unat_gt_0)
  from create_message_correct [OF this assms, of i k]
  have "create_message len i k src = Inr \<lparr>msg_id = i, msg_kind = k,
      msg_length = of_nat (min (unat len) 2040),
      msg_payload = Some (take (min (unat len) 2040 - 1) src @ [0])\<rparr>" by auto
  moreover have "unat (of_nat (min (unat len) 2040) :: u32) = min (unat len) 2040"
    by (rule unat_of_nat_small) simp
  ultimately show ?thesis using False assms \<open>0 < unat len\<close> by (simp add: sendable_def)
qed

theorem created_message_witness:
  "\<exists>m. create_message 3 5 MESG_DATA [104, 105, 10, 99] = Inr m \<and> msg_id m = 5 \<and>
     msg_payload m = Some [104, 105, 0]"
  using created_message [of 3 "[104, 105, 10, 99]" 5 MESG_DATA] by auto

end
