(* ===== verification/Sockets.thy ===== *)
theory Sockets
  imports Prelude
begin

text \<open>
  The two calls of the socket interface that the program uses on a connected stream
  socket. What the peer and the network will do is a script: for \<open>recv\<close> the chunks in
  which the bytes arrive and the errors, for \<open>send\<close> how many bytes each call accepts.
  At the end of its script a receiving socket is at end of file, where \<open>recv\<close> returns 0
  for ever, and a sending socket accepts everything.

  An error of \<open>send\<close> is the return value -1. The calls are made with flags 0, so that a connection the peer has
  closed (\<open>EPIPE\<close>) also raises \<open>SIGPIPE\<close>; the program does not handle that signal, whose default ends the
  process. Signals are not modelled: the scripts stand for the runs in which \<open>SIGPIPE\<close> is ignored, or the
  error is another one.
\<close>

datatype recv_event = Chunk "byte list" | RecvErr

type_synonym in_script = "recv_event list"

text \<open>
  \<open>recv k s\<close>: at most \<open>k\<close> bytes and the rest of the script; \<open>None\<close> is the return
  value -1, the empty list the return value 0.
\<close>

fun recv :: "nat \<Rightarrow> in_script \<Rightarrow> byte list option \<times> in_script" where
  "recv k [] = (Some [], [])"
| "recv k (RecvErr # s) = (None, s)"
| "recv k (Chunk bs # s) =
     (if length bs \<le> k then (Some bs, s) else (Some (take k bs), Chunk (drop k bs) # s))"

datatype send_event = Accept nat | SendErr

type_synonym out_script = "send_event list"

text \<open>\<open>send bs s\<close>: the number of bytes of \<open>bs\<close> the call took, or \<open>None\<close> for -1.\<close>

fun send :: "byte list \<Rightarrow> out_script \<Rightarrow> nat option \<times> out_script" where
  "send bs [] = (Some (length bs), [])"
| "send bs (SendErr # s) = (None, s)"
| "send bs (Accept n # s) = (Some (min n (length bs)), s)"

section \<open>The bytes a script delivers\<close>

text \<open>The bytes before the first error or the end of file.\<close>

fun pending :: "in_script \<Rightarrow> byte list" where
  "pending [] = []"
| "pending (RecvErr # s) = []"
| "pending (Chunk bs # s) = bs @ pending s"

text \<open>Whether what comes after them is an error (and not the end of file).\<close>

definition breaks :: "in_script \<Rightarrow> bool" where
  "breaks s \<longleftrightarrow> RecvErr \<in> set s"

fun script_size :: "in_script \<Rightarrow> nat" where
  "script_size [] = 0"
| "script_size (RecvErr # s) = Suc (script_size s)"
| "script_size (Chunk bs # s) = Suc (length bs + script_size s)"

lemma recv_bytes:
  "recv k s = (Some bs, s') \<Longrightarrow>
   pending s = bs @ pending s' \<and> length bs \<le> k \<and> breaks s' = breaks s"
  by (induction k s rule: recv.induct) (auto simp: breaks_def split: if_splits)

lemma recv_error: "recv k s = (None, s') \<Longrightarrow> pending s = [] \<and> breaks s"
  by (induction k s rule: recv.induct) (auto simp: breaks_def split: if_splits)

lemma recv_smaller:
  "recv k s = (r, s') \<Longrightarrow> 0 < k \<Longrightarrow> s \<noteq> [] \<Longrightarrow> script_size s' < script_size s"
  by (induction k s rule: recv.induct) (auto split: if_splits)

lemma script_size_0 [simp]: "script_size s = 0 \<longleftrightarrow> s = []"
  by (induction s rule: script_size.induct) auto

section \<open>Receiving a number of bytes\<close>

text \<open>
  The receive loop of \<open>recv_header\<close> and of \<open>recv_payload\<close>: \<open>acc\<close> holds the bytes
  before \<open>cursor\<close>. The result is the buffer, whether it was filled (as opposed to an
  error), and the rest of the script; \<open>None\<close> is a loop that never ends.
\<close>

partial_function (option) recv_loop ::
    "nat \<Rightarrow> byte list \<Rightarrow> in_script \<Rightarrow> (byte list \<times> bool \<times> in_script) option" where
  "recv_loop want acc s =
     (if length acc < want then
        (case recv (want - length acc) s of
           (None, s') \<Rightarrow> Some (acc, False, s')
         | (Some bs, s') \<Rightarrow> recv_loop want (acc @ bs) s')
      else Some (acc, True, s))"

lemma recv_loop_filled:
  assumes "length acc \<le> want" and "want - length acc \<le> length (pending s)"
  shows "\<exists>s'. recv_loop want acc s = Some (acc @ take (want - length acc) (pending s), True, s') \<and>
     pending s' = drop (want - length acc) (pending s) \<and> breaks s' = breaks s"
  using assms
proof (induction "script_size s" arbitrary: acc s rule: less_induct)
  case less
  show ?case
  proof (cases "length acc < want")
    case False
    with less.prems show ?thesis by (subst recv_loop.simps) simp
  next
    case True
    then have "s \<noteq> []" using less.prems by auto
    obtain r s' where rs: "recv (want - length acc) s = (r, s')" by fastforce
    with less.prems True recv_error [of "want - length acc" s s'] have "r \<noteq> None"
      by (cases r) auto
    then obtain bs where r: "r = Some bs" by auto
    from recv_bytes [OF rs [unfolded r]] have bs: "pending s = bs @ pending s'"
      "length bs \<le> want - length acc" "breaks s' = breaks s" by auto
    have "script_size s' < script_size s"
      using rs True \<open>s \<noteq> []\<close> by (intro recv_smaller) auto
    moreover have "length (acc @ bs) \<le> want" and "want - length (acc @ bs) \<le> length (pending s')"
      using less.prems bs True by simp_all
    ultimately obtain s'' where "recv_loop want (acc @ bs) s'
        = Some ((acc @ bs) @ take (want - length (acc @ bs)) (pending s'), True, s'')"
      "pending s'' = drop (want - length (acc @ bs)) (pending s')" "breaks s'' = breaks s'"
      using less.hyps by blast
    with True rs r bs show ?thesis by (subst recv_loop.simps) (simp add: algebra_simps)
  qed
qed

lemma recv_loop_error:
  assumes "length acc + length (pending s) < want" and "breaks s"
  shows "\<exists>s'. recv_loop want acc s = Some (acc @ pending s, False, s')"
  using assms
proof (induction "script_size s" arbitrary: acc s rule: less_induct)
  case less
  from less.prems have "s \<noteq> []" by (auto simp: breaks_def)
  obtain r s' where rs: "recv (want - length acc) s = (r, s')" by fastforce
  show ?case
  proof (cases r)
    case None
    with rs less.prems recv_error show ?thesis
      by (subst recv_loop.simps) auto
  next
    case (Some bs)
    from recv_bytes [OF rs [unfolded Some]] have bs: "pending s = bs @ pending s'"
      "breaks s' = breaks s" by auto
    have "script_size s' < script_size s"
      using rs less.prems \<open>s \<noteq> []\<close> by (intro recv_smaller) auto
    from less.hyps [OF this, of "acc @ bs"] less.prems bs
    obtain s'' where "recv_loop want (acc @ bs) s' = Some ((acc @ bs) @ pending s', False, s'')"
      by auto
    with less.prems rs Some bs show ?thesis by (subst recv_loop.simps) simp
  qed
qed

text \<open>At end of file the loop spins: \<open>recv\<close> returns 0 and nothing changes.\<close>

lemma recv_loop_spins: "length acc < want \<Longrightarrow> recv_loop want acc [] = None"
proof (rule ccontr)
  assume "length acc < want" and "recv_loop want acc [] \<noteq> None"
  then obtain r where ret: "recv_loop want acc [] = Some r" by auto
  have "\<not> (([]::in_script) = [] \<and> length acc < want)"
  proof (rule recv_loop.raw_induct
      [where P = "\<lambda>want acc s r. \<not> (s = [] \<and> length acc < want)", OF _ ret])
    fix f :: "nat \<Rightarrow> byte list \<Rightarrow> in_script \<Rightarrow> (byte list \<times> bool \<times> in_script) option"
      and want acc s r
    assume IH: "\<And>want acc s r. f want acc s = Some r \<Longrightarrow> \<not> (s = [] \<and> length acc < want)"
      and eq: "(if length acc < want then
          (case recv (want - length acc) s of (None, s') \<Rightarrow> Some (acc, False, s')
           | (Some bs, s') \<Rightarrow> f want (acc @ bs) s')
        else Some (acc, True, s)) = Some r"
    show "\<not> (s = [] \<and> length acc < want)"
    proof
      assume "s = [] \<and> length acc < want"
      with eq have "f want acc [] = Some r" by simp
      from IH [OF this] \<open>s = [] \<and> length acc < want\<close> show False by simp
    qed
  qed
  with \<open>length acc < want\<close> show False by simp
qed

lemma recv_loop_eof:
  assumes "length acc + length (pending s) < want" and "\<not> breaks s"
  shows "recv_loop want acc s = None"
  using assms
proof (induction "script_size s" arbitrary: acc s rule: less_induct)
  case less
  show ?case
  proof (cases "s = []")
    case True
    with less.prems show ?thesis by (simp add: recv_loop_spins)
  next
    case False
    obtain r s' where rs: "recv (want - length acc) s = (r, s')" by fastforce
    with less.prems recv_error [of "want - length acc" s s'] have "r \<noteq> None"
      by (cases r) auto
    then obtain bs where r: "r = Some bs" by auto
    from recv_bytes [OF rs [unfolded r]] have bs: "pending s = bs @ pending s'"
      "breaks s' = breaks s" by auto
    have "script_size s' < script_size s"
      using rs less.prems False by (intro recv_smaller) auto
    with less bs rs r show ?thesis by (subst recv_loop.simps) simp
  qed
qed

end
