(* ===== verification/Message_Net.thy ===== *)
theory Message_Net
  imports Message Sockets
begin

text \<open>
  Messages over a socket: \<open>recv_header\<close>, \<open>recv_payload\<close> and \<open>send_message\<close> of
  \<^verbatim>\<open>message_net.c\<close>, and what a receiver gets from what a sender wrote, however the network
  fragments it.
\<close>

section \<open>Receiving\<close>

text \<open>A null result (\<open>None\<close>) is the error return; the outer \<open>None\<close> never returns.\<close>

definition recv_header :: "in_script \<Rightarrow> (message option \<times> in_script) run" where
  "recv_header s =
     (case recv_loop MESG_HEADER_LEN [] s of
        None \<Rightarrow> None
      | Some (buf, False, s') \<Rightarrow> Some (Inr (None, s'))
      | Some (buf, True, s') \<Rightarrow>
          Some (bind_res (message_unmarshal_header buf) (\<lambda>m. Inr (Some m, s'))))"

text \<open>
  The loop that throws the bytes after the buffer away, at most 2048 at a time; all its
  counters are \<open>int\<close>s. The flag is false after an error.
\<close>

partial_function (option) discard_loop ::
    "int \<Rightarrow> int \<Rightarrow> in_script \<Rightarrow> (bool \<times> in_script) option" where
  "discard_loop recvd recv_len s =
     (if recvd < recv_len then
        (case recv (nat (if recv_len - recvd < 2048 then recv_len - recvd else 2048)) s of
           (None, s') \<Rightarrow> Some (False, s')
         | (Some bs, s') \<Rightarrow> discard_loop (recvd + int (length bs)) recv_len s')
      else Some (True, s))"

text \<open>
  \<open>recv_len\<close> is an \<open>int\<close>: the length field read as a signed number. The message's
  length is cut to the maximum, its buffer is filled, the rest of the payload is thrown
  away and the last byte of the buffer is overwritten with the terminator. \<open>junk\<close> is
  what the buffer holds before the bytes arrive. The result is the return value and the
  message, which is changed in place.
\<close>

definition recv_payload ::
    "(nat \<Rightarrow> byte) \<Rightarrow> message \<Rightarrow> in_script \<Rightarrow> ((int \<times> message) \<times> in_script) run" where
  "recv_payload junk m s =
     (let recv_len = sint (msg_length m);
          len = (if msg_length m \<le> MESG_MAX_LEN then msg_length m else MESG_MAX_LEN);
          n = unat len;
          upd = (\<lambda>bs. m\<lparr>msg_length := len,
                   msg_payload := Some (bs @ map junk [length bs..<n])\<rparr>)
      in case recv_loop n [] s of
           None \<Rightarrow> None
         | Some (bs, False, s') \<Rightarrow> Some (Inr ((-1, upd bs), s'))
         | Some (bs, True, s') \<Rightarrow>
             (case discard_loop (int n) recv_len s' of
                None \<Rightarrow> None
              | Some (False, s'') \<Rightarrow> Some (Inr ((-1, upd bs), s''))
              | Some (True, s'') \<Rightarrow>
                  Some (bind_res (write_at bs (unat (len - 1)) [0])
                    (\<lambda>p. Inr ((0, m\<lparr>msg_length := len, msg_payload := Some p\<rparr>), s'')))))"

section \<open>Sending\<close>

text \<open>
  The send loop: \<open>bs\<close> are the bytes from \<open>cursor\<close> on. The result says whether all was
  sent, the bytes that went out, and the rest of the script.
\<close>

function send_loop :: "byte list \<Rightarrow> out_script \<Rightarrow> bool \<times> byte list \<times> out_script" where
  "send_loop bs s =
     (if bs = [] then (True, [], s)
      else case send bs s of
        (None, s') \<Rightarrow> (False, [], s')
      | (Some n, s') \<Rightarrow>
          (let (ok, sent, s'') = send_loop (drop n bs) s' in (ok, take n bs @ sent, s'')))"
  by pat_completeness auto
termination
proof (relation "measure (\<lambda>(bs, s). length bs + length s)", goal_cases)
  case 1
  show ?case by simp
next
  case (2 bs s x y n)
  then show ?case by (cases "(bs, s)" rule: send.cases) auto
qed

declare send_loop.simps [simp del]

definition send_message ::
    "message option \<Rightarrow> out_script \<Rightarrow> (int \<times> byte list \<times> out_script) res" where
  "send_message mp s =
     bind_res (message_marshal mp) (\<lambda>(bytes, send_len).
       case bytes of
         None \<Rightarrow> Inr (-1, [], s)
       | Some bs \<Rightarrow>
           if send_len = 0 then Inr (-1, [], s)
           else let (ok, sent, s') = send_loop bs s in Inr (if ok then 0 else -1, sent, s'))"

section \<open>What sending delivers\<close>

lemma send_bounds: "send bs s = (Some n, s') \<Longrightarrow> n \<le> length bs"
  by (cases "(bs, s)" rule: send.cases) auto

lemma send_error: "send bs s = (None, s') \<Longrightarrow> SendErr \<in> set s"
  by (cases "(bs, s)" rule: send.cases) auto

lemma send_script: "send bs s = (r, s') \<Longrightarrow> set s' \<subseteq> set s"
  by (cases "(bs, s)" rule: send.cases) auto

lemma send_loop_result:
  "send_loop bs s = (ok, sent, s') \<Longrightarrow>
     (if ok then sent = bs else \<exists>rest. rest \<noteq> [] \<and> bs = sent @ rest \<and> SendErr \<in> set s)"
proof (induction bs s arbitrary: ok sent s' rule: send_loop.induct)
  case (1 bs s)
  show ?case
  proof (cases "bs = []")
    case True
    with "1.prems" show ?thesis by (simp add: send_loop.simps [of "[]"])
  next
    case False
    obtain r s1 where rs: "send bs s = (r, s1)" by fastforce
    show ?thesis
    proof (cases r)
      case None
      with "1.prems" False rs show ?thesis
        by (auto simp: send_loop.simps [of bs] dest: send_error)
    next
      case (Some n)
      obtain sent1 where rec: "send_loop (drop n bs) s1 = (ok, sent1, s')" "sent = take n bs @ sent1"
        using "1.prems" False rs Some by (auto simp: send_loop.simps [of bs] split: prod.splits)
      have split: "bs = take n bs @ drop n bs" by simp
      note ih = "1.IH" [OF False rs [symmetric] Some rec(1)]
      show ?thesis
      proof (cases ok)
        case True
        with ih rec(2) show ?thesis by simp
      next
        case False
        with ih obtain rest where rest: "rest \<noteq> []" "drop n bs = sent1 @ rest" "SendErr \<in> set s1"
          by auto
        with split rec(2) have "bs = sent @ rest" by simp
        with rest send_script [OF rs] False show ?thesis by auto
      qed
    qed
  qed
qed

lemma send_loop_no_error:
  assumes "SendErr \<notin> set s"
  shows "\<exists>s'. send_loop bs s = (True, bs, s')"
proof -
  obtain ok sent s' where "send_loop bs s = (ok, sent, s')" by (cases "send_loop bs s")
  with send_loop_result [OF this] assms show ?thesis by (auto split: if_splits)
qed

lemma send_message_result:
  assumes m: "sendable m" and run: "send_message (Some m) s = Inr (r, sent, s')"
  shows "r = 0 \<and> sent = wire_bytes m \<or>
     r = -1 \<and> (\<exists>rest. rest \<noteq> [] \<and> wire_bytes m = sent @ rest) \<and> SendErr \<in> set s"
proof -
  have "wire_bytes m \<noteq> []" using length_wire_bytes [OF m] by auto
  with run obtain ok where loop: "send_loop (wire_bytes m) s = (ok, sent, s')"
    "r = (if ok then 0 else -1)"
    by (auto simp: send_message_def message_marshal_sendable [OF m] split: prod.splits)
  from send_loop_result [OF loop(1)] loop(2) show ?thesis by (cases ok) auto
qed

lemma send_message_returns:
  assumes "sendable m"
  shows "\<exists>r sent s'. send_message (Some m) s = Inr (r, sent, s')"
  using length_wire_bytes [OF assms]
  by (auto simp: send_message_def message_marshal_sendable [OF assms] split: prod.splits)

lemma send_message_no_error:
  assumes "sendable m" and "SendErr \<notin> set s"
  shows "\<exists>s'. send_message (Some m) s = Inr (0, wire_bytes m, s')"
  using send_message_returns [OF assms(1), of s] send_message_result [OF assms(1)] assms(2)
  by fastforce

section \<open>What receiving gets\<close>

lemma unmarshal_header_total:
  "length buf = 8 \<Longrightarrow> \<exists>m. message_unmarshal_header buf = Inr m \<and> msg_payload m = None"
  by (simp add: message_unmarshal_header_def read_at_def)

lemma recv_header_full:
  assumes "8 \<le> length (pending s)"
  shows "\<exists>m s'. recv_header s = Some (Inr (Some m, s')) \<and>
     message_unmarshal_header (take 8 (pending s)) = Inr m \<and>
     pending s' = drop 8 (pending s) \<and> breaks s' = breaks s"
proof -
  from recv_loop_filled [of "[]" 8 s] assms obtain s' where
    s': "recv_loop 8 [] s = Some (take 8 (pending s), True, s')"
    "pending s' = drop 8 (pending s)" "breaks s' = breaks s" by auto
  from unmarshal_header_total [of "take 8 (pending s)"] assms obtain m where
    "message_unmarshal_header (take 8 (pending s)) = Inr m" by auto
  with s' show ?thesis by (simp add: recv_header_def MESG_HEADER_LEN_def)
qed

lemma recv_header_error:
  assumes "length (pending s) < 8" and "breaks s"
  shows "\<exists>s'. recv_header s = Some (Inr (None, s'))"
  using recv_loop_error [of "[]" s 8] assms by (auto simp: recv_header_def MESG_HEADER_LEN_def)

lemma recv_header_spins:
  assumes "length (pending s) < 8" and "\<not> breaks s"
  shows "recv_header s = None"
  using recv_loop_eof [of "[]" s 8] assms by (simp add: recv_header_def MESG_HEADER_LEN_def)

lemma recv_header_wire:
  assumes "pending s = header_bytes m @ rest"
  shows "\<exists>s'. recv_header s = Some (Inr (Some (m\<lparr>msg_payload := None\<rparr>), s')) \<and>
     pending s' = rest \<and> breaks s' = breaks s"
  using recv_header_full [of s] unmarshal_header_bytes [of m "[]"] assms by auto

lemma discard_loop_done: "recv_len \<le> recvd \<Longrightarrow> discard_loop recvd recv_len s = Some (True, s)"
  by (subst discard_loop.simps) simp

lemma discard_loop_drops:
  assumes "recvd \<le> recv_len" and "nat (recv_len - recvd) \<le> length (pending s)"
  shows "\<exists>s'. discard_loop recvd recv_len s = Some (True, s') \<and>
     pending s' = drop (nat (recv_len - recvd)) (pending s) \<and> breaks s' = breaks s"
  using assms
proof (induction "script_size s" arbitrary: recvd s rule: less_induct)
  case less
  show ?case
  proof (cases "recvd < recv_len")
    case False
    with less.prems show ?thesis by (simp add: discard_loop_done)
  next
    case True
    let ?k = "nat (if recv_len - recvd < 2048 then recv_len - recvd else 2048)"
    from True less.prems have "s \<noteq> []" by auto
    obtain r s' where rs: "recv ?k s = (r, s')" by fastforce
    with less.prems True recv_error [of ?k s s'] have "r \<noteq> None" by (cases r) auto
    then obtain bs where r: "r = Some bs" by auto
    from recv_bytes [OF rs [unfolded r]] have bs: "pending s = bs @ pending s'"
      "length bs \<le> ?k" "breaks s' = breaks s" by auto
    have "script_size s' < script_size s"
      using rs True \<open>s \<noteq> []\<close> by (intro recv_smaller) auto
    moreover have le: "int (length bs) \<le> recv_len - recvd"
      using bs(2) True by (auto split: if_splits)
    moreover have "nat (recv_len - (recvd + int (length bs))) \<le> length (pending s')"
      using less.prems bs(1) le by simp
    ultimately obtain s'' where "discard_loop (recvd + int (length bs)) recv_len s' = Some (True, s'')"
      "pending s'' = drop (nat (recv_len - (recvd + int (length bs)))) (pending s')"
      "breaks s'' = breaks s'"
      using less.hyps [of s' "recvd + int (length bs)"] by auto
    moreover have "nat (recv_len - (recvd + int (length bs))) = nat (recv_len - recvd) - length bs"
      using le by simp
    ultimately show ?thesis
      using True rs r bs le by (subst discard_loop.simps) (auto simp: nat_le_iff)
  qed
qed

text \<open>The cut of the length field.\<close>

lemma cut_length:
  "unat (if l \<le> MESG_MAX_LEN then l else MESG_MAX_LEN) = min (unat l) 2040"
  by (auto simp: MESG_MAX_LEN_def word_le_nat_alt)

lemma payload_terminated:
  assumes "0 < n" and "length bs = n" and "unat len = n"
  shows "write_at bs (unat (len - 1)) [0] = Inr (butlast bs @ [0 :: byte])"
proof -
  from assms have "len \<noteq> 0" by auto
  with assms have "unat (len - 1) = length bs - 1" by (simp add: unat_minus_one)
  with assms write_at_last [of bs] show ?thesis by simp
qed

lemma recv_payload_full:
  fixes m :: message
  defines "l \<equiv> unat (msg_length m)"
  assumes l: "0 < l" "l < 2 ^ 31" and len: "l \<le> length (pending s)"
  shows "\<exists>s'. recv_payload junk m s = Some (Inr ((0, m\<lparr>msg_length := of_nat (min l 2040),
       msg_payload := Some (take (min l 2040 - 1) (pending s) @ [0])\<rparr>), s')) \<and>
     pending s' = drop l (pending s) \<and> breaks s' = breaks s"
proof -
  let ?len = "if msg_length m \<le> MESG_MAX_LEN then msg_length m else MESG_MAX_LEN"
  let ?bs = "take (min l 2040) (pending s)"
  have n: "unat ?len = min l 2040" by (simp only: cut_length l_def)
  have s: "sint (msg_length m) = int l" using l(2) unfolding l_def by (rule sint_small_unat)
  have "min l 2040 \<le> length (pending s)" using len by simp
  with recv_loop_filled [of "[]" "min l 2040" s] obtain s1 where
    s1: "recv_loop (min l 2040) [] s = Some (?bs, True, s1)"
    "pending s1 = drop (min l 2040) (pending s)" "breaks s1 = breaks s" by auto
  have d: "nat (int l - int (min l 2040)) = l - min l 2040" by simp
  have "l - min l 2040 \<le> length (pending s1)" using len s1(2) by simp
  with discard_loop_drops [of "int (min l 2040)" "int l" s1, unfolded d] obtain s2 where
    s2: "discard_loop (int (min l 2040)) (int l) s1 = Some (True, s2)"
    "pending s2 = drop (l - min l 2040) (pending s1)" "breaks s2 = breaks s1" by auto
  have "butlast ?bs = take (min l 2040 - 1) (pending s)"
    using len by (simp add: butlast_take)
  moreover have "write_at ?bs (unat (?len - 1)) [0] = Inr (butlast ?bs @ [0])"
    using l(1) len n by (intro payload_terminated [where n = "min l 2040"]) auto
  moreover have "?len = of_nat (min l 2040)"
  proof -
    have "?len = of_nat (unat ?len)" by simp
    then show ?thesis by (simp only: n)
  qed
  moreover have "unat (of_nat (min l 2040) :: u32) = min l 2040"
    by (rule unat_of_nat_small) simp
  ultimately show ?thesis
    using s1 s2 by (simp only: recv_payload_def Let_def n s) simp
qed

text \<open>A zero length field: the terminator is written outside the buffer.\<close>

lemma recv_payload_empty_faults:
  assumes "msg_length m = 0"
  shows "recv_payload junk m s = Some (Inl OutOfBounds)"
proof -
  have "recv_loop 0 [] s = Some ([], True, s)" by (subst recv_loop.simps) simp
  with assms show ?thesis
    by (simp add: recv_payload_def Let_def discard_loop_done write_at_def MESG_MAX_LEN_def)
qed

text \<open>
  A length field of \<open>2 ^ 31\<close> or more is negative as an \<open>int\<close>: nothing after the
  buffer is thrown away.
\<close>

lemma recv_payload_huge:
  assumes huge: "2 ^ 31 \<le> unat (msg_length m)" and len: "2040 \<le> length (pending s)"
  shows "\<exists>s'. recv_payload junk m s = Some (Inr ((0, m\<lparr>msg_length := 2040,
       msg_payload := Some (take 2039 (pending s) @ [0])\<rparr>), s')) \<and>
     pending s' = drop 2040 (pending s)"
proof -
  let ?bs = "take 2040 (pending s)"
  have cut: "(if msg_length m \<le> MESG_MAX_LEN then msg_length m else MESG_MAX_LEN) = 2040"
    using huge by (auto simp: MESG_MAX_LEN_def word_le_nat_alt)
  have "unat (msg_length m) < 2 ^ 32" using unsigned_less [of "msg_length m"] by simp
  then have neg: "sint (msg_length m) < 0"
    using sint_big_unat [OF huge] uint_lt2p [of "msg_length m"] by simp
  from recv_loop_filled [of "[]" 2040 s] len obtain s1 where
    s1: "recv_loop 2040 [] s = Some (?bs, True, s1)" "pending s1 = drop 2040 (pending s)" by auto
  have "write_at ?bs (unat ((2040::u32) - 1)) [0] = Inr (butlast ?bs @ [0])"
    using len by (intro payload_terminated [where n = 2040]) auto
  moreover have "butlast ?bs = take 2039 (pending s)" using len by (simp add: butlast_take)
  ultimately show ?thesis
    using s1 neg by (simp add: recv_payload_def Let_def cut discard_loop_done)
qed

lemma recv_payload_spins:
  assumes "length (pending s) < min (unat (msg_length m)) 2040" and "\<not> breaks s"
  shows "recv_payload junk m s = None"
proof -
  from recv_loop_eof [of "[]" s "min (unat (msg_length m)) 2040"] assms
  have "recv_loop (min (unat (msg_length m)) 2040) [] s = None" by simp
  then show ?thesis by (simp only: recv_payload_def Let_def cut_length option.case)
qed

lemma recv_payload_error:
  assumes "length (pending s) < min (unat (msg_length m)) 2040" and "breaks s"
  shows "\<exists>m' s'. recv_payload junk m s = Some (Inr ((-1, m'), s'))"
proof -
  from recv_loop_error [of "[]" s "min (unat (msg_length m)) 2040"] assms obtain s' where
    "recv_loop (min (unat (msg_length m)) 2040) [] s = Some (pending s, False, s')" by auto
  then show ?thesis by (simp add: recv_payload_def Let_def cut_length)
qed

section \<open>From sender to receiver\<close>

text \<open>A data message as the program builds it: terminated, and within the maximum.\<close>

definition data_message :: "message \<Rightarrow> bool" where
  "data_message m \<longleftrightarrow> (\<exists>p. msg_payload m = Some p \<and> length p = unat (msg_length m) \<and>
     0 < length p \<and> length p \<le> 2040 \<and> last p = 0)"

lemma data_message_sendable: "data_message m \<Longrightarrow> sendable m"
  by (auto simp: data_message_def sendable_def)

lemma recv_data_message:
  assumes m: "data_message m" and s: "pending s = wire_bytes m @ rest"
  shows "\<exists>h s1 s2. recv_header s = Some (Inr (Some h, s1)) \<and> msg_kind h = msg_kind m \<and>
     recv_payload junk h s1 = Some (Inr ((0, m), s2)) \<and> pending s2 = rest \<and> breaks s2 = breaks s"
proof -
  obtain p where p: "msg_payload m = Some p" "length p = unat (msg_length m)"
    "0 < length p" "length p \<le> 2040" "last p = 0" using m unfolding data_message_def by blast
  let ?h = "m\<lparr>msg_payload := None\<rparr>"
  have body: "body_bytes m = p" using p by (simp add: body_bytes_def)
  from recv_header_wire [of s m "body_bytes m @ rest"] s obtain s1 where
    s1: "recv_header s = Some (Inr (Some ?h, s1))" "pending s1 = p @ rest" "breaks s1 = breaks s"
    by (auto simp: wire_bytes_def body)
  have "0 < unat (msg_length ?h)" "unat (msg_length ?h) < 2 ^ 31"
    "unat (msg_length ?h) \<le> length (pending s1)" "min (unat (msg_length ?h)) 2040 = length p"
    using p s1(2) by simp_all
  from recv_payload_full [OF this(1-3), of junk] this(4) obtain s2 where
    s2: "recv_payload junk ?h s1 = Some (Inr ((0, ?h\<lparr>msg_length := of_nat (length p),
       msg_payload := Some (take (length p - 1) (p @ rest) @ [0])\<rparr>), s2))"
    "pending s2 = drop (length p) (p @ rest)" "breaks s2 = breaks s1"
    using p(2) s1(2) by auto
  have "p \<noteq> []" using p(3) by auto
  then have "p = butlast p @ [0]" using append_butlast_last_id [of p] p(5) by simp
  moreover have "take (length p - 1) (p @ rest) = butlast p" by (simp add: butlast_conv_take)
  ultimately have "take (length p - 1) (p @ rest) @ [0] = p" by simp
  moreover have "of_nat (length p) = msg_length m" using p(2) by simp
  ultimately have "?h\<lparr>msg_length := of_nat (length p),
      msg_payload := Some (take (length p - 1) (p @ rest) @ [0])\<rparr> = m"
    using p(1) by simp
  with s1 s2 show ?thesis by auto
qed

section \<open>Properties\<close>

text \<open>\<open>send_message\<close> on a message that can be marshalled always returns, however little
  each \<open>send\<close> accepts: with 0 exactly the marshalled bytes went out, in order, and with -1
  a proper prefix of them and the socket reported an error.\<close>

theorem send_message_complete:
  assumes "sendable m"
  shows "\<exists>r sent s'. send_message (Some m) s = Inr (r, sent, s') \<and>
     (r = 0 \<and> message_marshal (Some m) = Inr (Some sent, int (length sent)) \<or>
      r = -1 \<and> SendErr \<in> set s \<and>
      (\<exists>rest. rest \<noteq> [] \<and> message_marshal (Some m) = Inr (Some (sent @ rest),
         int (length (sent @ rest)))))"
proof -
  obtain r sent s' where run: "send_message (Some m) s = Inr (r, sent, s')"
    using send_message_returns [OF assms] by blast
  with send_message_result [OF assms run] message_marshal_sendable [OF assms] show ?thesis
    by (intro exI [of _ r] exI [of _ sent] exI [of _ s']) auto
qed

theorem send_message_complete_witness:
  "\<exists>r sent s'. send_message (Some hello) [Accept 4, SendErr] = Inr (r, sent, s') \<and>
     (r = 0 \<or> r = -1)"
  using send_message_complete [of hello "[Accept 4, SendErr]"]
  by (auto simp: sendable_def hello_def)

text \<open>C4: From sender to receiver: a data message that \<open>send_message\<close> reports as sent is
  received by \<open>recv_header\<close> and \<open>recv_payload\<close> exactly as it was, whatever the chunks the
  bytes arrive in and whatever the sizes \<open>send\<close> accepts, and the receiver is left at the
  first byte after it.\<close>

theorem message_over_network:
  assumes "data_message m" and "send_message (Some m) out = Inr (0, sent, out')"
    and "pending s = sent @ rest"
  shows "\<exists>h s1 s2. recv_header s = Some (Inr (Some h, s1)) \<and>
     recv_payload junk h s1 = Some (Inr ((0, m), s2)) \<and> pending s2 = rest"
proof -
  have "sent = wire_bytes m"
    using send_message_result [OF data_message_sendable [OF assms(1)] assms(2)] by simp
  with recv_data_message [OF assms(1), of s rest junk] assms(3) show ?thesis by blast
qed

theorem message_over_network_witness:
  "\<exists>h s1 s2. recv_header [Chunk [1, 2, 0], Chunk [0, 0, 0, 0, 3, 104], Chunk [105, 0, 9]] =
      Some (Inr (Some h, s1)) \<and>
     recv_payload (\<lambda>_. 0) h s1 = Some (Inr ((0, hello), s2)) \<and> pending s2 = [9]"
proof -
  have d: "data_message hello" by (simp add: data_message_def hello_def)
  have w: "wire_bytes hello = [1, 2, 0, 0, 0, 0, 0, 3, 104, 105, 0]"
    by (simp add: wire_bytes_def header_bytes_def store16_htons store32_htonl body_bytes_def
        hello_def MESG_DATA_def)
  obtain o' where "send_message (Some hello) [Accept 2] = Inr (0, wire_bytes hello, o')"
    using send_message_no_error [OF data_message_sendable [OF d], of "[Accept 2]"] by auto
  from message_over_network [OF d this, of "[Chunk [1, 2, 0], Chunk [0, 0, 0, 0, 3, 104],
      Chunk [105, 0, 9]]" "[9]" "\<lambda>_. 0"]
  show ?thesis by (simp add: w)
qed

text \<open>C39: What \<open>recv_header\<close> does on every input: with eight bytes before an error or the end
  of file it returns the header they hold and consumes exactly those eight; with fewer
  bytes and then an error it returns a null pointer; with fewer bytes and then the end of
  file (the peer closed the connection) it never returns, because a \<open>recv\<close> of 0 bytes is
  not treated as an end.\<close>

theorem recv_header_cases:
  "if 8 \<le> length (pending s) then
     \<exists>m s'. recv_header s = Some (Inr (Some m, s')) \<and> msg_payload m = None \<and>
       header_bytes m = take 8 (pending s) \<and> pending s' = drop 8 (pending s)
   else if breaks s then \<exists>s'. recv_header s = Some (Inr (None, s'))
   else recv_header s = None"
proof -
  have "header_bytes m = take 8 (pending s) \<and> msg_payload m = None"
    if "message_unmarshal_header (take 8 (pending s)) = Inr m" "8 \<le> length (pending s)" for m
    using header_bytes_unmarshal [of "take 8 (pending s)" m] that by simp
  with recv_header_full [of s] recv_header_error [of s] recv_header_spins [of s]
  show ?thesis by (auto simp: not_le)
qed

text \<open>Receiving a payload of nonzero length below \<open>2 ^ 31\<close>: at most 2040 bytes are kept,
  the last kept byte is replaced by the terminator, the length field says how many are
  kept, and the whole payload is consumed, so the next message is read from its first
  byte.\<close>

theorem recv_payload_keeps_in_step:
  assumes "0 < unat (msg_length m)" and "unat (msg_length m) < 2 ^ 31"
    and "unat (msg_length m) \<le> length (pending s)"
  shows "\<exists>m' s'. recv_payload junk m s = Some (Inr ((0, m'), s')) \<and>
     msg_id m' = msg_id m \<and> msg_kind m' = msg_kind m \<and>
     unat (msg_length m') = min (unat (msg_length m)) 2040 \<and>
     msg_payload m' = Some (take (min (unat (msg_length m)) 2040 - 1) (pending s) @ [0]) \<and>
     pending s' = drop (unat (msg_length m)) (pending s)"
proof -
  have "unat (of_nat (min (unat (msg_length m)) 2040) :: u32) = min (unat (msg_length m)) 2040"
    by (rule unat_of_nat_small) simp
  with recv_payload_full [OF assms, of junk] show ?thesis by force
qed

theorem recv_payload_keeps_in_step_witness:
  "\<exists>m' s'. recv_payload (\<lambda>_. 0) (hello\<lparr>msg_payload := None\<rparr>) [Chunk [104], Chunk [105, 33, 44]]
     = Some (Inr ((0, m'), s')) \<and> msg_payload m' = Some [104, 105, 0] \<and> pending s' = [44]"
  using recv_payload_keeps_in_step
    [of "hello\<lparr>msg_payload := None\<rparr>" "[Chunk [104], Chunk [105, 33, 44]]" "\<lambda>_. 0"]
  by (auto simp: hello_def)

text \<open>The length fields \<open>recv_payload\<close> mishandles: 0 makes it write the terminator outside
  the buffer, and \<open>2 ^ 31\<close> or more, read as a negative \<open>int\<close>, makes it return 0 after 2040
  bytes with the rest of the payload still in the stream.\<close>

theorem recv_payload_bad_lengths:
  "(msg_length m = 0 \<longrightarrow> recv_payload junk m s = Some (Inl OutOfBounds)) \<and>
   (2 ^ 31 \<le> unat (msg_length m) \<and> 2040 \<le> length (pending s) \<longrightarrow>
     (\<exists>m' s'. recv_payload junk m s = Some (Inr ((0, m'), s')) \<and>
        pending s' = drop 2040 (pending s)))"
  using recv_payload_empty_faults [of m junk s] recv_payload_huge [of m s junk] by blast

theorem recv_payload_bad_lengths_witness:
  "recv_payload (\<lambda>_. 0) (hello\<lparr>msg_length := 0\<rparr>) [] = Some (Inl OutOfBounds) \<and>
   (\<exists>m' s'. recv_payload (\<lambda>_. 0) (hello\<lparr>msg_length := 0x80000000\<rparr>) [Chunk (replicate 3000 1)]
      = Some (Inr ((0, m'), s')) \<and> pending s' = replicate 960 1)"
  using recv_payload_bad_lengths [of "hello\<lparr>msg_length := 0\<rparr>" "\<lambda>_. 0" "[]"]
    recv_payload_bad_lengths [of "hello\<lparr>msg_length := 0x80000000\<rparr>" "\<lambda>_. 0" "[Chunk (replicate 3000 1)]"]
  by (simp add: hello_def)

end
