(* ===== verification/Jenkins_Hash.thy ===== *)
theory Jenkins_Hash
  imports Prelude
begin

text \<open>
  The hash function of \<^verbatim>\<open>uthash.h\<close> that the server's client table uses,
  \<open>HASH_JEN\<close>, on 32-bit words with the wrap-around of the C arithmetic, and the
  choice of a bucket, \<open>HASH_TO_BKT\<close>. A key is the list of its bytes.
\<close>

unbundle bit_operations_syntax

text \<open>The nine lines of \<open>HASH_JEN_MIX\<close>, in the order of the macro.\<close>

definition HASH_JEN_MIX :: "u32 \<Rightarrow> u32 \<Rightarrow> u32 \<Rightarrow> u32 \<times> u32 \<times> u32" where
  "HASH_JEN_MIX a b c =
     (let a = (a - b - c) XOR drop_bit 13 c;
          b = (b - c - a) XOR push_bit 8 a;
          c = (c - a - b) XOR drop_bit 13 b;
          a = (a - b - c) XOR drop_bit 12 c;
          b = (b - c - a) XOR push_bit 16 a;
          c = (c - a - b) XOR drop_bit 5 b;
          a = (a - b - c) XOR drop_bit 3 c;
          b = (b - c - a) XOR push_bit 10 a;
          c = (c - a - b) XOR drop_bit 15 b
      in (a, b, c))"

text \<open>Byte \<open>n\<close> of the key, shifted: one summand of the macro.\<close>

definition key_byte :: "byte list \<Rightarrow> nat \<Rightarrow> nat \<Rightarrow> u32" where
  "key_byte key n sh = push_bit sh (ucast (key ! n))"

definition key_word :: "byte list \<Rightarrow> nat \<Rightarrow> u32" where
  "key_word key n =
     key_byte key n 0 + key_byte key (n + 1) 8 + key_byte key (n + 2) 16 + key_byte key (n + 3) 24"

text \<open>The loop over blocks of twelve bytes; the rest of the key is part of the result.\<close>

fun jen_blocks :: "byte list \<Rightarrow> u32 \<Rightarrow> u32 \<Rightarrow> u32 \<Rightarrow> byte list \<times> u32 \<times> u32 \<times> u32" where
  "jen_blocks key i j h =
     (if 12 \<le> length key then
        (let (i, j, h) = HASH_JEN_MIX (i + key_word key 0) (j + key_word key 4) (h + key_word key 8)
         in jen_blocks (drop 12 key) i j h)
      else (key, i, j, h))"

declare jen_blocks.simps [simp del]

text \<open>
  The fall-through switch on the number \<open>k\<close> of bytes left: every case from \<open>k\<close> down
  is executed, so byte \<open>n\<close> is added exactly when \<open>n < k\<close>.
\<close>

definition tail_byte :: "byte list \<Rightarrow> nat \<Rightarrow> nat \<Rightarrow> u32" where
  "tail_byte key n sh = (if n < length key then key_byte key n sh else 0)"

definition HASH_JEN :: "byte list \<Rightarrow> u32" where
  "HASH_JEN key =
     (let (rest, i, j, h) = jen_blocks key 0x9e3779b9 0x9e3779b9 0xfeedbeef;
          h = h + of_nat (length key);
          h = h + tail_byte rest 10 24 + tail_byte rest 9 16
                + tail_byte rest 8 8;
          j = j + tail_byte rest 7 24 + tail_byte rest 6 16
                + tail_byte rest 5 8 + tail_byte rest 4 0;
          i = i + tail_byte rest 3 24 + tail_byte rest 2 16
                + tail_byte rest 1 8 + tail_byte rest 0 0;
          (i, j, h) = HASH_JEN_MIX i j h
      in h)"

definition HASH_TO_BKT :: "u32 \<Rightarrow> u32 \<Rightarrow> u32" where
  "HASH_TO_BKT hashv num_bkts = hashv AND (num_bkts - 1)"

lemma HASH_TO_BKT_mask:
  "HASH_TO_BKT hashv (2 ^ k) = take_bit k hashv"
  by (simp add: HASH_TO_BKT_def take_bit_eq_mask mask_eq_exp_minus_1)

lemma HASH_TO_BKT_bound:
  assumes "k < 32"
  shows "unat (HASH_TO_BKT hashv (2 ^ k)) < 2 ^ k"
  using assms by (simp add: HASH_TO_BKT_mask unsigned_take_bit_eq)

text \<open>Doubling the number of buckets splits a bucket: the new index extends the old one.\<close>

lemma HASH_TO_BKT_split:
  "unat (HASH_TO_BKT hashv (2 ^ Suc k)) mod 2 ^ k = unat (HASH_TO_BKT hashv (2 ^ k))"
  by (simp only: HASH_TO_BKT_mask unsigned_take_bit_eq) (simp add: take_bit_eq_mod mod_mod_cancel)

end
