(* ===== verification/Uthash.thy ===== *)
theory Uthash
  imports Chains Jenkins_Hash
begin

text \<open>
  The hash table macros of \<^verbatim>\<open>uthash.h\<close> that the server expands for its client table:
  \<open>HASH_FIND\<close>, \<open>HASH_ADD\<close> and what they call, bucket expansion included, at the level of
  the pointers. An element and the handle embedded in it have the same address here (the
  offset \<open>hho\<close> is a constant), the key a handle points to is given by its bytes (the
  server never changes a client's id), and the Bloom filter, the consistency checks and
  the statistics hooks are compiled out, as in the server. \<open>ut_rep\<close> says which elements a
  head pointer represents, in insertion order.
\<close>

unbundle bit_operations_syntax

section \<open>The store\<close>

record ut_handle =
  u_tbl :: ptr
  u_prev :: ptr
  u_next :: ptr
  u_hh_prev :: ptr
  u_hh_next :: ptr
  u_key :: "byte list"
  u_keylen :: u32
  u_hashv :: u32

record ut_bucket =
  b_head :: ptr
  b_count :: u32
  b_expand_mult :: u32

record ut_table =
  t_buckets :: "ut_bucket list"
  t_num_buckets :: u32
  t_log2_num_buckets :: u32
  t_num_items :: u32
  t_tail :: ptr
  t_ideal_chain_maxlen :: u32
  t_nonideal_items :: u32
  t_ineff_expands :: u32
  t_noexpand :: u32

record ut_store =
  handles :: "ptr \<rightharpoonup> ut_handle"
  tables :: "ptr \<rightharpoonup> ut_table"

definition HASH_INITIAL_NUM_BUCKETS :: u32 where "HASH_INITIAL_NUM_BUCKETS = 32"
definition HASH_INITIAL_NUM_BUCKETS_LOG2 :: u32 where "HASH_INITIAL_NUM_BUCKETS_LOG2 = 5"
definition HASH_BKT_CAPACITY_THRESH :: u32 where "HASH_BKT_CAPACITY_THRESH = 10"

definition get_handle :: "ut_store \<Rightarrow> ptr \<Rightarrow> ut_handle res" where
  "get_handle s p = (if p = NULL then Inl NullDeref
     else case handles s p of None \<Rightarrow> Inl BadPointer | Some h \<Rightarrow> Inr h)"

definition set_handle :: "ut_store \<Rightarrow> ptr \<Rightarrow> ut_handle \<Rightarrow> ut_store" where
  "set_handle s p h = s\<lparr>handles := (handles s)(p \<mapsto> h)\<rparr>"

definition get_table :: "ut_store \<Rightarrow> ptr \<Rightarrow> ut_table res" where
  "get_table s p = (if p = NULL then Inl NullDeref
     else case tables s p of None \<Rightarrow> Inl BadPointer | Some t \<Rightarrow> Inr t)"

definition set_table :: "ut_store \<Rightarrow> ptr \<Rightarrow> ut_table \<Rightarrow> ut_store" where
  "set_table s p t = s\<lparr>tables := (tables s)(p \<mapsto> t)\<rparr>"

text \<open>Writes of one handle field through a pointer.\<close>

definition write_hh_prev :: "ut_store \<Rightarrow> ptr \<Rightarrow> ptr \<Rightarrow> ut_store res" where
  "write_hh_prev s p q =
     bind_res (get_handle s p) (\<lambda>h. Inr (set_handle s p (h\<lparr>u_hh_prev := q\<rparr>)))"

definition write_app_next :: "ut_store \<Rightarrow> ptr \<Rightarrow> ptr \<Rightarrow> ut_store res" where
  "write_app_next s p q =
     bind_res (get_handle s p) (\<lambda>h. Inr (set_handle s p (h\<lparr>u_next := q\<rparr>)))"

definition bucket_at :: "ut_bucket list \<Rightarrow> u32 \<Rightarrow> ut_bucket res" where
  "bucket_at bs i = (if unat i < length bs then Inr (bs ! unat i) else Inl OutOfBounds)"

section \<open>HASH_FIND\<close>

text \<open>The walk along a bucket's chain, comparing hash value, key length and key bytes.\<close>

partial_function (option) HASH_FIND_IN_BKT ::
    "ut_store \<Rightarrow> ptr \<Rightarrow> byte list \<Rightarrow> u32 \<Rightarrow> u32 \<Rightarrow> ptr run" where
  "HASH_FIND_IN_BKT s out key keylen hashval =
     (if out = NULL then Some (Inr NULL)
      else case get_handle s out of Inl x \<Rightarrow> Some (Inl x)
      | Inr h \<Rightarrow>
          if u_hashv h = hashval \<and> u_keylen h = keylen \<and>
             take (unat keylen) (u_key h) = take (unat keylen) key
          then Some (Inr out)
          else HASH_FIND_IN_BKT s (u_hh_next h) key keylen hashval)"

definition HASH_FIND :: "ut_store \<Rightarrow> ptr \<Rightarrow> byte list \<Rightarrow> ptr run" where
  "HASH_FIND s head key =
     (if head = NULL then Some (Inr NULL)
      else
        let hashv = HASH_JEN key in
        case bind_res (get_handle s head) (\<lambda>h. bind_res (get_table s (u_tbl h)) (\<lambda>t.
               bucket_at (t_buckets t) (HASH_TO_BKT hashv (t_num_buckets t)))) of
          Inl x \<Rightarrow> Some (Inl x)
        | Inr b \<Rightarrow> HASH_FIND_IN_BKT s (b_head b) key (of_nat (length key)) hashv)"

section \<open>HASH_EXPAND_BUCKETS\<close>

text \<open>
  One chain of the old table moved into the new buckets: \<open>nbs\<close> are the new buckets,
  \<open>nonideal\<close> counts the items beyond the ideal chain length, \<open>n2\<close> is twice the old
  number of buckets.
\<close>

partial_function (option) rehash_chain ::
    "u32 \<Rightarrow> u32 \<Rightarrow> ptr \<Rightarrow> ut_bucket list \<Rightarrow> u32 \<Rightarrow> ut_store \<Rightarrow>
       (ut_bucket list \<times> u32 \<times> ut_store) run" where
  "rehash_chain n2 ideal thh nbs nonideal s =
     (if thh = NULL then Some (Inr (nbs, nonideal, s))
      else case get_handle s thh of Inl x \<Rightarrow> Some (Inl x)
      | Inr h \<Rightarrow>
          (let i = HASH_TO_BKT (u_hashv h) n2 in
           case bucket_at nbs i of Inl x \<Rightarrow> Some (Inl x)
           | Inr nb \<Rightarrow>
               (let cnt = b_count nb + 1;
                    over = cnt > ideal;
                    mult = (if over \<and> cnt > b_expand_mult nb * ideal
                            then b_expand_mult nb + 1 else b_expand_mult nb);
                    s1 = set_handle s thh (h\<lparr>u_hh_prev := NULL, u_hh_next := b_head nb\<rparr>)
                in case (if b_head nb \<noteq> NULL then write_hh_prev s1 (b_head nb) thh else Inr s1) of
                     Inl x \<Rightarrow> Some (Inl x)
                   | Inr s2 \<Rightarrow>
                       rehash_chain n2 ideal (u_hh_next h)
                         (nbs[unat i := \<lparr>b_head = thh, b_count = cnt, b_expand_mult = mult\<rparr>])
                         (if over then nonideal + 1 else nonideal) s2)))"

text \<open>The loop over the old buckets.\<close>

fun rehash_all ::
    "u32 \<Rightarrow> u32 \<Rightarrow> ut_bucket list \<Rightarrow> ut_bucket list \<Rightarrow> u32 \<Rightarrow> ut_store \<Rightarrow>
       (ut_bucket list \<times> u32 \<times> ut_store) run" where
  "rehash_all n2 ideal [] nbs nonideal s = Some (Inr (nbs, nonideal, s))"
| "rehash_all n2 ideal (b # bs) nbs nonideal s =
     (case rehash_chain n2 ideal (b_head b) nbs nonideal s of
        None \<Rightarrow> None
      | Some (Inl x) \<Rightarrow> Some (Inl x)
      | Some (Inr (nbs', nonideal', s')) \<Rightarrow> rehash_all n2 ideal bs nbs' nonideal' s')"

definition ideal_chain_maxlen :: "ut_table \<Rightarrow> u32" where
  "ideal_chain_maxlen t =
     drop_bit (unat (t_log2_num_buckets t + 1)) (t_num_items t) +
     (if t_num_items t AND (t_num_buckets t * 2 - 1) \<noteq> 0 then 1 else 0)"

text \<open>
  \<open>mem\<close> says whether the allocation of the new buckets succeeds; when it does not, the
  macro exits the process. The new array has twice as many buckets, counted without
  wrap-around, as the size computation is in \<open>unsigned long\<close>.
\<close>

definition HASH_EXPAND_BUCKETS :: "bool \<Rightarrow> ptr \<Rightarrow> ut_store \<Rightarrow> ut_store run" where
  "HASH_EXPAND_BUCKETS mem tp s =
     (case get_table s tp of Inl x \<Rightarrow> Some (Inl x)
      | Inr t \<Rightarrow>
          if \<not> mem then Some (Inl Exit)
          else if length (t_buckets t) < unat (t_num_buckets t) then Some (Inl OutOfBounds)
          else
            (let n2 = t_num_buckets t * 2; ideal = ideal_chain_maxlen t in
             case rehash_all n2 ideal (take (unat (t_num_buckets t)) (t_buckets t))
                (replicate (2 * unat (t_num_buckets t)) \<lparr>b_head = NULL, b_count = 0, b_expand_mult = 0\<rparr>)
                0 s of
               None \<Rightarrow> None
             | Some (Inl x) \<Rightarrow> Some (Inl x)
             | Some (Inr (nbs, nonideal, s')) \<Rightarrow>
                 (let ineff = (if nonideal > drop_bit 1 (t_num_items t)
                               then t_ineff_expands t + 1 else 0)
                  in Some (Inr (set_table s' tp (t\<lparr>t_ideal_chain_maxlen := ideal,
                       t_nonideal_items := nonideal, t_num_buckets := n2,
                       t_log2_num_buckets := t_log2_num_buckets t + 1, t_buckets := nbs,
                       t_ineff_expands := ineff,
                       t_noexpand := (if ineff > 1 then 1 else t_noexpand t)\<rparr>))))))"

section \<open>HASH_ADD\<close>

text \<open>\<open>HASH_MAKE_TABLE\<close>: \<open>tp\<close> is the address \<open>malloc\<close> returned for the table.\<close>

definition HASH_MAKE_TABLE :: "ptr \<Rightarrow> bool \<Rightarrow> ptr \<Rightarrow> ut_store \<Rightarrow> ut_store res" where
  "HASH_MAKE_TABLE tp mem add s =
     (if tp = NULL \<or> \<not> mem then Inl Exit
      else Inr (set_table s tp
        \<lparr>t_buckets = replicate (unat HASH_INITIAL_NUM_BUCKETS)
           \<lparr>b_head = NULL, b_count = 0, b_expand_mult = 0\<rparr>,
         t_num_buckets = HASH_INITIAL_NUM_BUCKETS,
         t_log2_num_buckets = HASH_INITIAL_NUM_BUCKETS_LOG2,
         t_num_items = 0, t_tail = add, t_ideal_chain_maxlen = 0, t_nonideal_items = 0,
         t_ineff_expands = 0, t_noexpand = 0\<rparr>))"

definition HASH_APPEND_LIST :: "ptr \<Rightarrow> ptr \<Rightarrow> ut_store \<Rightarrow> ut_store res" where
  "HASH_APPEND_LIST tp add s =
     bind_res (get_table s tp) (\<lambda>t.
     bind_res (get_handle s add) (\<lambda>a.
     let s1 = set_handle s add (a\<lparr>u_next := NULL, u_prev := t_tail t\<rparr>) in
     bind_res (write_app_next s1 (t_tail t) add) (\<lambda>s2.
     Inr (set_table s2 tp (t\<lparr>t_tail := add\<rparr>)))))"

definition HASH_ADD_TO_BKT :: "bool \<Rightarrow> ptr \<Rightarrow> u32 \<Rightarrow> ptr \<Rightarrow> ut_store \<Rightarrow> ut_store run" where
  "HASH_ADD_TO_BKT mem tp i add s =
     (case bind_res (get_table s tp) (\<lambda>t.
           bind_res (bucket_at (t_buckets t) i) (\<lambda>b.
           bind_res (get_handle s add) (\<lambda>a.
           let s1 = set_handle s add (a\<lparr>u_hh_next := b_head b, u_hh_prev := NULL\<rparr>) in
           bind_res (if b_head b \<noteq> NULL then write_hh_prev s1 (b_head b) add else Inr s1) (\<lambda>s2.
           let b' = b\<lparr>b_count := b_count b + 1, b_head := add\<rparr> in
           Inr (set_table s2 tp (t\<lparr>t_buckets := (t_buckets t)[unat i := b']\<rparr>),
                b_count b' \<ge> (b_expand_mult b' + 1) * HASH_BKT_CAPACITY_THRESH
                  \<and> t_noexpand t = 0))))) of
        Inl x \<Rightarrow> Some (Inl x)
      | Inr (s3, full) \<Rightarrow> if full then HASH_EXPAND_BUCKETS mem tp s3 else Some (Inr s3))"

definition HASH_ADD_TO_TABLE :: "bool \<Rightarrow> ptr \<Rightarrow> u32 \<Rightarrow> ptr \<Rightarrow> ut_store \<Rightarrow> ut_store run" where
  "HASH_ADD_TO_TABLE mem tp hashval add s =
     (case get_table s tp of Inl x \<Rightarrow> Some (Inl x)
      | Inr t \<Rightarrow> HASH_ADD_TO_BKT mem tp (HASH_TO_BKT hashval (t_num_buckets t)) add
           (set_table s tp (t\<lparr>t_num_items := t_num_items t + 1\<rparr>)))"

text \<open>
  \<open>HASH_ADD\<close> of the element at \<open>add\<close>, whose key has the bytes \<open>key\<close>: the new head
  and store. The element is memory the caller allocated.
\<close>

definition HASH_ADD ::
    "ptr \<Rightarrow> bool \<Rightarrow> ut_store \<Rightarrow> ptr \<Rightarrow> byte list \<Rightarrow> ptr \<Rightarrow> (ptr \<times> ut_store) run" where
  "HASH_ADD tp mem s head key add =
     (if add = NULL then Some (Inl NullDeref)
      else
        let hashval = HASH_JEN key;
            a = \<lparr>u_tbl = NULL, u_prev = NULL, u_next = NULL, u_hh_prev = NULL, u_hh_next = NULL,
                 u_key = key, u_keylen = of_nat (length key), u_hashv = hashval\<rparr>
        in case (if head = NULL then
                   bind_res (HASH_MAKE_TABLE tp mem add (set_handle s add (a\<lparr>u_tbl := tp\<rparr>)))
                     (\<lambda>s1. Inr (add, tp, s1))
                 else
                   bind_res (get_handle s head) (\<lambda>h.
                   bind_res (HASH_APPEND_LIST (u_tbl h) add
                       (set_handle s add (a\<lparr>u_tbl := u_tbl h\<rparr>)))
                     (\<lambda>s1. Inr (head, u_tbl h, s1)))) of
             Inl x \<Rightarrow> Some (Inl x)
           | Inr (head', tp', s1) \<Rightarrow>
               (case HASH_ADD_TO_TABLE mem tp' hashval add s1 of
                  None \<Rightarrow> None
                | Some (Inl x) \<Rightarrow> Some (Inl x)
                | Some (Inr s2) \<Rightarrow> Some (Inr (head', s2))))"

end
