(* ===== verification/Uthash_Rep.thy ===== *)
theory Uthash_Rep
  imports Uthash
begin

text \<open>
  What the client table's macros do to the set of elements a head pointer represents:
  \<open>ut_rep\<close> relates the handles and buckets of a store to the list of elements in insertion
  order, \<open>HASH_FIND\<close> finds exactly the elements of that list, and \<open>HASH_ADD\<close>
  appends one, whether or not it makes the table grow.
\<close>

section \<open>Fields as maps\<close>

definition hhn :: "ut_store \<Rightarrow> ptr \<Rightarrow> ptr option" where
  "hhn s p = map_option u_hh_next (handles s p)"

definition appn :: "ut_store \<Rightarrow> ptr \<Rightarrow> ptr option" where
  "appn s p = map_option u_next (handles s p)"

definition hhp :: "ut_store \<Rightarrow> ptr \<Rightarrow> ptr option" where
  "hhp s p = map_option u_hh_prev (handles s p)"

definition appp :: "ut_store \<Rightarrow> ptr \<Rightarrow> ptr option" where
  "appp s p = map_option u_prev (handles s p)"

lemma get_handle_eq [heap_simps]:
  "p \<noteq> NULL \<Longrightarrow> handles s p = Some h \<Longrightarrow> get_handle s p = Inr h"
  by (simp add: get_handle_def)

lemma get_table_eq [heap_simps]:
  "p \<noteq> NULL \<Longrightarrow> tables s p = Some t \<Longrightarrow> get_table s p = Inr t"
  by (simp add: get_table_def)

lemma handles_set_handle [simp]: "handles (set_handle s p h) = (handles s)(p \<mapsto> h)"
  and tables_set_handle [simp]: "tables (set_handle s p h) = tables s"
  and handles_set_table [simp]: "handles (set_table s p t) = handles s"
  and tables_set_table [simp]: "tables (set_table s p t) = (tables s)(p \<mapsto> t)"
  by (simp_all add: set_handle_def set_table_def)

lemma set_handle_twice [simp]: "set_handle (set_handle s p h) p h' = set_handle s p h'"
  by (simp add: set_handle_def)

lemma hhn_set_handle [simp]: "hhn (set_handle s p h) = (hhn s)(p \<mapsto> u_hh_next h)"
  and appn_set_handle [simp]: "appn (set_handle s p h) = (appn s)(p \<mapsto> u_next h)"
  and hhn_set_table [simp]: "hhn (set_table s p t) = hhn s"
  and appn_set_table [simp]: "appn (set_table s p t) = appn s"
  and hhp_set_handle [simp]: "hhp (set_handle s p h) = (hhp s)(p \<mapsto> u_hh_prev h)"
  and appp_set_handle [simp]: "appp (set_handle s p h) = (appp s)(p \<mapsto> u_prev h)"
  and hhp_set_table [simp]: "hhp (set_table s p t) = hhp s"
  and appp_set_table [simp]: "appp (set_table s p t) = appp s"
  by (auto simp: hhn_def appn_def hhp_def appp_def fun_eq_iff)

lemma ut_fields_at:
  assumes "handles s p = Some h"
  shows "hhn s p = Some (u_hh_next h)" "hhp s p = Some (u_hh_prev h)"
    "appn s p = Some (u_next h)" "appp s p = Some (u_prev h)"
  using assms by (simp_all add: hhn_def hhp_def appn_def appp_def)

text \<open>A handle without its links in a bucket: what re-linking the buckets leaves alone.\<close>

definition core :: "ut_handle \<Rightarrow> ut_handle" where
  "core h = h\<lparr>u_hh_prev := NULL, u_hh_next := NULL\<rparr>"

definition cores_eq :: "ut_store \<Rightarrow> ut_store \<Rightarrow> bool" where
  "cores_eq s s' \<longleftrightarrow> (\<forall>p. map_option core (handles s' p) = map_option core (handles s p))"

definition same_cores :: "ut_store \<Rightarrow> ut_store \<Rightarrow> bool" where
  "same_cores s s' \<longleftrightarrow> cores_eq s s' \<and> tables s' = tables s"

lemma cores_eq_refl [simp]: "cores_eq s s"
  by (simp add: cores_eq_def)

lemma cores_eq_trans: "cores_eq s s' \<Longrightarrow> cores_eq s' s'' \<Longrightarrow> cores_eq s s''"
  by (simp add: cores_eq_def)

lemma cores_eq_set_table [simp]:
  "cores_eq (set_table s tp t) s' = cores_eq s s'" "cores_eq s (set_table s' tp t) = cores_eq s s'"
  by (simp_all add: cores_eq_def)

lemma same_cores_cores: "same_cores s s' \<Longrightarrow> cores_eq s s'"
  by (simp add: same_cores_def)

lemma same_cores_refl [simp]: "same_cores s s"
  by (simp add: same_cores_def)

lemma same_cores_trans: "same_cores s s' \<Longrightarrow> same_cores s' s'' \<Longrightarrow> same_cores s s''"
  by (auto simp: same_cores_def intro: cores_eq_trans)

lemma same_cores_tables: "same_cores s s' \<Longrightarrow> tables s' = tables s"
  by (simp add: same_cores_def)

lemma cores_eq_handle:
  assumes "cores_eq s s'" and "handles s p = Some h"
  obtains h' where "handles s' p = Some h'" and "core h' = core h"
proof -
  from assms have "map_option core (handles s' p) = Some (core h)"
    by (simp add: cores_eq_def)
  then show thesis using that by (auto simp: map_option_eq_Some)
qed

lemma core_fields:
  assumes "core h' = core h"
  shows "u_tbl h' = u_tbl h" "u_prev h' = u_prev h" "u_next h' = u_next h"
    "u_key h' = u_key h" "u_keylen h' = u_keylen h" "u_hashv h' = u_hashv h"
  using assms by (cases h; cases h'; simp add: core_def)+

lemma cores_eq_field:
  assumes "cores_eq s s'" and "\<And>h. f (core h) = f h"
  shows "map_option f (handles s' p) = map_option f (handles s p)"
proof -
  have *: "map_option f x = map_option f (map_option core x)" for x
    using assms(2) by (cases x) simp_all
  show ?thesis using assms(1) by (subst (1 2) *) (simp add: cores_eq_def)
qed

lemma cores_eq_appn: "cores_eq s s' \<Longrightarrow> appn s' = appn s"
  and cores_eq_appp: "cores_eq s s' \<Longrightarrow> appp s' = appp s"
  by (auto simp: fun_eq_iff appn_def appp_def core_def intro!: cores_eq_field)

lemma same_cores_relink:
  assumes "handles s p = Some h"
  shows "same_cores s (set_handle s p (h\<lparr>u_hh_prev := x, u_hh_next := y\<rparr>))"
  using assms by (auto simp: same_cores_def cores_eq_def core_def)

text \<open>Writing the back link of a bucket's first element.\<close>

lemma write_hh_prev_ok:
  assumes "p \<noteq> NULL \<Longrightarrow> p \<in> dom (handles s)"
  obtains s' where "(if p \<noteq> NULL then write_hh_prev s p q else Inr s) = Inr s'"
    and "same_cores s s'" and "hhn s' = hhn s" and "hhp s' = (if p \<noteq> NULL then (hhp s)(p \<mapsto> q) else hhp s)"
proof (cases "p = NULL")
  case True
  then show thesis using that [of s] by simp
next
  case False
  with assms obtain h where h: "handles s p = Some h" by blast
  have "write_hh_prev s p q = Inr (set_handle s p (h\<lparr>u_hh_prev := q\<rparr>))"
    using False h by (simp add: write_hh_prev_def get_handle_def)
  moreover have "same_cores s (set_handle s p (h\<lparr>u_hh_prev := q\<rparr>))"
    using h by (auto simp: same_cores_def cores_eq_def core_def)
  moreover have "hhn (set_handle s p (h\<lparr>u_hh_prev := q\<rparr>)) = hhn s"
    using h by (auto simp: hhn_def)
  moreover have "hhp (set_handle s p (h\<lparr>u_hh_prev := q\<rparr>)) = (if p \<noteq> NULL then (hhp s)(p \<mapsto> q) else hhp s)"
    using False by simp
  ultimately show thesis using that False by metis
qed

lemma hhn_dom: "dom (hhn s) = dom (handles s)"
  by (auto simp: hhn_def)

text \<open>The first element of a non-empty chain, with its handle.\<close>

lemma nchain_hhn_Cons:
  assumes "nchain (hhn s) out (p # cs)"
  obtains h where "out = p" "p \<noteq> NULL" "handles s p = Some h" "nchain (hhn s) (u_hh_next h) cs"
proof -
  from assms obtain r where r: "out = p" "p \<noteq> NULL" "hhn s p = Some r" "nchain (hhn s) r cs"
    by auto
  then obtain h where "handles s p = Some h" "u_hh_next h = r"
    by (auto simp: hhn_def)
  with r that show thesis by blast
qed

lemma nchain_appn_Cons:
  assumes "nchain (appn s) out (p # cs)"
  obtains h where "out = p" "p \<noteq> NULL" "handles s p = Some h" "nchain (appn s) (u_next h) cs"
proof -
  from assms obtain r where r: "out = p" "p \<noteq> NULL" "appn s p = Some r" "nchain (appn s) r cs"
    by auto
  then obtain h where "handles s p = Some h" "u_next h = r"
    by (auto simp: appn_def)
  with r that show thesis by blast
qed

lemma nchain_hhn_handle:
  assumes "nchain (hhn s) p as" and "a \<in> set as"
  obtains h where "handles s a = Some h"
  using chain_dom [OF assms(1)] assms(2) by (auto simp: hhn_dom)

section \<open>Rehashing\<close>

text \<open>The bucket an element belongs to, in a table of \<open>n\<close> buckets.\<close>

definition bkt_of :: "ut_store \<Rightarrow> u32 \<Rightarrow> ptr \<Rightarrow> nat" where
  "bkt_of s n p = (case handles s p of Some h \<Rightarrow> unat (HASH_TO_BKT (u_hashv h) n) | None \<Rightarrow> 0)"

lemma bkt_of_cores_eq:
  assumes "cores_eq s s'" shows "bkt_of s' n p = bkt_of s n p"
proof (cases "handles s p")
  case None
  with assms have "map_option core (handles s' p) = None" by (simp add: cores_eq_def)
  with None show ?thesis by (simp add: bkt_of_def)
next
  case (Some h)
  then obtain h' where h': "handles s' p = Some h'" "core h' = core h"
    using cores_eq_handle [OF assms] by blast
  with Some show ?thesis by (simp add: bkt_of_def core_fields(6) [OF h'(2)])
qed

text \<open>A bucket holds a chain: its first element, the links in both directions, and the count.\<close>

definition bucket_holds :: "ut_store \<Rightarrow> ut_bucket \<Rightarrow> ptr list \<Rightarrow> bool" where
  "bucket_holds s b cs \<longleftrightarrow>
     nchain (hhn s) (b_head b) cs \<and> backs (hhp s) NULL cs \<and> b_count b = of_nat (length cs)"

definition buckets_hold :: "ut_store \<Rightarrow> ut_bucket list \<Rightarrow> (nat \<Rightarrow> ptr list) \<Rightarrow> bool" where
  "buckets_hold s bs css \<longleftrightarrow> (\<forall>j < length bs. bucket_holds s (bs ! j) (css j))"

lemma bucket_holds_frame:
  assumes "bucket_holds s b cs" and "\<And>a. a \<in> set cs \<Longrightarrow> hhn s' a = hhn s a"
    and "\<And>a. a \<in> set cs \<Longrightarrow> hhp s' a = hhp s a"
  shows "bucket_holds s' b cs"
  using assms chain_cong [of cs "hhn s'" "hhn s"] backs_cong [of cs "hhp s'" "hhp s"]
  by (simp add: bucket_holds_def)

text \<open>Chains of different buckets have no element in common.\<close>

definition apart :: "nat \<Rightarrow> (nat \<Rightarrow> ptr list) \<Rightarrow> bool" where
  "apart n css \<longleftrightarrow> (\<forall>i < n. \<forall>j < n. i \<noteq> j \<longrightarrow> set (css i) \<inter> set (css j) = {})"

lemma apart_push:
  assumes "apart n css" and "\<And>j. j < n \<Longrightarrow> p \<notin> set (css j)"
  shows "apart n (css(i := p # css i))"
  using assms by (fastforce simp: apart_def)

lemma apart_sub:
  assumes "\<And>j. j < n \<Longrightarrow> set (css j) \<subseteq> {p. g p = j}"
  shows "apart n css"
  unfolding apart_def
proof (intro allI impI)
  fix i j assume "i < n" "j < n" "i \<noteq> j"
  with assms [of i] assms [of j] show "set (css i) \<inter> set (css j) = {}" by auto
qed

lemma apart_by:
  assumes "\<And>j. j < n \<Longrightarrow> set (css j) = {p \<in> set es. g p = j}"
  shows "apart n css"
  by (rule apart_sub [of _ _ g]) (auto simp: assms)

text \<open>One element moved to the front of its new bucket.\<close>

lemma push_front:
  assumes bs: "buckets_hold s bs css" and i: "i < length bs" and ap: "apart (length bs) css"
    and p: "handles s p = Some h" "p \<noteq> NULL" and new: "\<And>j. j < length bs \<Longrightarrow> p \<notin> set (css j)"
  obtains s2 where
    "(if b_head (bs ! i) \<noteq> NULL
      then write_hh_prev (set_handle s p (h\<lparr>u_hh_prev := NULL, u_hh_next := b_head (bs ! i)\<rparr>)) (b_head (bs ! i)) p
      else Inr (set_handle s p (h\<lparr>u_hh_prev := NULL, u_hh_next := b_head (bs ! i)\<rparr>))) = Inr s2"
    and "same_cores s s2"
    and "hhn s2 = (hhn s)(p \<mapsto> b_head (bs ! i))"
    and "\<And>m. buckets_hold s2 (bs[i := \<lparr>b_head = p, b_count = b_count (bs ! i) + 1, b_expand_mult = m\<rparr>])
           (css(i := p # css i))"
proof -
  let ?s1 = "set_handle s p (h\<lparr>u_hh_prev := NULL, u_hh_next := b_head (bs ! i)\<rparr>)"
  let ?f = "b_head (bs ! i)"
  have bi: "nchain (hhn s) ?f (css i)" "backs (hhp s) NULL (css i)" "b_count (bs ! i) = of_nat (length (css i))"
    using bs i by (simp_all add: buckets_hold_def bucket_holds_def)
  have di: "distinct (css i)" using bi(1) by (rule nchain_distinct)
  have f: "?f = (if css i = [] then NULL else hd (css i))" using chain_hd [OF bi(1)] .
  have f0: "?f \<noteq> NULL \<longleftrightarrow> css i \<noteq> []" using bi(1) by (cases "css i") auto
  have "?f \<in> dom (handles ?s1)" if "?f \<noteq> NULL"
  proof -
    have "?f \<in> set (css i)" using that f0 f by simp
    with chain_dom [OF bi(1)] show ?thesis by (auto simp: hhn_dom)
  qed
  then obtain s2 where s2: "(if ?f \<noteq> NULL then write_hh_prev ?s1 ?f p else Inr ?s1) = Inr s2"
    "same_cores ?s1 s2" "hhn s2 = hhn ?s1" "hhp s2 = (if ?f \<noteq> NULL then (hhp ?s1)(?f \<mapsto> p) else hhp ?s1)"
    by (rule write_hh_prev_ok) blast
  have hh: "hhn s2 = (hhn s)(p \<mapsto> ?f)" using s2(3) by simp
  have pf: "?f \<noteq> p \<or> css i = []" using f new [OF i] by auto
  have hp: "hhp s2 = (if css i = [] then hhp s else (hhp s)(hd (css i) \<mapsto> p))(p \<mapsto> NULL)"
  proof (cases "css i = []")
    case True
    with s2(4) f0 show ?thesis by simp
  next
    case False
    with s2(4) f0 f pf show ?thesis by (simp add: fun_upd_twist)
  qed
  have old: "bucket_holds s2 (bs ! j) (css j)" if j: "j < length bs" "j \<noteq> i" for j
  proof (rule bucket_holds_frame)
    show "bucket_holds s (bs ! j) (css j)" using bs j by (simp add: buckets_hold_def)
    fix a assume a: "a \<in> set (css j)"
    with new [OF j(1)] have "a \<noteq> p" by auto
    moreover have "a \<noteq> hd (css i)" if "css i \<noteq> []"
      using ap a i j hd_in_set [OF that] by (fastforce simp: apart_def)
    ultimately show "hhn s2 a = hhn s a" "hhp s2 a = hhp s a" by (simp_all add: hh hp)
  qed
  have "nchain (hhn s2) p (p # css i)" using bi(1) p(2) new [OF i] hh by simp
  moreover have "backs (hhp s2) NULL (p # css i)"
    unfolding hp using backs_push [OF bi(2) new [OF i] di] .
  ultimately have "bucket_holds s2 \<lparr>b_head = p, b_count = b_count (bs ! i) + 1, b_expand_mult = m\<rparr> (p # css i)" for m
    using bi(3) by (simp add: bucket_holds_def add.commute)
  with old i have "buckets_hold s2 (bs[i := \<lparr>b_head = p, b_count = b_count (bs ! i) + 1, b_expand_mult = m\<rparr>])
           (css(i := p # css i))" for m
    by (auto simp: buckets_hold_def nth_list_update)
  moreover have "same_cores s s2"
    using same_cores_trans [OF same_cores_relink [OF p(1)] s2(2)] .
  ultimately show thesis using that s2(1) hh by blast
qed

text \<open>A whole chain moved: the new chains hold its elements in reverse order, in front.\<close>

definition rehashed :: "ut_store \<Rightarrow> u32 \<Rightarrow> ptr list \<Rightarrow> (nat \<Rightarrow> ptr list) \<Rightarrow> nat \<Rightarrow> ptr list" where
  "rehashed s n cs css = (\<lambda>j. rev (filter (\<lambda>p. bkt_of s n p = j) cs) @ css j)"

lemma rehashed_Nil [simp]: "rehashed s n [] css = css"
  by (simp add: rehashed_def)

lemma rehashed_Cons:
  "rehashed s n (p # cs) css = rehashed s n cs (css(bkt_of s n p := p # css (bkt_of s n p)))"
  by (auto simp: rehashed_def fun_eq_iff)

lemma rehashed_append: "rehashed s n (as @ bs) css = rehashed s n bs (rehashed s n as css)"
  by (auto simp: rehashed_def fun_eq_iff)

lemma rehashed_cong: "same_cores s s' \<Longrightarrow> rehashed s' n cs css = rehashed s n cs css"
  by (simp add: rehashed_def bkt_of_cores_eq [OF same_cores_cores])

lemma set_rehashed: "set (rehashed s n cs css j) = {p \<in> set cs. bkt_of s n p = j} \<union> set (css j)"
  by (auto simp: rehashed_def)

lemma rehash_chain_ok:
  assumes "nchain (hhn s) thh cs" and "k < 32" and "length bs = 2 ^ k" and "buckets_hold s bs css"
    and "\<And>j. j < 2 ^ k \<Longrightarrow> set cs \<inter> set (css j) = {}" and "apart (2 ^ k) css"
  shows "\<exists>bs' non' s'. rehash_chain (2 ^ k) ideal thh bs non s = Some (Inr (bs', non', s'))
     \<and> length bs' = 2 ^ k \<and> same_cores s s' \<and> buckets_hold s' bs' (rehashed s (2 ^ k) cs css)
     \<and> (\<forall>p. p \<notin> set cs \<longrightarrow> hhn s' p = hhn s p)"
  using assms
proof (induction cs arbitrary: thh bs css non s)
  case Nil
  then show ?case by (subst rehash_chain.simps) simp
next
  case (Cons p cs)
  from Cons.prems(1) obtain h where h: "thh = p" "p \<noteq> NULL" "handles s p = Some h"
      "nchain (hhn s) (u_hh_next h) cs"
    by (rule nchain_hhn_Cons)
  have fresh: "p \<notin> set cs" using nchain_distinct [OF Cons.prems(1)] by simp
  define i where "i = bkt_of s (2 ^ k) p"
  have i: "unat (HASH_TO_BKT (u_hashv h) (2 ^ k)) = i"
    using h by (simp add: i_def bkt_of_def)
  have il: "i < length bs"
    using HASH_TO_BKT_bound [OF Cons.prems(2), of "u_hashv h"] i Cons.prems(3) by simp
  have new: "p \<notin> set (css j)" if "j < length bs" for j
    using Cons.prems(5) [of j] that Cons.prems(3) by auto
  let ?s1 = "set_handle s p (h\<lparr>u_hh_prev := NULL, u_hh_next := b_head (bs ! i)\<rparr>)"
  obtain s2 where s2: "(if b_head (bs ! i) \<noteq> NULL then write_hh_prev ?s1 (b_head (bs ! i)) p else Inr ?s1) = Inr s2"
    "same_cores s s2" "hhn s2 = (hhn s)(p \<mapsto> b_head (bs ! i))"
    "\<And>m. buckets_hold s2 (bs[i := \<lparr>b_head = p, b_count = b_count (bs ! i) + 1, b_expand_mult = m\<rparr>])
           (css(i := p # css i))"
    using push_front [OF Cons.prems(4) il _ h(3) h(2) new] Cons.prems(3,6) by auto
  define m where "m = (if b_count (bs ! i) + 1 > ideal
      \<and> b_count (bs ! i) + 1 > b_expand_mult (bs ! i) * ideal
      then b_expand_mult (bs ! i) + 1 else b_expand_mult (bs ! i))"
  let ?bs = "bs[i := \<lparr>b_head = p, b_count = b_count (bs ! i) + 1, b_expand_mult = m\<rparr>]"
  let ?non = "if b_count (bs ! i) + 1 > ideal then non + 1 else non"
  have step: "rehash_chain (2 ^ k) ideal thh bs non s
      = rehash_chain (2 ^ k) ideal (u_hh_next h) ?bs ?non s2"
  proof -
    have "(p = NULL) = False" "get_handle s p = Inr h"
      using h(2,3) by (simp_all add: heap_simps)
    moreover have "bucket_at bs (HASH_TO_BKT (u_hashv h) (2 ^ k)) = Inr (bs ! i)"
      using il i by (simp add: bucket_at_def)
    ultimately show ?thesis
      unfolding h(1) by (subst rehash_chain.simps) (simp only: if_False sum.case Let_def s2(1) i m_def)
  qed
  have ch: "nchain (hhn s2) (u_hh_next h) cs" using h(4) fresh s2(3) by simp
  have dj: "set cs \<inter> set ((css(i := p # css i)) j) = {}" if "j < 2 ^ k" for j
    using Cons.prems(5) [OF that] fresh by auto
  have lb: "length ?bs = 2 ^ k" using Cons.prems(3) by simp
  have "apart (2 ^ k) (css(i := p # css i))"
    using apart_push [OF Cons.prems(6)] new Cons.prems(3) by simp
  note ap = this
  obtain bs' non' s' where *:
    "rehash_chain (2 ^ k) ideal (u_hh_next h) ?bs ?non s2 = Some (Inr (bs', non', s'))"
    "length bs' = 2 ^ k" "same_cores s2 s'"
    "buckets_hold s' bs' (rehashed s2 (2 ^ k) cs (css(i := p # css i)))"
    "\<forall>q. q \<notin> set cs \<longrightarrow> hhn s' q = hhn s2 q"
    using Cons.IH [OF ch Cons.prems(2) lb s2(4) dj ap, of ?non] by blast
  have "buckets_hold s' bs' (rehashed s (2 ^ k) (p # cs) css)"
    using *(4) by (simp add: rehashed_Cons rehashed_cong [OF s2(2)] i_def)
  moreover have "\<forall>q. q \<notin> set (p # cs) \<longrightarrow> hhn s' q = hhn s q"
    using *(5) s2(3) by simp
  ultimately show ?case
    using step * same_cores_trans [OF s2(2) *(3)] by auto
qed

text \<open>All the old chains, one after the other.\<close>

lemma rehash_all_ok:
  assumes "length obs = length ocs" and "\<And>b cs. (b, cs) \<in> set (zip obs ocs) \<Longrightarrow> nchain (hhn s) (b_head b) cs"
    and "distinct (concat ocs)"
    and "k < 32" and "length bs = 2 ^ k" and "buckets_hold s bs css"
    and "\<And>j. j < 2 ^ k \<Longrightarrow> set (concat ocs) \<inter> set (css j) = {}"
    and "\<And>j. j < 2 ^ k \<Longrightarrow> set (css j) \<subseteq> {p. bkt_of s (2 ^ k) p = j}"
  shows "\<exists>bs' non' s'. rehash_all (2 ^ k) ideal obs bs non s = Some (Inr (bs', non', s'))
     \<and> length bs' = 2 ^ k \<and> same_cores s s' \<and> buckets_hold s' bs' (rehashed s (2 ^ k) (concat ocs) css)"
  using assms
proof (induction obs ocs arbitrary: bs css non s rule: list_induct2)
  case Nil
  then show ?case by simp
next
  case (Cons b obs c ocs)
  have ch: "nchain (hhn s) (b_head b) c" using Cons.prems(1) by simp
  have "set c \<inter> set (css j) = {}" if "j < 2 ^ k" for j
    using Cons.prems(6) [OF that] by auto
  moreover have "apart (2 ^ k) css" by (intro apart_sub [of _ _ "bkt_of s (2 ^ k)"] Cons.prems(7))
  ultimately obtain bs1 non1 s1 where 1:
    "rehash_chain (2 ^ k) ideal (b_head b) bs non s = Some (Inr (bs1, non1, s1))"
    "length bs1 = 2 ^ k" "same_cores s s1" "buckets_hold s1 bs1 (rehashed s (2 ^ k) c css)"
    "\<forall>p. p \<notin> set c \<longrightarrow> hhn s1 p = hhn s p"
    using rehash_chain_ok [OF ch Cons.prems(3,4,5), of ideal non] by blast
  have chs: "nchain (hhn s1) (b_head b') c'" if "(b', c') \<in> set (zip obs ocs)" for b' c'
  proof -
    have "nchain (hhn s) (b_head b') c'" using that Cons.prems(1) by simp
    moreover have "set c \<inter> set c' = {}"
      using set_zip_rightD [OF that] Cons.prems(2) by auto
    then have "hhn s1 a = hhn s a" if "a \<in> set c'" for a using 1(5) that by auto
    from chain_cong [of c', OF this] have "nchain (hhn s1) (b_head b') c' = nchain (hhn s) (b_head b') c'"
      by simp
    ultimately show ?thesis by simp
  qed
  have "set (concat ocs) \<inter> set (rehashed s (2 ^ k) c css j) = {}" if "j < 2 ^ k" for j
    using Cons.prems(6) [OF that] Cons.prems(2) by (auto simp: set_rehashed)
  moreover have "set (rehashed s (2 ^ k) c css j) \<subseteq> {p. bkt_of s1 (2 ^ k) p = j}" if "j < 2 ^ k" for j
    using Cons.prems(7) [OF that] by (auto simp: set_rehashed bkt_of_cores_eq [OF same_cores_cores [OF 1(3)]])
  ultimately obtain bs' non' s' where 2:
    "rehash_all (2 ^ k) ideal obs bs1 non1 s1 = Some (Inr (bs', non', s'))"
    "length bs' = 2 ^ k" "same_cores s1 s'"
    "buckets_hold s' bs' (rehashed s1 (2 ^ k) (concat ocs) (rehashed s (2 ^ k) c css))"
    using Cons.IH [OF chs _ Cons.prems(3) 1(2,4), of non1] Cons.prems(2) by auto
  have "buckets_hold s' bs' (rehashed s (2 ^ k) (concat (c # ocs)) css)"
    using 2(4) by (simp add: rehashed_append rehashed_cong [OF 1(3)])
  then show ?case using 1(1) 2 same_cores_trans [OF 1(3) 2(3)] by auto
qed

section \<open>The table\<close>

text \<open>
  The buckets hold every element of \<open>es\<close> exactly once, each in the bucket its hash value
  selects; the number of buckets is \<open>2 ^ k\<close>.
\<close>

definition ut_table_ok ::
    "ut_store \<Rightarrow> ut_table \<Rightarrow> nat \<Rightarrow> ptr list \<Rightarrow> (nat \<Rightarrow> ptr list) \<Rightarrow> bool" where
  "ut_table_ok s t k es css \<longleftrightarrow>
     k < 32 \<and> t_num_buckets t = 2 ^ k \<and> t_log2_num_buckets t = of_nat k \<and>
     length (t_buckets t) = 2 ^ k \<and> buckets_hold s (t_buckets t) css \<and>
     (\<forall>j < 2 ^ k. set (css j) = {p \<in> set es. bkt_of s (2 ^ k) p = j})"

lemma buckets_hold_distinct:
  assumes "buckets_hold s bs css" and "n \<le> length bs"
    and "\<And>j. j < n \<Longrightarrow> set (css j) = {p \<in> set es. g p = j}"
  shows "distinct (concat (map css [0..<n]))"
  using assms
proof (induction n)
  case 0
  then show ?case by simp
next
  case (Suc n)
  have "distinct (css n)"
    using Suc.prems(1,2) nchain_distinct [of "hhn s" "b_head (bs ! n)" "css n"]
    by (simp add: buckets_hold_def bucket_holds_def)
  moreover have "set (css n) \<inter> set (concat (map css [0..<n])) = {}"
    using Suc.prems(3) by fastforce
  ultimately show ?case using Suc by auto
qed

lemma bkt_of_bound: "k < 32 \<Longrightarrow> bkt_of s (2 ^ k) p < 2 ^ k"
  by (auto simp: bkt_of_def HASH_TO_BKT_bound split: option.splits)

lemma HASH_EXPAND_BUCKETS_ok:
  assumes t: "tables s tp = Some t" "tp \<noteq> NULL" and ok: "ut_table_ok s t k es css" and k: "k < 31"
  shows "\<exists>s1 t' css'. HASH_EXPAND_BUCKETS True tp s = Some (Inr (set_table s1 tp t'))
     \<and> same_cores s s1 \<and> ut_table_ok s1 t' (Suc k) es css'
     \<and> t_tail t' = t_tail t \<and> t_num_items t' = t_num_items t"
proof -
  have nb: "t_num_buckets t = 2 ^ k" and ln: "length (t_buckets t) = 2 ^ k"
    and bh: "buckets_hold s (t_buckets t) css"
    and st: "\<And>j. j < 2 ^ k \<Longrightarrow> set (css j) = {p \<in> set es. bkt_of s (2 ^ k) p = j}"
    using ok by (auto simp: ut_table_ok_def)
  have un: "unat (t_num_buckets t) = 2 ^ k" using k nb by (simp add: unat_exp32)
  let ?ocs = "map css [0..<2 ^ k]"
  let ?e = "\<lparr>b_head = NULL, b_count = 0, b_expand_mult = 0\<rparr>"
  let ?nbs = "replicate (2 ^ Suc k) ?e"
  have all: "set (concat ?ocs) = set es"
    using st bkt_of_bound [of k s] k by auto
  have 1: "length (t_buckets t) = length ?ocs" using ln by simp
  have 2: "nchain (hhn s) (b_head b) cs" if "(b, cs) \<in> set (zip (t_buckets t) ?ocs)" for b cs
    using that bh ln by (auto simp: set_zip buckets_hold_def bucket_holds_def)
  have 3: "distinct (concat ?ocs)"
    using buckets_hold_distinct [OF bh _ st] ln by simp
  have 4: "buckets_hold s ?nbs (\<lambda>_. [])"
    by (simp add: buckets_hold_def bucket_holds_def)
  obtain bs' non' s' where r:
    "rehash_all (2 ^ Suc k) (ideal_chain_maxlen t) (t_buckets t) ?nbs 0 s = Some (Inr (bs', non', s'))"
    "length bs' = 2 ^ Suc k" "same_cores s s'"
    "buckets_hold s' bs' (rehashed s (2 ^ Suc k) (concat ?ocs) (\<lambda>_. []))"
    using rehash_all_ok [OF 1 2 3, of "Suc k" ?nbs "\<lambda>_. []" "ideal_chain_maxlen t" 0] k 4 by auto
  let ?ineff = "if non' > drop_bit 1 (t_num_items t) then t_ineff_expands t + 1 else 0"
  let ?t' = "t\<lparr>t_ideal_chain_maxlen := ideal_chain_maxlen t,
       t_nonideal_items := non', t_num_buckets := 2 ^ Suc k,
       t_log2_num_buckets := t_log2_num_buckets t + 1, t_buckets := bs',
       t_ineff_expands := ?ineff,
       t_noexpand := (if ?ineff > 1 then 1 else t_noexpand t)\<rparr>"
  have len: "2 * unat (t_num_buckets t) = 2 ^ Suc k" using un by simp
  have n2: "t_num_buckets t * 2 = 2 ^ Suc k" using nb by simp
  have lt: "(length (t_buckets t) < unat (t_num_buckets t)) = False"
    "take (unat (t_num_buckets t)) (t_buckets t) = t_buckets t" using un ln by simp_all
  have "HASH_EXPAND_BUCKETS True tp s = Some (Inr (set_table s' tp ?t'))"
    unfolding HASH_EXPAND_BUCKETS_def get_table_eq [OF t(2) t(1)]
    by (simp only: sum.case not_True_eq_False if_False lt Let_def len n2 r(1) option.case prod.case)
  moreover have "ut_table_ok s' ?t' (Suc k) es (rehashed s (2 ^ Suc k) (concat ?ocs) (\<lambda>_. []))"
    using ok k r(2,4) all
    by (simp add: ut_table_ok_def set_rehashed bkt_of_cores_eq [OF same_cores_cores [OF r(3)]] add.commute)
  ultimately show ?thesis using r(3) by (intro exI conjI) (assumption | simp)+
qed

lemma ut_table_ok_cong:
  assumes "ut_table_ok s t k es css" and "t_num_buckets t' = t_num_buckets t"
    and "t_log2_num_buckets t' = t_log2_num_buckets t" and "t_buckets t' = t_buckets t"
  shows "ut_table_ok s t' k es css"
  using assms by (simp add: ut_table_ok_def)

lemma hhn_eq_frame:
  assumes "hhn s' = hhn s" "hhp s' = hhp s" shows "buckets_hold s' bs css = buckets_hold s bs css"
  using assms by (simp add: buckets_hold_def bucket_holds_def)

lemma ut_table_ok_set_table [simp]: "ut_table_ok (set_table s tp t') t k es css = ut_table_ok s t k es css"
  by (simp add: ut_table_ok_def hhn_eq_frame [of "set_table s tp t'" s] bkt_of_cores_eq [of s "set_table s tp t'"])

text \<open>An element added to its bucket, the table growing when the bucket is full.\<close>

lemma HASH_ADD_TO_BKT_ok:
  assumes t: "tables s tp = Some t" "tp \<noteq> NULL" and ok: "ut_table_ok s t k es css" and k: "k < 31"
    and a: "handles s add = Some a" "add \<noteq> NULL" "add \<notin> set es"
  shows "\<exists>s1 t' k' css'. HASH_ADD_TO_BKT True tp (HASH_TO_BKT (u_hashv a) (2 ^ k)) add s
       = Some (Inr (set_table s1 tp t'))
     \<and> cores_eq s s1 \<and> k \<le> k' \<and> k' \<le> Suc k \<and> ut_table_ok s1 t' k' (es @ [add]) css'
     \<and> t_tail t' = t_tail t \<and> t_num_items t' = t_num_items t
     \<and> (\<forall>p. p \<noteq> tp \<longrightarrow> tables s1 p = tables s p)"
proof -
  define i where "i = bkt_of s (2 ^ k) add"
  have i: "unat (HASH_TO_BKT (u_hashv a) (2 ^ k)) = i" using a by (simp add: i_def bkt_of_def)
  have bh: "buckets_hold s (t_buckets t) css" and ln: "length (t_buckets t) = 2 ^ k"
    and st: "\<And>j. j < 2 ^ k \<Longrightarrow> set (css j) = {p \<in> set es. bkt_of s (2 ^ k) p = j}"
    using ok by (simp_all add: ut_table_ok_def)
  have il: "i < length (t_buckets t)" using bkt_of_bound [of k s add] k ln by (simp add: i_def)
  let ?b = "t_buckets t ! i"
  have new: "add \<notin> set (css j)" if "j < length (t_buckets t)" for j
    using st that ln a(3) by simp
  let ?s1 = "set_handle s add (a\<lparr>u_hh_next := b_head ?b, u_hh_prev := NULL\<rparr>)"
  have s1: "?s1 = set_handle s add (a\<lparr>u_hh_prev := NULL, u_hh_next := b_head ?b\<rparr>)" by (cases a) simp
  obtain s2 where s2: "(if b_head ?b \<noteq> NULL then write_hh_prev ?s1 (b_head ?b) add else Inr ?s1) = Inr s2"
    "same_cores s s2"
    "\<And>m. buckets_hold s2 ((t_buckets t)[i := \<lparr>b_head = add, b_count = b_count ?b + 1, b_expand_mult = m\<rparr>])
           (css(i := add # css i))"
    unfolding s1 using push_front [OF bh il apart_by [of _ css, OF st] a(1,2) new] ln by simp blast
  define b' where "b' = ?b\<lparr>b_count := b_count ?b + 1, b_head := add\<rparr>"
  let ?t1 = "t\<lparr>t_buckets := (t_buckets t)[i := b']\<rparr>"
  let ?full = "b_count b' \<ge> (b_expand_mult b' + 1) * HASH_BKT_CAPACITY_THRESH \<and> t_noexpand t = 0"
  have b': "b' = \<lparr>b_head = add, b_count = b_count ?b + 1, b_expand_mult = b_expand_mult ?b\<rparr>"
    by (simp add: b'_def)
  have gt: "get_table s tp = Inr t" "get_handle s add = Inr a"
    "bucket_at (t_buckets t) (HASH_TO_BKT (u_hashv a) (2 ^ k)) = Inr ?b"
    using t a il i by (simp_all add: get_table_def get_handle_def bucket_at_def)
  have run: "HASH_ADD_TO_BKT True tp (HASH_TO_BKT (u_hashv a) (2 ^ k)) add s =
      (if ?full then HASH_EXPAND_BUCKETS True tp (set_table s2 tp ?t1) else Some (Inr (set_table s2 tp ?t1)))"
    unfolding HASH_ADD_TO_BKT_def gt bind_res_Inr
    unfolding Let_def s2(1) bind_res_Inr i b'_def [symmetric] by simp
  have ok1: "ut_table_ok s2 ?t1 k (es @ [add]) (css(i := add # css i))"
    using ok s2(3) [of "b_expand_mult ?b"] ln st il
    by (auto simp: ut_table_ok_def b' bkt_of_cores_eq [OF same_cores_cores [OF s2(2)]] i_def)
  show ?thesis
  proof (cases ?full)
    case False
    with run have "HASH_ADD_TO_BKT True tp (HASH_TO_BKT (u_hashv a) (2 ^ k)) add s
        = Some (Inr (set_table s2 tp ?t1))" by simp
    with ok1 s2(2) show ?thesis
      by (intro exI [of _ s2] exI [of _ ?t1] exI [of _ k] exI [of _ "css(i := add # css i)"])
        (simp add: same_cores_def)
  next
    case True
    let ?s3 = "set_table s2 tp ?t1"
    have "tables ?s3 tp = Some ?t1" "ut_table_ok ?s3 ?t1 k (es @ [add]) (css(i := add # css i))"
      using ok1 by simp_all
    from HASH_EXPAND_BUCKETS_ok [OF this(1) t(2) this(2) k] obtain s4 t' css' where x:
      "HASH_EXPAND_BUCKETS True tp ?s3 = Some (Inr (set_table s4 tp t'))" "same_cores ?s3 s4"
      "ut_table_ok s4 t' (Suc k) (es @ [add]) css'" "t_tail t' = t_tail ?t1" "t_num_items t' = t_num_items ?t1"
      by blast
    have "cores_eq s s4"
      using cores_eq_trans [OF same_cores_cores [OF s2(2)], of s4] same_cores_cores [OF x(2)] by simp
    moreover have "tables s4 p = tables s p" if "p \<noteq> tp" for p
      using x(2) s2(2) that by (simp add: same_cores_def)
    ultimately show ?thesis using run True x
      by (intro exI [of _ s4] exI [of _ t'] exI [of _ "Suc k"] exI [of _ css']) simp
  qed
qed

lemma ut_table_ok_frame:
  assumes "ut_table_ok s t k es css"
    and "\<And>p. p \<in> set es \<Longrightarrow> hhn s' p = hhn s p" "\<And>p. p \<in> set es \<Longrightarrow> hhp s' p = hhp s p"
    and "\<And>p. p \<in> set es \<Longrightarrow> bkt_of s' (2 ^ k) p = bkt_of s (2 ^ k) p"
  shows "ut_table_ok s' t k es css"
proof -
  have "hhn s' p = hhn s p" "hhp s' p = hhp s p" if "j < 2 ^ k" "p \<in> set (css j)" for j p
    using assms that by (auto simp: ut_table_ok_def)
  then have "buckets_hold s' (t_buckets t) css"
    using assms(1) by (auto simp: ut_table_ok_def buckets_hold_def intro!: bucket_holds_frame [of s _ _ s'])
  then show ?thesis using assms(1,4) by (auto simp: ut_table_ok_def)
qed

section \<open>What a head pointer represents\<close>

definition key_of :: "ut_store \<Rightarrow> ptr \<Rightarrow> byte list" where
  "key_of s p = (case handles s p of Some h \<Rightarrow> u_key h | None \<Rightarrow> [])"

text \<open>A new element \<open>p\<close> and a link to it in the element \<open>l\<close> that is to be before it: what that leaves alone.\<close>

lemma link_behind:
  assumes "handles s l = Some h" "l \<noteq> p"
    and s': "s' = set_handle (set_handle s p a) l (h\<lparr>u_next := x\<rparr>)"
  shows "appn s' = (appn s)(p \<mapsto> u_next a, l \<mapsto> x)" "appp s' = (appp s)(p \<mapsto> u_prev a)"
    and "key_of s' = (key_of s)(p := u_key a)"
    and "p \<notin> set es \<Longrightarrow> ut_table_ok s t k es css \<Longrightarrow> ut_table_ok s' t k es css"
proof -
  show "appn s' = (appn s)(p \<mapsto> u_next a, l \<mapsto> x)" "appp s' = (appp s)(p \<mapsto> u_prev a)" "key_of s' = (key_of s)(p := u_key a)"
    using assms(1,2) ut_fields_at [OF assms(1)] by (auto simp: s' fun_eq_iff key_of_def)
  assume p: "p \<notin> set es" and ok: "ut_table_ok s t k es css"
  show "ut_table_ok s' t k es css"
  proof (rule ut_table_ok_frame [OF ok])
    fix q assume "q \<in> set es"
    then have "q \<noteq> p" using p by auto
    then show "hhn s' q = hhn s q" "hhp s' q = hhp s q" "bkt_of s' (2 ^ k) q = bkt_of s (2 ^ k) q"
      using assms(1) by (auto simp: s' bkt_of_def hhn_def hhp_def)
  qed
qed

definition ut_item :: "ut_store \<Rightarrow> ptr \<Rightarrow> ptr \<Rightarrow> bool" where
  "ut_item s tp p \<longleftrightarrow> p \<noteq> NULL \<and> (\<exists>h. handles s p = Some h \<and> u_tbl h = tp \<and>
     u_hashv h = HASH_JEN (u_key h) \<and> u_keylen h = of_nat (length (u_key h)) \<and>
     length (u_key h) < 2 ^ 32)"

definition ut_rep :: "nat \<Rightarrow> ut_store \<Rightarrow> ptr \<Rightarrow> ptr list \<Rightarrow> bool" where
  "ut_rep k s head es \<longleftrightarrow> (if es = [] then head = NULL else
     nchain (appn s) head es \<and> backs (appp s) NULL es \<and>
     (\<exists>tp t css. tp \<noteq> NULL \<and> tables s tp = Some t \<and> ut_table_ok s t k es css \<and>
        t_tail t = last es \<and> t_num_items t = of_nat (length es) \<and> (\<forall>p \<in> set es. ut_item s tp p)))"

lemma ut_item_cores_eq:
  assumes "cores_eq s s'" and "ut_item s tp p"
  shows "ut_item s' tp p" and "key_of s' p = key_of s p"
proof -
  from assms(2) obtain h where h: "p \<noteq> NULL" "handles s p = Some h" "u_tbl h = tp"
    "u_hashv h = HASH_JEN (u_key h)" "u_keylen h = of_nat (length (u_key h))" "length (u_key h) < 2 ^ 32"
    by (auto simp: ut_item_def)
  obtain h' where h': "handles s' p = Some h'" "core h' = core h"
    using cores_eq_handle [OF assms(1) h(2)] by blast
  note f = core_fields [OF h'(2)]
  show "ut_item s' tp p" using h h'(1) by (simp add: ut_item_def f)
  show "key_of s' p = key_of s p" using h h'(1) by (simp add: key_of_def f)
qed

lemma key_of_cores_eq:
  assumes "cores_eq s s'" shows "key_of s' p = key_of s p"
proof (cases "handles s p")
  case None
  with assms have "map_option core (handles s' p) = None" by (simp add: cores_eq_def)
  with None show ?thesis by (simp add: key_of_def)
next
  case (Some h)
  then obtain h' where h': "handles s' p = Some h'" "core h' = core h"
    using cores_eq_handle [OF assms] by blast
  with Some show ?thesis by (simp add: key_of_def core_fields(4) [OF h'(2)])
qed

text \<open>The last part of \<open>HASH_ADD\<close>: the element is on the list, wherever it was put, and goes into the buckets.\<close>

lemma HASH_ADD_TO_TABLE_at:
  assumes t: "tables s tp = Some t" "tp \<noteq> NULL" and ok: "ut_table_ok s t k es css" and k: "k < 31"
    and new: "add \<notin> set es" and fs: "set fs = insert add (set es)" "length fs = Suc (length es)"
    and items: "\<forall>p \<in> set fs. ut_item s tp p"
    and app: "nchain (appn s) head fs" "backs (appp s) NULL fs"
    and tail: "t_tail t = last fs" and num: "t_num_items t = of_nat (length es)"
    and hv: "hashval = HASH_JEN (key_of s add)"
  shows "\<exists>s' k'. HASH_ADD_TO_TABLE True tp hashval add s = Some (Inr s')
     \<and> k \<le> k' \<and> k' \<le> Suc k \<and> ut_rep k' s' head fs
     \<and> (\<forall>p. key_of s' p = key_of s p)"
proof -
  obtain a where a: "handles s add = Some a" "add \<noteq> NULL" "u_hashv a = hashval"
    using items hv fs(1) by (auto simp: ut_item_def key_of_def)
  let ?t = "t\<lparr>t_num_items := t_num_items t + 1\<rparr>"
  let ?s = "set_table s tp ?t"
  have "ut_table_ok ?s ?t k es css" using ut_table_ok_cong [OF ok, of ?t] by simp
  moreover have "tables ?s tp = Some ?t" "handles ?s add = Some a" using a by simp_all
  ultimately obtain s1 t' k' css' where x:
    "HASH_ADD_TO_BKT True tp (HASH_TO_BKT (u_hashv a) (2 ^ k)) add ?s = Some (Inr (set_table s1 tp t'))"
    "cores_eq ?s s1" "k \<le> k'" "k' \<le> Suc k" "ut_table_ok s1 t' k' (es @ [add]) css'"
    "t_tail t' = t_tail ?t" "t_num_items t' = t_num_items ?t"
    using HASH_ADD_TO_BKT_ok [OF _ t(2) _ k _ a(2) new, of ?s ?t css a] by blast
  have c: "cores_eq s s1" using x(2) by simp
  have nb: "t_num_buckets t = 2 ^ k" using ok by (simp add: ut_table_ok_def)
  have "HASH_ADD_TO_TABLE True tp hashval add s = Some (Inr (set_table s1 tp t'))"
    unfolding HASH_ADD_TO_TABLE_def get_table_eq [OF t(2) t(1)]
    using x(1) a(3) nb by simp
  moreover have "ut_table_ok s1 t' k' fs css'" using x(5) fs(1) by (simp add: ut_table_ok_def)
  then have "ut_rep k' (set_table s1 tp t') head fs"
    using x(6,7) t(2) tail num fs app items ut_item_cores_eq(1) [OF c, of tp]
    by (auto simp: ut_rep_def cores_eq_appn [OF c] cores_eq_appp [OF c] ut_item_def)
  moreover have "key_of (set_table s1 tp t') p = key_of s p" for p
    using c by (intro key_of_cores_eq) simp
  ultimately show ?thesis using x(3,4) by blast
qed

lemma ut_table_ok_empty:
  "ut_table_ok s \<lparr>t_buckets = replicate (unat HASH_INITIAL_NUM_BUCKETS)
           \<lparr>b_head = NULL, b_count = 0, b_expand_mult = 0\<rparr>,
         t_num_buckets = HASH_INITIAL_NUM_BUCKETS,
         t_log2_num_buckets = HASH_INITIAL_NUM_BUCKETS_LOG2,
         t_num_items = 0, t_tail = add, t_ideal_chain_maxlen = 0, t_nonideal_items = 0,
         t_ineff_expands = 0, t_noexpand = 0\<rparr> 5 [] (\<lambda>_. [])"
  by (simp add: ut_table_ok_def HASH_INITIAL_NUM_BUCKETS_def HASH_INITIAL_NUM_BUCKETS_LOG2_def
      buckets_hold_def bucket_holds_def)

text \<open>The handle \<open>HASH_ADD\<close> writes for an element with a key.\<close>

abbreviation new_handle :: "ptr \<Rightarrow> byte list \<Rightarrow> ut_handle" where
  "new_handle tp key \<equiv> \<lparr>u_tbl = tp, u_prev = NULL, u_next = NULL, u_hh_prev = NULL,
     u_hh_next = NULL, u_key = key, u_keylen = of_nat (length key), u_hashv = HASH_JEN key\<rparr>"

lemma HASH_ADD_first:
  assumes "add \<noteq> NULL" "tp \<noteq> NULL" "length key < 2 ^ 32"
  shows "\<exists>s' k'. HASH_ADD tp True s NULL key add = Some (Inr (add, s'))
     \<and> 5 \<le> k' \<and> k' \<le> 6 \<and> ut_rep k' s' add [add]
     \<and> key_of s' add = key \<and> (\<forall>p. p \<noteq> add \<longrightarrow> key_of s' p = key_of s p)"
proof -
  let ?s0 = "set_handle s add (new_handle tp key)"
  define t where "t = \<lparr>t_buckets = replicate (unat HASH_INITIAL_NUM_BUCKETS)
           \<lparr>b_head = NULL, b_count = 0, b_expand_mult = 0\<rparr>,
         t_num_buckets = HASH_INITIAL_NUM_BUCKETS,
         t_log2_num_buckets = HASH_INITIAL_NUM_BUCKETS_LOG2,
         t_num_items = 0, t_tail = add, t_ideal_chain_maxlen = 0, t_nonideal_items = 0,
         t_ineff_expands = 0, t_noexpand = 0\<rparr>"
  let ?s1 = "set_table ?s0 tp t"
  have mk: "HASH_MAKE_TABLE tp True add ?s0 = Inr ?s1"
    using assms(2) by (simp add: HASH_MAKE_TABLE_def t_def)
  have "ut_table_ok ?s1 t 5 [] (\<lambda>_. [])" unfolding t_def by (rule ut_table_ok_empty)
  moreover have "\<forall>p \<in> set ([] @ [add]). ut_item ?s1 tp p"
    using assms by (simp add: ut_item_def)
  moreover have "nchain (appn ?s1) add ([] @ [add])" "backs (appp ?s1) NULL ([] @ [add])" using assms by simp_all
  moreover have "HASH_JEN key = HASH_JEN (key_of ?s1 add)" by (simp add: key_of_def)
  ultimately obtain s' k' where x: "HASH_ADD_TO_TABLE True tp (HASH_JEN key) add ?s1 = Some (Inr s')"
    "5 \<le> k'" "k' \<le> Suc 5" "ut_rep k' s' add ([] @ [add])" "\<forall>p. key_of s' p = key_of ?s1 p"
    using HASH_ADD_TO_TABLE_at [of ?s1 tp t 5 "[]" "\<lambda>_. []" add "[] @ [add]" add "HASH_JEN key"] assms
    by (auto simp: t_def)
  have "HASH_ADD tp True s NULL key add = Some (Inr (add, s'))"
    using assms(1) mk x(1) by (simp add: HASH_ADD_def Let_def)
  moreover have "key_of s' add = key" "\<forall>p. p \<noteq> add \<longrightarrow> key_of s' p = key_of s p"
    using x(5) by (simp_all add: key_of_def)
  ultimately show ?thesis using x(2-4) by (intro exI conjI) (assumption | simp)+
qed

lemma HASH_ADD_next:
  assumes rep: "ut_rep k s head es" and ne: "es \<noteq> []" and k: "k < 31"
    and add: "add \<noteq> NULL" "add \<notin> set es" and key: "length key < 2 ^ 32"
  shows "\<exists>s' k'. HASH_ADD tp True s head key add = Some (Inr (head, s'))
     \<and> k \<le> k' \<and> k' \<le> Suc k \<and> ut_rep k' s' head (es @ [add])
     \<and> key_of s' add = key \<and> (\<forall>p. p \<noteq> add \<longrightarrow> key_of s' p = key_of s p)"
proof -
  from rep ne obtain tp' t css where r0: "backs (appp s) NULL es" and r: "nchain (appn s) head es" "tp' \<noteq> NULL" "tables s tp' = Some t"
    "ut_table_ok s t k es css" "t_tail t = last es" "t_num_items t = of_nat (length es)"
    "\<forall>p \<in> set es. ut_item s tp' p"
    by (auto simp: ut_rep_def)
  have head: "head = hd es" "head \<in> set es" using chain_hd [OF r(1)] ne by auto
  then have head0: "head \<noteq> NULL" using chain_NULL_notin [OF r(1)] by metis
  obtain h where h: "handles s head = Some h" "u_tbl h = tp'"
    using r(7) head(2) by (auto simp: ut_item_def)
  let ?l = "last es"
  have l: "?l \<in> set es" "?l \<noteq> add" "?l \<noteq> NULL"
    using add last_in_set [OF ne] chain_NULL_notin [OF r(1)] by metis+
  then obtain hl where hl: "handles s ?l = Some hl" using r(7) by (auto simp: ut_item_def)
  let ?s0 = "set_handle s add (new_handle tp' key)"
  let ?a = "(new_handle tp' key)\<lparr>u_next := NULL, u_prev := ?l\<rparr>"
  let ?s1 = "set_handle ?s0 add ?a"
  let ?s2 = "set_handle ?s1 ?l (hl\<lparr>u_next := add\<rparr>)"
  let ?t = "t\<lparr>t_tail := add\<rparr>"
  let ?s3 = "set_table ?s2 tp' ?t"
  have "get_table ?s0 tp' = Inr t" "get_handle ?s0 add = Inr (new_handle tp' key)"
    "write_app_next ?s1 ?l add = Inr ?s2"
    using r(2,3) add l hl by (simp_all add: get_table_def get_handle_def write_app_next_def)
  then have ap: "HASH_APPEND_LIST tp' add ?s0 = Inr ?s3"
    using r(5) by (simp add: HASH_APPEND_LIST_def Let_def)
  note ln = link_behind [OF hl l(2) refl, where a = ?a and x = add]
  have "ut_table_ok ?s3 ?t k es css"
    using ut_table_ok_cong [OF ln(4) [OF add(2) r(4)], of ?t] by simp
  moreover have "\<forall>p \<in> set (es @ [add]). ut_item ?s3 tp' p"
    using r(7) hl l add(1) key by (auto simp: ut_item_def)
  moreover have "nchain (appn ?s3) head (es @ [add])"
    using nchain_append_last [OF r(1) ne add] ln(1) by simp
  moreover have "backs (appp ?s3) NULL (es @ [add])"
    using r0 add(2) ne ln(2) by simp
  moreover have "HASH_JEN key = HASH_JEN (key_of ?s3 add)" using l by (simp add: key_of_def)
  ultimately obtain s' k' where x: "HASH_ADD_TO_TABLE True tp' (HASH_JEN key) add ?s3 = Some (Inr s')"
    "k \<le> k'" "k' \<le> Suc k" "ut_rep k' s' head (es @ [add])" "\<forall>p. key_of s' p = key_of ?s3 p"
    using HASH_ADD_TO_TABLE_at [of ?s3 tp' ?t k es css add "es @ [add]" head "HASH_JEN key"] r(2,6) k add(2) by auto
  have "HASH_ADD tp True s head key add = Some (Inr (head, s'))"
    using add(1) head0 h ap x(1) by (simp add: HASH_ADD_def Let_def get_handle_def)
  moreover have "key_of ?s3 = (key_of s)(add := key)" using ln(3) by (simp add: fun_eq_iff key_of_def)
  ultimately show ?thesis using x by (intro exI [of _ s'] exI [of _ k']) simp
qed

section \<open>Look-up\<close>

lemma take_keys_eq:
  assumes "length a = length b" shows "take (length b) a = take (length b) b \<longleftrightarrow> a = b"
  using assms by simp

lemma HASH_FIND_IN_BKT_ok:
  assumes "nchain (hhn s) out cs" and "\<forall>p \<in> set cs. ut_item s tp p" and "length key < 2 ^ 32"
  shows "HASH_FIND_IN_BKT s out key (of_nat (length key)) (HASH_JEN key) =
    Some (Inr (case find (\<lambda>p. key_of s p = key) cs of None \<Rightarrow> NULL | Some p \<Rightarrow> p))"
  using assms(1,2)
proof (induction cs arbitrary: out)
  case Nil
  then show ?case by (subst HASH_FIND_IN_BKT.simps) simp
next
  case (Cons p cs)
  from Cons.prems(1) obtain h where h1: "out = p" "p \<noteq> NULL" "handles s p = Some h"
    "nchain (hhn s) (u_hh_next h) cs"
    by (rule nchain_hhn_Cons)
  with Cons.prems(2) have "u_hashv h = HASH_JEN (u_key h)" "u_keylen h = of_nat (length (u_key h))"
    "length (u_key h) < 2 ^ 32"
    by (simp_all add: ut_item_def)
  note h = h1(1-3) this h1(4)
  have un: "unat (of_nat (length key) :: u32) = length key"
    using assms(3) by (intro unat_of_nat_small) simp
  have "u_keylen h = of_nat (length key) \<longleftrightarrow> length (u_key h) = length key"
  proof
    assume "u_keylen h = of_nat (length key)"
    then have "unat (of_nat (length (u_key h)) :: u32) = unat (of_nat (length key) :: u32)"
      using h(5) by simp
    then show "length (u_key h) = length key"
      using un h(6) unat_of_nat_small [of "length (u_key h)", where 'a = 32] by simp
  next
    assume "length (u_key h) = length key"
    with h(5) show "u_keylen h = of_nat (length key)" by simp
  qed
  then have m: "(u_hashv h = HASH_JEN key \<and> u_keylen h = of_nat (length key) \<and>
      take (unat (of_nat (length key) :: u32)) (u_key h) = take (unat (of_nat (length key) :: u32)) key)
      \<longleftrightarrow> u_key h = key"
    using h(4) un by auto
  have ko: "key_of s p = u_key h" using h(3) by (simp add: key_of_def)
  have "get_handle s p = Inr h" "(p = NULL) = False" using h(2,3) by (simp_all add: get_handle_def)
  then have "HASH_FIND_IN_BKT s out key (of_nat (length key)) (HASH_JEN key) =
      (if u_key h = key then Some (Inr p)
       else HASH_FIND_IN_BKT s (u_hh_next h) key (of_nat (length key)) (HASH_JEN key))"
    unfolding h(1) by (subst HASH_FIND_IN_BKT.simps) (simp only: sum.case if_False m)
  then show ?case using Cons.IH [OF h(7)] Cons.prems(2) ko by simp
qed

lemma find_own_key: "distinct (map f es) \<Longrightarrow> p \<in> set es \<Longrightarrow> find (\<lambda>q. f q = f p) es = Some p"
  by (induction es) (auto simp: image_iff)

lemma find_unique_cong:
  assumes "distinct (map f es)" and "set cs \<subseteq> set es" and "\<And>p. p \<in> set es \<Longrightarrow> f p = k \<Longrightarrow> p \<in> set cs"
  shows "find (\<lambda>p. f p = k) cs = find (\<lambda>p. f p = k) es"
proof (cases "find (\<lambda>p. f p = k) es")
  case None
  then have "\<not> (\<exists>p. p \<in> set es \<and> f p = k)" by (simp add: find_None_iff)
  with assms(2) have "find (\<lambda>p. f p = k) cs = None" by (auto simp: find_None_iff)
  with None show ?thesis by simp
next
  case (Some p)
  then have p: "p \<in> set es" "f p = k" by (auto simp: find_Some_iff)
  then have "find (\<lambda>p. f p = k) cs \<noteq> None" using assms(3) by (auto simp: find_None_iff)
  then obtain q where q: "find (\<lambda>p. f p = k) cs = Some q" by blast
  then have "q \<in> set cs" "f q = k" by (auto simp: find_Some_iff)
  with p assms(1,2) have "q = p" by (auto simp: distinct_map inj_on_def)
  with q Some show ?thesis by simp
qed

text \<open>The list of the elements and the tail of the table play no part in a look-up.\<close>

lemma HASH_FIND_at:
  assumes head: "head \<in> set es" and r: "tp \<noteq> NULL" "tables s tp = Some t" "ut_table_ok s t k es css" "\<forall>p \<in> set es. ut_item s tp p"
    and key: "length key < 2 ^ 32" and d: "distinct (map (key_of s) es)"
  shows "HASH_FIND s head key =
    Some (Inr (case find (\<lambda>p. key_of s p = key) es of None \<Rightarrow> NULL | Some p \<Rightarrow> p))"
proof -
  have head0: "head \<noteq> NULL" using r(4) head by (simp add: ut_item_def)
  obtain h where h: "handles s head = Some h" "u_tbl h = tp"
    using r(4) head by (auto simp: ut_item_def)
  define j where "j = unat (HASH_TO_BKT (HASH_JEN key) (2 ^ k))"
  have k: "k < 32" and nb: "t_num_buckets t = 2 ^ k" and ln: "length (t_buckets t) = 2 ^ k"
    and bh: "buckets_hold s (t_buckets t) css"
    and st: "\<And>j. j < 2 ^ k \<Longrightarrow> set (css j) = {p \<in> set es. bkt_of s (2 ^ k) p = j}"
    using r(3) by (simp_all add: ut_table_ok_def)
  have j: "j < 2 ^ k" unfolding j_def using k by (rule HASH_TO_BKT_bound)
  have "nchain (hhn s) (b_head (t_buckets t ! j)) (css j)"
    using bh ln j by (simp add: buckets_hold_def bucket_holds_def)
  moreover have "\<forall>p \<in> set (css j). ut_item s tp p" using st [OF j] r(4) by simp
  moreover have "find (\<lambda>p. key_of s p = key) (css j) = find (\<lambda>p. key_of s p = key) es"
  proof (rule find_unique_cong [OF d])
    show "set (css j) \<subseteq> set es" using st [OF j] by auto
  next
    fix p assume p: "p \<in> set es" "key_of s p = key"
    with r(4) have "bkt_of s (2 ^ k) p = j" by (auto simp: ut_item_def bkt_of_def key_of_def j_def)
    with p(1) st [OF j] show "p \<in> set (css j)" by simp
  qed
  moreover have "HASH_FIND s head key =
      HASH_FIND_IN_BKT s (b_head (t_buckets t ! j)) key (of_nat (length key)) (HASH_JEN key)"
    using head0 h r(1,2) nb ln j
    by (simp add: HASH_FIND_def Let_def get_handle_def get_table_def bucket_at_def flip: j_def)
  ultimately show ?thesis using HASH_FIND_IN_BKT_ok key by simp
qed

lemma HASH_FIND_ok:
  assumes rep: "ut_rep k s head es" and key: "length key < 2 ^ 32" and d: "distinct (map (key_of s) es)"
  shows "HASH_FIND s head key =
    Some (Inr (case find (\<lambda>p. key_of s p = key) es of None \<Rightarrow> NULL | Some p \<Rightarrow> p))"
proof (cases "es = []")
  case True
  with rep show ?thesis by (simp add: ut_rep_def HASH_FIND_def)
next
  case False
  with rep obtain tp t css where "nchain (appn s) head es" "tp \<noteq> NULL" "tables s tp = Some t"
    "ut_table_ok s t k es css" "\<forall>p \<in> set es. ut_item s tp p"
    by (auto simp: ut_rep_def)
  moreover from this have "head \<in> set es" using chain_hd [of "appn s" head es NULL] False by simp
  ultimately show ?thesis using HASH_FIND_at [OF _ _ _ _ _ key d] by blast
qed

section \<open>The table as an index by key\<close>

text \<open>
  What the server needs of its client table: a representation of a list of elements by a
  head pointer, a look-up that returns the element with a key or the null pointer, and an
  addition that appends. \<open>rep k\<close> carries the logarithm of the number of buckets, which
  bounds how often the table may still grow.
\<close>

locale keyed_index =
  fixes rep :: "nat \<Rightarrow> 's \<Rightarrow> ptr \<Rightarrow> ptr list \<Rightarrow> bool"
    and key_at :: "'s \<Rightarrow> ptr \<Rightarrow> 'k"
    and key_ok :: "'k \<Rightarrow> bool"
    and lookup :: "'s \<Rightarrow> ptr \<Rightarrow> 'k \<Rightarrow> ptr run"
    and append_elem :: "ptr \<Rightarrow> 's \<Rightarrow> ptr \<Rightarrow> 'k \<Rightarrow> ptr \<Rightarrow> (ptr \<times> 's) run"
  assumes lookup_law: "rep k s head es \<Longrightarrow> key_ok key \<Longrightarrow> distinct (map (key_at s) es) \<Longrightarrow>
      lookup s head key = Some (Inr (case find (\<lambda>p. key_at s p = key) es of None \<Rightarrow> NULL | Some p \<Rightarrow> p))"
    and append_law: "rep k s head es \<Longrightarrow> k < 31 \<Longrightarrow> add \<noteq> NULL \<Longrightarrow> add \<notin> set es \<Longrightarrow>
      tp \<noteq> NULL \<Longrightarrow> key_ok key \<Longrightarrow>
      \<exists>s' k'. append_elem tp s head key add = Some (Inr (hd (es @ [add]), s'))
        \<and> k' \<le> max 6 (Suc k) \<and> rep k' s' (hd (es @ [add])) (es @ [add])
        \<and> key_at s' = (key_at s)(add := key)"
    and nonnull: "rep k s head es \<Longrightarrow> NULL \<notin> set es"
begin

lemma find_absent:
  assumes "rep k s head es" "key_ok key" "distinct (map (key_at s) es)" "key \<notin> key_at s ` set es"
  shows "lookup s head key = Some (Inr NULL)"
proof -
  have "find (\<lambda>p. key_at s p = key) es = None" using assms(4) by (auto simp: find_None_iff)
  with lookup_law [OF assms(1-3)] show ?thesis by simp
qed

lemma find_present:
  assumes "rep k s head es" "distinct (map (key_at s) es)" "p \<in> set es" "key_ok (key_at s p)"
  shows "lookup s head (key_at s p) = Some (Inr p)"
  using lookup_law [OF assms(1,4,2)] find_own_key [OF assms(2,3)] by simp

text \<open>The element of a key, when there is one, is never the null pointer.\<close>

lemma find_null_iff:
  assumes "rep k s head es" "key_ok key" "distinct (map (key_at s) es)"
  shows "lookup s head key = Some (Inr NULL) \<longleftrightarrow> key \<notin> key_at s ` set es"
proof
  assume l: "lookup s head key = Some (Inr NULL)"
  show "key \<notin> key_at s ` set es"
  proof
    assume "key \<in> key_at s ` set es"
    then obtain p where p: "p \<in> set es" "key = key_at s p" by blast
    with find_present [OF assms(1,3) p(1)] assms(2) l have "p = NULL" by simp
    with nonnull [OF assms(1)] p(1) show False by simp
  qed
qed (rule find_absent [OF assms])

text \<open>Appending an absent key keeps the keys distinct, and the new element is found.\<close>

lemma append_absent:
  assumes rep: "rep k s head es" and k: "k < 31" and add: "add \<noteq> NULL" "add \<notin> set es" and tp: "tp \<noteq> NULL"
    and ok: "key_ok key" and d: "distinct (map (key_at s) es)" and new: "key \<notin> key_at s ` set es"
  shows "\<exists>s' k'. append_elem tp s head key add = Some (Inr (hd (es @ [add]), s'))
        \<and> k' \<le> max 6 (Suc k) \<and> rep k' s' (hd (es @ [add])) (es @ [add])
        \<and> key_at s' = (key_at s)(add := key) \<and> distinct (map (key_at s') (es @ [add]))
        \<and> lookup s' (hd (es @ [add])) key = Some (Inr add)"
proof -
  obtain s' k' where x: "append_elem tp s head key add = Some (Inr (hd (es @ [add]), s'))"
    "k' \<le> max 6 (Suc k)" "rep k' s' (hd (es @ [add])) (es @ [add])" "key_at s' = (key_at s)(add := key)"
    using append_law [OF rep k add tp ok] by blast
  have "map (key_at s') es = map (key_at s) es" using add(2) x(4) by simp
  then have d': "distinct (map (key_at s') (es @ [add]))" using d new x(4) add(2) by auto
  have "lookup s' (hd (es @ [add])) (key_at s' add) = Some (Inr add)"
    using find_present [OF x(3) d', of add] ok x(4) by simp
  with x d' show ?thesis by auto
qed

end

lemma ut_rep_empty [simp]: "ut_rep k s NULL []"
  by (simp add: ut_rep_def)

lemma ut_rep_nonnull: "ut_rep k s head es \<Longrightarrow> NULL \<notin> set es"
  by (cases "es = []") (auto simp: ut_rep_def dest: chain_NULL_notin)

lemma HASH_ADD_ok:
  assumes "ut_rep k s head es" "k < 31" "add \<noteq> NULL" "add \<notin> set es" "tp \<noteq> NULL" "length key < 2 ^ 32"
  shows "\<exists>s' k'. HASH_ADD tp True s head key add = Some (Inr (hd (es @ [add]), s'))
     \<and> k' \<le> max 6 (Suc k) \<and> ut_rep k' s' (hd (es @ [add])) (es @ [add])
     \<and> key_of s' = (key_of s)(add := key)"
proof (cases "es = []")
  case True
  with assms(1) have head: "head = NULL" by (simp add: ut_rep_def)
  obtain s' k' where x: "HASH_ADD tp True s NULL key add = Some (Inr (add, s'))" "k' \<le> 6"
    "ut_rep k' s' add [add]" "key_of s' add = key" "\<forall>p. p \<noteq> add \<longrightarrow> key_of s' p = key_of s p"
    using HASH_ADD_first [OF assms(3,5,6), of s] by blast
  have "key_of s' = (key_of s)(add := key)" using x(4,5) by (simp add: fun_eq_iff)
  moreover have "k' \<le> max 6 (Suc k)" using x(2) by simp
  ultimately show ?thesis using x(1,3) True head by auto
next
  case False
  with assms(1) have head: "hd (es @ [add]) = head" by (auto simp: ut_rep_def dest: chain_hd)
  obtain s' k' where x: "HASH_ADD tp True s head key add = Some (Inr (head, s'))" "k' \<le> Suc k"
    "ut_rep k' s' head (es @ [add])" "key_of s' add = key" "\<forall>p. p \<noteq> add \<longrightarrow> key_of s' p = key_of s p"
    using HASH_ADD_next [OF assms(1) False assms(2-4,6), of tp] by blast
  have "key_of s' = (key_of s)(add := key)" using x(4,5) by (simp add: fun_eq_iff)
  moreover have "k' \<le> max 6 (Suc k)" using x(2) by simp
  ultimately show ?thesis using x(1,3) head by metis
qed

interpretation ut: keyed_index ut_rep key_of "\<lambda>key. length key < 2 ^ 32" HASH_FIND
  "\<lambda>tp. HASH_ADD tp True"
  by unfold_locales (simp_all only: HASH_FIND_ok HASH_ADD_ok ut_rep_nonnull not_False_eq_True)

text \<open>A table with two elements.\<close>

definition no_handles :: ut_store where
  "no_handles = \<lparr>handles = Map.empty, tables = Map.empty\<rparr>"

lemma two_items:
  "\<exists>k s. ut_rep k s 10 [10, 11] \<and> key_of s 10 = [1, 0, 0, 0] \<and> key_of s 11 = [2, 0, 0, 0] \<and> k < 8"
proof -
  obtain s k where 1: "ut_rep k s 10 [10]" "k \<le> 6" "key_of s 10 = [1, 0, 0, 0]"
    using HASH_ADD_first [of 10 20 "[1, 0, 0, 0]" no_handles] by auto
  obtain s' k' where "ut_rep k' s' 10 [10, 11]" "k' \<le> 7" "key_of s' 11 = [2, 0, 0, 0]"
    "key_of s' 10 = [1, 0, 0, 0]"
    using HASH_ADD_next [OF 1(1), of 11 "[2, 0, 0, 0]" 20] 1(2,3) by auto
  then show ?thesis by (intro exI [of _ k'] exI [of _ s']) auto
qed

section \<open>Properties\<close>

text \<open>\<open>HASH_ADD\<close> appends the element to the table's list in insertion order and
  gives it its key, whether the table is new, or has room, or has to double its buckets
  first; all other elements keep their keys and their order, and the head pointer does not
  move once set.\<close>

theorem hash_add_appends:
  assumes "ut_rep k s head es" "k < 31" "add \<noteq> NULL" "add \<notin> set es" "tp \<noteq> NULL" "length key < 2 ^ 32"
  shows "\<exists>s' k'. HASH_ADD tp True s head key add = Some (Inr (hd (es @ [add]), s'))
     \<and> k' \<le> max 6 (Suc k) \<and> ut_rep k' s' (hd (es @ [add])) (es @ [add])
     \<and> key_of s' = (key_of s)(add := key)"
  using assms by (rule HASH_ADD_ok)

theorem hash_add_appends_witness:
  "\<exists>s1 s2 k2. HASH_ADD 20 True no_handles NULL [1, 0, 0, 0] 10 = Some (Inr (10, s1))
     \<and> HASH_ADD 20 True s1 10 [2, 0, 0, 0] 11 = Some (Inr (10, s2)) \<and> ut_rep k2 s2 10 [10, 11]"
proof -
  obtain s1 k1 where 1: "HASH_ADD 20 True no_handles NULL [1, 0, 0, 0] 10 = Some (Inr (10, s1))"
    "k1 \<le> 6" "ut_rep k1 s1 10 [10]"
    using hash_add_appends [of 0 no_handles NULL "[]" 10 20 "[1, 0, 0, 0]"] ut_rep_empty by auto
  obtain s2 k2 where "HASH_ADD 20 True s1 10 [2, 0, 0, 0] 11 = Some (Inr (10, s2))" "ut_rep k2 s2 10 [10, 11]"
    using hash_add_appends [OF 1(3), of 11 20 "[2, 0, 0, 0]"] 1(2) by auto
  with 1 show ?thesis by blast
qed

text \<open>\<open>HASH_FIND\<close> returns the element with the given key, and the null pointer when
  there is none: hashing, the choice of the bucket and the walk along its chain lose nothing.\<close>

theorem hash_find_finds:
  assumes "ut_rep k s head es" "length key < 2 ^ 32" "distinct (map (key_of s) es)"
  shows "HASH_FIND s head key =
    Some (Inr (case find (\<lambda>p. key_of s p = key) es of None \<Rightarrow> NULL | Some p \<Rightarrow> p))"
  using assms by (rule HASH_FIND_ok)

theorem hash_find_finds_witness:
  "\<exists>s. HASH_FIND s 10 [2, 0, 0, 0] = Some (Inr 11) \<and> HASH_FIND s 10 [3, 0, 0, 0] = Some (Inr NULL)"
proof -
  obtain k s where s: "ut_rep k s 10 [10, 11]" "key_of s 10 = [1, 0, 0, 0]" "key_of s 11 = [2, 0, 0, 0]"
    using two_items by blast
  show ?thesis
    using hash_find_finds [OF s(1), of "[2, 0, 0, 0]"] hash_find_finds [OF s(1), of "[3, 0, 0, 0]"] s(2,3)
    by (intro exI [of _ s]) simp
qed

text \<open>Doubling the buckets moves every element to the bucket its hash value selects
  among twice as many and loses none: the table represents the same elements, in the same
  order and under the same keys.\<close>

theorem expand_keeps_items:
  assumes "ut_rep k s head es" "es \<noteq> []" "k < 31" "handles s head = Some h"
  shows "\<exists>s'. HASH_EXPAND_BUCKETS True (u_tbl h) s = Some (Inr s')
     \<and> ut_rep (Suc k) s' head es \<and> key_of s' = key_of s"
proof -
  from assms(1,2) obtain tp t css where r0: "backs (appp s) NULL es" and r: "nchain (appn s) head es" "tp \<noteq> NULL" "tables s tp = Some t"
    "ut_table_ok s t k es css" "t_tail t = last es" "t_num_items t = of_nat (length es)"
    "\<forall>p \<in> set es. ut_item s tp p"
    by (auto simp: ut_rep_def)
  have tp: "u_tbl h = tp"
  proof -
    have "head \<in> set es" using chain_hd [OF r(1)] assms(2) by simp
    with r(7) have "ut_item s tp head" by blast
    with assms(4) show ?thesis by (simp add: ut_item_def)
  qed
  obtain s1 t' css' where x: "HASH_EXPAND_BUCKETS True tp s = Some (Inr (set_table s1 tp t'))"
    "same_cores s s1" "ut_table_ok s1 t' (Suc k) es css'" "t_tail t' = t_tail t" "t_num_items t' = t_num_items t"
    using HASH_EXPAND_BUCKETS_ok [OF r(3,2,4) assms(3)] by blast
  have c: "cores_eq s (set_table s1 tp t')" using x(2) by (simp add: same_cores_def)
  have "ut_rep (Suc k) (set_table s1 tp t') head es"
    using r0 r x assms(2) ut_item_cores_eq(1) [OF c, of tp] cores_eq_appn [OF c] cores_eq_appp [OF c]
    by (auto simp: ut_rep_def)
  moreover have "key_of (set_table s1 tp t') = key_of s" using key_of_cores_eq [OF c] by blast
  ultimately show ?thesis using x(1) tp by blast
qed

theorem expand_keeps_items_witness:
  "\<exists>k s h s'. HASH_EXPAND_BUCKETS True (u_tbl h) s = Some (Inr s') \<and> handles s 10 = Some h
     \<and> ut_rep (Suc k) s' 10 [10, 11]"
proof -
  obtain k s where s: "ut_rep k s 10 [10, 11]" "k < 8" using two_items by blast
  then obtain h where h: "handles s 10 = Some h" by (auto simp: ut_rep_def ut_item_def)
  from expand_keeps_items [OF s(1) _ _ h] s(2) obtain s' where
    "HASH_EXPAND_BUCKETS True (u_tbl h) s = Some (Inr s')" "ut_rep (Suc k) s' 10 [10, 11]" by auto
  with h show ?thesis by blast
qed

end
