(* ===== verification/Server_State.thy ===== *)
theory Server_State
  imports Linked_List Job_Queue Message_Net Uthash_Rep
begin

text \<open>
  The server's data (\<^verbatim>\<open>server.c\<close>): the clients in their hash table, each with the list of
  its connections and its place in the message log, and the log itself; the operations on
  them; and the two routines that send what is in the log, the body of the sender's loop
  and \<open>fast_forward\<close>. Each routine is what one thread does while it holds the lock the
  code takes around it.
\<close>

section \<open>State\<close>

text \<open>
  \<open>struct client\<close> without its table handle, which is at the same address in the table's
  store. A socket is stored in a list as the pointer-sized integer it is cast to.
\<close>

record client =
  c_id :: int
  c_sockfds :: ptr
  c_last_read :: ptr

record server =
  s_cells :: "ptr \<rightharpoonup> client"
  s_table :: ut_store
  s_clients :: ptr
  s_fds :: "int lstore"
  s_log_list :: ptr
  s_log :: "message lstore"
  s_sendqueue :: ptr
  s_jobs :: "message jstore"

definition get_client :: "server \<Rightarrow> ptr \<Rightarrow> client res" where
  "get_client s p = (if p = NULL then Inl NullDeref
     else case s_cells s p of None \<Rightarrow> Inl BadPointer | Some c \<Rightarrow> Inr c)"

definition set_client :: "server \<Rightarrow> ptr \<Rightarrow> client \<Rightarrow> server" where
  "set_client s p c = s\<lparr>s_cells := (s_cells s)(p \<mapsto> c)\<rparr>"

section \<open>The message log\<close>

text \<open>The addresses are what \<open>malloc\<close> and \<open>calloc\<close> return; a null one is dereferenced.\<close>

definition create_message_log :: "ptr \<Rightarrow> ptr \<Rightarrow> server \<Rightarrow> server res" where
  "create_message_log p lp s =
     (if p = NULL then Inl NullDeref
      else bind_res (create_llist lp (s_log s)) (\<lambda>(l, st). Inr (s\<lparr>s_log_list := l, s_log := st\<rparr>)))"

definition message_log_append :: "message \<Rightarrow> ptr \<Rightarrow> server \<Rightarrow> (ptr \<times> server) res" where
  "message_log_append m np s =
     bind_res (llist_insert_tail (s_log_list s) m np (s_log s)) (\<lambda>st.
     bind_res (get_list st (s_log_list s)) (\<lambda>l.
     Inr (l_tail l, s\<lparr>s_log := st\<rparr>)))"

section \<open>The clients\<close>

text \<open>The key is the memory of the \<open>int\<close> field \<open>id\<close>: four bytes, least significant first.\<close>

definition id_bytes :: "int \<Rightarrow> byte list" where
  "id_bytes i = map (\<lambda>k. word_of_int (i div 2 ^ (8 * k))) [0, 1, 2, 3]"

definition create_client :: "u16 \<Rightarrow> ptr \<Rightarrow> ptr \<Rightarrow> server \<Rightarrow> (ptr \<times> server) res" where
  "create_client cid p lp s =
     (if p = NULL then Inl NullDeref
      else bind_res (create_llist lp (s_fds s)) (\<lambda>(l, st).
        Inr (p, (set_client s p \<lparr>c_id = uint cid, c_sockfds = l, c_last_read = NULL\<rparr>)\<lparr>s_fds := st\<rparr>)))"

definition free_client :: "ptr \<Rightarrow> server \<Rightarrow> server run" where
  "free_client p s =
     bind_run (Some (get_client s p)) (\<lambda>c.
     bind_run (free_llist (c_sockfds c) (s_fds s)) (\<lambda>st.
     Some (Inr (s\<lparr>s_fds := st, s_cells := (s_cells s)(p := None)\<rparr>))))"

definition client_hash_get :: "int \<Rightarrow> server \<Rightarrow> ptr run" where
  "client_hash_get cid s = HASH_FIND (s_table s) (s_clients s) (id_bytes cid)"

text \<open>\<open>tp\<close> is the address for the table, should this be the first client.\<close>

definition client_hash_add_client :: "ptr \<Rightarrow> bool \<Rightarrow> ptr \<Rightarrow> server \<Rightarrow> server run" where
  "client_hash_add_client tp mem p s =
     bind_run (Some (get_client s p)) (\<lambda>c.
     bind_run (HASH_FIND (s_table s) (s_clients s) (id_bytes (c_id c))) (\<lambda>tmp.
       if tmp = NULL then
         bind_run (HASH_ADD tp mem (s_table s) (s_clients s) (id_bytes (c_id c)) p) (\<lambda>(head, ut).
         Some (Inr (s\<lparr>s_clients := head, s_table := ut\<rparr>)))
       else Some (Inr s)))"

definition client_hash_add_connection :: "int \<Rightarrow> int \<Rightarrow> ptr \<Rightarrow> server \<Rightarrow> server run" where
  "client_hash_add_connection cid fd np s =
     bind_run (HASH_FIND (s_table s) (s_clients s) (id_bytes cid)) (\<lambda>p.
       if p = NULL then Some (Inr s)
       else bind_run (Some (get_client s p)) (\<lambda>c.
            bind_run (Some (llist_insert_tail (c_sockfds c) fd np (s_fds s))) (\<lambda>st.
            Some (Inr (s\<lparr>s_fds := st\<rparr>)))))"

definition client_hash_remove_connection :: "int \<Rightarrow> int \<Rightarrow> server \<Rightarrow> server run" where
  "client_hash_remove_connection cid fd s =
     bind_run (HASH_FIND (s_table s) (s_clients s) (id_bytes cid)) (\<lambda>p.
       if p = NULL then Some (Inr s)
       else bind_run (Some (get_client s p)) (\<lambda>c.
            bind_run (llist_remove_value (c_sockfds c) fd (s_fds s)) (\<lambda>(_, st).
            Some (Inr (s\<lparr>s_fds := st\<rparr>)))))"

text \<open>
  The loop of \<open>main\<close> over the ids given on the command line. For each id the addresses of
  the client, of its list and of the table are given. A client whose id is taken is
  created and never used.
\<close>

fun setup_clients :: "(u16 \<times> ptr \<times> ptr \<times> ptr) list \<Rightarrow> server \<Rightarrow> server run" where
  "setup_clients [] s = Some (Inr s)"
| "setup_clients ((cid, p, lp, tp) # ids) s =
     bind_run (Some (create_client cid p lp s)) (\<lambda>(c, s1).
     bind_run (client_hash_add_client tp True c s1) (\<lambda>s2. setup_clients ids s2))"

section \<open>Sending\<close>

text \<open>
  The sockets: what each one's next calls of \<open>send\<close> accept, the bytes written to it so
  far, and whether the server has closed it.
\<close>

record net =
  outs :: "int \<Rightarrow> out_script"
  wire :: "int \<Rightarrow> byte list"
  shut :: "int \<Rightarrow> bool"

definition send_to :: "int \<Rightarrow> message \<Rightarrow> net \<Rightarrow> (int \<times> net) res" where
  "send_to fd m n =
     bind_res (send_message (Some m) (outs n fd)) (\<lambda>(r, sent, out').
       Inr (r, n\<lparr>outs := (outs n)(fd := out'), wire := (wire n)(fd := wire n fd @ sent)\<rparr>))"

text \<open>The inner loop of the sender: the message goes to every connection of one client.\<close>

partial_function (option) send_fds_loop :: "message \<Rightarrow> ptr \<Rightarrow> server \<Rightarrow> net \<Rightarrow> net run" where
  "send_fds_loop m n s w =
     (if n = NULL then Some (Inr w)
      else bind_run (Some (get_node (s_fds s) n)) (\<lambda>c.
           bind_run (Some (send_to (n_data c) m w)) (\<lambda>(r, w'). send_fds_loop m (n_next c) s w')))"

text \<open>
  The outer loop: along the clients, in the order of the table. A client without
  connections is skipped; the others get the message, unless it is theirs, and in either
  case have now read the log up to \<open>node\<close>.
\<close>

definition client_next :: "server \<Rightarrow> ptr \<Rightarrow> ptr res" where
  "client_next s c = bind_res (get_handle (s_table s) c) (\<lambda>h. Inr (u_next h))"

partial_function (option) sender_loop ::
    "message \<Rightarrow> ptr \<Rightarrow> ptr \<Rightarrow> server \<Rightarrow> net \<Rightarrow> (server \<times> net) run" where
  "sender_loop m node c s w =
     (if c = NULL then Some (Inr (s, w))
      else bind_run (Some (get_client s c)) (\<lambda>cl.
           bind_run (Some (llist_is_empty (c_sockfds cl) (s_fds s))) (\<lambda>e.
             if e then bind_run (Some (client_next s c)) (\<lambda>c'. sender_loop m node c' s w)
             else
               bind_run (if c_id cl \<noteq> uint (msg_id m)
                         then bind_run (Some (get_list (s_fds s) (c_sockfds cl)))
                                (\<lambda>l. send_fds_loop m (l_head l) s w)
                         else Some (Inr w)) (\<lambda>w'.
               bind_run (Some (client_next s c)) (\<lambda>c'.
               sender_loop m node c' (set_client s c (cl\<lparr>c_last_read := node\<rparr>)) w')))))"

text \<open>One round of the sender after it took \<open>m\<close> off the queue.\<close>

definition sender_round :: "message \<Rightarrow> ptr \<Rightarrow> server \<Rightarrow> net \<Rightarrow> (server \<times> net) run" where
  "sender_round m np s w =
     bind_run (Some (message_log_append m np s)) (\<lambda>(node, s1). sender_loop m node (s_clients s1) s1 w)"

text \<open>
  The whole body of the sender's loop: \<open>None\<close> when there is nothing in the queue and the
  thread goes to sleep.
\<close>

definition sender_iteration :: "ptr \<Rightarrow> server \<Rightarrow> net \<Rightarrow> (server \<times> net) option run" where
  "sender_iteration np s w =
     bind_run (Some (jobqueue_dequeue (s_sendqueue s) (s_jobs s))) (\<lambda>r.
       case r of None \<Rightarrow> Some (Inr None)
       | Some (m, st) \<Rightarrow>
           bind_run (sender_round m np (s\<lparr>s_jobs := st\<rparr>) w) (\<lambda>(s', w'). Some (Inr (Some (s', w')))))"

text \<open>
  \<open>fast_forward\<close>: the messages from the place the client has read to, that one included, to
  the end of the log. On an error the client's place is left as it was.
\<close>

partial_function (option) fast_forward_loop ::
    "int \<Rightarrow> int \<Rightarrow> ptr \<Rightarrow> server \<Rightarrow> net \<Rightarrow> (bool \<times> net) run" where
  "fast_forward_loop cid fd cursor s w =
     (if cursor = NULL then Some (Inr (True, w))
      else bind_run (Some (get_node (s_log s) cursor)) (\<lambda>n.
             if uint (msg_id (n_data n)) \<noteq> cid then
               bind_run (Some (send_to fd (n_data n) w)) (\<lambda>(r, w').
                 if r = -1 then Some (Inr (False, w'))
                 else fast_forward_loop cid fd (n_next n) s w')
             else fast_forward_loop cid fd (n_next n) s w))"

definition fast_forward :: "ptr \<Rightarrow> int \<Rightarrow> server \<Rightarrow> net \<Rightarrow> (int \<times> server \<times> net) run" where
  "fast_forward c fd s w =
     bind_run (Some (get_client s c)) (\<lambda>cl.
     bind_run (Some (get_list (s_log s) (s_log_list s))) (\<lambda>l.
     bind_run (fast_forward_loop (c_id cl) fd
                 (if c_last_read cl = NULL then l_head l else c_last_read cl) s w) (\<lambda>(ok, w').
       if ok then Some (Inr (0, set_client s c (cl\<lparr>c_last_read := l_tail l\<rparr>), w'))
       else Some (Inr (-1, s, w')))))"

end
