(* ===== verification/Server_Clients.thy ===== *)
theory Server_Clients
  imports Server_State
begin

text \<open>
  Which clients a server state represents, \<open>clients_rep\<close>, and what the operations of
  \<^verbatim>\<open>server.c\<close> on the client table do to them: the loop of \<open>main\<close> that registers the
  ids, look-up, and adding and removing a connection.
\<close>

section \<open>The clients a state represents\<close>

text \<open>
  A client: its addresses, its id, its connections in the order they were added, and its
  place in the log.
\<close>

record entry =
  e_ptr :: ptr
  e_list :: ptr
  e_nodes :: "ptr list"
  e_id :: int
  e_fds :: "int list"
  e_last :: ptr

definition entry_ok :: "server \<Rightarrow> entry \<Rightarrow> bool" where
  "entry_ok s e \<longleftrightarrow>
     s_cells s (e_ptr e) = Some \<lparr>c_id = e_id e, c_sockfds = e_list e, c_last_read = e_last e\<rparr> \<and>
     llist_rep (s_fds s) (e_list e) (e_nodes e) (e_fds e) \<and>
     key_of (s_table s) (e_ptr e) = id_bytes (e_id e) \<and> 0 \<le> e_id e \<and> e_id e < 2 ^ 16"

definition clients_rep :: "nat \<Rightarrow> server \<Rightarrow> entry list \<Rightarrow> bool" where
  "clients_rep k s es \<longleftrightarrow>
     ut_rep k (s_table s) (s_clients s) (map e_ptr es) \<and> (\<forall>e \<in> set es. entry_ok s e) \<and>
     distinct (map e_id es) \<and> distinct (map e_list es) \<and> distinct (concat (map e_nodes es))"

lemma length_id_bytes [simp]: "length (id_bytes i) = 4"
  by (simp add: id_bytes_def)

lemma id_bytes_inj:
  assumes "0 \<le> i" "i < 2 ^ 16" "0 \<le> j" "j < 2 ^ 16" "id_bytes i = id_bytes j"
  shows "i = j"
proof -
  from assms(5) have "(word_of_int i :: byte) = word_of_int j"
    "(word_of_int (i div 256) :: byte) = word_of_int (j div 256)"
    by (simp_all add: id_bytes_def)
  then have "uint (word_of_int i :: byte) = uint (word_of_int j :: byte)"
    "uint (word_of_int (i div 256) :: byte) = uint (word_of_int (j div 256) :: byte)"
    by simp_all
  then have "i mod 256 = j mod 256" "(i div 256) mod 256 = (j div 256) mod 256"
    by (simp_all add: uint_word_of_int)
  moreover have "(i div 256) mod 256 = i div 256" "(j div 256) mod 256 = j div 256"
    using assms by (auto intro!: mod_pos_pos_trivial)
  ultimately show ?thesis by (metis div_mult_mod_eq)
qed

text \<open>Decomposition at one client.\<close>

lemma clients_rep_ptrs:
  assumes "clients_rep k s es"
  shows "NULL \<notin> e_ptr ` set es" and "distinct (map e_ptr es)"
proof -
  from assms have rep: "ut_rep k (s_table s) (s_clients s) (map e_ptr es)" by (simp add: clients_rep_def)
  then show "NULL \<notin> e_ptr ` set es" using ut_rep_nonnull by fastforce
  show "distinct (map e_ptr es)"
    using rep nchain_distinct by (cases "es = []") (auto simp: ut_rep_def)
qed

lemma clients_rep_keys:
  assumes "clients_rep k s es"
  shows "map (key_of (s_table s)) (map e_ptr es) = map (id_bytes \<circ> e_id) es"
    and "distinct (map (key_of (s_table s)) (map e_ptr es))"
proof -
  show *: "map (key_of (s_table s)) (map e_ptr es) = map (id_bytes \<circ> e_id) es"
    using assms by (simp add: clients_rep_def entry_ok_def)
  have "inj_on id_bytes (e_id ` set es)"
    using assms by (intro inj_onI) (auto simp: clients_rep_def entry_ok_def intro: id_bytes_inj)
  then have "distinct (map id_bytes (map e_id es))"
    using assms by (simp only: distinct_map) (simp add: clients_rep_def distinct_map)
  then show "distinct (map (key_of (s_table s)) (map e_ptr es))" unfolding * by simp
qed

section \<open>Look-up\<close>

lemma lookup_present:
  assumes "clients_rep k s es" "e \<in> set es"
  shows "HASH_FIND (s_table s) (s_clients s) (id_bytes (e_id e)) = Some (Inr (e_ptr e))"
proof -
  have "key_of (s_table s) (e_ptr e) = id_bytes (e_id e)"
    using assms by (simp add: clients_rep_def entry_ok_def)
  moreover have "ut_rep k (s_table s) (s_clients s) (map e_ptr es)" using assms by (simp add: clients_rep_def)
  ultimately show ?thesis
    using ut.find_present [OF _ clients_rep_keys(2) [OF assms(1)], of k "s_clients s" "e_ptr e"] assms(2)
    by simp
qed

lemma lookup_absent:
  assumes "clients_rep k s es" "0 \<le> i" "i < 2 ^ 16" "i \<notin> e_id ` set es"
  shows "HASH_FIND (s_table s) (s_clients s) (id_bytes i) = Some (Inr NULL)"
proof (rule ut.find_absent)
  show "ut_rep k (s_table s) (s_clients s) (map e_ptr es)" using assms(1) by (simp add: clients_rep_def)
  show "distinct (map (key_of (s_table s)) (map e_ptr es))" by (rule clients_rep_keys(2) [OF assms(1)])
  show "id_bytes i \<notin> key_of (s_table s) ` set (map e_ptr es)"
  proof
    assume "id_bytes i \<in> key_of (s_table s) ` set (map e_ptr es)"
    then obtain e where e: "e \<in> set es" "id_bytes i = key_of (s_table s) (e_ptr e)" by auto
    with assms(1) have "id_bytes i = id_bytes (e_id e)" "0 \<le> e_id e" "e_id e < 2 ^ 16"
      by (simp_all add: clients_rep_def entry_ok_def)
    with id_bytes_inj assms(2,3) have "i = e_id e" by blast
    with e(1) assms(4) show False by blast
  qed
qed simp

lemma get_client_entry:
  assumes "clients_rep k s es" "e \<in> set es"
  shows "get_client s (e_ptr e) = Inr \<lparr>c_id = e_id e, c_sockfds = e_list e, c_last_read = e_last e\<rparr>"
    and "e_ptr e \<noteq> NULL"
proof -
  show "e_ptr e \<noteq> NULL" using clients_rep_ptrs(1) [OF assms(1)] assms(2) by force
  with assms show "get_client s (e_ptr e) = Inr \<lparr>c_id = e_id e, c_sockfds = e_list e, c_last_read = e_last e\<rparr>"
    by (simp add: get_client_def clients_rep_def entry_ok_def)
qed

section \<open>Connections\<close>

text \<open>One client's list of connections replaced by another.\<close>

lemma clients_rep_fds:
  assumes rep: "clients_rep k s (as @ e # bs)"
    and st: "only_changes (s_fds s) st A (e_list e)" "llist_rep st (e_list e) ns fds"
    and A: "\<And>e'. e' \<in> set (as @ bs) \<Longrightarrow> set (e_nodes e') \<inter> A = {}"
    and ns: "distinct ns" "set ns \<subseteq> A"
  shows "clients_rep k (s\<lparr>s_fds := st\<rparr>) (as @ e\<lparr>e_nodes := ns, e_fds := fds\<rparr> # bs)"
proof -
  have other: "entry_ok (s\<lparr>s_fds := st\<rparr>) e'" if e': "e' \<in> set (as @ bs)" for e'
  proof -
    have "entry_ok s e'" using rep e' by (auto simp: clients_rep_def)
    moreover have "e_list e \<notin> e_list ` set (as @ bs)" using rep by (auto simp: clients_rep_def)
    then have "e_list e' \<noteq> e_list e" using e' by (metis imageI)
    ultimately show ?thesis
      using llist_rep_frame [OF _ st(1), of "e_list e'" "e_nodes e'" "e_fds e'"] A [OF e']
      by (simp add: entry_ok_def)
  qed
  have "entry_ok (s\<lparr>s_fds := st\<rparr>) (e\<lparr>e_nodes := ns, e_fds := fds\<rparr>)"
    using rep st(2) by (simp add: clients_rep_def entry_ok_def)
  moreover have "set (concat (map e_nodes (as @ bs))) \<inter> set ns = {}"
    using A ns(2) by fastforce
  then have "distinct (concat (map e_nodes (as @ e\<lparr>e_nodes := ns, e_fds := fds\<rparr> # bs)))"
    using rep ns(1) by (auto simp: clients_rep_def)
  ultimately show ?thesis using rep other by (simp add: clients_rep_def)
qed

lemma entry_nodes:
  assumes "clients_rep k s (as @ e # bs)"
  shows "llist_rep (s_fds s) (e_list e) (e_nodes e) (e_fds e)"
    and "e' \<in> set (as @ bs) \<Longrightarrow> set (e_nodes e') \<inter> set (e_nodes e) = {}"
    and "e' \<in> set (as @ e # bs) \<Longrightarrow> set (e_nodes e') \<subseteq> dom (nodes (s_fds s))"
proof -
  show "llist_rep (s_fds s) (e_list e) (e_nodes e) (e_fds e)"
    using assms by (simp add: clients_rep_def entry_ok_def)
  show "e' \<in> set (as @ bs) \<Longrightarrow> set (e_nodes e') \<inter> set (e_nodes e) = {}"
    using assms by (auto simp: clients_rep_def)
  show "e' \<in> set (as @ e # bs) \<Longrightarrow> set (e_nodes e') \<subseteq> dom (nodes (s_fds s))"
    using assms by (auto simp: clients_rep_def entry_ok_def elim!: llist_repE)
qed

lemma add_connection_present:
  assumes rep: "clients_rep k s (as @ e # bs)" and np: "np \<noteq> NULL" "nodes (s_fds s) np = None"
  shows "\<exists>st. client_hash_add_connection (e_id e) fd np s = Some (Inr (s\<lparr>s_fds := st\<rparr>))
     \<and> clients_rep k (s\<lparr>s_fds := st\<rparr>)
         (as @ e\<lparr>e_nodes := e_nodes e @ [np], e_fds := e_fds e @ [fd]\<rparr> # bs)"
proof -
  note e = entry_nodes [OF rep]
  from llist_insert_tail_correct [OF e(1) np, of fd] obtain st where st:
    "llist_insert_tail (e_list e) fd np (s_fds s) = Inr st"
    "llist_rep st (e_list e) (e_nodes e @ [np]) (e_fds e @ [fd])"
    "only_changes (s_fds s) st (insert np (set (e_nodes e))) (e_list e)" by blast
  have ex: "e \<in> set (as @ e # bs)" by simp
  have fresh: "np \<notin> set (e_nodes e')" if "e' \<in> set (as @ e # bs)" for e'
    using e(3) [OF that] np(2) by auto
  have "distinct (e_nodes e)" using rep by (simp add: clients_rep_def)
  then have "distinct (e_nodes e @ [np])" using fresh [OF ex] by simp
  moreover have "set (e_nodes e') \<inter> insert np (set (e_nodes e)) = {}" if "e' \<in> set (as @ bs)" for e'
    using e(2) [OF that] fresh [of e'] that by auto
  ultimately have "clients_rep k (s\<lparr>s_fds := st\<rparr>)
      (as @ e\<lparr>e_nodes := e_nodes e @ [np], e_fds := e_fds e @ [fd]\<rparr> # bs)"
    using clients_rep_fds [OF rep st(3,2)] by simp
  then show ?thesis
    using get_client_entry [OF rep ex] lookup_present [OF rep ex] st(1)
    by (intro exI [of _ st]) (simp add: client_hash_add_connection_def)
qed

lemma remove_connection_present:
  assumes rep: "clients_rep k s (as @ e # bs)"
  shows "\<exists>st rs. client_hash_remove_connection (e_id e) fd s = Some (Inr (s\<lparr>s_fds := st\<rparr>))
     \<and> clients_rep k (s\<lparr>s_fds := st\<rparr>) (as @ e\<lparr>e_nodes := rs, e_fds := remove1 fd (e_fds e)\<rparr> # bs)"
proof -
  note e = entry_nodes [OF rep]
  from llist_remove_value_correct [OF e(1), of fd] obtain st rs where st:
    "llist_remove_value (e_list e) fd (s_fds s) = Some (Inr (if fd \<in> set (e_fds e) then Some fd else None, st))"
    "llist_rep st (e_list e) rs (remove1 fd (e_fds e))" "set rs \<subseteq> set (e_nodes e)"
    "only_changes (s_fds s) st (set (e_nodes e)) (e_list e)" by blast
  have ex: "e \<in> set (as @ e # bs)" by simp
  have "distinct rs" using st(2) by (auto elim: llist_repE)
  with clients_rep_fds [OF rep st(4,2) e(2)] st(3)
  have "clients_rep k (s\<lparr>s_fds := st\<rparr>) (as @ e\<lparr>e_nodes := rs, e_fds := remove1 fd (e_fds e)\<rparr> # bs)"
    by blast
  then show ?thesis
    using get_client_entry [OF rep ex] lookup_present [OF rep ex] st(1)
    by (auto simp: client_hash_remove_connection_def)
qed

section \<open>Registration\<close>

text \<open>What the entry of a new client is.\<close>

abbreviation new_entry :: "u16 \<Rightarrow> ptr \<Rightarrow> ptr \<Rightarrow> entry" where
  "new_entry cid p lp \<equiv> \<lparr>e_ptr = p, e_list = lp, e_nodes = [], e_id = uint cid, e_fds = [], e_last = NULL\<rparr>"

lemma uint_u16: "0 \<le> uint (x::u16)" "uint (x::u16) < 2 ^ 16"
  using uint_lt2p [of x] by simp_all

text \<open>A client that is created but not yet in the table leaves the table's clients alone.\<close>

lemma create_client_frame:
  assumes rep: "clients_rep k s es" and p: "p \<noteq> NULL" "lp \<noteq> NULL" "p \<notin> e_ptr ` set es" "lp \<notin> e_list ` set es"
  shows "\<exists>st. create_client cid p lp s = Inr (p, (set_client s p
       \<lparr>c_id = uint cid, c_sockfds = lp, c_last_read = NULL\<rparr>)\<lparr>s_fds := st\<rparr>)
     \<and> llist_rep st lp [] [] \<and> clients_rep k ((set_client s p
       \<lparr>c_id = uint cid, c_sockfds = lp, c_last_read = NULL\<rparr>)\<lparr>s_fds := st\<rparr>) es"
proof -
  from create_llist_correct [OF p(2), of "s_fds s"] obtain st where st:
    "create_llist lp (s_fds s) = Inr (lp, st)" "llist_rep st lp [] []" "only_changes (s_fds s) st {} lp"
    by blast
  let ?s' = "(set_client s p \<lparr>c_id = uint cid, c_sockfds = lp, c_last_read = NULL\<rparr>)\<lparr>s_fds := st\<rparr>"
  have "entry_ok ?s' e" if e: "e \<in> set es" for e
  proof -
    have "entry_ok s e" "e_ptr e \<noteq> p" "e_list e \<noteq> lp"
      using rep e p(3,4) by (auto simp: clients_rep_def)
    then show ?thesis
      using llist_rep_frame [OF _ st(3), of "e_list e" "e_nodes e" "e_fds e"]
      by (simp add: entry_ok_def set_client_def)
  qed
  then have "clients_rep k ?s' es" using rep by (simp add: clients_rep_def set_client_def)
  then show ?thesis using st(1,2) p(1) by (auto simp: create_client_def)
qed

definition same_queues :: "server \<Rightarrow> server \<Rightarrow> bool" where
  "same_queues s s' \<longleftrightarrow> s_log s' = s_log s \<and> s_log_list s' = s_log_list s \<and>
     s_sendqueue s' = s_sendqueue s \<and> s_jobs s' = s_jobs s"

text \<open>One round of the loop: the id becomes a client unless it is one already.\<close>

lemma register_one:
  assumes rep: "clients_rep k s es" and k: "k < 31"
    and p: "p \<noteq> NULL" "lp \<noteq> NULL" "tp \<noteq> NULL" "p \<notin> e_ptr ` set es" "lp \<notin> e_list ` set es"
  shows "\<exists>s1 s2 k'. create_client cid p lp s = Inr (p, s1)
     \<and> client_hash_add_client tp True p s1 = Some (Inr s2) \<and> k' \<le> max 6 (Suc k)
     \<and> clients_rep k' s2 (if uint cid \<in> e_id ` set es then es else es @ [new_entry cid p lp])
     \<and> same_queues s s2"
proof -
  let ?c = "\<lparr>c_id = uint cid, c_sockfds = lp, c_last_read = NULL\<rparr>"
  obtain st where c: "create_client cid p lp s = Inr (p, (set_client s p ?c)\<lparr>s_fds := st\<rparr>)"
    "llist_rep st lp [] []" "clients_rep k ((set_client s p ?c)\<lparr>s_fds := st\<rparr>) es"
    using create_client_frame [OF rep p(1,2,4,5), of cid] by blast
  define s1 where "s1 = (set_client s p ?c)\<lparr>s_fds := st\<rparr>"
  note rep1 = c(3) [folded s1_def]
  have g: "get_client s1 p = Inr ?c" "same_queues s s1" "s_fds s1 = st"
      "s_cells s1 p = Some ?c"
    using p(1) by (simp_all add: s1_def get_client_def set_client_def same_queues_def)
  show ?thesis
  proof (cases "uint cid \<in> e_id ` set es")
    case True
    then obtain e where e: "e \<in> set es" "uint cid = e_id e" by auto
    have "client_hash_add_client tp True p s1 = Some (Inr s1)"
      using lookup_present [OF rep1 e(1)] get_client_entry(2) [OF rep1 e(1)] g(1) e(2)
      by (simp add: client_hash_add_client_def)
    then show ?thesis using c(1) rep1 True g by (auto simp: s1_def intro!: exI [of _ k])
  next
    case False
    have look: "HASH_FIND (s_table s1) (s_clients s1) (id_bytes (uint cid)) = Some (Inr NULL)"
      by (rule lookup_absent [OF rep1 uint_u16 False])
    have ur: "ut_rep k (s_table s1) (s_clients s1) (map e_ptr es)" using rep1 by (simp add: clients_rep_def)
    have pn: "p \<notin> set (map e_ptr es)" using p(4) by simp
    from HASH_ADD_ok [OF ur k p(1) pn p(3), of "id_bytes (uint cid)"]
    obtain ut' k' where ut': "HASH_ADD tp True (s_table s1) (s_clients s1) (id_bytes (uint cid)) p
        = Some (Inr (hd (map e_ptr es @ [p]), ut'))" "k' \<le> max 6 (Suc k)"
      "ut_rep k' ut' (hd (map e_ptr es @ [p])) (map e_ptr es @ [p])"
      "key_of ut' = (key_of (s_table s1))(p := id_bytes (uint cid))" by auto
    define s2 where "s2 = s1\<lparr>s_clients := hd (map e_ptr es @ [p]), s_table := ut'\<rparr>"
    have run: "client_hash_add_client tp True p s1 = Some (Inr s2)"
      using look ut'(1) g(1) by (simp add: client_hash_add_client_def s2_def)
    have old: "entry_ok s2 e" if "e \<in> set es" for e
      using rep1 that p(4) ut'(4) by (auto simp: clients_rep_def entry_ok_def s2_def)
    have "entry_ok s2 (new_entry cid p lp)"
      using ut'(4) c(2) g uint_u16 [of cid] by (simp add: entry_ok_def s2_def)
    with old have "clients_rep k' s2 (es @ [new_entry cid p lp])"
      using rep1 ut'(3) False p(5) by (auto simp: clients_rep_def s2_def)
    then show ?thesis using c(1) run ut'(2) False g(2) by (auto simp: s1_def s2_def same_queues_def)
  qed
qed

text \<open>The ids registered, in order, each one once.\<close>

definition add_ids :: "u16 list \<Rightarrow> int list \<Rightarrow> int list" where
  "add_ids cids is = fold (\<lambda>c xs. if uint c \<in> set xs then xs else xs @ [uint c]) cids is"

lemma setup_clients_ok:
  assumes "clients_rep k s es" and "k + length ids \<le> 31" and "6 + length ids \<le> 32"
    and "\<forall>(c, p, lp, tp) \<in> set ids. p \<noteq> NULL \<and> lp \<noteq> NULL \<and> tp \<noteq> NULL"
    and "distinct (map e_ptr es @ map (\<lambda>(_, p, _). p) ids)"
    and "distinct (map e_list es @ map (\<lambda>(_, _, lp, _). lp) ids)"
    and "\<And>e. e \<in> set es \<Longrightarrow> e_fds e = [] \<and> e_last e = NULL"
  shows "\<exists>s' k' es'. setup_clients ids s = Some (Inr s') \<and> clients_rep k' s' es'
     \<and> map e_id es' = add_ids (map fst ids) (map e_id es)
     \<and> (\<forall>e \<in> set es'. e_fds e = [] \<and> e_last e = NULL) \<and> same_queues s s'"
  using assms
proof (induction ids arbitrary: s es k)
  case Nil
  then show ?case by (auto simp: add_ids_def same_queues_def)
next
  case (Cons a ids)
  obtain c p lp tp where a: "a = (c, p, lp, tp)" by (cases a)
  have n: "p \<noteq> NULL" "lp \<noteq> NULL" "tp \<noteq> NULL" using Cons.prems(4) a by auto
  have d: "p \<notin> e_ptr ` set es" "lp \<notin> e_list ` set es" using Cons.prems(5,6) a by auto
  have k: "k < 31" using Cons.prems(2) by simp
  let ?es = "if uint c \<in> e_id ` set es then es else es @ [new_entry c p lp]"
  from register_one [OF Cons.prems(1) k n d, of c] obtain s1 s2 k' where r:
    "create_client c p lp s = Inr (p, s1)" "client_hash_add_client tp True p s1 = Some (Inr s2)"
    "k' \<le> max 6 (Suc k)" "clients_rep k' s2 ?es" "same_queues s s2"
    by blast
  have "k' + length ids \<le> 31" "6 + length ids \<le> 32" using r(3) Cons.prems(2,3) by auto
  moreover have "\<forall>(c, p, lp, tp) \<in> set ids. p \<noteq> NULL \<and> lp \<noteq> NULL \<and> tp \<noteq> NULL"
    using Cons.prems(4) by auto
  moreover have "distinct (map e_ptr ?es @ map (\<lambda>(_, p, _). p) ids)"
    "distinct (map e_list ?es @ map (\<lambda>(_, _, lp, _). lp) ids)"
    using Cons.prems(5,6) a by auto
  moreover have "\<And>e. e \<in> set ?es \<Longrightarrow> e_fds e = [] \<and> e_last e = NULL"
    using Cons.prems(7) by (auto split: if_splits)
  ultimately obtain s' k'' es' where x: "setup_clients ids s2 = Some (Inr s')" "clients_rep k'' s' es'"
    "map e_id es' = add_ids (map fst ids) (map e_id ?es)"
    "\<forall>e \<in> set es'. e_fds e = [] \<and> e_last e = NULL" "same_queues s2 s'"
    using Cons.IH [OF r(4)] by blast
  have "map e_id es' = add_ids (map fst (a # ids)) (map e_id es)"
    using x(3) a by (auto simp: add_ids_def)
  then show ?case using x r a by (auto simp: same_queues_def)
qed

text \<open>The registered ids with their connections.\<close>

definition conns :: "entry list \<Rightarrow> (int \<times> int list) list" where
  "conns es = map (\<lambda>e. (e_id e, e_fds e)) es"

definition upd_conns :: "int \<Rightarrow> (int list \<Rightarrow> int list) \<Rightarrow> (int \<times> int list) list \<Rightarrow> (int \<times> int list) list" where
  "upd_conns cid f cs = map (\<lambda>(i, fds). (i, if i = cid then f fds else fds)) cs"

lemma upd_conns_absent:
  "cid \<notin> e_id ` set es \<Longrightarrow> upd_conns cid f (conns es) = conns es"
  by (auto simp: upd_conns_def conns_def)

lemma conns_append: "conns (as @ e # bs) = conns as @ (e_id e, e_fds e) # conns bs"
  by (simp add: conns_def)

lemma upd_conns_append: "upd_conns cid f (cs @ ds) = upd_conns cid f cs @ upd_conns cid f ds"
  by (simp add: upd_conns_def)

lemma upd_conns_Cons:
  "upd_conns cid f ((i, fds) # cs) = (i, if i = cid then f fds else fds) # upd_conns cid f cs"
  by (simp add: upd_conns_def)

lemma upd_conns_split:
  assumes "clients_rep k s (as @ e # bs)"
  shows "upd_conns (e_id e) f (conns (as @ e # bs)) =
     conns (as @ e\<lparr>e_nodes := ns, e_fds := f (e_fds e)\<rparr> # bs)"
proof -
  have "e_id e \<notin> e_id ` set as" "e_id e \<notin> e_id ` set bs"
    using assms by (auto simp: clients_rep_def)
  then have "upd_conns (e_id e) f (conns as) = conns as" "upd_conns (e_id e) f (conns bs) = conns bs"
    using upd_conns_absent by blast+
  then show ?thesis
    unfolding conns_append upd_conns_append upd_conns_Cons by simp
qed

text \<open>A server without clients, its log and its queue empty.\<close>

definition start_server :: server where
  "start_server = \<lparr>s_cells = Map.empty, s_table = no_handles, s_clients = NULL,
     s_fds = \<lparr>nodes = Map.empty, lists = Map.empty\<rparr>, s_log_list = 1,
     s_log = \<lparr>nodes = Map.empty, lists = [1 \<mapsto> \<lparr>l_head = NULL, l_tail = NULL\<rparr>]\<rparr>,
     s_sendqueue = 1, s_jobs = \<lparr>jnodes = Map.empty,
       queues = [1 \<mapsto> \<lparr>q_head = NULL, q_tail = NULL, q_broadcast = 0\<rparr>]\<rparr>\<rparr>"

lemma clients_rep_start [simp]: "clients_rep k start_server []"
  by (simp add: clients_rep_def start_server_def)

lemma setup_start:
  assumes "length ids \<le> 26"
    and "\<forall>(c, p, lp, tp) \<in> set ids. p \<noteq> NULL \<and> lp \<noteq> NULL \<and> tp \<noteq> NULL"
    and "distinct (map (\<lambda>(_, p, _). p) ids)" and "distinct (map (\<lambda>(_, _, lp, _). lp) ids)"
  shows "\<exists>s k es. setup_clients ids start_server = Some (Inr s) \<and> clients_rep k s es
     \<and> conns es = map (\<lambda>i. (i, [])) (add_ids (map fst ids) [])
     \<and> (\<forall>e \<in> set es. e_last e = NULL) \<and> same_queues start_server s"
proof -
  have "0 + length ids \<le> 31" "6 + length ids \<le> 32" using assms(1) by simp_all
  from setup_clients_ok [OF clients_rep_start this assms(2)] assms(3,4)
  obtain s k es where s: "setup_clients ids start_server = Some (Inr s)" "clients_rep k s es"
    "map e_id es = add_ids (map fst ids) []" "\<forall>e \<in> set es. e_fds e = [] \<and> e_last e = NULL"
    "same_queues start_server s"
    by auto
  have "conns es = map (\<lambda>i. (i, [])) (map e_id es)" using s(4) by (auto simp: conns_def)
  then have "conns es = map (\<lambda>i. (i, [])) (add_ids (map fst ids) [])" by (simp only: s(3))
  with s show ?thesis by blast
qed

text \<open>Two registered clients.\<close>

lemma two_clients:
  "\<exists>k s es. clients_rep k s es \<and> conns es = [(1, []), (2, [])] \<and> nodes (s_fds s) 40 = None
     \<and> (\<forall>e \<in> set es. e_last e = NULL) \<and> same_queues start_server s"
proof -
  obtain s k es where s: "clients_rep k s es" "conns es = map (\<lambda>i. (i, [])) (add_ids [1, 2] [])"
    "\<forall>e \<in> set es. e_last e = NULL" "same_queues start_server s"
    using setup_start [of "[(1, 10, 20, 30), (2, 11, 21, 31)]"] by auto
  then have c: "conns es = [(1, []), (2, [])]" by (simp add: add_ids_def)
  define s0 where "s0 = s\<lparr>s_fds := (s_fds s)\<lparr>nodes := (nodes (s_fds s))(40 := None)\<rparr>\<rparr>"
  have "entry_ok s0 e" if e: "e \<in> set es" for e
  proof -
    have ok: "entry_ok s e" using s(1) e by (simp add: clients_rep_def)
    have "(e_id e, e_fds e) \<in> set (conns es)" using e by (auto simp: conns_def)
    then have none: "e_fds e = []" using c by auto
    then have "e_nodes e = []" using ok llist_rep_length by (fastforce simp: entry_ok_def)
    with ok none show ?thesis by (simp add: entry_ok_def s0_def llist_rep_def)
  qed
  then have "clients_rep k s0 es" using s(1) by (simp add: clients_rep_def s0_def)
  then show ?thesis using c s(3,4) by (intro exI [of _ k] exI [of _ s0] exI [of _ es])
      (simp add: s0_def same_queues_def)
qed

section \<open>Properties\<close>

text \<open>Adding a connection to an id appends the socket to that client's connections and
  touches no other client; for an id that is not registered nothing changes.\<close>

theorem connection_added:
  assumes rep: "clients_rep k s es" and cid: "0 \<le> cid" "cid < 2 ^ 16"
    and np: "np \<noteq> NULL" "nodes (s_fds s) np = None"
  shows "\<exists>s' es'. client_hash_add_connection cid fd np s = Some (Inr s') \<and> clients_rep k s' es'
     \<and> conns es' = upd_conns cid (\<lambda>fds. fds @ [fd]) (conns es)"
proof (cases "cid \<in> e_id ` set es")
  case True
  then obtain as e bs where e: "es = as @ e # bs" "cid = e_id e" by (metis imageE split_list)
  then show ?thesis
    using add_connection_present [OF rep [unfolded e(1)] np, of fd] upd_conns_split [OF rep [unfolded e(1)]]
    by metis
next
  case False
  have "client_hash_add_connection cid fd np s = Some (Inr s)"
    using lookup_absent [OF rep cid False] by (simp add: client_hash_add_connection_def)
  then show ?thesis using rep upd_conns_absent [OF False] by metis
qed

theorem connection_added_witness:
  "\<exists>s s' k es'. client_hash_add_connection 2 5 40 s = Some (Inr s') \<and> clients_rep k s' es'
     \<and> conns es' = [(1, []), (2, [5])]"
proof -
  obtain k s es where s: "clients_rep k s es" "conns es = [(1, []), (2, [])]" "nodes (s_fds s) 40 = None"
    using two_clients by blast
  obtain s' es' where "client_hash_add_connection 2 5 40 s = Some (Inr s')" "clients_rep k s' es'"
    "conns es' = upd_conns 2 (\<lambda>fds. fds @ [5]) (conns es)"
    using connection_added [OF s(1), of 2 40 5] s(3) by auto
  moreover from this(3) s(2) have "conns es' = [(1, []), (2, [5])]" by (simp add: upd_conns_def)
  ultimately show ?thesis by blast
qed

text \<open>Removing a connection takes the first occurrence of the socket off the client's
  connections and touches no other client; nothing changes when the id is not registered or
  the socket is not among its connections.\<close>

theorem connection_removed:
  assumes rep: "clients_rep k s es" and cid: "0 \<le> cid" "cid < 2 ^ 16"
  shows "\<exists>s' es'. client_hash_remove_connection cid fd s = Some (Inr s') \<and> clients_rep k s' es'
     \<and> conns es' = upd_conns cid (remove1 fd) (conns es)"
proof (cases "cid \<in> e_id ` set es")
  case True
  then obtain as e bs where e: "es = as @ e # bs" "cid = e_id e" by (metis imageE split_list)
  then show ?thesis
    using remove_connection_present [OF rep [unfolded e(1)], of fd] upd_conns_split [OF rep [unfolded e(1)]]
    by metis
next
  case False
  have "client_hash_remove_connection cid fd s = Some (Inr s)"
    using lookup_absent [OF rep cid False] by (simp add: client_hash_remove_connection_def)
  then show ?thesis using rep upd_conns_absent [OF False] by metis
qed

theorem connection_removed_witness:
  "\<exists>s s' k es'. client_hash_remove_connection 1 5 s = Some (Inr s') \<and> clients_rep k s' es'
     \<and> conns es' = [(1, []), (2, [])]"
proof -
  obtain k s es where s: "clients_rep k s es" "conns es = [(1, []), (2, [])]" using two_clients by blast
  from connection_removed [OF s(1), of 1 5] s(2) show ?thesis by (auto simp: upd_conns_def)
qed

end
