(* ===== verification/Server_Send.thy ===== *)
theory Server_Send
  imports Server_Clients
begin

text \<open>
  What the two sending routines of \<^verbatim>\<open>server.c\<close> deliver: a round of the sender puts one
  message on the log and sends it to the connections of every other client, and
  \<open>fast_forward\<close> sends a new connection what its client has not read. The registered
  clients, the log and the bytes on every socket are followed through both, errors of
  \<open>send\<close> included.
\<close>

section \<open>One message on one socket\<close>

text \<open>The errors a socket has still to report.\<close>

definition errors :: "out_script \<Rightarrow> nat" where
  "errors s = length (filter (\<lambda>e. e = SendErr) s)"

lemma errors_simps [simp]:
  "errors [] = 0" "errors (SendErr # s) = Suc (errors s)" "errors (Accept n # s) = errors s"
  by (simp_all add: errors_def)

lemma errors_0: "errors s = 0 \<longleftrightarrow> SendErr \<notin> set s"
  by (auto simp: errors_def filter_empty_conv)

lemma send_errors:
  "send bs s = (r, s') \<Longrightarrow> errors s = (case r of None \<Rightarrow> Suc (errors s') | Some n \<Rightarrow> errors s')"
  by (cases "(bs, s)" rule: send.cases) auto

text \<open>What a call uses of the script: nothing new comes up, and what is not sent whole met an error.\<close>

definition used :: "bool \<Rightarrow> out_script \<Rightarrow> out_script \<Rightarrow> bool" where
  "used ok s s' \<longleftrightarrow> set s' \<subseteq> set s \<and> errors s' \<le> errors s \<and> (\<not> ok \<longrightarrow> errors s' < errors s)"

lemma used_refl [simp]: "used True s s"
  by (simp add: used_def)

lemma used_trans: "used True s s' \<Longrightarrow> used ok s' s'' \<Longrightarrow> used ok s s''"
  by (auto simp: used_def)

lemma used_ok: "used ok s s' \<Longrightarrow> used True s s'"
  by (simp add: used_def)

lemma used_error: "used False s s' \<Longrightarrow> SendErr \<in> set s"
  using errors_0 [of s] by (auto simp: used_def)

lemma send_loop_script: "send_loop bs s = (ok, sent, s') \<Longrightarrow> used ok s s'"
proof (induction bs s arbitrary: ok sent s' rule: send_loop.induct)
  case (1 bs s)
  show ?case
  proof (cases "bs = []")
    case True
    with "1.prems" show ?thesis by (simp add: send_loop.simps [of "[]"])
  next
    case False
    obtain r s1 where rs: "send bs s = (r, s1)" by fastforce
    show ?thesis
    proof (cases r)
      case None
      with "1.prems" False rs send_script [OF rs] send_errors [OF rs] show ?thesis
        by (auto simp: send_loop.simps [of bs] used_def)
    next
      case (Some n)
      obtain sent1 where rec: "send_loop (drop n bs) s1 = (ok, sent1, s')"
        using "1.prems" False rs Some by (auto simp: send_loop.simps [of bs] split: prod.splits)
      have "used True s s1" using send_script [OF rs] send_errors [OF rs] Some by (simp add: used_def)
      with "1.IH" [OF False rs [symmetric] Some rec] show ?thesis by (blast intro: used_trans)
    qed
  qed
qed

lemma send_message_script:
  assumes "sendable m" and "send_message (Some m) s = Inr (r, sent, s')"
  shows "used (r = 0) s s'"
proof -
  have "wire_bytes m \<noteq> []" using length_wire_bytes [OF assms(1)] by auto
  with assms(2) obtain ok where "send_loop (wire_bytes m) s = (ok, sent, s')" "r = (if ok then 0 else -1)"
    by (auto simp: send_message_def message_marshal_sendable [OF assms(1)] split: prod.splits)
  with send_loop_script [of "wire_bytes m" s ok sent s'] show ?thesis by (cases ok) simp_all
qed

text \<open>
  \<open>got m w w' fd\<close>: from \<open>w\<close> to \<open>w'\<close> the socket was sent a prefix of the message, the whole
  of it unless the socket reported an error.
\<close>

definition got :: "message \<Rightarrow> net \<Rightarrow> net \<Rightarrow> int \<Rightarrow> bool" where
  "got m w w' fd \<longleftrightarrow> (\<exists>x rest. wire w' fd = wire w fd @ x \<and> wire_bytes m = x @ rest \<and>
     used (rest = []) (outs w fd) (outs w' fd))"

lemma got_error:
  assumes "got m w w' fd"
  obtains x rest where "wire w' fd = wire w fd @ x" "wire_bytes m = x @ rest"
    "rest \<noteq> [] \<longrightarrow> SendErr \<in> set (outs w fd)" "set (outs w' fd) \<subseteq> set (outs w fd)"
proof -
  from assms obtain x rest where x: "wire w' fd = wire w fd @ x" "wire_bytes m = x @ rest"
    and u: "used (rest = []) (outs w fd) (outs w' fd)" by (auto simp: got_def)
  have "rest \<noteq> [] \<longrightarrow> SendErr \<in> set (outs w fd)" using u used_error by auto
  moreover have "set (outs w' fd) \<subseteq> set (outs w fd)" using u by (simp add: used_def)
  ultimately show thesis using x that by blast
qed

definition untouched :: "net \<Rightarrow> net \<Rightarrow> int \<Rightarrow> bool" where
  "untouched w w' fd \<longleftrightarrow> wire w' fd = wire w fd \<and> outs w' fd = outs w fd"

definition delivered :: "message \<Rightarrow> net \<Rightarrow> net \<Rightarrow> int set \<Rightarrow> bool" where
  "delivered m w w' F \<longleftrightarrow> (\<forall>fd. if fd \<in> F then got m w w' fd else untouched w w' fd)"

lemma delivered_in: "delivered m w w' F \<Longrightarrow> fd \<in> F \<Longrightarrow> got m w w' fd"
  unfolding delivered_def by meson

lemma delivered_out: "delivered m w w' F \<Longrightarrow> fd \<notin> F \<Longrightarrow> untouched w w' fd"
  unfolding delivered_def by meson

lemma delivered_empty [simp]: "delivered m w w {}"
  by (simp add: delivered_def untouched_def)

lemma delivered_union:
  assumes "delivered m w w' F" "delivered m w' w'' G" "F \<inter> G = {}"
  shows "delivered m w w'' (F \<union> G)"
proof -
  have g: "got m w w2 fd" if "got m w w1 fd" "untouched w1 w2 fd" for w w1 w2 fd
    using that by (simp add: got_def untouched_def)
  have g': "got m w w2 fd" if "untouched w w1 fd" "got m w1 w2 fd" for w w1 w2 fd
    using that by (simp add: got_def untouched_def)
  have u: "untouched w w2 fd" if "untouched w w1 fd" "untouched w1 w2 fd" for w w1 w2 fd
    using that by (simp add: untouched_def)
  have "if fd \<in> F \<union> G then got m w w'' fd else untouched w w'' fd" for fd
  proof (cases "fd \<in> F")
    case True
    then have "fd \<notin> G" using assms(3) by blast
    then show ?thesis using g [OF delivered_in [OF assms(1) True] delivered_out [OF assms(2)]] True by simp
  next
    case out: False
    note un = delivered_out [OF assms(1) out]
    show ?thesis
      using g' [OF un delivered_in [OF assms(2)]] u [OF un delivered_out [OF assms(2)]] out
      by (cases "fd \<in> G") simp_all
  qed
  then show ?thesis unfolding delivered_def by (rule allI)
qed

lemma send_to_ok:
  assumes "sendable m"
  shows "\<exists>r w'. send_to fd m w = Inr (r, w') \<and> delivered m w w' {fd}
     \<and> (r = 0 \<and> wire w' fd = wire w fd @ wire_bytes m \<or>
        r = -1 \<and> (\<exists>x rest. rest \<noteq> [] \<and> wire_bytes m = x @ rest \<and> wire w' fd = wire w fd @ x)
          \<and> SendErr \<in> set (outs w fd))"
proof -
  obtain r sent out' where run: "send_message (Some m) (outs w fd) = Inr (r, sent, out')"
    using send_message_returns [OF assms] by blast
  note res = send_message_result [OF assms run] and scr = send_message_script [OF assms run]
  let ?w = "w\<lparr>outs := (outs w)(fd := out'), wire := (wire w)(fd := wire w fd @ sent)\<rparr>"
  have "send_to fd m w = Inr (r, ?w)" using run by (simp add: send_to_def)
  moreover have "got m w ?w fd" using res scr by (auto simp: got_def)
  then have "delivered m w ?w {fd}" by (auto simp: delivered_def untouched_def)
  ultimately show ?thesis using res by auto
qed

section \<open>The sender\<close>

lemma send_fds_loop_ok:
  assumes "nchain (nexts (s_fds s)) n ps" "map (datas (s_fds s)) ps = map Some fds"
    and "distinct fds" and m: "sendable m"
  shows "\<exists>w'. send_fds_loop m n s w = Some (Inr w') \<and> delivered m w w' (set fds)"
  using assms(1-3)
proof (induction ps arbitrary: n fds w)
  case Nil
  then show ?case by (subst send_fds_loop.simps) simp
next
  case (Cons p ps)
  from Cons.prems obtain fd fds' where fds: "fds = fd # fds'" "datas (s_fds s) p = Some fd"
    "map (datas (s_fds s)) ps = map Some fds'" "fd \<notin> set fds'" "distinct fds'" by auto
  then obtain c where c: "nodes (s_fds s) p = Some c" "n_data c = fd" by (auto simp: datas_def)
  with Cons.prems(1) have n: "n = p" "p \<noteq> NULL" "nchain (nexts (s_fds s)) (n_next c) ps"
    by auto
  obtain r w1 where w1: "send_to fd m w = Inr (r, w1)" "delivered m w w1 {fd}"
    using send_to_ok [OF m, of fd w] by blast
  obtain w' where w': "send_fds_loop m (n_next c) s w1 = Some (Inr w')" "delivered m w1 w' (set fds')"
    using Cons.IH [OF n(3) fds(3,5)] by blast
  have "send_fds_loop m n s w = Some (Inr w')"
    using n(1,2) c w1(1) w'(1) by (subst send_fds_loop.simps) simp
  moreover have "delivered m w w' (set fds)"
    using delivered_union [OF w1(2) w'(2)] fds(1,4) by simp
  ultimately show ?case by blast
qed

definition read_up_to :: "ptr \<Rightarrow> entry \<Rightarrow> entry" where
  "read_up_to node e = (if e_fds e = [] then e else e\<lparr>e_last := node\<rparr>)"

definition targets :: "message \<Rightarrow> entry list \<Rightarrow> int set" where
  "targets m es = (\<Union>e \<in> set es. if e_id e = uint (msg_id m) then {} else set (e_fds e))"

lemma targets_Cons [simp]:
  "targets m (e # es) = (if e_id e = uint (msg_id m) then {} else set (e_fds e)) \<union> targets m es"
  and targets_Nil [simp]: "targets m [] = {}"
  by (simp_all add: targets_def)

text \<open>Moving a client's place in the log.\<close>

lemma clients_rep_last:
  assumes rep: "clients_rep k s (as @ e # bs)"
  shows "clients_rep k (set_client s (e_ptr e) \<lparr>c_id = e_id e, c_sockfds = e_list e, c_last_read = node\<rparr>)
     (as @ e\<lparr>e_last := node\<rparr> # bs)"
proof -
  let ?s = "set_client s (e_ptr e) \<lparr>c_id = e_id e, c_sockfds = e_list e, c_last_read = node\<rparr>"
  have "entry_ok ?s e'" if e': "e' \<in> set (as @ bs)" for e'
  proof -
    have "e_ptr e \<notin> e_ptr ` set (as @ bs)" using clients_rep_ptrs(2) [OF rep] by auto
    then have "e_ptr e' \<noteq> e_ptr e" using e' by (metis imageI)
    moreover have "entry_ok s e'" using rep e' by (auto simp: clients_rep_def)
    ultimately show ?thesis by (simp add: entry_ok_def set_client_def)
  qed
  moreover have "entry_ok ?s (e\<lparr>e_last := node\<rparr>)"
    using rep by (simp add: clients_rep_def entry_ok_def set_client_def)
  ultimately show ?thesis using rep by (simp add: clients_rep_def set_client_def)
qed

text \<open>The client after one on the table's list.\<close>

lemma client_next_ok:
  assumes "nchain (appn (s_table s)) c (p # ps)"
  shows "c = p" "p \<noteq> NULL" "\<exists>c'. client_next s p = Inr c' \<and> nchain (appn (s_table s)) c' ps"
proof -
  from assms obtain r where r: "c = p" "p \<noteq> NULL" "appn (s_table s) p = Some r"
    "nchain (appn (s_table s)) r ps" by auto
  then obtain h where "handles (s_table s) p = Some h" "u_next h = r" by (auto simp: appn_def)
  then have "client_next s p = Inr r" using r(2) by (simp add: client_next_def get_handle_def)
  with r(4) show "\<exists>c'. client_next s p = Inr c' \<and> nchain (appn (s_table s)) c' ps" by blast
  show "c = p" "p \<noteq> NULL" by (fact r)+
qed

lemma sender_loop_ok:
  assumes m: "sendable m"
  shows "clients_rep k s (as @ bs) \<Longrightarrow> nchain (appn (s_table s)) c (map e_ptr bs) \<Longrightarrow>
     distinct (concat (map e_fds bs)) \<Longrightarrow>
     \<exists>cells w'. sender_loop m node c s w = Some (Inr (s\<lparr>s_cells := cells\<rparr>, w'))
       \<and> clients_rep k (s\<lparr>s_cells := cells\<rparr>) (as @ map (read_up_to node) bs)
       \<and> delivered m w w' (targets m bs)"
proof (induction bs arbitrary: as c s w)
  case Nil
  then show ?case by (subst sender_loop.simps) (auto intro!: exI [of _ "s_cells s"])
next
  case (Cons e bs)
  note ex = get_client_entry [OF Cons.prems(1), of e, simplified]
  note nodes = entry_nodes [OF Cons.prems(1)]
  have ch: "nchain (appn (s_table s)) c (e_ptr e # map e_ptr bs)"
    using Cons.prems(2) by (simp only: list.map)
  obtain c' where c': "client_next s (e_ptr e) = Inr c'" "nchain (appn (s_table s)) c' (map e_ptr bs)"
    using client_next_ok(3) [OF ch] by blast
  note c = client_next_ok(1) [OF ch] c'
  have emp: "llist_is_empty (e_list e) (s_fds s) = Inr (e_fds e = [])"
    by (rule llist_is_empty_correct [OF nodes(1)])
  have d: "distinct (concat (map e_fds bs))" "distinct (e_fds e)"
    "set (e_fds e) \<inter> set (concat (map e_fds bs)) = {}"
    using Cons.prems(3) by auto
  show ?case
  proof (cases "e_fds e = []")
    case True
    have "sender_loop m node c s w = sender_loop m node c' s w"
      using ex emp True c(1,2) by (subst sender_loop.simps) simp
    moreover have "clients_rep k s ((as @ [e]) @ bs)" using Cons.prems(1) by simp
    ultimately show ?thesis
      using Cons.IH [of s "as @ [e]" c' w] c(3) d(1) True by (simp add: read_up_to_def)
  next
    case False
    let ?own = "e_id e = uint (msg_id m)"
    let ?s = "set_client s (e_ptr e) \<lparr>c_id = e_id e, c_sockfds = e_list e, c_last_read = node\<rparr>"
    obtain l where l: "get_list (s_fds s) (e_list e) = Inr l"
      "nchain (nexts (s_fds s)) (l_head l) (e_nodes e)"
      "map (datas (s_fds s)) (e_nodes e) = map Some (e_fds e)"
      using nodes(1) by (elim llist_repE) auto
    obtain w1 where w1: "(if e_id e \<noteq> uint (msg_id m)
         then bind_run (Some (get_list (s_fds s) (e_list e))) (\<lambda>l. send_fds_loop m (l_head l) s w)
         else Some (Inr w)) = Some (Inr w1)"
      "delivered m w w1 (if ?own then {} else set (e_fds e))"
    proof (cases ?own)
      case True
      then show thesis using that [of w] by simp
    next
      case False
      then show thesis
        using send_fds_loop_ok [OF l(2,3) d(2) m, of w] l(1) that by auto
    qed
    have "sender_loop m node c s w = sender_loop m node c' ?s w1"
    proof (cases ?own)
      case True
      then have "w1 = w" using w1(1) by simp
      then show ?thesis using ex emp False c(1,2) True by (subst sender_loop.simps) simp
    next
      case own: False
      then have "send_fds_loop m (l_head l) s w = Some (Inr w1)" using w1(1) l(1) by simp
      then show ?thesis using ex emp False c(1,2) own l(1) by (subst sender_loop.simps) simp
    qed
    moreover have "clients_rep k ?s ((as @ [read_up_to node e]) @ bs)"
      using clients_rep_last [OF Cons.prems(1)] False by (simp add: read_up_to_def)
    moreover have "nchain (appn (s_table ?s)) c' (map e_ptr bs)" using c(3) by (simp add: set_client_def)
    ultimately obtain cells w' where x:
      "sender_loop m node c s w = Some (Inr (?s\<lparr>s_cells := cells\<rparr>, w'))"
      "clients_rep k (?s\<lparr>s_cells := cells\<rparr>) ((as @ [read_up_to node e]) @ map (read_up_to node) bs)"
      "delivered m w1 w' (targets m bs)"
      using Cons.IH [of ?s "as @ [read_up_to node e]" c' w1] d(1) by auto
    have "(if ?own then {} else set (e_fds e)) \<inter> targets m bs = {}"
      using d(3) by (auto simp: targets_def split: if_splits)
    from delivered_union [OF w1(2) x(3) this] x(1,2) show ?thesis
      by (auto simp: set_client_def intro!: exI [of _ cells])
  qed
qed

text \<open>A round of the sender, on the log and the clients together.\<close>

definition log_rep :: "server \<Rightarrow> ptr list \<Rightarrow> message list \<Rightarrow> bool" where
  "log_rep s ps ms \<longleftrightarrow> llist_rep (s_log s) (s_log_list s) ps ms"

lemma message_log_append_ok:
  assumes "log_rep s ps ms" "np \<noteq> NULL" "nodes (s_log s) np = None"
  shows "\<exists>st. message_log_append m np s = Inr (np, s\<lparr>s_log := st\<rparr>)
     \<and> log_rep (s\<lparr>s_log := st\<rparr>) (ps @ [np]) (ms @ [m])
     \<and> (\<forall>p. nodes (s_log s) p = None \<longrightarrow> p \<noteq> np \<longrightarrow> nodes st p = None)"
proof -
  have rep: "llist_rep (s_log s) (s_log_list s) ps ms" using assms(1) by (simp add: log_rep_def)
  from llist_insert_tail_correct [OF rep assms(2,3), of m] obtain st where st:
    "llist_insert_tail (s_log_list s) m np (s_log s) = Inr st"
    "llist_rep st (s_log_list s) (ps @ [np]) (ms @ [m])"
    "only_changes (s_log s) st (insert np (set ps)) (s_log_list s)" by blast
  from st(2) obtain l where l: "get_list st (s_log_list s) = Inr l" "l_tail l = np"
    by (elim llist_repE) auto
  have "message_log_append m np s = Inr (np, s\<lparr>s_log := st\<rparr>)" using st(1) l by (simp add: message_log_append_def)
  then show ?thesis using st(2) inserted_free [OF rep st(3)] by (auto simp: log_rep_def)
qed

lemma sender_round_full:
  assumes log: "log_rep s ps ms" and np: "np \<noteq> NULL" "nodes (s_log s) np = None"
    and rep: "clients_rep k s es" and d: "distinct (concat (map e_fds es))" and m: "sendable m"
  shows "\<exists>st cells w'. sender_round m np s w = Some (Inr (s\<lparr>s_log := st, s_cells := cells\<rparr>, w'))
     \<and> log_rep (s\<lparr>s_log := st, s_cells := cells\<rparr>) (ps @ [np]) (ms @ [m])
     \<and> clients_rep k (s\<lparr>s_log := st, s_cells := cells\<rparr>) (map (read_up_to np) es) \<and> delivered m w w' (targets m es)
     \<and> (\<forall>p. nodes (s_log s) p = None \<longrightarrow> p \<noteq> np \<longrightarrow> nodes st p = None)"
proof -
  obtain st where st: "message_log_append m np s = Inr (np, s\<lparr>s_log := st\<rparr>)"
    "log_rep (s\<lparr>s_log := st\<rparr>) (ps @ [np]) (ms @ [m])"
    "\<forall>p. nodes (s_log s) p = None \<longrightarrow> p \<noteq> np \<longrightarrow> nodes st p = None"
    using message_log_append_ok [OF log np] by blast
  let ?s = "s\<lparr>s_log := st\<rparr>"
  have "clients_rep k ?s ([] @ es)" using rep by (simp add: clients_rep_def entry_ok_def)
  moreover have "nchain (appn (s_table ?s)) (s_clients ?s) (map e_ptr es)"
    using rep by (cases "es = []") (auto simp: clients_rep_def ut_rep_def)
  ultimately obtain cells w' where x: "sender_loop m np (s_clients ?s) ?s w = Some (Inr (?s\<lparr>s_cells := cells\<rparr>, w'))"
    "clients_rep k (?s\<lparr>s_cells := cells\<rparr>) ([] @ map (read_up_to np) es)" "delivered m w w' (targets m es)"
    using sender_loop_ok [OF m _ _ d, of k ?s "[]"] by blast
  then show ?thesis using st
    by (intro exI [of _ st] exI [of _ cells] exI [of _ w']) (simp add: sender_round_def log_rep_def)
qed

lemma sender_round_ok:
  assumes log: "log_rep s ps ms" and np: "np \<noteq> NULL" "nodes (s_log s) np = None"
    and rep: "clients_rep k s es" and d: "distinct (concat (map e_fds es))" and m: "sendable m"
  shows "\<exists>s' w'. sender_round m np s w = Some (Inr (s', w')) \<and> log_rep s' (ps @ [np]) (ms @ [m])
     \<and> clients_rep k s' (map (read_up_to np) es) \<and> delivered m w w' (targets m es)"
  using sender_round_full [OF assms, of w] by blast

section \<open>Fast forward\<close>

text \<open>The messages of others among \<open>ms\<close>, and their bytes.\<close>

definition others :: "int \<Rightarrow> message list \<Rightarrow> message list" where
  "others cid ms = filter (\<lambda>m. uint (msg_id m) \<noteq> cid) ms"

definition all_bytes :: "message list \<Rightarrow> byte list" where
  "all_bytes ms = concat (map wire_bytes ms)"

lemma all_bytes_simps [simp]:
  "all_bytes [] = []" "all_bytes (m # ms) = wire_bytes m @ all_bytes ms"
  by (simp_all add: all_bytes_def)

text \<open>
  From \<open>w\<close> to \<open>w'\<close> one socket was sent a prefix of the bytes \<open>bs\<close>: all of them when \<open>ok\<close>, and
  otherwise a proper prefix, after an error on the socket.
\<close>

definition sent_part :: "byte list \<Rightarrow> int \<Rightarrow> bool \<Rightarrow> net \<Rightarrow> net \<Rightarrow> bool" where
  "sent_part bs fd ok w w' \<longleftrightarrow> (\<forall>fd'. fd' \<noteq> fd \<longrightarrow> untouched w w' fd')
     \<and> used ok (outs w fd) (outs w' fd)
     \<and> (\<exists>x rest. wire w' fd = wire w fd @ x \<and> bs = x @ rest \<and> (ok \<longleftrightarrow> rest = []))"

lemma sent_part_Nil [simp]: "sent_part [] fd True w w"
  by (simp add: sent_part_def untouched_def)

lemma sent_part_append:
  assumes 1: "sent_part as fd True w w'" and 2: "sent_part bs fd ok w' w''"
  shows "sent_part (as @ bs) fd ok w w''"
proof -
  have a: "wire w' fd = wire w fd @ as" "used True (outs w fd) (outs w' fd)"
    "\<forall>fd'. fd' \<noteq> fd \<longrightarrow> untouched w w' fd'" using 1 by (auto simp: sent_part_def)
  obtain x rest where b: "wire w'' fd = wire w' fd @ x" "bs = x @ rest" "ok \<longleftrightarrow> rest = []"
    and u: "used ok (outs w' fd) (outs w'' fd)" using 2 by (auto simp: sent_part_def)
  have "untouched w w'' fd'" if "fd' \<noteq> fd" for fd'
    using 2 a(3) that by (simp add: sent_part_def untouched_def)
  moreover have "used ok (outs w fd) (outs w'' fd)" by (rule used_trans [OF a(2) u])
  moreover have "wire w'' fd = wire w fd @ (as @ x)" "as @ bs = (as @ x) @ rest" using a(1) b by simp_all
  ultimately show ?thesis using b(3) unfolding sent_part_def by blast
qed

lemma sent_part_stop:
  assumes "sent_part as fd False w w'"
  shows "sent_part (as @ bs) fd False w w'"
proof -
  from assms obtain x rest where x: "wire w' fd = wire w fd @ x" "as = x @ rest" "rest \<noteq> []"
    by (auto simp: sent_part_def)
  then have "as @ bs = x @ (rest @ bs)" "rest @ bs \<noteq> []" by simp_all
  with x(1) assms show ?thesis unfolding sent_part_def by blast
qed

lemma sent_part_error: "sent_part bs fd False w w' \<Longrightarrow> SendErr \<in> set (outs w fd)"
  by (auto simp: sent_part_def intro: used_error)

lemma send_to_part:
  assumes "sendable m"
  shows "\<exists>r w'. send_to fd m w = Inr (r, w') \<and> sent_part (wire_bytes m) fd (r \<noteq> -1) w w'"
proof -
  obtain r w' where x: "send_to fd m w = Inr (r, w')" "delivered m w w' {fd}"
    "r = 0 \<and> wire w' fd = wire w fd @ wire_bytes m \<or>
        r = -1 \<and> (\<exists>x rest. rest \<noteq> [] \<and> wire_bytes m = x @ rest \<and> wire w' fd = wire w fd @ x)
          \<and> SendErr \<in> set (outs w fd)"
    using send_to_ok [OF assms, of fd w] by (elim exE conjE) (rule that)
  have "untouched w w' fd'" if "fd' \<noteq> fd" for fd' using delivered_out [OF x(2)] that by simp
  moreover obtain y rest where y: "wire w' fd = wire w fd @ y" "wire_bytes m = y @ rest"
    "used (rest = []) (outs w fd) (outs w' fd)" using delivered_in [OF x(2), of fd] by (auto simp: got_def)
  moreover have "(rest = []) = (r \<noteq> -1)" using x(3) y(1,2) by auto
  ultimately have "sent_part (wire_bytes m) fd (r \<noteq> -1) w w'" unfolding sent_part_def by auto
  with x(1) show ?thesis by blast
qed

lemma fast_forward_loop_ok:
  assumes "nchain (nexts (s_log s)) cursor ps" "map (datas (s_log s)) ps = map Some ms"
    and "\<forall>m \<in> set ms. sendable m"
  shows "\<exists>ok w'. fast_forward_loop cid fd cursor s w = Some (Inr (ok, w'))
     \<and> sent_part (all_bytes (others cid ms)) fd ok w w'"
  using assms
proof (induction ps arbitrary: cursor ms w)
  case Nil
  then show ?case by (subst fast_forward_loop.simps) (auto simp: others_def intro!: exI [of _ True])
next
  case (Cons p ps)
  from Cons.prems obtain m ms' where ms: "ms = m # ms'" "datas (s_log s) p = Some m"
    "map (datas (s_log s)) ps = map Some ms'" "sendable m" "\<forall>m \<in> set ms'. sendable m" by auto
  then obtain n where n: "nodes (s_log s) p = Some n" "n_data n = m" by (auto simp: datas_def)
  with Cons.prems(1) have c: "cursor = p" "p \<noteq> NULL" "nchain (nexts (s_log s)) (n_next n) ps" by auto
  have step: "fast_forward_loop cid fd cursor s w =
      (if uint (msg_id m) \<noteq> cid then
         bind_run (Some (send_to fd m w)) (\<lambda>(r, w'). if r = -1 then Some (Inr (False, w'))
                 else fast_forward_loop cid fd (n_next n) s w')
       else fast_forward_loop cid fd (n_next n) s w)"
    using c(1,2) n by (subst fast_forward_loop.simps) simp
  show ?case
  proof (cases "uint (msg_id m) = cid")
    case True
    then show ?thesis using step Cons.IH [OF c(3) ms(3,5), of w] ms(1) by (auto simp: others_def)
  next
    case False
    obtain r w1 where w1: "send_to fd m w = Inr (r, w1)" "sent_part (wire_bytes m) fd (r \<noteq> -1) w w1"
      using send_to_part [OF ms(4)] by blast
    have bs: "all_bytes (others cid ms) = wire_bytes m @ all_bytes (others cid ms')"
      using ms(1) False by (simp add: others_def)
    show ?thesis
    proof (cases "r = -1")
      case True
      then have "fast_forward_loop cid fd cursor s w = Some (Inr (False, w1))"
        using step w1(1) False by simp
      moreover have "sent_part (all_bytes (others cid ms)) fd False w w1"
        unfolding bs using w1(2) True by (intro sent_part_stop) simp
      ultimately show ?thesis by blast
    next
      case go: False
      obtain ok w' where x: "fast_forward_loop cid fd (n_next n) s w1 = Some (Inr (ok, w'))"
        "sent_part (all_bytes (others cid ms')) fd ok w1 w'"
        using Cons.IH [OF c(3) ms(3,5), of w1] by blast
      have "fast_forward_loop cid fd cursor s w = Some (Inr (ok, w'))"
        using step w1(1) False go x(1) by simp
      moreover have "sent_part (all_bytes (others cid ms)) fd ok w w'"
        unfolding bs using w1(2) go x(2) by (intro sent_part_append [of _ _ _ w1]) simp_all
      ultimately show ?thesis by blast
    qed
  qed
qed

text \<open>The suffix of a list from one of its cells on.\<close>

lemma llist_suffix:
  assumes "llist_rep st l ps xs" and "i < length ps"
  shows "nchain (nexts st) (ps ! i) (drop i ps)" and "map (datas st) (drop i ps) = map Some (drop i xs)"
proof -
  obtain r where r: "nchain (nexts st) (l_head r) ps" "map (datas st) ps = map Some xs"
    and "lists st l = Some r"
    using assms(1) by (rule llist_repE)
  have "nchain (nexts st) (l_head r) (take i ps @ drop i ps)" using r(1) by simp
  then obtain q where q: "nchain (nexts st) q (drop i ps)" unfolding chain_append by blast
  moreover have "q = ps ! i" using chain_hd [OF q] assms(2) by (simp add: hd_drop_conv_nth)
  ultimately show "nchain (nexts st) (ps ! i) (drop i ps)" by simp
  show "map (datas st) (drop i ps) = map Some (drop i xs)" using r(2) by (metis drop_map)
qed

text \<open>Where \<open>fast_forward\<close> starts: at the first message, or at the one last read.\<close>

definition start_at :: "ptr list \<Rightarrow> ptr \<Rightarrow> nat \<Rightarrow> bool" where
  "start_at ps p i \<longleftrightarrow> (if p = NULL then i = 0 else i < length ps \<and> ps ! i = p)"

definition log_end :: "ptr list \<Rightarrow> ptr" where
  "log_end ps = (if ps = [] then NULL else last ps)"

lemma fast_forward_ok:
  assumes log: "log_rep s ps ms" and rep: "clients_rep k s (as @ e # bs)"
    and i: "start_at ps (e_last e) i" and m: "\<forall>m \<in> set ms. sendable m"
  shows "\<exists>ok s' w'. fast_forward (e_ptr e) fd s w = Some (Inr (if ok then 0 else -1, s', w'))
     \<and> sent_part (all_bytes (others (e_id e) (drop i ms))) fd ok w w'
     \<and> clients_rep k s' (as @ (if ok then e\<lparr>e_last := log_end ps\<rparr> else e) # bs)
     \<and> log_rep s' ps ms \<and> (\<exists>cells. s' = s\<lparr>s_cells := cells\<rparr>)"
proof -
  have ex: "e \<in> set (as @ e # bs)" by simp
  note ec = get_client_entry [OF rep ex]
  from log obtain r where r: "get_list (s_log s) (s_log_list s) = Inr r"
    "nchain (nexts (s_log s)) (l_head r) ps" "map (datas (s_log s)) ps = map Some ms"
    "l_tail r = log_end ps"
    unfolding log_rep_def log_end_def by (elim llist_repE) simp
  let ?c = "if e_last e = NULL then l_head r else e_last e"
  have "nchain (nexts (s_log s)) ?c (drop i ps)" "map (datas (s_log s)) (drop i ps) = map Some (drop i ms)"
    using i r llist_suffix [of "s_log s" "s_log_list s" ps ms i] log
    by (auto simp: start_at_def log_rep_def split: if_splits)
  moreover have "\<forall>m \<in> set (drop i ms). sendable m" using m by (meson in_set_dropD)
  ultimately obtain ok w' where x: "fast_forward_loop (e_id e) fd ?c s w = Some (Inr (ok, w'))"
    "sent_part (all_bytes (others (e_id e) (drop i ms))) fd ok w w'"
    using fast_forward_loop_ok by blast
  let ?s = "set_client s (e_ptr e) \<lparr>c_id = e_id e, c_sockfds = e_list e, c_last_read = log_end ps\<rparr>"
  have run: "fast_forward (e_ptr e) fd s w =
      (if ok then Some (Inr (0, ?s, w')) else Some (Inr (-1, s, w')))"
    unfolding fast_forward_def ec(1) r(1) bind_run_simps client.select_convs x(1) prod.case
    by (simp add: r(4))
  have l: "log_rep ?s ps ms" using log by (simp add: log_rep_def set_client_def)
  have c: "\<exists>cells. ?s = s\<lparr>s_cells := cells\<rparr>" "\<exists>cells. s = s\<lparr>s_cells := cells\<rparr>"
    by (auto simp: set_client_def intro: exI [of _ "s_cells s"])
  show ?thesis
  proof (cases ok)
    case True
    then show ?thesis using run x(2) clients_rep_last [OF rep, of "log_end ps"] l c(1)
      by (intro exI [of _ True] exI [of _ ?s] exI [of _ w']) simp
  next
    case False
    then show ?thesis using run x(2) rep log c(2)
      by (intro exI [of _ False] exI [of _ s] exI [of _ w']) simp
  qed
qed

section \<open>Properties\<close>

text \<open>C5: a round of the sender appends its message to the log and sends it to every
  connection of every registered client but the one it is from: a connection of another
  client gets exactly the message's bytes (a prefix of them if its socket reports an error,
  which stops no one else's), no other socket is written to, and every connected client, the
  sender of the message included, has then read the log up to the new end.\<close>

theorem sender_broadcasts:
  assumes "log_rep s ps ms" "np \<noteq> NULL" "nodes (s_log s) np = None"
    and "clients_rep k s es" "distinct (concat (map e_fds es))" "sendable m"
  shows "\<exists>s' w'. sender_round m np s w = Some (Inr (s', w')) \<and> log_rep s' (ps @ [np]) (ms @ [m])
     \<and> clients_rep k s' (map (\<lambda>e. if e_fds e = [] then e else e\<lparr>e_last := np\<rparr>) es)
     \<and> (\<forall>fd. if \<exists>e \<in> set es. e_id e \<noteq> uint (msg_id m) \<and> fd \<in> set (e_fds e)
             then \<exists>x rest. wire w' fd = wire w fd @ x \<and> wire_bytes m = x @ rest
                    \<and> (rest \<noteq> [] \<longrightarrow> SendErr \<in> set (outs w fd))
             else wire w' fd = wire w fd)"
proof -
  obtain s' w' where x: "sender_round m np s w = Some (Inr (s', w'))" "log_rep s' (ps @ [np]) (ms @ [m])"
    "clients_rep k s' (map (read_up_to np) es)" "delivered m w w' (targets m es)"
    using sender_round_ok [OF assms] by blast
  have t: "fd \<in> targets m es \<longleftrightarrow> (\<exists>e \<in> set es. e_id e \<noteq> uint (msg_id m) \<and> fd \<in> set (e_fds e))" for fd
    by (auto simp: targets_def)
  have "if fd \<in> targets m es
      then \<exists>x rest. wire w' fd = wire w fd @ x \<and> wire_bytes m = x @ rest
             \<and> (rest \<noteq> [] \<longrightarrow> SendErr \<in> set (outs w fd))
      else wire w' fd = wire w fd" for fd
  proof -
    have "if fd \<in> targets m es then got m w w' fd else untouched w w' fd"
      using x(4) unfolding delivered_def by (rule spec)
    then show ?thesis by (cases "fd \<in> targets m es") (auto simp: untouched_def elim!: got_error)
  qed
  then have "\<forall>fd. if \<exists>e \<in> set es. e_id e \<noteq> uint (msg_id m) \<and> fd \<in> set (e_fds e)
      then \<exists>x rest. wire w' fd = wire w fd @ x \<and> wire_bytes m = x @ rest
             \<and> (rest \<noteq> [] \<longrightarrow> SendErr \<in> set (outs w fd))
      else wire w' fd = wire w fd"
    unfolding t by (rule allI)
  moreover have rd: "read_up_to np = (\<lambda>e. if e_fds e = [] then e else e\<lparr>e_last := np\<rparr>)"
    by (simp add: read_up_to_def fun_eq_iff)
  ultimately show ?thesis using x(1,2) x(3) [unfolded rd] by blast
qed

text \<open>A state with two clients, one of them connected on socket 5.\<close>

lemma one_connected:
  "\<exists>k s es. clients_rep k s es \<and> conns es = [(1, []), (2, [5])] \<and> log_rep s [] []
     \<and> s_log s = s_log start_server"
proof -
  obtain k s es where s: "clients_rep k s es" "conns es = [(1, []), (2, [])]"
    "nodes (s_fds s) 40 = None" "same_queues start_server s"
    using two_clients by blast
  then obtain a b where es: "es = [a] @ b # []" "e_id a = 1" "e_fds a = []" "e_id b = 2" "e_fds b = []"
    by (auto simp: conns_def map_eq_Cons_conv)
  obtain st where st: "clients_rep k (s\<lparr>s_fds := st\<rparr>)
      ([a] @ b\<lparr>e_nodes := e_nodes b @ [40], e_fds := e_fds b @ [5]\<rparr> # [])"
    using add_connection_present [OF s(1) [unfolded es(1)], of 40 5] s(3) by auto
  have "log_rep (s\<lparr>s_fds := st\<rparr>) [] []"
    using s(4) by (simp add: log_rep_def llist_rep_def start_server_def same_queues_def)
  moreover have "conns ([a] @ b\<lparr>e_nodes := e_nodes b @ [40], e_fds := e_fds b @ [5]\<rparr> # []) = [(1, []), (2, [5])]"
    using es by (simp add: conns_def)
  ultimately show ?thesis
    using st s(4) [unfolded same_queues_def]
    by (intro exI [of _ k] exI [of _ "s\<lparr>s_fds := st\<rparr>"]
      exI [of _ "[a] @ b\<lparr>e_nodes := e_nodes b @ [40], e_fds := e_fds b @ [5]\<rparr> # []"]) simp
qed

definition quiet_net :: net where
  "quiet_net = \<lparr>outs = (\<lambda>_. []), wire = (\<lambda>_. []), shut = (\<lambda>_. False)\<rparr>"

lemma hello_sendable: "sendable hello"
  by (simp add: sendable_def hello_def)

theorem sender_broadcasts_witness:
  "\<exists>s s' w'. sender_round hello 50 s quiet_net = Some (Inr (s', w')) \<and> log_rep s' [50] [hello]
     \<and> wire w' 5 = wire_bytes hello \<and> wire w' 6 = []"
proof -
  obtain k s es where s: "clients_rep k s es" "conns es = [(1, []), (2, [5])]" "log_rep s [] []"
    "s_log s = s_log start_server" using one_connected by blast
  then obtain a b where es: "es = [a, b]" "e_id a = 1" "e_fds a = []" "e_id b = 2" "e_fds b = [5]"
    by (auto simp: conns_def map_eq_Cons_conv)
  have "nodes (s_log s) 50 = None" using s(4) by (simp add: start_server_def)
  from sender_broadcasts [OF s(3) _ this s(1) _ hello_sendable, of quiet_net] es
  obtain s' w' where x: "sender_round hello 50 s quiet_net = Some (Inr (s', w'))" "log_rep s' [50] [hello]"
    "\<forall>fd. if \<exists>e \<in> set es. e_id e \<noteq> uint (msg_id hello) \<and> fd \<in> set (e_fds e)
             then \<exists>x rest. wire w' fd = wire quiet_net fd @ x \<and> wire_bytes hello = x @ rest
                    \<and> (rest \<noteq> [] \<longrightarrow> SendErr \<in> set (outs quiet_net fd))
             else wire w' fd = wire quiet_net fd"
    by auto
  have "wire w' 5 = wire_bytes hello" "wire w' 6 = []"
    using x(3) [rule_format, of 5] x(3) [rule_format, of 6] es by (auto simp: quiet_net_def hello_def)
  with x(1,2) show ?thesis by blast
qed

text \<open>C24: \<open>fast_forward\<close> sends a new connection the messages of other clients from the place
  its client has read to the end of the log, in order, starting with the message last read
  itself. With 0 they all went out and the place is the
  end of the log; with -1 a socket error cut them short and the place is what it was.\<close>

theorem fast_forward_replays:
  assumes "log_rep s ps ms" "clients_rep k s (as @ e # bs)" "start_at ps (e_last e) i"
    and "\<forall>m \<in> set ms. sendable m"
  shows "\<exists>ok s' w' x rest. fast_forward (e_ptr e) fd s w = Some (Inr (if ok then 0 else -1, s', w'))
     \<and> wire w' = (wire w)(fd := wire w fd @ x) \<and> all_bytes (others (e_id e) (drop i ms)) = x @ rest
     \<and> (if ok then rest = [] else rest \<noteq> [] \<and> SendErr \<in> set (outs w fd))
     \<and> clients_rep k s' (as @ (if ok then e\<lparr>e_last := log_end ps\<rparr> else e) # bs)"
proof -
  obtain ok s' w' where x: "fast_forward (e_ptr e) fd s w = Some (Inr (if ok then 0 else -1, s', w'))"
    "sent_part (all_bytes (others (e_id e) (drop i ms))) fd ok w w'"
    "clients_rep k s' (as @ (if ok then e\<lparr>e_last := log_end ps\<rparr> else e) # bs)"
    using fast_forward_ok [OF assms, of fd w] by blast
  from x(2) obtain y rest where y: "wire w' fd = wire w fd @ y"
    "all_bytes (others (e_id e) (drop i ms)) = y @ rest" "ok \<longleftrightarrow> rest = []"
    "\<forall>fd'. fd' \<noteq> fd \<longrightarrow> wire w' fd' = wire w fd'"
    by (auto simp: sent_part_def untouched_def)
  have err: "\<not> ok \<longrightarrow> SendErr \<in> set (outs w fd)" using x(2) sent_part_error by (cases ok) auto
  from y have "wire w' = (wire w)(fd := wire w fd @ y)" by (simp add: fun_eq_iff)
  with x(1,3) y(2,3) err show ?thesis
    by (intro exI [of _ ok] exI [of _ s'] exI [of _ w'] exI [of _ y] exI [of _ rest]) simp
qed

theorem fast_forward_replays_witness:
  "\<exists>p s s' w'. fast_forward p 9 s quiet_net = Some (Inr (0, s', w'))
     \<and> wire w' 9 = wire_bytes hello"
proof -
  obtain k s es where s: "clients_rep k s es" "conns es = [(1, []), (2, [5])]" "log_rep s [] []"
    "s_log s = s_log start_server" using one_connected by blast
  have "nodes (s_log s) 50 = None" using s(4) by (simp add: start_server_def)
  moreover have "distinct (concat (map e_fds es))" using s(2) by (auto simp: conns_def map_eq_Cons_conv)
  ultimately obtain s1 w1 where s1: "log_rep s1 [50] [hello]" "clients_rep k s1 (map (read_up_to 50) es)"
    using sender_round_ok [OF s(3) _ _ s(1) _ hello_sendable, of 50] by auto
  obtain a b where es: "map (read_up_to 50) es = [a] @ b # []" "e_id b = 2" "e_last b = 50"
    using s(2) by (auto simp: conns_def map_eq_Cons_conv read_up_to_def)
  have "start_at [50] (e_last b) 0" using es(3) by (simp add: start_at_def)
  from fast_forward_replays [OF s1(1) s1(2) [unfolded es(1)] this, of 9 quiet_net] hello_sendable
  obtain ok s' w' x rest where x:
    "fast_forward (e_ptr b) 9 s1 quiet_net = Some (Inr (if ok then 0 else -1, s', w'))"
    "wire w' = (wire quiet_net)(9 := wire quiet_net 9 @ x)"
    "all_bytes (others (e_id b) (drop 0 [hello])) = x @ rest"
    "if ok then rest = [] else rest \<noteq> [] \<and> SendErr \<in> set (outs quiet_net 9)"
    by (auto simp del: fun_upd_apply)
  have "others (e_id b) (drop 0 [hello]) = [hello]" by (simp add: others_def hello_def es(2))
  moreover have "ok" "rest = []" using x(4) by (auto simp: quiet_net_def split: if_splits)
  ultimately have "wire w' 9 = wire_bytes hello" using x(2,3) by (simp add: quiet_net_def)
  with x(1) \<open>ok\<close> show ?thesis by auto
qed

end
