(* ===== verification/Server_Listener.thy ===== *)
theory Server_Listener
  imports Server_Send
begin

text \<open>
  The thread that serves one connection (\<open>listener\<close> in \<^verbatim>\<open>server.c\<close>): the handshake, the
  reply, joining the client's connections, forwarding what arrives to the send queue, and
  leaving. Each definition is a part of the thread between two of its critical sections;
  \<open>listener\<close> puts them together as they run when no other thread comes between them.
\<close>

section \<open>The thread\<close>

text \<open>A string literal with its terminator.\<close>

definition c_string :: "string \<Rightarrow> byte list" where
  "c_string s = map of_char s @ [0]"

text \<open>An address from the allocator; null when it has none left.\<close>

fun take_addr :: "ptr list \<Rightarrow> ptr \<times> ptr list" where
  "take_addr [] = (NULL, [])"
| "take_addr (p # ps) = (p, ps)"

text \<open>The handshake: the id of the client, or -1, and the message that was received.\<close>

definition server_handshake :: "in_script \<Rightarrow> ((int \<times> message option) \<times> in_script) run" where
  "server_handshake sc =
     bind_run (recv_header sc) (\<lambda>(mp, sc').
       case mp of None \<Rightarrow> Some (Inr ((-1, None), sc'))
       | Some m \<Rightarrow>
           if msg_kind m \<noteq> MESG_CONN then Some (Inr ((-1, Some m), sc'))
           else Some (Inr ((uint (msg_id m), Some m), sc')))"

text \<open>
  The two refusals of \<open>listener\<close> differ in their text. The reply's result is ignored; the
  handshake message is freed even when there is none.
\<close>

definition refuse :: "string \<Rightarrow> int \<Rightarrow> message option \<Rightarrow> net \<Rightarrow> net res" where
  "refuse txt fd hm w =
     bind_res (create_message (of_nat (length (c_string txt))) 0 MESG_DCON (c_string txt)) (\<lambda>em.
     bind_res (send_to fd em w) (\<lambda>(_, w').
     bind_res (free_message (Some em)) (\<lambda>_.
     bind_res (free_message hm) (\<lambda>_.
     Inr (w'\<lparr>shut := (shut w')(fd := True)\<rparr>)))))"

datatype hello = Refused | Welcome ptr int

definition listener_hello :: "int \<Rightarrow> in_script \<Rightarrow> server \<Rightarrow> net \<Rightarrow> (hello \<times> in_script \<times> net) run" where
  "listener_hello fd sc s w =
     bind_run (server_handshake sc) (\<lambda>((client_id, hm), sc').
       if client_id \<le> 0 then
         bind_run (Some (refuse ''Error: incorrect handshake kind'' fd hm w)) (\<lambda>w'.
         Some (Inr (Refused, sc', w')))
       else
         bind_run (client_hash_get client_id s) (\<lambda>c.
           if c = NULL then
             bind_run (Some (refuse ''Error: unknown client id'' fd hm w)) (\<lambda>w'.
             Some (Inr (Refused, sc', w')))
           else
             bind_run (Some (send_to fd (create_message_header 0 0 MESG_CONN) w)) (\<lambda>(_, w').
             Some (Inr (Welcome c client_id, sc', w')))))"

text \<open>
  Joining: the announcement goes to the send queue, the log is replayed (whether that
  worked or not), and the socket joins the client's connections.
\<close>

definition listener_join :: "ptr \<Rightarrow> int \<Rightarrow> int \<Rightarrow> ptr \<Rightarrow> ptr \<Rightarrow> server \<Rightarrow> net \<Rightarrow> (server \<times> net) run" where
  "listener_join c client_id fd qp np s w =
     bind_run (Some (jobqueue_enqueue (s_sendqueue s)
                (create_message_header 0 (word_of_int client_id) MESG_CONN) qp (s_jobs s))) (\<lambda>(st, _).
     bind_run (fast_forward c fd (s\<lparr>s_jobs := st\<rparr>) w) (\<lambda>(_, s', w').
     bind_run (client_hash_add_connection client_id fd np s') (\<lambda>s''.
     Some (Inr (s'', w')))))"

text \<open>
  The loop: a message is forwarded with the id its sender wrote into it; a connect is
  dropped; a disconnect is forwarded and ends the loop, and so does a failed payload. When
  no header arrives the result of \<open>recv_header\<close> is dereferenced all the same.
\<close>

partial_function (option) listener_loop ::
    "(nat \<Rightarrow> byte) \<Rightarrow> ptr list \<Rightarrow> in_script \<Rightarrow> server \<Rightarrow> (in_script \<times> server) run" where
  "listener_loop junk ps sc s =
     bind_run (recv_header sc) (\<lambda>(mp, sc1).
       case mp of None \<Rightarrow> Some (Inl NullDeref)
       | Some m \<Rightarrow>
           if msg_kind m = MESG_DCON then
             bind_run (Some (jobqueue_enqueue (s_sendqueue s) m (fst (take_addr ps)) (s_jobs s)))
               (\<lambda>(st, _). Some (Inr (sc1, s\<lparr>s_jobs := st\<rparr>)))
           else if msg_kind m = MESG_CONN then listener_loop junk ps sc1 s
           else
             bind_run (recv_payload junk m sc1) (\<lambda>((ret, m'), sc2).
               if ret \<noteq> 0 then Some (Inr (sc2, s))
               else
                 bind_run (Some (jobqueue_enqueue (s_sendqueue s) m' (fst (take_addr ps)) (s_jobs s)))
                   (\<lambda>(st, _). listener_loop junk (snd (take_addr ps)) sc2 (s\<lparr>s_jobs := st\<rparr>))))"

definition listener_leave :: "int \<Rightarrow> int \<Rightarrow> server \<Rightarrow> net \<Rightarrow> (server \<times> net) run" where
  "listener_leave client_id fd s w =
     bind_run (client_hash_remove_connection client_id fd s) (\<lambda>s'.
     Some (Inr (s', w\<lparr>shut := (shut w)(fd := True)\<rparr>)))"

text \<open>
  The thread: \<open>qp\<close> and \<open>ps\<close> are addresses for queue nodes, \<open>np\<close> one for the node of the
  connection. The flag of the result is false for a refused connection.
\<close>

definition listener ::
    "(nat \<Rightarrow> byte) \<Rightarrow> ptr \<Rightarrow> ptr \<Rightarrow> ptr list \<Rightarrow> int \<Rightarrow> in_script \<Rightarrow> server \<Rightarrow> net \<Rightarrow>
       (bool \<times> in_script \<times> server \<times> net) run" where
  "listener junk qp np ps fd sc s w =
     bind_run (listener_hello fd sc s w) (\<lambda>(h, sc1, w1).
       case h of Refused \<Rightarrow> Some (Inr (False, sc1, s, w1))
       | Welcome c client_id \<Rightarrow>
           bind_run (listener_join c client_id fd qp np s w1) (\<lambda>(s2, w2).
           bind_run (listener_loop junk ps sc1 s2) (\<lambda>(sc3, s3).
           bind_run (listener_leave client_id fd s3 w2) (\<lambda>(s4, w4).
           Some (Inr (True, sc3, s4, w4))))))"

section \<open>The handshake and the reply\<close>

definition refusal :: "string \<Rightarrow> message" where
  "refusal txt = \<lparr>msg_id = 0, msg_kind = MESG_DCON, msg_length = of_nat (length (c_string txt)),
     msg_payload = Some (c_string txt)\<rparr>"

lemma send_to_shut: "send_to fd m w = Inr (r, w') \<Longrightarrow> shut w' = shut w"
  by (auto simp: send_to_def bind_res_eq_Inr)

lemma delivered_shut: "delivered m w (w'\<lparr>shut := x\<rparr>) F = delivered m w w' F"
  by (simp add: delivered_def got_def untouched_def)

lemma uint_pos: "x \<noteq> 0 \<Longrightarrow> 0 < uint x"
  using uint_ge_0 [of x] uint_0_iff [of x] by linarith

lemma refuse_ok:
  assumes "length txt < 2040"
  shows "\<exists>w'. refuse txt fd (Some hm) w = Inr w' \<and> delivered (refusal txt) w w' {fd}
     \<and> shut w' = (shut w)(fd := True)"
proof -
  let ?n = "length (c_string txt)"
  have n: "?n = Suc (length txt)" "?n \<le> 2040" using assms by (simp_all add: c_string_def)
  have un: "unat (of_nat ?n :: u32) = ?n" using n(2) by (intro unat_of_nat_small) simp
  have "take (?n - 1) (c_string txt) @ [0] = c_string txt" by (simp add: c_string_def)
  then have mk: "create_message (of_nat ?n) 0 MESG_DCON (c_string txt) = Inr (refusal txt)"
    using create_message_correct [of "of_nat ?n" "c_string txt" 0 MESG_DCON] n un
    by (simp add: refusal_def min_def)
  have "sendable (refusal txt)" using un n(2) by (simp add: sendable_def refusal_def)
  then obtain r w' where w': "send_to fd (refusal txt) w = Inr (r, w')" "delivered (refusal txt) w w' {fd}"
    using send_to_ok by blast
  have "refuse txt fd (Some hm) w = Inr (w'\<lparr>shut := (shut w')(fd := True)\<rparr>)"
    by (simp add: refuse_def mk w'(1) free_message_def)
  moreover have "delivered (refusal txt) w (w'\<lparr>shut := (shut w')(fd := True)\<rparr>) {fd}"
    using w'(2) by (simp only: delivered_shut)
  ultimately show ?thesis using send_to_shut [OF w'(1)] by auto
qed

lemma server_handshake_wire:
  assumes "pending sc = header_bytes m @ rest"
  shows "\<exists>sc'. server_handshake sc = Some (Inr ((if msg_kind m = MESG_CONN then uint (msg_id m) else -1,
       Some (m\<lparr>msg_payload := None\<rparr>)), sc')) \<and> pending sc' = rest"
  using recv_header_wire [OF assms] by (auto simp: server_handshake_def)

lemma listener_hello_refused:
  assumes rep: "clients_rep k s es" and sc: "pending sc = header_bytes m @ rest"
    and bad: "msg_kind m \<noteq> MESG_CONN \<or> msg_id m = 0 \<or> uint (msg_id m) \<notin> e_id ` set es"
  defines "txt \<equiv> (if msg_kind m = MESG_CONN \<and> msg_id m \<noteq> 0 then ''Error: unknown client id''
       else ''Error: incorrect handshake kind'')"
  shows "\<exists>sc' w'. listener_hello fd sc s w = Some (Inr (Refused, sc', w')) \<and> pending sc' = rest
     \<and> delivered (refusal txt) w w' {fd} \<and> shut w' = (shut w)(fd := True)"
proof -
  obtain sc' where hs: "server_handshake sc = Some (Inr ((if msg_kind m = MESG_CONN then uint (msg_id m) else -1,
       Some (m\<lparr>msg_payload := None\<rparr>)), sc'))" "pending sc' = rest"
    using server_handshake_wire [OF sc] by blast
  have "length txt < 2040" by (simp add: txt_def)
  then obtain w' where w': "refuse txt fd (Some (m\<lparr>msg_payload := None\<rparr>)) w = Inr w'"
    "delivered (refusal txt) w w' {fd}" "shut w' = (shut w)(fd := True)"
    using refuse_ok by blast
  show ?thesis
  proof (cases "msg_kind m = MESG_CONN \<and> msg_id m \<noteq> 0")
    case True
    then have "0 < uint (msg_id m)" by (simp add: uint_pos)
    moreover have "uint (msg_id m) \<notin> e_id ` set es" using bad True by blast
    then have "client_hash_get (uint (msg_id m)) s = Some (Inr NULL)"
      using lookup_absent [OF rep uint_u16] by (simp add: client_hash_get_def)
    ultimately have "listener_hello fd sc s w = Some (Inr (Refused, sc', w'))"
      using hs(1) True w'(1) by (simp add: listener_hello_def txt_def)
    with hs(2) w' show ?thesis by blast
  next
    case False
    then have "(if msg_kind m = MESG_CONN then uint (msg_id m) else -1) \<le> 0" by auto
    then have "listener_hello fd sc s w = Some (Inr (Refused, sc', w'))"
      using hs(1) False w'(1) by (auto simp: listener_hello_def txt_def)
    with hs(2) w' show ?thesis by blast
  qed
qed

lemma header_sendable: "msg_length m = 0 \<Longrightarrow> msg_payload m = None \<Longrightarrow> sendable m"
  by (simp add: sendable_def)

lemma listener_hello_welcome:
  assumes rep: "clients_rep k s es" and sc: "pending sc = header_bytes m @ rest"
    and ok: "msg_kind m = MESG_CONN" "msg_id m \<noteq> 0" "e \<in> set es" "e_id e = uint (msg_id m)"
  shows "\<exists>sc' w'. listener_hello fd sc s w = Some (Inr (Welcome (e_ptr e) (e_id e), sc', w'))
     \<and> pending sc' = rest \<and> delivered (create_message_header 0 0 MESG_CONN) w w' {fd} \<and> shut w' = shut w"
proof -
  obtain sc' where hs: "server_handshake sc = Some (Inr ((uint (msg_id m), Some (m\<lparr>msg_payload := None\<rparr>)), sc'))"
    "pending sc' = rest"
    using server_handshake_wire [OF sc] ok(1) by auto
  have "0 < uint (msg_id m)" using ok(2) by (simp add: uint_pos)
  moreover have "client_hash_get (uint (msg_id m)) s = Some (Inr (e_ptr e))"
    using lookup_present [OF rep ok(3)] ok(4) by (simp add: client_hash_get_def)
  moreover have "sendable (create_message_header 0 0 MESG_CONN)"
    by (rule header_sendable) (simp_all add: create_message_header_def)
  then obtain r w' where w': "send_to fd (create_message_header 0 0 MESG_CONN) w = Inr (r, w')"
    "delivered (create_message_header 0 0 MESG_CONN) w w' {fd}"
    using send_to_ok by blast
  ultimately have "listener_hello fd sc s w = Some (Inr (Welcome (e_ptr e) (e_id e), sc', w'))"
    using hs(1) get_client_entry(2) [OF rep ok(3)] ok(4) by (simp add: listener_hello_def)
  with hs(2) w'(2) send_to_shut [OF w'(1)] show ?thesis by blast
qed

text \<open>The refusal of a connection whose first header never came frees a null pointer.\<close>

lemma refuse_null:
  assumes "length txt < 2040"
  shows "refuse txt fd None w = Inl NullDeref"
proof -
  obtain w' where "refuse txt fd (Some (refusal txt)) w = Inr w'" using refuse_ok [OF assms] by blast
  then obtain em r w1 where
    "create_message (of_nat (length (c_string txt))) 0 MESG_DCON (c_string txt) = Inr em"
    "send_to fd em w = Inr (r, w1)"
    by (auto simp: refuse_def bind_res_eq_Inr)
  then show ?thesis by (simp add: refuse_def free_message_def)
qed

section \<open>Forwarding\<close>

text \<open>An enqueue allocates one cell: other addresses stay free.\<close>

lemma jobqueue_enqueue_fresh:
  assumes "jobqueue_enqueue q x p s = Inr (s', w)" and "jq_fresh s p'" and "p' \<noteq> p"
  shows "jq_fresh s' p'"
  using assms
  by (auto simp: jobqueue_enqueue_def create_node_def bind_res_eq_Inr jq_fresh_def get_jnode_def
      set_jnode_def set_queue_def Let_def split: if_splits option.splits)

text \<open>
  What a client sends after the handshake: messages with a payload, and connects, which are
  headers only.
\<close>

definition frame_ok :: "message \<Rightarrow> bool" where
  "frame_ok m \<longleftrightarrow> msg_kind m = MESG_CONN \<or> (msg_kind m \<noteq> MESG_DCON \<and> data_message m)"

definition frame_bytes :: "message \<Rightarrow> byte list" where
  "frame_bytes m = (if msg_kind m = MESG_CONN then header_bytes m else wire_bytes m)"

definition forwarded :: "message list \<Rightarrow> message list" where
  "forwarded ms = filter (\<lambda>m. msg_kind m \<noteq> MESG_CONN) ms"

lemma listener_loop_ok:
  assumes "\<forall>m \<in> set ms. frame_ok m" and d: "msg_kind d = MESG_DCON"
    and "pending sc = concat (map frame_bytes ms) @ header_bytes d @ rest"
    and "jq_holds (s_sendqueue s) (s_jobs s) xs"
    and "distinct ps" "\<forall>p \<in> set ps. jq_fresh (s_jobs s) p" "length (forwarded ms) < length ps"
  shows "\<exists>sc' st. listener_loop junk ps sc s = Some (Inr (sc', s\<lparr>s_jobs := st\<rparr>)) \<and> pending sc' = rest
     \<and> jq_holds (s_sendqueue s) st (xs @ forwarded ms @ [d\<lparr>msg_payload := None\<rparr>])"
  using assms(1,3-7)
proof (induction ms arbitrary: sc s ps xs)
  case Nil
  then obtain p ps' where ps: "ps = p # ps'" "jq_fresh (s_jobs s) p" by (cases ps) auto
  obtain sc' where h: "recv_header sc = Some (Inr (Some (d\<lparr>msg_payload := None\<rparr>), sc'))" "pending sc' = rest"
    using recv_header_wire [of sc d rest] Nil.prems(2) by auto
  obtain st wk where st: "jobqueue_enqueue (s_sendqueue s) (d\<lparr>msg_payload := None\<rparr>) p (s_jobs s) = Inr (st, wk)"
    "jq_holds (s_sendqueue s) st (xs @ [d\<lparr>msg_payload := None\<rparr>])"
    using jq.enq_law [OF Nil.prems(3) ps(2)] by blast
  have "listener_loop junk ps sc s = Some (Inr (sc', s\<lparr>s_jobs := st\<rparr>))"
    using h(1) d ps(1) st(1) by (subst listener_loop.simps) simp
  then show ?case using h(2) st(2) by (auto simp: forwarded_def)
next
  case (Cons m ms)
  have fr: "frame_ok m" "\<forall>m \<in> set ms. frame_ok m" using Cons.prems(1) by simp_all
  show ?case
  proof (cases "msg_kind m = MESG_CONN")
    case True
    obtain sc1 where h: "recv_header sc = Some (Inr (Some (m\<lparr>msg_payload := None\<rparr>), sc1))"
      "pending sc1 = concat (map frame_bytes ms) @ header_bytes d @ rest"
      using recv_header_wire [of sc m "concat (map frame_bytes ms) @ header_bytes d @ rest"]
        Cons.prems(2) True by (auto simp: frame_bytes_def [of m])
    have "MESG_CONN \<noteq> MESG_DCON" by (simp add: mesg_kinds)
    then have "listener_loop junk ps sc s = listener_loop junk ps sc1 s"
      using h(1) True by (subst listener_loop.simps) simp
    then show ?thesis
      using Cons.IH [OF fr(2) h(2) Cons.prems(3-5)] Cons.prems(6) True by (simp add: forwarded_def)
  next
    case False
    with fr(1) have m: "msg_kind m \<noteq> MESG_DCON" "data_message m" by (auto simp: frame_ok_def)
    obtain p ps' where ps: "ps = p # ps'" "jq_fresh (s_jobs s) p" "p \<notin> set ps'"
      using Cons.prems(4-6) by (cases ps) auto
    obtain h sc1 sc2 where h: "recv_header sc = Some (Inr (Some h, sc1))" "msg_kind h = msg_kind m"
      "recv_payload junk h sc1 = Some (Inr ((0, m), sc2))"
      "pending sc2 = concat (map frame_bytes ms) @ header_bytes d @ rest"
      using recv_data_message [OF m(2), of sc "concat (map frame_bytes ms) @ header_bytes d @ rest" junk]
        Cons.prems(2) False by (auto simp: frame_bytes_def [of m])
    obtain st wk where st: "jobqueue_enqueue (s_sendqueue s) m p (s_jobs s) = Inr (st, wk)"
      "jq_holds (s_sendqueue s) st (xs @ [m])"
      using jq.enq_law [OF Cons.prems(3) ps(2)] by blast
    let ?s = "s\<lparr>s_jobs := st\<rparr>"
    have step: "listener_loop junk ps sc s = listener_loop junk ps' sc2 ?s"
      using h(1-3) m(1) False ps(1) st(1) by (subst listener_loop.simps) simp
    have "\<forall>p' \<in> set ps'. jq_fresh st p'"
      using jobqueue_enqueue_fresh [OF st(1)] Cons.prems(5) ps by auto
    then show ?thesis
      using Cons.IH [OF fr(2) h(4), of ?s "xs @ [m]" ps'] step st(2) Cons.prems(4,6) ps(1) False
      by (auto simp: forwarded_def)
  qed
qed

section \<open>A whole session\<close>

lemma clients_rep_jobs [simp]: "clients_rep k (s\<lparr>s_jobs := st\<rparr>) es = clients_rep k s es"
  by (simp add: clients_rep_def entry_ok_def)

lemma log_rep_other [simp]:
  "log_rep (s\<lparr>s_jobs := st\<rparr>) ps ms = log_rep s ps ms" "log_rep (s\<lparr>s_fds := f\<rparr>) ps ms = log_rep s ps ms"
  by (simp_all add: log_rep_def)

lemma listener_join_ok:
  assumes log: "log_rep s lps ms" and rep: "clients_rep k s (as @ e # bs)"
    and i: "start_at lps (e_last e) i" and m: "\<forall>m \<in> set ms. sendable m"
    and q: "jq_holds (s_sendqueue s) (s_jobs s) xs" "jq_fresh (s_jobs s) qp"
    and np: "np \<noteq> NULL" "nodes (s_fds s) np = None"
  shows "\<exists>ok s' w' n. listener_join (e_ptr e) (e_id e) fd qp np s w = Some (Inr (s', w'))
     \<and> sent_part (all_bytes (others (e_id e) (drop i ms))) fd ok w w'
     \<and> clients_rep k s' (as @ e\<lparr>e_last := n, e_nodes := e_nodes e @ [np], e_fds := e_fds e @ [fd]\<rparr> # bs)
     \<and> s_sendqueue s' = s_sendqueue s
     \<and> jq_holds (s_sendqueue s) (s_jobs s') (xs @ [create_message_header 0 (word_of_int (e_id e)) MESG_CONN])
     \<and> (\<forall>p. jq_fresh (s_jobs s) p \<longrightarrow> p \<noteq> qp \<longrightarrow> jq_fresh (s_jobs s') p)"
proof -
  let ?m = "create_message_header 0 (word_of_int (e_id e)) MESG_CONN"
  obtain st wk where st: "jobqueue_enqueue (s_sendqueue s) ?m qp (s_jobs s) = Inr (st, wk)"
    "jq_holds (s_sendqueue s) st (xs @ [?m])"
    using jq.enq_law [OF q] by blast
  let ?s = "s\<lparr>s_jobs := st\<rparr>"
  have "log_rep ?s lps ms" "clients_rep k ?s (as @ e # bs)" using log rep by simp_all
  from fast_forward_ok [OF this i m, of fd w] obtain ok s1 w1 cells where x:
    "fast_forward (e_ptr e) fd ?s w = Some (Inr (if ok then 0 else -1, s1, w1))"
    "sent_part (all_bytes (others (e_id e) (drop i ms))) fd ok w w1"
    "clients_rep k s1 (as @ (if ok then e\<lparr>e_last := log_end lps\<rparr> else e) # bs)"
    "s1 = ?s\<lparr>s_cells := cells\<rparr>"
    by blast
  let ?n = "if ok then log_end lps else e_last e"
  let ?e = "e\<lparr>e_last := ?n\<rparr>"
  have e: "(if ok then e\<lparr>e_last := log_end lps\<rparr> else e) = ?e" by simp
  have "nodes (s_fds s1) np = None" using np(2) x(4) by simp
  from add_connection_present [OF x(3) [unfolded e] np(1) this, of fd] obtain f where y:
    "client_hash_add_connection (e_id e) fd np s1 = Some (Inr (s1\<lparr>s_fds := f\<rparr>))"
    "clients_rep k (s1\<lparr>s_fds := f\<rparr>) (as @ e\<lparr>e_last := ?n, e_nodes := e_nodes e @ [np], e_fds := e_fds e @ [fd]\<rparr> # bs)"
    by auto
  have "listener_join (e_ptr e) (e_id e) fd qp np s w = Some (Inr (s1\<lparr>s_fds := f\<rparr>, w1))"
    using st(1) x(1) y(1) by (simp add: listener_join_def)
  moreover have "\<forall>p. jq_fresh (s_jobs s) p \<longrightarrow> p \<noteq> qp \<longrightarrow> jq_fresh st p"
    using jobqueue_enqueue_fresh [OF st(1)] by blast
  ultimately show ?thesis using x(2,4) y(2) st(2)
    by (intro exI [of _ ok] exI [of _ "s1\<lparr>s_fds := f\<rparr>"] exI [of _ w1] exI [of _ ?n]) simp
qed

lemma listener_session_ok:
  assumes log: "log_rep s lps ms" and rep: "clients_rep k s (as @ e # bs)"
    and i: "start_at lps (e_last e) i" and m: "\<forall>m \<in> set ms. sendable m"
    and q: "jq_holds (s_sendqueue s) (s_jobs s) xs" and fresh: "\<forall>p \<in> set (qp # ps). jq_fresh (s_jobs s) p"
    and dps: "distinct (qp # ps)" "length (forwarded fs) < length ps"
    and np: "np \<noteq> NULL" "nodes (s_fds s) np = None" and new: "fd \<notin> set (e_fds e)"
    and hm: "msg_kind hm = MESG_CONN" "msg_id hm \<noteq> 0" "e_id e = uint (msg_id hm)"
    and fs: "\<forall>f \<in> set fs. frame_ok f" and d: "msg_kind d = MESG_DCON"
    and sc: "pending sc = header_bytes hm @ concat (map frame_bytes fs) @ header_bytes d @ rest"
  shows "\<exists>sc' s' w' es'. listener junk qp np ps fd sc s w = Some (Inr (True, sc', s', w'))
     \<and> pending sc' = rest \<and> clients_rep k s' es' \<and> conns es' = conns (as @ e # bs) \<and> shut w' fd
     \<and> jq_holds (s_sendqueue s') (s_jobs s') (xs @ create_message_header 0 (msg_id hm) MESG_CONN
          # forwarded fs @ [d\<lparr>msg_payload := None\<rparr>])"
proof -
  let ?c = "create_message_header 0 (msg_id hm) MESG_CONN"
  have "e \<in> set (as @ e # bs)" by simp
  from listener_hello_welcome [OF rep sc hm(1,2) this hm(3), of fd w] obtain sc1 w1 where h:
    "listener_hello fd sc s w = Some (Inr (Welcome (e_ptr e) (e_id e), sc1, w1))"
    "pending sc1 = concat (map frame_bytes fs) @ header_bytes d @ rest" by blast
  have c: "create_message_header 0 (word_of_int (e_id e)) MESG_CONN = ?c" using hm(3) by simp
  have qp: "jq_fresh (s_jobs s) qp" using fresh by simp
  obtain s2 w2 n where j:
    "listener_join (e_ptr e) (e_id e) fd qp np s w1 = Some (Inr (s2, w2))"
    "clients_rep k s2 (as @ e\<lparr>e_last := n, e_nodes := e_nodes e @ [np], e_fds := e_fds e @ [fd]\<rparr> # bs)"
    "s_sendqueue s2 = s_sendqueue s" "jq_holds (s_sendqueue s) (s_jobs s2) (xs @ [?c])"
    "\<forall>p. jq_fresh (s_jobs s) p \<longrightarrow> p \<noteq> qp \<longrightarrow> jq_fresh (s_jobs s2) p"
    using listener_join_ok [OF log rep i m q qp np, of fd w1] unfolding c by blast
  have "\<forall>p \<in> set ps. jq_fresh (s_jobs s2) p" using j(5) fresh dps(1) by auto
  with listener_loop_ok [OF fs d h(2), of s2 "xs @ [?c]" ps junk] j(3,4) dps
  obtain sc3 st where l: "listener_loop junk ps sc1 s2 = Some (Inr (sc3, s2\<lparr>s_jobs := st\<rparr>))"
    "pending sc3 = rest" "jq_holds (s_sendqueue s) st (xs @ ?c # forwarded fs @ [d\<lparr>msg_payload := None\<rparr>])"
    by auto
  let ?e = "e\<lparr>e_last := n, e_nodes := e_nodes e @ [np], e_fds := e_fds e @ [fd]\<rparr>"
  have rep3: "clients_rep k (s2\<lparr>s_jobs := st\<rparr>) (as @ ?e # bs)" using j(2) by simp
  obtain f rs where r: "client_hash_remove_connection (e_id e) fd (s2\<lparr>s_jobs := st\<rparr>)
       = Some (Inr (s2\<lparr>s_jobs := st, s_fds := f\<rparr>))"
    "clients_rep k (s2\<lparr>s_jobs := st, s_fds := f\<rparr>) (as @ ?e\<lparr>e_nodes := rs, e_fds := remove1 fd (e_fds ?e)\<rparr> # bs)"
    using remove_connection_present [OF rep3, of fd] by auto
  have "remove1 fd (e_fds ?e) = e_fds e" using new by (simp add: remove1_append)
  then have cn: "conns (as @ ?e\<lparr>e_nodes := rs, e_fds := remove1 fd (e_fds ?e)\<rparr> # bs) = conns (as @ e # bs)"
    by (simp add: conns_def)
  have "listener junk qp np ps fd sc s w =
      Some (Inr (True, sc3, s2\<lparr>s_jobs := st, s_fds := f\<rparr>, w2\<lparr>shut := (shut w2)(fd := True)\<rparr>))"
    using h(1) j(1) l(1) r(1) by (simp add: listener_def listener_leave_def)
  moreover have "s_sendqueue (s2\<lparr>s_jobs := st, s_fds := f\<rparr>) = s_sendqueue s" using j(3) by simp
  ultimately show ?thesis using l(2,3) r(2) cn
    by (intro exI [of _ sc3] exI [of _ "s2\<lparr>s_jobs := st, s_fds := f\<rparr>"]
        exI [of _ "w2\<lparr>shut := (shut w2)(fd := True)\<rparr>"] exI) (auto simp del: fun_upd_apply simp: fun_upd_same)
qed

section \<open>Properties\<close>

text \<open>C6: a whole session of one connection, as it runs when no other thread comes between
  its critical sections: a connect for a registered id, messages (data as the client program builds it:
  not empty, at most 2040 bytes, with a zero at the end) and duplicate connects, and a disconnect. The send queue gets the
  announcement of the connect, then exactly the messages that are not connects, unchanged and in order, then the disconnect; afterwards
  the socket is closed, it is no longer among the client's connections, and every client has
  the connections it had.\<close>

theorem listener_session:
  assumes "log_rep s lps ms" "clients_rep k s (as @ e # bs)" "start_at lps (e_last e) i"
    and "\<forall>m \<in> set ms. sendable m"
    and "jq_holds (s_sendqueue s) (s_jobs s) xs" "\<forall>p \<in> set (qp # ps). jq_fresh (s_jobs s) p"
    and "distinct (qp # ps)" "length (forwarded fs) < length ps"
    and "np \<noteq> NULL" "nodes (s_fds s) np = None" "fd \<notin> set (e_fds e)"
    and "msg_kind hm = MESG_CONN" "msg_id hm \<noteq> 0" "e_id e = uint (msg_id hm)"
    and "\<forall>f \<in> set fs. frame_ok f" "msg_kind d = MESG_DCON"
    and "pending sc = header_bytes hm @ concat (map frame_bytes fs) @ header_bytes d @ rest"
  shows "\<exists>sc' s' w' es'. listener junk qp np ps fd sc s w = Some (Inr (True, sc', s', w'))
     \<and> pending sc' = rest \<and> clients_rep k s' es' \<and> conns es' = conns (as @ e # bs) \<and> shut w' fd
     \<and> jq_holds (s_sendqueue s') (s_jobs s') (xs @ create_message_header 0 (msg_id hm) MESG_CONN
          # forwarded fs @ [d\<lparr>msg_payload := None\<rparr>])"
  using assms by (rule listener_session_ok)

lemma two_clients_full:
  "\<exists>k s a b. clients_rep k s ([a] @ b # []) \<and> e_id a = 1 \<and> e_id b = 2 \<and> e_fds a = [] \<and> e_fds b = []
     \<and> e_last b = NULL \<and> nodes (s_fds s) 40 = None \<and> log_rep s [] []
     \<and> jq_holds (s_sendqueue s) (s_jobs s) [] \<and> (\<forall>p. p \<noteq> NULL \<longrightarrow> jq_fresh (s_jobs s) p)
     \<and> (\<forall>p. nodes (s_log s) p = None)"
proof -
  obtain k s es where s: "clients_rep k s es" "conns es = [(1, []), (2, [])]"
    "nodes (s_fds s) 40 = None" "\<forall>e \<in> set es. e_last e = NULL" "same_queues start_server s"
    using two_clients by blast
  from s(2) obtain a b where es: "es = [a] @ b # []" "e_id a = 1" "e_fds a = []" "e_id b = 2" "e_fds b = []"
    by (auto simp: conns_def map_eq_Cons_conv)
  have "log_rep s [] []" "\<forall>p. p \<noteq> NULL \<longrightarrow> jq_fresh (s_jobs s) p" "jq_rep (s_jobs s) (s_sendqueue s) [] []"
    using s(5) by (simp_all add: log_rep_def llist_rep_def start_server_def same_queues_def
        jq_fresh_def jq_rep_def)
  moreover from this(3) have "jq_holds (s_sendqueue s) (s_jobs s) []" by (auto simp: jq_holds_def)
  moreover have "\<forall>p. nodes (s_log s) p = None" using s(5) by (simp add: start_server_def same_queues_def)
  ultimately show ?thesis using s es
    by (intro exI [of _ k] exI [of _ s] exI [of _ a] exI [of _ b]) simp
qed

text \<open>What client 2 sends in a short session.\<close>

definition session_bytes :: "byte list" where
  "session_bytes = header_bytes (create_message_header 0 2 MESG_CONN) @ wire_bytes hello
     @ header_bytes (create_message_header 0 2 MESG_DCON)"

lemma hello_frame: "frame_ok hello" "msg_kind hello \<noteq> MESG_CONN"
  by (simp_all add: frame_ok_def hello_def mesg_kinds data_message_def)

theorem listener_session_witness:
  "\<exists>s sc' s' w'. listener (\<lambda>_. 0) 60 40 [61, 62] 9 [Chunk session_bytes] s quiet_net
       = Some (Inr (True, sc', s', w'))
     \<and> jq_holds (s_sendqueue s') (s_jobs s') [create_message_header 0 2 MESG_CONN, hello,
          create_message_header 0 2 MESG_DCON] \<and> shut w' 9"
proof -
  obtain k s a b where s: "clients_rep k s ([a] @ b # [])" "e_id b = 2" "e_fds b = []" "e_last b = NULL"
    "nodes (s_fds s) 40 = None" "log_rep s [] []" "jq_holds (s_sendqueue s) (s_jobs s) []"
    "\<forall>p. p \<noteq> NULL \<longrightarrow> jq_fresh (s_jobs s) p"
    using two_clients_full by blast
  let ?c = "create_message_header 0 2 MESG_CONN" and ?d = "create_message_header 0 2 MESG_DCON"
  have f: "forwarded [hello] = [hello]" "?d\<lparr>msg_payload := None\<rparr> = ?d"
    "frame_bytes hello = wire_bytes hello"
    using hello_frame by (simp_all add: forwarded_def create_message_header_def frame_bytes_def)
  have "\<forall>p \<in> set [60, 61, 62]. jq_fresh (s_jobs s) p" using s(8) by simp
  from listener_session [OF s(6) s(1) _ _ s(7) this _ _ _ s(5), of 0 "[hello]" 9 ?c ?d
      "[Chunk session_bytes]" "[]" "\<lambda>_. 0" quiet_net] s(2-4) hello_frame(1)
  obtain sc' s' w' where "listener (\<lambda>_. 0) 60 40 [61, 62] 9 [Chunk session_bytes] s quiet_net
       = Some (Inr (True, sc', s', w'))" "shut w' 9"
    "jq_holds (s_sendqueue s') (s_jobs s') ([] @ create_message_header 0 (msg_id ?c) MESG_CONN
          # forwarded [hello] @ [?d\<lparr>msg_payload := None\<rparr>])"
    by (auto simp: f start_at_def session_bytes_def create_message_header_def)
  moreover have "msg_id ?c = 2" by (simp add: create_message_header_def)
  ultimately show ?thesis by (auto simp: f)
qed

text \<open>C25: what the server answers to a first message: a connect for a registered id (and not
  for 0) is welcomed with a header and leads to that client; any other message gets the
  refusal that tells an unknown id from a wrong kind, and the socket is closed. No other
  socket is written to. Nothing of the message's payload is read.\<close>

theorem listener_admits:
  assumes "clients_rep k s es" "pending sc = header_bytes m @ rest"
  shows "\<exists>h sc' w' reply. listener_hello fd sc s w = Some (Inr (h, sc', w')) \<and> pending sc' = rest
     \<and> delivered reply w w' {fd}
     \<and> (if msg_kind m = MESG_CONN \<and> msg_id m \<noteq> 0 \<and> uint (msg_id m) \<in> e_id ` set es
         then (\<exists>e \<in> set es. e_id e = uint (msg_id m) \<and> h = Welcome (e_ptr e) (e_id e))
           \<and> reply = create_message_header 0 0 MESG_CONN \<and> shut w' = shut w
         else h = Refused \<and> shut w' = (shut w)(fd := True) \<and> reply = refusal
           (if msg_kind m = MESG_CONN \<and> msg_id m \<noteq> 0 then ''Error: unknown client id''
            else ''Error: incorrect handshake kind''))"
proof (cases "msg_kind m = MESG_CONN \<and> msg_id m \<noteq> 0 \<and> uint (msg_id m) \<in> e_id ` set es")
  case True
  then obtain e where e: "e \<in> set es" "e_id e = uint (msg_id m)" by auto
  from True listener_hello_welcome [OF assms _ _ e, of fd w] e show ?thesis by metis
next
  case False
  then have "msg_kind m \<noteq> MESG_CONN \<or> msg_id m = 0 \<or> uint (msg_id m) \<notin> e_id ` set es" by blast
  from listener_hello_refused [OF assms this, of fd w] False show ?thesis by (simp only: if_False) metis
qed

theorem listener_admits_witness:
  "\<exists>s sc' w'. listener_hello 9 [Chunk (header_bytes (create_message_header 0 3 MESG_CONN))] s quiet_net
       = Some (Inr (Refused, sc', w'))
     \<and> delivered (refusal ''Error: unknown client id'') quiet_net w' {9}"
proof -
  obtain k s a b where s: "clients_rep k s ([a] @ b # [])" "e_id a = 1" "e_id b = 2"
    using two_clients_full by blast
  let ?m = "create_message_header 0 3 MESG_CONN"
  have m: "msg_kind ?m = MESG_CONN" "msg_id ?m = 3" by (simp_all add: create_message_header_def)
  have "pending [Chunk (header_bytes ?m)] = header_bytes ?m @ []" by simp
  from listener_admits [OF s(1) this, of 9 quiet_net] s(2,3) show ?thesis
    unfolding m by (auto simp: m)
qed

text \<open>C34: a connection that is lost is not noticed. When a client's stream ends between two
  messages or within a header, its thread spins in \<open>recv_header\<close> and neither removes the
  connection nor closes the socket; when the socket reports an error instead, the server
  dereferences the null pointer that \<open>recv_header\<close> returned, in the loop and in the
  refusal of a failed handshake alike.\<close>

theorem listener_lost_connection:
  assumes "length (pending sc) < 8"
  shows "if breaks sc
     then listener_loop junk ps sc s = Some (Inl NullDeref)
        \<and> listener junk qp np ps fd sc s w = Some (Inl NullDeref)
     else listener_loop junk ps sc s = None \<and> listener junk qp np ps fd sc s w = None"
proof (cases "breaks sc")
  case True
  obtain sc' where h: "recv_header sc = Some (Inr (None, sc'))"
    using recv_header_error [OF assms True] by blast
  then have hs: "server_handshake sc = Some (Inr ((-1, None), sc'))" by (simp add: server_handshake_def)
  have "refuse ''Error: incorrect handshake kind'' fd None w = Inl NullDeref"
    using refuse_null by simp
  then have "listener junk qp np ps fd sc s w = Some (Inl NullDeref)"
    using hs by (simp add: listener_def listener_hello_def)
  moreover have "listener_loop junk ps sc s = Some (Inl NullDeref)"
    using h by (subst listener_loop.simps) simp
  ultimately show ?thesis using True by simp
next
  case False
  then have "recv_header sc = None" using recv_header_spins [OF assms] by blast
  then show ?thesis using False
    by (subst listener_loop.simps) (simp add: listener_def listener_hello_def server_handshake_def)
qed

theorem listener_lost_connection_witness:
  "listener_loop (\<lambda>_. 0) [] [Chunk [0, 1]] start_server = None \<and>
   listener_loop (\<lambda>_. 0) [] [Chunk [0, 1], RecvErr] start_server = Some (Inl NullDeref)"
  using listener_lost_connection [of "[Chunk [0, 1]]" "\<lambda>_. 0" "[]" start_server]
    listener_lost_connection [of "[Chunk [0, 1], RecvErr]" "\<lambda>_. 0" "[]" start_server]
  by (simp add: breaks_def)

end
