(* ===== verification/Server_Main.thy ===== *)
theory Server_Main
  imports Server_Listener "HOL-Library.Char_ord"
begin

text \<open>
  The start of the server (\<open>parse_client_ids\<close> and \<open>main\<close> in \<^verbatim>\<open>server.c\<close>): the list of
  ids, the command line options, and the initial state. Allocation always succeeds: \<open>calloc\<close> and \<open>realloc\<close>,
  whose results \<open>parse_client_ids\<close> does not check, never return null. The library's \<open>strtok\<close> and
  \<open>atoi\<close> are written out; \<open>getopt_long\<close> is the list of what its calls return.
\<close>

section \<open>Strings\<close>

definition is_delim :: "char \<Rightarrow> bool" where
  "is_delim c \<longleftrightarrow> c = CHR '' '' \<or> c = CHR '',''"

text \<open>One call of \<open>strtok\<close>: the next token and the string the following call continues with.\<close>

definition strtok :: "string \<Rightarrow> (string \<times> string) option" where
  "strtok s =
     (let s1 = dropWhile is_delim s in
      if s1 = [] then None
      else Some (takeWhile (\<lambda>c. \<not> is_delim c) s1, drop 1 (dropWhile (\<lambda>c. \<not> is_delim c) s1)))"

definition is_space :: "char \<Rightarrow> bool" where
  "is_space c \<longleftrightarrow> (of_char c :: nat) \<in> {9, 10, 11, 12, 13, 32}"

definition is_digit :: "char \<Rightarrow> bool" where
  "is_digit c \<longleftrightarrow> 48 \<le> (of_char c :: nat) \<and> (of_char c :: nat) \<le> 57"

definition digits_value :: "string \<Rightarrow> int" where
  "digits_value s = foldl (\<lambda>v c. 10 * v + (of_char c - 48)) 0 (takeWhile is_digit s)"

text \<open>\<open>atoi\<close> is undefined when the value is not an \<open>int\<close>.\<close>

definition atoi :: "string \<Rightarrow> int res" where
  "atoi s =
     (let s1 = dropWhile is_space s;
          v = (case s1 of [] \<Rightarrow> 0
               | c # s2 \<Rightarrow> if c = CHR ''-'' then - digits_value s2
                           else if c = CHR ''+'' then digits_value s2 else digits_value s1)
      in if - (2 ^ 31) \<le> v \<and> v < 2 ^ 31 then Inr v else Inl NotRepresentable)"

section \<open>The list of ids\<close>

lemma strtok_shorter:
  assumes "strtok s = Some (tok, rest)"
  shows "length rest < length s"
proof -
  let ?s1 = "dropWhile is_delim s"
  have "?s1 \<noteq> []" and rest: "rest = drop 1 (dropWhile (\<lambda>c. \<not> is_delim c) ?s1)"
    using assms by (auto simp: strtok_def Let_def split: if_splits)
  have d: "length (dropWhile (\<lambda>c. \<not> is_delim c) ?s1) \<le> length ?s1" "length ?s1 \<le> length s"
    by (simp_all add: length_dropWhile_le)
  show ?thesis
  proof (cases "dropWhile (\<lambda>c. \<not> is_delim c) ?s1")
    case Nil
    then have "rest = []" unfolding rest by (simp only: drop_Nil)
    moreover have "0 < length s" using \<open>?s1 \<noteq> []\<close> d(2) by (cases s) simp_all
    ultimately show ?thesis by simp
  next
    case (Cons c cs)
    with rest d show ?thesis by simp
  qed
qed

text \<open>
  The buffer holds \<open>cap\<close> bytes and the ids written so far, two bytes each. It grows before
  the sixth id, the eleventh, and so on, and its new size is a number of bytes. \<open>None\<close> is
  the return value -1.
\<close>

function parse_ids_loop :: "string \<Rightarrow> u16 list \<Rightarrow> nat \<Rightarrow> u16 list option res" where
  "parse_ids_loop s ids cap =
     (case strtok s of
        None \<Rightarrow> Inr (Some ids)
      | Some (tok, rest) \<Rightarrow>
          bind_res (atoi tok) (\<lambda>i.
            if i \<le> 0 \<or> i > 65535 then Inr None
            else
              (let cap' = (if length ids \<noteq> 0 \<and> length ids mod 5 = 0 then length ids + 5 else cap)
               in if 2 * length ids + 2 \<le> cap' then parse_ids_loop rest (ids @ [word_of_int i]) cap'
                  else Inl OutOfBounds)))"
  by pat_completeness auto

termination
  by (relation "measure (\<lambda>(s, _, _). length s)") (auto dest: strtok_shorter)

declare parse_ids_loop.simps [simp del]

definition parse_client_ids :: "string \<Rightarrow> u16 list option res" where
  "parse_client_ids s = parse_ids_loop s [] 10"

section \<open>Options\<close>

text \<open>What a call of \<open>getopt_long\<close> returns: a long option by its index, a short option, or an error.\<close>

datatype opt_event =
    Long nat "string option"
  | Short char "string option"
  | UnknownOpt
  | MissingArg

record server_opts =
  o_ids :: "u16 list option"
  o_port :: int

text \<open>\<open>main\<close> returns, or goes on.\<close>

datatype 'a step = Return int | Continue 'a

definition ids_option :: "bool \<Rightarrow> string option \<Rightarrow> server_opts \<Rightarrow> server_opts step res" where
  "ids_option long arg opts =
     (case arg of None \<Rightarrow> Inr (Return (-1))
      | Some s \<Rightarrow>
          bind_res (parse_client_ids s) (\<lambda>r.
            case r of None \<Rightarrow> Inr (Return (-1))
            | Some ids \<Rightarrow>
                if length ids < 2 \<and> \<not> long then Inr (Return (-1))
                else Inr (Continue (opts\<lparr>o_ids := Some ids\<rparr>))))"

definition server_option :: "opt_event \<Rightarrow> server_opts \<Rightarrow> server_opts step res" where
  "server_option ev opts =
     (case ev of
        Long n arg \<Rightarrow>
          if n = 0 then ids_option True arg opts
          else if n = 1 then
            (case arg of None \<Rightarrow> Inr (Return (-1))
             | Some s \<Rightarrow> bind_res (atoi s) (\<lambda>p.
                 if p \<le> 0 then Inr (Return (-1))
                 else if p > 65535 then Inr (Return (-1))
                 else Inr (Continue (opts\<lparr>o_port := p\<rparr>))))
          else Inr (Continue opts)
      | Short c arg \<Rightarrow>
          if c = CHR ''c'' then ids_option False arg opts
          else if c = CHR ''p'' then
            (case arg of None \<Rightarrow> Inl NullDeref
             | Some s \<Rightarrow> bind_res (atoi s) (\<lambda>p.
                 if p > 65535 then Inr (Return (-1)) else Inr (Continue (opts\<lparr>o_port := p\<rparr>))))
          else Inr (Continue opts)
      | UnknownOpt \<Rightarrow> Inr (Return (-1))
      | MissingArg \<Rightarrow> Inr (Return (-1)))"

fun server_options_loop :: "opt_event list \<Rightarrow> server_opts \<Rightarrow> server_opts step res" where
  "server_options_loop [] opts = Inr (Continue opts)"
| "server_options_loop (ev # evs) opts =
     bind_res (server_option ev opts) (\<lambda>r.
       case r of Return x \<Rightarrow> Inr (Return x) | Continue opts' \<Rightarrow> server_options_loop evs opts')"

text \<open>\<open>main\<close> up to the ids: the usage without arguments, the options, and the check for ids.\<close>

definition server_options :: "nat \<Rightarrow> opt_event list \<Rightarrow> server_opts step res" where
  "server_options argc evs =
     (if argc = 1 then Inr (Return 0)
      else bind_res (server_options_loop evs \<lparr>o_ids = None, o_port = -1\<rparr>) (\<lambda>r.
        case r of Return x \<Rightarrow> Inr (Return x)
        | Continue opts \<Rightarrow>
            if o_ids opts = None then Inr (Return (-1)) else Inr (Continue opts)))"

section \<open>The initial state\<close>

text \<open>
  The globals of the program before \<open>main\<close> sets them, and what it sets: the clients, the
  send queue and the log, at the given addresses.
\<close>

definition blank_server :: server where
  "blank_server = \<lparr>s_cells = Map.empty, s_table = no_handles, s_clients = NULL,
     s_fds = \<lparr>nodes = Map.empty, lists = Map.empty\<rparr>, s_log_list = NULL,
     s_log = \<lparr>nodes = Map.empty, lists = Map.empty\<rparr>,
     s_sendqueue = NULL, s_jobs = \<lparr>jnodes = Map.empty, queues = Map.empty\<rparr>\<rparr>"

definition server_init ::
    "(u16 \<times> ptr \<times> ptr \<times> ptr) list \<Rightarrow> ptr \<Rightarrow> ptr \<Rightarrow> ptr \<Rightarrow> server run" where
  "server_init ids qp gp lp =
     bind_run (setup_clients ids blank_server) (\<lambda>s.
     bind_run (Some (create_jobqueue 0 qp (s_jobs s))) (\<lambda>(q, st).
     Some (create_message_log gp lp (s\<lparr>s_sendqueue := q, s_jobs := st\<rparr>))))"

section \<open>The rest of \<open>main\<close>\<close>

text \<open>
  The calls that make the listening socket, by what they return: \<open>socket\<close>, \<open>bind\<close> and \<open>listen\<close>.
\<close>

definition server_socket :: "int \<Rightarrow> int \<Rightarrow> int \<Rightarrow> unit step" where
  "server_socket sock bnd lst =
     (if sock < 0 then Return (-1) else if bnd < 0 then Return (-1)
      else if lst \<noteq> 0 then Return (-1) else Continue ())"

text \<open>
  The accept loop: for each connection what \<open>accept\<close> returns, the address of the new thread's
  handle and that of its list cell. The result is the threads that were started, each with its
  socket, and the list of their handles; the end of the input is a server that waits in
  \<open>accept\<close>. A failed \<open>accept\<close> ends the process.
\<close>

fun accept_loop ::
    "(int \<times> ptr \<times> ptr) list \<Rightarrow> ptr \<Rightarrow> (int \<times> ptr) list \<Rightarrow> ptr lstore \<Rightarrow> ((int \<times> ptr) list \<times> ptr lstore) res" where
  "accept_loop [] l started st = Inr (started, st)"
| "accept_loop ((clientfd, tp, np) # as) l started st =
     (if clientfd < 0 then Inl Exit
      else bind_res (llist_insert_tail l tp np st) (\<lambda>st'.
           accept_loop as l (started @ [(clientfd, tp)]) st'))"

text \<open>
  \<open>main\<close>: \<open>addrs\<close> are the addresses for the clients, \<open>qp\<close>, \<open>gp\<close>, \<open>lp\<close> and \<open>hp\<close> those for the queue,
  the log, its list and the list of threads.
\<close>

definition server_main ::
    "nat \<Rightarrow> opt_event list \<Rightarrow> (ptr \<times> ptr \<times> ptr) list \<Rightarrow> ptr \<Rightarrow> ptr \<Rightarrow> ptr \<Rightarrow> ptr \<Rightarrow> int \<times> int \<times> int \<Rightarrow>
       (int \<times> ptr \<times> ptr) list \<Rightarrow> (server \<times> (int \<times> ptr) list) step run" where
  "server_main argc evs addrs qp gp lp hp calls accepts =
     bind_run (Some (server_options argc evs)) (\<lambda>r.
       case r of Return x \<Rightarrow> Some (Inr (Return x))
       | Continue opts \<Rightarrow>
           bind_run (server_init (zip (the (o_ids opts)) addrs) qp gp lp) (\<lambda>s.
           bind_run (Some (create_llist hp \<lparr>nodes = Map.empty, lists = Map.empty\<rparr>)) (\<lambda>(l, st).
             case calls of (sock, bnd, lst) \<Rightarrow>
               (case server_socket sock bnd lst of Return x \<Rightarrow> Some (Inr (Return x))
                | Continue _ \<Rightarrow>
                    bind_run (Some (accept_loop accepts l [] st)) (\<lambda>(started, st').
                    Some (Inr (Continue (s, started))))))))"

section \<open>What the list of ids becomes\<close>

text \<open>The tokens of a string.\<close>

function tokens :: "string \<Rightarrow> string list" where
  "tokens s = (case strtok s of None \<Rightarrow> [] | Some (tok, rest) \<Rightarrow> tok # tokens rest)"
  by pat_completeness auto

termination
  by (relation "measure length") (auto dest: strtok_shorter)

declare tokens.simps [simp del]

text \<open>A token that is an id.\<close>

definition id_token :: "string \<Rightarrow> u16 \<Rightarrow> bool" where
  "id_token t i \<longleftrightarrow> (\<exists>v. atoi t = Inr v \<and> 0 < v \<and> v \<le> 65535 \<and> i = word_of_int v)"

definition bad_token :: "string \<Rightarrow> bool" where
  "bad_token t \<longleftrightarrow> (\<exists>v. atoi t = Inr v \<and> (v \<le> 0 \<or> 65535 < v))"

lemma parse_ids_step:
  assumes "tokens s = t # ts"
  obtains rest where "strtok s = Some (t, rest)" and "tokens rest = ts"
  using assms by (auto simp: tokens.simps [of s] split: option.splits)

text \<open>The buffer as it is before the id of the given index: 10 bytes for the first five.\<close>

lemma parse_ids_good:
  assumes "list_all2 id_token ts is" and "tokens s = ts @ us" and "length ids + length ts \<le> 5"
  shows "\<exists>s'. parse_ids_loop s ids 10 = parse_ids_loop s' (ids @ is) 10 \<and> tokens s' = us"
  using assms
proof (induction ts "is" arbitrary: s ids rule: list_all2_induct)
  case Nil
  then show ?case by auto
next
  case (Cons t ts i js)
  from Cons.prems(1) obtain rest where rest: "strtok s = Some (t, rest)" "tokens rest = ts @ us"
    by (auto elim: parse_ids_step)
  from Cons.hyps(1) obtain v where v: "atoi t = Inr v" "0 < v" "v \<le> 65535" "i = word_of_int v"
    by (auto simp: id_token_def)
  have "length ids < 5" using Cons.prems(2) by simp
  then have "\<not> (length ids \<noteq> 0 \<and> length ids mod 5 = 0)" by auto
  then have "parse_ids_loop s ids 10 = parse_ids_loop rest (ids @ [i]) 10"
    using rest(1) v \<open>length ids < 5\<close> by (subst parse_ids_loop.simps) (simp add: Let_def)
  moreover have "length (ids @ [i]) + length ts \<le> 5" using Cons.prems(2) by simp
  ultimately show ?case using Cons.IH [OF rest(2), of "ids @ [i]"] by simp
qed

lemma parse_ids_end: "tokens s = [] \<Longrightarrow> parse_ids_loop s ids cap = Inr (Some ids)"
  by (subst parse_ids_loop.simps) (auto simp: tokens.simps [of s] split: option.splits)

lemma parse_ids_bad:
  assumes "tokens s = t # ts" and "bad_token t"
  shows "parse_ids_loop s ids cap = Inr None"
proof -
  obtain rest where "strtok s = Some (t, rest)" using assms(1) by (rule parse_ids_step)
  moreover obtain v where "atoi t = Inr v" "v \<le> 0 \<or> v > 65535" using assms(2) by (auto simp: bad_token_def)
  ultimately show ?thesis by (subst parse_ids_loop.simps) simp
qed

lemma parse_ids_sixth:
  assumes "tokens s = t # ts" and "id_token t i" and "length ids = 5"
  shows "parse_ids_loop s ids 10 = Inl OutOfBounds"
proof -
  obtain rest where "strtok s = Some (t, rest)" using assms(1) by (rule parse_ids_step)
  moreover obtain v where "atoi t = Inr v" "0 < v" "v \<le> 65535" using assms(2) by (auto simp: id_token_def)
  ultimately show ?thesis using assms(3) by (subst parse_ids_loop.simps) (simp add: Let_def)
qed

lemma parse_ids_valid:
  "parse_ids_loop s ids cap = Inr (Some js) \<Longrightarrow> 0 \<notin> set ids \<Longrightarrow> 0 \<notin> set js"
proof (induction s ids cap rule: parse_ids_loop.induct)
  case (1 s ids cap)
  show ?case
  proof (cases "strtok s")
    case None
    with "1.prems" show ?thesis by (subst (asm) parse_ids_loop.simps) simp
  next
    case (Some a)
    obtain tok rest where a: "a = (tok, rest)" by (cases a)
    let ?cap = "if length ids \<noteq> 0 \<and> length ids mod 5 = 0 then length ids + 5 else cap"
    obtain v where v: "atoi tok = Inr v" "0 < v" "v \<le> 65535" "2 * length ids + 2 \<le> ?cap"
      "parse_ids_loop rest (ids @ [word_of_int v]) ?cap = Inr (Some js)"
      using "1.prems"(1) Some a
      by (subst (asm) parse_ids_loop.simps) (auto simp: bind_res_eq_Inr Let_def split: if_splits)
    have "uint (word_of_int v :: u16) = v" using v(2,3) by (simp add: uint_word_of_int)
    moreover have "uint (word_of_int v :: u16) = 0" if "(word_of_int v :: u16) = 0" using that by simp
    ultimately have "(word_of_int v :: u16) \<noteq> 0" using v(2) by linarith
    then show ?thesis
      using "1.IH" [OF Some a [symmetric] _ refl v(4,5)] v(2,3) "1.prems"(2) by auto
  qed
qed

text \<open>No list of more than five ids comes back.\<close>

lemma parse_ids_short:
  "parse_ids_loop s ids cap = Inr (Some js) \<Longrightarrow> length ids \<le> 5 \<Longrightarrow>
   (length ids < 5 \<longrightarrow> cap = 10) \<Longrightarrow> length js \<le> 5"
proof (induction s ids cap rule: parse_ids_loop.induct)
  case (1 s ids cap)
  show ?case
  proof (cases "strtok s")
    case None
    with "1.prems" show ?thesis by (subst (asm) parse_ids_loop.simps) simp
  next
    case (Some a)
    obtain tok rest where a: "a = (tok, rest)" by (cases a)
    let ?cap = "if length ids \<noteq> 0 \<and> length ids mod 5 = 0 then length ids + 5 else cap"
    obtain v where v: "\<not> (v \<le> 0 \<or> 65535 < v)" "2 * length ids + 2 \<le> ?cap"
      "parse_ids_loop rest (ids @ [word_of_int v]) ?cap = Inr (Some js)"
      using "1.prems"(1) Some a
      by (subst (asm) parse_ids_loop.simps) (auto simp: bind_res_eq_Inr Let_def split: if_splits)
    have l: "length ids < 5" using v(2) "1.prems"(2) by (cases "length ids = 5") auto
    then have "\<not> (length ids \<noteq> 0 \<and> length ids mod 5 = 0)" by auto
    then have c: "?cap = 10" using "1.prems"(3) l by simp
    show ?thesis
      using "1.IH" [OF Some a [symmetric] v(1) refl v(2,3)] l c by simp
  qed
qed

section \<open>The initial state\<close>

lemma clients_rep_queues:
  "clients_rep k (s\<lparr>s_sendqueue := q, s_jobs := st\<rparr>) es = clients_rep k s es"
  "clients_rep k (s\<lparr>s_log_list := l, s_log := lg\<rparr>) es = clients_rep k s es"
  by (simp_all add: clients_rep_def entry_ok_def)

lemma server_init_ok:
  assumes "length ids \<le> 26"
    and "\<forall>(c, p, lp, tp) \<in> set ids. p \<noteq> NULL \<and> lp \<noteq> NULL \<and> tp \<noteq> NULL"
    and "distinct (map (\<lambda>(_, p, _). p) ids)" and "distinct (map (\<lambda>(_, _, lp, _). lp) ids)"
    and "qp \<noteq> NULL" "gp \<noteq> NULL" "lp \<noteq> NULL"
  shows "\<exists>s k es. server_init ids qp gp lp = Some (Inr s) \<and> clients_rep k s es
     \<and> conns es = map (\<lambda>i. (i, [])) (add_ids (map fst ids) []) \<and> (\<forall>e \<in> set es. e_last e = NULL)
     \<and> log_rep s [] [] \<and> jq_holds (s_sendqueue s) (s_jobs s) []"
proof -
  have "clients_rep 0 blank_server []" by (simp add: clients_rep_def blank_server_def)
  moreover have "0 + length ids \<le> 31" "6 + length ids \<le> 32" using assms(1) by simp_all
  ultimately obtain s k es where s: "setup_clients ids blank_server = Some (Inr s)" "clients_rep k s es"
    "map e_id es = add_ids (map fst ids) []" "\<forall>e \<in> set es. e_fds e = [] \<and> e_last e = NULL"
    using setup_clients_ok [of 0 blank_server "[]" ids] assms(2-4) by auto
  obtain st where st: "create_jobqueue 0 qp (s_jobs s) = Inr (qp, st)" "jq_rep st qp [] []"
    using create_jobqueue_correct [OF assms(5)] by blast
  let ?s1 = "s\<lparr>s_sendqueue := qp, s_jobs := st\<rparr>"
  obtain lg where lg: "create_llist lp (s_log ?s1) = Inr (lp, lg)" "llist_rep lg lp [] []"
    using create_llist_correct [OF assms(7)] by blast
  let ?s2 = "?s1\<lparr>s_log_list := lp, s_log := lg\<rparr>"
  have "server_init ids qp gp lp = Some (Inr ?s2)"
    using s(1) st(1) lg(1) assms(6) by (simp add: server_init_def create_message_log_def)
  moreover have "clients_rep k ?s2 es" using s(2) unfolding clients_rep_queues .
  moreover have "conns es = map (\<lambda>i. (i, [])) (map e_id es)" using s(4) by (auto simp: conns_def)
  moreover have "log_rep ?s2 [] []" using lg(2) by (simp add: log_rep_def)
  moreover have "jq_holds (s_sendqueue ?s2) (s_jobs ?s2) []" using st(2) by (auto simp: jq_holds_def)
  ultimately show ?thesis using s(3,4) by (intro exI [of _ ?s2] exI [of _ k] exI [of _ es]) simp
qed

text \<open>What the option loop keeps true of the options.\<close>

definition opts_ok :: "server_opts \<Rightarrow> bool" where
  "opts_ok opts \<longleftrightarrow> o_port opts \<le> 65535 \<and>
     (\<forall>ids. o_ids opts = Some ids \<longrightarrow> 0 \<notin> set ids \<and> length ids \<le> 5)"

lemma parse_client_ids_result:
  assumes "parse_client_ids s = Inr (Some ids)"
  shows "0 \<notin> set ids" and "length ids \<le> 5"
proof -
  show "0 \<notin> set ids" using parse_ids_valid [of s "[]" 10 ids] assms by (simp add: parse_client_ids_def)
  show "length ids \<le> 5" using parse_ids_short [of s "[]" 10 ids] assms by (simp add: parse_client_ids_def)
qed

lemma ids_option_ok:
  assumes "ids_option long arg opts = Inr (Continue opts')" "opts_ok opts"
  shows "opts_ok opts'"
proof -
  obtain s where s: "arg = Some s" using assms(1) by (cases arg) (simp_all add: ids_option_def)
  with assms(1) obtain r where r: "parse_client_ids s = Inr r"
    "(case r of None \<Rightarrow> Inr (Return (-1))
      | Some ids \<Rightarrow> if length ids < 2 \<and> \<not> long then Inr (Return (-1))
                else Inr (Continue (opts\<lparr>o_ids := Some ids\<rparr>))) = (Inr (Continue opts') :: server_opts step res)"
    by (auto simp: ids_option_def elim!: bind_res_InrE)
  then obtain ids where "r = Some ids" "opts' = opts\<lparr>o_ids := Some ids\<rparr>"
    by (cases r) (auto split: if_splits)
  with assms(2) parse_client_ids_result [of s ids] r(1) show ?thesis by (simp add: opts_ok_def)
qed

lemma server_option_ok:
  assumes "server_option ev opts = Inr (Continue opts')" "opts_ok opts"
  shows "opts_ok opts'"
proof (cases ev)
  case (Long n arg)
  then show ?thesis using assms
    by (cases arg) (auto simp: server_option_def opts_ok_def elim!: bind_res_InrE
        split: if_split_asm dest: ids_option_ok [unfolded opts_ok_def])
next
  case (Short c arg)
  then show ?thesis using assms
    by (cases arg) (auto simp: server_option_def opts_ok_def elim!: bind_res_InrE
        split: if_split_asm dest: ids_option_ok [unfolded opts_ok_def])
qed (use assms in \<open>simp_all add: server_option_def\<close>)

lemma server_options_loop_ok:
  "server_options_loop evs opts = Inr (Continue opts') \<Longrightarrow> opts_ok opts \<Longrightarrow> opts_ok opts'"
proof (induction evs arbitrary: opts)
  case Nil
  then show ?case by simp
next
  case (Cons ev evs)
  from Cons.prems(1) obtain x where "server_option ev opts = Inr (Continue x)"
    "server_options_loop evs x = Inr (Continue opts')"
    by (auto elim!: bind_res_InrE split: step.split_asm)
  then show ?case using Cons.IH server_option_ok Cons.prems(2) by blast
qed

lemma server_options_split:
  assumes "server_options argc evs = Inr (Continue opts)"
  shows "server_options_loop evs \<lparr>o_ids = None, o_port = -1\<rparr> = Inr (Continue opts)" and "o_ids opts \<noteq> None"
  using assms by (auto simp: server_options_def elim!: bind_res_InrE split: if_split_asm step.split_asm)

lemma parse_client_ids_cases:
  assumes "list_all2 id_token ts is" "tokens s = ts @ us"
  shows "length ts \<le> 5 \<longrightarrow> us = [] \<longrightarrow> parse_client_ids s = Inr (Some is)"
    and "length ts \<le> 5 \<longrightarrow> us \<noteq> [] \<longrightarrow> bad_token (hd us) \<longrightarrow> parse_client_ids s = Inr None"
    and "length ts = 6 \<longrightarrow> parse_client_ids s = Inl OutOfBounds"
proof -
  have good: "\<exists>s'. parse_client_ids s = parse_ids_loop s' is 10 \<and> tokens s' = us" if "length ts \<le> 5"
    using parse_ids_good [OF assms, of "[]"] that by (simp add: parse_client_ids_def)
  show "length ts \<le> 5 \<longrightarrow> us = [] \<longrightarrow> parse_client_ids s = Inr (Some is)"
    using good parse_ids_end by metis
  show "length ts \<le> 5 \<longrightarrow> us \<noteq> [] \<longrightarrow> bad_token (hd us) \<longrightarrow> parse_client_ids s = Inr None"
    using good parse_ids_bad by (metis list.exhaust_sel)
  show "length ts = 6 \<longrightarrow> parse_client_ids s = Inl OutOfBounds"
  proof
    assume 6: "length ts = 6"
    then obtain ts' t where t: "ts = ts' @ [t]" "length ts' = 5"
      by (cases ts rule: rev_cases) auto
    obtain js j where j: "is = js @ [j]" "list_all2 id_token ts' js" "id_token t j"
      using assms(1) unfolding t(1) by (auto simp: list_all2_append1 list_all2_Cons1)
    have "length js = 5" using j(2) t(2) by (simp add: list_all2_lengthD)
    moreover obtain s' where "parse_client_ids s = parse_ids_loop s' js 10" "tokens s' = t # us"
      using parse_ids_good [OF j(2), of s "t # us" "[]"] assms(2) t
      by (auto simp: parse_client_ids_def)
    ultimately show "parse_client_ids s = Inl OutOfBounds" using parse_ids_sixth [OF _ j(3)] by simp
  qed
qed

text \<open>Every accepted connection gets a thread, and every thread's handle is kept.\<close>

lemma accept_loop_ok:
  assumes "llist_rep st l ps xs" "\<forall>(fd, tp, np) \<in> set as. 0 \<le> fd \<and> np \<noteq> NULL \<and> nodes st np = None"
    and "distinct (map (\<lambda>(_, _, np). np) as)"
  shows "\<exists>st' ps'. accept_loop as l started st = Inr (started @ map (\<lambda>(fd, tp, _). (fd, tp)) as, st')
     \<and> llist_rep st' l ps' (xs @ map (\<lambda>(_, tp, _). tp) as)"
  using assms
proof (induction as arbitrary: started st ps xs)
  case Nil
  then show ?case by auto
next
  case (Cons a as)
  obtain fd tp np where a: "a = (fd, tp, np)" by (cases a)
  have np: "0 \<le> fd" "np \<noteq> NULL" "nodes st np = None" using Cons.prems(2) by (simp_all add: a)
  from llist_insert_tail_correct [OF Cons.prems(1) np(2,3), of tp] obtain st1 where st1:
    "llist_insert_tail l tp np st = Inr st1" "llist_rep st1 l (ps @ [np]) (xs @ [tp])"
    "only_changes st st1 (insert np (set ps)) l" by blast
  have "nodes st1 p = None" if "nodes st p = None" "p \<noteq> np" for p
    by (rule inserted_free [OF Cons.prems(1) st1(3) that])
  moreover have "np' \<noteq> np" if "(fd', tp', np') \<in> set as" for fd' tp' np'
    using Cons.prems(3) that by (force simp: a)
  ultimately have "\<forall>(fd, tp, np) \<in> set as. 0 \<le> fd \<and> np \<noteq> NULL \<and> nodes st1 np = None"
    using Cons.prems(2) by (clarsimp simp: a) blast
  from Cons.IH [OF st1(2) this, of "started @ [(fd, tp)]"] Cons.prems(3) obtain st' ps' where
    "accept_loop as l (started @ [(fd, tp)]) st1 = Inr ((started @ [(fd, tp)]) @ map (\<lambda>(fd, tp, _). (fd, tp)) as, st')"
    "llist_rep st' l ps' ((xs @ [tp]) @ map (\<lambda>(_, tp, _). tp) as)" by (auto simp: a)
  then show ?case using st1(1) np(1) by (intro exI [of _ st'] exI [of _ ps']) (simp add: a)
qed

section \<open>Properties\<close>

text \<open>C31: what \<open>main\<close> has set up before it listens: exactly the ids of the command line are
  registered, each once and in the order of their first occurrence, none has a connection or
  a place in the log, and the log and the send queue are empty. (The bound keeps the hash
  table below \<open>2 ^ 31\<close> buckets in every case.)\<close>

theorem server_starts:
  assumes "length ids \<le> 26"
    and "\<forall>(c, p, lp, tp) \<in> set ids. p \<noteq> NULL \<and> lp \<noteq> NULL \<and> tp \<noteq> NULL"
    and "distinct (map (\<lambda>(_, p, _). p) ids)" and "distinct (map (\<lambda>(_, _, lp, _). lp) ids)"
    and "qp \<noteq> NULL" "gp \<noteq> NULL" "lp \<noteq> NULL"
  shows "\<exists>s k es. server_init ids qp gp lp = Some (Inr s) \<and> clients_rep k s es
     \<and> conns es = map (\<lambda>i. (i, [])) (add_ids (map fst ids) []) \<and> (\<forall>e \<in> set es. e_last e = NULL)
     \<and> log_rep s [] [] \<and> jq_holds (s_sendqueue s) (s_jobs s) []"
  using assms by (rule server_init_ok)

theorem server_starts_witness:
  "\<exists>s k es. server_init [(7, 10, 20, 30), (2, 11, 21, 31), (7, 12, 22, 32)] 1 2 3 = Some (Inr s)
     \<and> clients_rep k s es \<and> conns es = [(7, []), (2, [])]"
  using server_starts [of "[(7, 10, 20, 30), (2, 11, 21, 31), (7, 12, 22, 32)]" 1 2 3]
  by (auto simp: add_ids_def)

text \<open>C36: the list of ids on the command line: up to five ids come back in order, each the
  number \<open>atoi\<close> reads; the list is refused at the first number outside 1 to 65535 among the
  first six; and the sixth id is written outside the buffer, which was resized to as many
  bytes as it should have had ids.\<close>

theorem client_ids_parsed:
  assumes "list_all2 id_token ts is" "tokens s = ts @ us"
  shows "(length ts \<le> 5 \<and> us = [] \<longrightarrow> parse_client_ids s = Inr (Some is)) \<and>
    (length ts \<le> 5 \<and> us \<noteq> [] \<and> bad_token (hd us) \<longrightarrow> parse_client_ids s = Inr None) \<and>
    (length ts = 6 \<longrightarrow> parse_client_ids s = Inl OutOfBounds)"
  using parse_client_ids_cases [OF assms] by blast

theorem client_ids_parsed_witness:
  "parse_client_ids ''7, 12'' = Inr (Some [7, 12]) \<and> parse_client_ids ''7,12,0'' = Inr None \<and>
   parse_client_ids ''1,2,3,4,5,6'' = Inl OutOfBounds"
proof -
  have t: "tokens ''7, 12'' = [''7'', ''12''] @ []" "tokens ''7,12,0'' = [''7'', ''12''] @ [''0'']"
    "tokens ''1,2,3,4,5,6'' = [''1'', ''2'', ''3'', ''4'', ''5'', ''6''] @ []"
    by code_simp+
  have i: "list_all2 id_token [''7'', ''12''] [7, 12]"
    "list_all2 id_token [''1'', ''2'', ''3'', ''4'', ''5'', ''6''] [1, 2, 3, 4, 5, 6]" "bad_token ''0''"
    by (simp_all add: id_token_def bad_token_def atoi_def digits_value_def is_space_def is_digit_def
        of_char_def)
  from client_ids_parsed [OF i(1) t(1)] client_ids_parsed [OF i(1) t(2)] client_ids_parsed [OF i(2) t(3)] i(3)
  show ?thesis by simp
qed

text \<open>When the options let the server start, it has at most five ids, all of them from 1 to
  65535, and a port of at most 65535; nothing keeps the port from being missing or
  negative, nor, with the long option, the list of ids from being empty.\<close>

theorem options_checked:
  assumes "server_options argc evs = Inr (Continue opts)"
  shows "o_port opts \<le> 65535 \<and> (\<exists>ids. o_ids opts = Some ids \<and> 0 \<notin> set ids \<and> length ids \<le> 5)
    \<and> server_options 2 [Short CHR ''c'' (Some ''1,2'')] = Inr (Continue \<lparr>o_ids = Some [1, 2], o_port = -1\<rparr>)
    \<and> server_options 3 [Short CHR ''p'' (Some ''-5''), Long 0 (Some '','')]
        = Inr (Continue \<lparr>o_ids = Some [], o_port = -5\<rparr>)"
proof -
  have "server_options 2 [Short CHR ''c'' (Some ''1,2'')] = Inr (Continue \<lparr>o_ids = Some [1, 2], o_port = -1\<rparr>)"
    "server_options 3 [Short CHR ''p'' (Some ''-5''), Long 0 (Some '','')]
        = Inr (Continue \<lparr>o_ids = Some [], o_port = -5\<rparr>)" by code_simp+
  moreover have "opts_ok \<lparr>o_ids = None, o_port = -1\<rparr>" by (simp add: opts_ok_def)
  then have "opts_ok opts"
    using server_options_loop_ok [OF server_options_split(1) [OF assms]] by simp
  moreover have "o_ids opts \<noteq> None" by (rule server_options_split(2) [OF assms])
  ultimately show ?thesis by (auto simp: opts_ok_def)
qed

theorem options_checked_witness:
  "\<exists>opts. server_options 3 [Short CHR ''p'' (Some ''-5''), Short CHR ''c'' (Some ''1,2'')] = Inr (Continue opts)
     \<and> o_port opts \<le> 65535 \<and> o_port opts = -5"
proof -
  have "server_options 3 [Short CHR ''p'' (Some ''-5''), Short CHR ''c'' (Some ''1,2'')]
      = Inr (Continue \<lparr>o_ids = Some [1, 2], o_port = -5\<rparr>)"
    by code_simp
  with options_checked [OF this] show ?thesis by simp
qed

text \<open>
  The two ways to give the ids differ: with one id (or none) the short option makes
  \<open>main\<close> return, while after the long one it goes on with what it complained about.
\<close>

lemma short_and_long_option_differ:
  assumes "parse_client_ids s = Inr (Some ids)" "length ids < 2"
  shows "server_option (Short CHR ''c'' (Some s)) opts = Inr (Return (-1)) \<and>
    server_option (Long 0 (Some s)) opts = Inr (Continue (opts\<lparr>o_ids := Some ids\<rparr>))"
  using assms by (simp add: server_option_def ids_option_def)

end
