(* ===== verification/Chat_Client.thy ===== *)
theory Chat_Client
  imports Server_Main
begin

text \<open>
  The chat client (\<^verbatim>\<open>client.c\<close>): its options, connecting, the handshake, the thread
  that prints what the server sends and the thread that sends the lines of its input. What
  a thread prints is the list of the bytes it writes.
\<close>

section \<open>Printing\<close>

definition bytes_of :: "string \<Rightarrow> byte list" where
  "bytes_of s = map of_char s"

text \<open>\<open>%d\<close> of a number that is not negative.\<close>

fun decimal :: "nat \<Rightarrow> string" where
  "decimal n = (if n < 10 then [char_of (48 + n)] else decimal (n div 10) @ [char_of (48 + n mod 10)])"

declare decimal.simps [simp del]

text \<open>\<open>%s\<close>: the bytes before the terminator.\<close>

definition c_str :: "byte list option \<Rightarrow> byte list res" where
  "c_str p = (case p of None \<Rightarrow> Inl NullDeref
     | Some bs \<Rightarrow> if 0 \<in> set bs then Inr (takeWhile (\<lambda>b. b \<noteq> 0) bs) else Inl OutOfBounds)"

definition newline :: byte where "newline = 10"

definition print_message :: "message \<Rightarrow> byte list res" where
  "print_message m =
     (if msg_kind m = MESG_CONN then
        (if msg_id m = 0 then Inr (bytes_of ''<server>: connection accepted'' @ [newline])
         else Inr (bytes_of ''<server>: <'' @ bytes_of (decimal (unat (msg_id m))) @ bytes_of ''> connected'' @ [newline]))
      else if msg_kind m = MESG_DCON then
        (if msg_id m = 0 then
           (if msg_length m > 0 then
              bind_res (c_str (msg_payload m)) (\<lambda>s.
              Inr (bytes_of ''<server>: disconnected'' @ bytes_of '' - '' @ s @ [newline]))
            else Inr (bytes_of ''<server>: disconnected'' @ [newline]))
         else Inr (bytes_of ''<server>: <'' @ bytes_of (decimal (unat (msg_id m))) @ bytes_of ''> disconnected'' @ [newline]))
      else if msg_kind m = MESG_DATA then
        bind_res (c_str (msg_payload m)) (\<lambda>s.
        Inr ((if msg_id m = 0 then bytes_of ''<server>: ''
              else bytes_of ''<'' @ bytes_of (decimal (unat (msg_id m))) @ bytes_of ''>: '') @ s @ [newline]))
      else Inr [])"

section \<open>Handshake\<close>

text \<open>What one socket of the client sees, and what the client has sent and printed.\<close>

record client_io =
  io_in :: in_script
  io_out :: out_script
  io_sent :: "byte list"
  io_printed :: "byte list"

definition io_send :: "message \<Rightarrow> client_io \<Rightarrow> (int \<times> client_io) res" where
  "io_send m io =
     bind_res (send_message (Some m) (io_out io)) (\<lambda>(r, sent, out').
       Inr (r, io\<lparr>io_out := out', io_sent := io_sent io @ sent\<rparr>))"

definition io_print :: "byte list \<Rightarrow> client_io \<Rightarrow> client_io" where
  "io_print bs io = io\<lparr>io_printed := io_printed io @ bs\<rparr>"

text \<open>\<open>handshake\<close>: the answer is used whether or not it came.\<close>

definition client_handshake :: "(nat \<Rightarrow> byte) \<Rightarrow> int \<Rightarrow> client_io \<Rightarrow> (int \<times> client_io) run" where
  "client_handshake junk cid io =
     bind_run (Some (io_send (create_message_header 0 (word_of_int cid) MESG_CONN) io)) (\<lambda>(ret, io1).
       if ret \<noteq> 0 then Some (Inr (ret, io1))
       else bind_run (recv_header (io_in io1)) (\<lambda>(mp, sc).
         case mp of None \<Rightarrow> Some (Inl NullDeref)
         | Some m \<Rightarrow>
             bind_run (if msg_kind m = MESG_DCON
                       then bind_run (recv_payload junk m sc) (\<lambda>((_, m'), sc'). Some (Inr (m', sc')))
                       else Some (Inr (m, sc))) (\<lambda>(m', sc').
             bind_run (Some (print_message m')) (\<lambda>out.
             Some (Inr (if msg_kind m' = MESG_CONN then 0 else -1, io_print out (io1\<lparr>io_in := sc'\<rparr>)))))))"

section \<open>The receiving thread\<close>

text \<open>Only a message of kind data has its payload read.\<close>

partial_function (option) client_receiver :: "(nat \<Rightarrow> byte) \<Rightarrow> client_io \<Rightarrow> client_io run" where
  "client_receiver junk io =
     bind_run (recv_header (io_in io)) (\<lambda>(mp, sc).
       case mp of None \<Rightarrow> Some (Inl NullDeref)
       | Some m \<Rightarrow>
           bind_run (if msg_kind m = MESG_DATA then recv_payload junk m sc else Some (Inr ((0, m), sc)))
             (\<lambda>((ret, m'), sc').
               if ret = -1 then
                 Some (Inr (io_print (bytes_of ''Error receiving message'' @ [newline]) (io\<lparr>io_in := sc'\<rparr>)))
               else
                 bind_run (Some (print_message m')) (\<lambda>out.
                   if msg_kind m' = MESG_DCON \<and> msg_id m' = 0
                   then Some (Inr (io_print out (io\<lparr>io_in := sc'\<rparr>)))
                   else client_receiver junk (io_print out (io\<lparr>io_in := sc'\<rparr>)))))"

section \<open>The sending thread\<close>

text \<open>
  \<open>getline\<close>: the bytes up to the newline, that one included, or what is left of the
  input; \<open>None\<close> is -1 at its end.
\<close>

definition getline :: "byte list \<Rightarrow> (byte list \<times> byte list) option" where
  "getline inp =
     (if inp = [] then None
      else Some (takeWhile (\<lambda>b. b \<noteq> newline) inp @ take 1 (dropWhile (\<lambda>b. b \<noteq> newline) inp),
                 drop 1 (dropWhile (\<lambda>b. b \<noteq> newline) inp)))"

datatype line_result = Quit | Broken | More

text \<open>
  One line: \<open>line\<close> is what \<open>getline\<close> read, the buffer has the terminator after it. The
  trailing newline is cut off; the quit command ends the thread; any other line is sent with
  the number of bytes it had before the newline was cut.
\<close>

definition client_line :: "int \<Rightarrow> byte list \<Rightarrow> client_io \<Rightarrow> (line_result \<times> client_io) res" where
  "client_line cid line io =
     (let buf = line @ [0];
          slen = length (takeWhile (\<lambda>b. b \<noteq> 0) buf)
      in if slen = 0 then Inl OutOfBounds
         else
           (let buf1 = (if buf ! (slen - 1) = newline then buf[slen - 1 := 0] else buf)
            in if takeWhile (\<lambda>b. b \<noteq> 0) buf1 = bytes_of ''<<quit>>'' then
                 bind_res (io_send (create_message_header 0 (word_of_int cid) MESG_DCON) io) (\<lambda>(r, io').
                 Inr (Quit, io'))
               else
                 (let send_len = (if slen > unat MESG_MAX_LEN then unat MESG_MAX_LEN else slen);
                      buf2 = (if slen > unat MESG_MAX_LEN then buf1[send_len - 1 := 0] else buf1)
                  in bind_res (create_message (of_nat send_len) (word_of_int cid) MESG_DATA buf2) (\<lambda>m.
                     bind_res (io_send m io) (\<lambda>(r, io').
                     Inr (if r = -1 then Broken else More, io'))))))"

lemma getline_shorter: "getline inp = Some (line, rest) \<Longrightarrow> length rest < length inp"
proof -
  assume "getline inp = Some (line, rest)"
  then have "0 < length inp" "length rest = length (dropWhile (\<lambda>b. b \<noteq> newline) inp) - 1"
    by (auto simp: getline_def split: if_splits)
  with length_dropWhile_le [of "\<lambda>b. b \<noteq> newline" inp] show ?thesis by linarith
qed

function client_sender :: "int \<Rightarrow> byte list \<Rightarrow> client_io \<Rightarrow> client_io res" where
  "client_sender cid inp io =
     (case getline inp of
        None \<Rightarrow> Inr io
      | Some (line, rest) \<Rightarrow>
          bind_res (client_line cid line io) (\<lambda>(r, io').
            if r = More then client_sender cid rest io' else Inr io'))"
  by pat_completeness auto

termination
  by (relation "measure (\<lambda>(_, inp, _). length inp)") (auto dest: getline_shorter)

declare client_sender.simps [simp del]

section \<open>Start\<close>

record client_opts =
  co_id :: "int option"
  co_server :: "string option"
  co_port :: "string option"
  co_file :: "string option"

text \<open>
  The same four options, long and short, and the same checks. \<open>opens\<close> says which files
  \<open>fopen\<close> can open. A field is \<open>None\<close> as long as its variable has no value.
\<close>

definition id_arg :: "string option \<Rightarrow> client_opts \<Rightarrow> client_opts step res" where
  "id_arg arg opts =
     (case arg of None \<Rightarrow> Inr (Return (-1))
      | Some s \<Rightarrow> bind_res (atoi s) (\<lambda>i.
          if i < 1 \<or> i > 65535 then Inr (Return (-1)) else Inr (Continue (opts\<lparr>co_id := Some i\<rparr>))))"

definition server_arg :: "string option \<Rightarrow> client_opts \<Rightarrow> client_opts step res" where
  "server_arg arg opts =
     (case arg of None \<Rightarrow> Inr (Return (-1)) | Some s \<Rightarrow> Inr (Continue (opts\<lparr>co_server := Some s\<rparr>)))"

definition port_arg :: "string option \<Rightarrow> client_opts \<Rightarrow> client_opts step res" where
  "port_arg arg opts =
     (case arg of None \<Rightarrow> Inr (Return (-1))
      | Some s \<Rightarrow> bind_res (atoi s) (\<lambda>p.
          if p < 1 \<or> p > 65535 then Inr (Return (-1)) else Inr (Continue (opts\<lparr>co_port := Some s\<rparr>))))"

definition file_arg :: "(string \<Rightarrow> bool) \<Rightarrow> string option \<Rightarrow> client_opts \<Rightarrow> client_opts step res" where
  "file_arg opens arg opts =
     (case arg of None \<Rightarrow> Inl NullDeref
      | Some s \<Rightarrow> if opens s then Inr (Continue (opts\<lparr>co_file := Some s\<rparr>)) else Inr (Return (-1)))"

definition client_option :: "(string \<Rightarrow> bool) \<Rightarrow> opt_event \<Rightarrow> client_opts \<Rightarrow> client_opts step res" where
  "client_option opens ev opts =
     (case ev of
        Long n arg \<Rightarrow>
          if n = 0 then id_arg arg opts else if n = 1 then server_arg arg opts
          else if n = 2 then port_arg arg opts else if n = 3 then file_arg opens arg opts
          else Inr (Continue opts)
      | Short c arg \<Rightarrow>
          if c = CHR ''c'' then id_arg arg opts else if c = CHR ''i'' then server_arg arg opts
          else if c = CHR ''p'' then port_arg arg opts else if c = CHR ''f'' then file_arg opens arg opts
          else Inr (Continue opts)
      | UnknownOpt \<Rightarrow> Inr (Return (-1))
      | MissingArg \<Rightarrow> Inr (Return (-1)))"

fun client_options_loop ::
    "(string \<Rightarrow> bool) \<Rightarrow> opt_event list \<Rightarrow> client_opts \<Rightarrow> client_opts step res" where
  "client_options_loop opens [] opts = Inr (Continue opts)"
| "client_options_loop opens (ev # evs) opts =
     bind_res (client_option opens ev opts) (\<lambda>r.
       case r of Return x \<Rightarrow> Inr (Return x) | Continue opts' \<Rightarrow> client_options_loop opens evs opts')"

definition client_options :: "nat \<Rightarrow> (string \<Rightarrow> bool) \<Rightarrow> opt_event list \<Rightarrow> client_opts step res" where
  "client_options argc opens evs =
     (if argc = 1 then Inr (Return 0)
      else client_options_loop opens evs \<lparr>co_id = None, co_server = None, co_port = None, co_file = None\<rparr>)"

text \<open>
  The loop over the addresses of the server: what \<open>socket\<close> (a descriptor or -1) and then
  \<open>connect\<close> return for each. The result is the connected socket and those that were closed.
\<close>

fun connect_loop :: "(int \<times> int) list \<Rightarrow> int option \<times> int list" where
  "connect_loop [] = (None, [])"
| "connect_loop ((fd, ret) # ps) =
     (if fd = -1 then connect_loop ps
      else if ret = -1 then (let (r, closed) = connect_loop ps in (r, fd # closed))
      else (Some fd, []))"

text \<open>
  \<open>main\<close> from the addresses on, until the two threads are started: it returns -1 without a
  connection and 0 when the handshake is refused.
\<close>

definition client_connect ::
    "(nat \<Rightarrow> byte) \<Rightarrow> int \<Rightarrow> (int \<times> int) list \<Rightarrow> client_io \<Rightarrow> (int \<times> client_io) step run" where
  "client_connect junk cid addrs io =
     (case fst (connect_loop addrs) of
        None \<Rightarrow> Some (Inr (Return (-1)))
      | Some fd \<Rightarrow>
          bind_run (client_handshake junk cid io) (\<lambda>(ret, io').
            if ret \<noteq> 0 then Some (Inr (Return 0)) else Some (Inr (Continue (fd, io')))))"

section \<open>What a line becomes\<close>

lemma io_send_ok:
  assumes "sendable m" "SendErr \<notin> set (io_out io)"
  shows "\<exists>out'. io_send m io = Inr (0, io\<lparr>io_out := out', io_sent := io_sent io @ wire_bytes m\<rparr>)
     \<and> SendErr \<notin> set out'"
proof -
  obtain out' where run: "send_message (Some m) (io_out io) = Inr (0, wire_bytes m, out')"
    using send_message_no_error [OF assms] by blast
  with send_message_script [OF assms(1) run] assms(2) show ?thesis
    by (intro exI [of _ out']) (auto simp: io_send_def used_def)
qed

text \<open>The message of a line of input: its last byte, newline or not, makes room for the terminator.\<close>

definition line_message :: "int \<Rightarrow> byte list \<Rightarrow> message" where
  "line_message cid line =
     \<lparr>msg_id = word_of_int cid, msg_kind = MESG_DATA, msg_length = of_nat (min (length line) 2040),
      msg_payload = Some (take (min (length line) 2040 - 1) line @ [0])\<rparr>"

lemma line_message_data:
  assumes "line \<noteq> []" shows "data_message (line_message cid line)"
proof -
  have "unat (of_nat (min (length line) 2040) :: u32) = min (length line) 2040"
    by (rule unat_of_nat_small) simp
  then show ?thesis using assms by (auto simp: data_message_def line_message_def Suc_le_eq)
qed

lemma take_update_after: "n \<le> i \<Longrightarrow> take n (xs[i := x]) = take n xs"
  by (simp add: take_update_swap list_update_beyond)

lemma if_both: "f x = z \<Longrightarrow> f y = z \<Longrightarrow> f (if c then x else y) = z"
  by simp

lemma nth_last_append: "xs \<noteq> [] \<Longrightarrow> (xs @ ys) ! (length xs - 1) = last xs"
  by (simp add: nth_append last_conv_nth)

lemma takeWhile_all: "(\<And>x. x \<in> set xs \<Longrightarrow> P x) \<Longrightarrow> \<not> P y \<Longrightarrow> takeWhile P (xs @ y # ys) = xs"
  by (simp add: takeWhile_append2)

lemma split_at:
  assumes "y \<notin> set xs"
  shows "takeWhile (\<lambda>b. b \<noteq> y) (xs @ y # ys) = xs" "dropWhile (\<lambda>b. b \<noteq> y) (xs @ y # ys) = y # ys"
proof -
  have "\<And>x. x \<in> set xs \<Longrightarrow> x \<noteq> y" using assms by blast
  then show "takeWhile (\<lambda>b. b \<noteq> y) (xs @ y # ys) = xs" "dropWhile (\<lambda>b. b \<noteq> y) (xs @ y # ys) = y # ys"
    by (simp_all add: takeWhile_append2 dropWhile_append2)
qed

lemma client_line_ok:
  assumes l: "0 \<notin> set l" "l @ nl \<noteq> []" "nl = [] \<or> nl = [newline]" "newline \<notin> set l"
    and q: "l \<noteq> bytes_of ''<<quit>>''" and out: "SendErr \<notin> set (io_out io)"
  shows "\<exists>out'. client_line cid (l @ nl) io = Inr (More, io\<lparr>io_out := out',
       io_sent := io_sent io @ wire_bytes (line_message cid (l @ nl))\<rparr>) \<and> SendErr \<notin> set out'"
proof -
  let ?line = "l @ nl"
  let ?buf = "?line @ [0]"
  let ?n = "length ?line"
  have z: "0 \<notin> set ?line" using l(1,3) by (auto simp: newline_def)
  have slen: "takeWhile (\<lambda>b. b \<noteq> 0) ?buf = ?line" using z by (intro takeWhile_all) auto
  define buf1 where "buf1 = (if ?buf ! (?n - 1) = newline then ?buf[?n - 1 := 0] else ?buf)"
  have last: "?buf ! (?n - 1) = last ?line" by (rule nth_last_append [OF l(2)])
  have tw: "takeWhile (\<lambda>b. b \<noteq> 0) (l @ 0 # ys) = l" for ys
    using l(1) by (intro takeWhile_all) auto
  have b1: "takeWhile (\<lambda>b. b \<noteq> 0) buf1 = l" "take (?n - 1) buf1 = take (?n - 1) ?line" "length buf1 = Suc ?n"
  proof -
    show "length buf1 = Suc ?n" by (simp add: buf1_def)
    show "take (?n - 1) buf1 = take (?n - 1) ?line" by (simp add: buf1_def take_update_after)
    show "takeWhile (\<lambda>b. b \<noteq> 0) buf1 = l"
    proof (cases "nl = []")
      case True
      then have "last ?line \<noteq> newline" using l(2,4) by (metis append_Nil2 last_in_set)
      then have "buf1 = l @ 0 # []" using True last by (simp add: buf1_def)
      then show ?thesis by (simp only: tw)
    next
      case False
      then have "nl = [newline]" using l(3) by blast
      then have "buf1 = l @ 0 # [0]" by (simp add: buf1_def nth_append list_update_append)
      then show ?thesis by (simp only: tw)
    qed
  qed
  let ?len = "if ?n > unat MESG_MAX_LEN then unat MESG_MAX_LEN else ?n"
  define buf2 where "buf2 = (if ?n > unat MESG_MAX_LEN then buf1[?len - 1 := 0] else buf1)"
  have len: "?len = min ?n 2040" by (simp add: MESG_MAX_LEN_def)
  have un: "unat (of_nat ?len :: u32) = min ?n 2040" unfolding len by (intro unat_of_nat_small) simp
  have k: "min (min ?n 2040 - 1) (?n - 1) = min ?n 2040 - 1" by linarith
  have "take (min ?n 2040 - 1) (buf1[?len - 1 := 0]) = take (min ?n 2040 - 1) buf1"
    by (rule take_update_after) (simp only: len)
  then have "take (min ?n 2040 - 1) buf2 = take (min ?n 2040 - 1) buf1"
    unfolding buf2_def by (rule if_both) (rule refl)
  also have "\<dots> = take (min ?n 2040 - 1) (take (?n - 1) buf1)" by (simp only: take_take k)
  also have "\<dots> = take (min ?n 2040 - 1) ?line" by (simp only: b1(2) take_take k)
  finally have pay: "take (min ?n 2040 - 1) buf2 = take (min ?n 2040 - 1) ?line" .
  have "0 < unat (of_nat ?len :: u32)" "min (unat (of_nat ?len :: u32)) 2040 \<le> length buf2"
  proof -
    have "length buf2 = Suc ?n" unfolding buf2_def by (rule if_both) (simp_all add: b1(3))
    moreover have "0 < ?n" using l(2) length_greater_0_conv by blast
    ultimately show "0 < unat (of_nat ?len :: u32)" "min (unat (of_nat ?len :: u32)) 2040 \<le> length buf2"
      unfolding un by linarith+
  qed
  note cm = create_message_correct [OF this, of "word_of_int cid" MESG_DATA]
  have mm: "min (min ?n 2040) 2040 = min ?n 2040" by linarith
  from cm
  have mk: "create_message (of_nat ?len) (word_of_int cid) MESG_DATA buf2 = Inr (line_message cid ?line)"
    unfolding un mm pay line_message_def by (elim exE conjE) (simp only:)
  have "sendable (line_message cid ?line)" by (rule data_message_sendable [OF line_message_data [OF l(2)]])
  from io_send_ok [OF this out] obtain out' where out':
    "io_send (line_message cid ?line) io = Inr (0, io\<lparr>io_out := out', io_sent := io_sent io @ wire_bytes (line_message cid ?line)\<rparr>)"
    "SendErr \<notin> set out'" by blast
  have "client_line cid ?line io = Inr (More, io\<lparr>io_out := out', io_sent := io_sent io @ wire_bytes (line_message cid ?line)\<rparr>)"
    unfolding client_line_def slen Let_def buf1_def [symmetric] b1(1) buf2_def [symmetric] mk bind_res_Inr out'(1)
    using l(2) q by simp
  with out'(2) show ?thesis by blast
qed

text \<open>A line a user can type: no newline or zero byte in it, and not the quit command.\<close>

definition typed :: "byte list \<Rightarrow> bool" where
  "typed l \<longleftrightarrow> newline \<notin> set l \<and> 0 \<notin> set l \<and> l \<noteq> bytes_of ''<<quit>>''"

lemma getline_line: "newline \<notin> set l \<Longrightarrow> getline (l @ newline # rest) = Some (l @ [newline], rest)"
  by (simp add: getline_def split_at)

lemma quit_bytes: "newline \<notin> set (bytes_of ''<<quit>>'')" "0 \<notin> set (bytes_of ''<<quit>>'')"
  by (simp_all add: bytes_of_def newline_def)

lemma header_wire: "msg_length m = 0 \<Longrightarrow> msg_payload m = None \<Longrightarrow> wire_bytes m = header_bytes m"
  by (simp add: wire_bytes_def body_bytes_def)

lemma create_header_fields [simp]:
  "msg_kind (create_message_header n i k) = k" "msg_id (create_message_header n i k) = i"
  "msg_length (create_message_header n i k) = n" "msg_payload (create_message_header n i k) = None"
  by (simp_all add: create_message_header_def)

lemma client_line_quit:
  assumes "SendErr \<notin> set (io_out io)"
  shows "\<exists>out'. client_line cid (bytes_of ''<<quit>>'' @ [newline]) io = Inr (Quit, io\<lparr>io_out := out',
       io_sent := io_sent io @ header_bytes (create_message_header 0 (word_of_int cid) MESG_DCON)\<rparr>)"
proof -
  let ?q = "bytes_of ''<<quit>>''" and ?m = "create_message_header 0 (word_of_int cid) MESG_DCON"
  have tw: "takeWhile (\<lambda>b. b \<noteq> 0) (?q @ 0 # ys) = ?q" for ys
    using quit_bytes(2) by (intro takeWhile_all) auto
  have tn: "takeWhile (\<lambda>b. b \<noteq> 0) ((?q @ [newline]) @ 0 # []) = ?q @ [newline]"
    using quit_bytes(2) by (intro takeWhile_all) (auto simp: newline_def)
  have upd: "((?q @ [newline]) @ [0])[length (?q @ [newline]) - 1 := 0] = ?q @ 0 # [0]"
    by (simp add: list_update_append)
  have nth: "((?q @ [newline]) @ [0]) ! (length (?q @ [newline]) - 1) = newline"
    using nth_last_append [of "?q @ [newline]" "[0]"] by simp
  have "sendable ?m" by (rule header_sendable) simp_all
  from io_send_ok [OF this assms] obtain out' where
    "io_send ?m io = Inr (0, io\<lparr>io_out := out', io_sent := io_sent io @ wire_bytes ?m\<rparr>)" by blast
  then show ?thesis
    unfolding client_line_def Let_def tn nth upd by (intro exI [of _ out']) (simp add: tw header_wire)
qed

lemma client_sender_ok:
  assumes "\<forall>l \<in> set ls. typed l" "SendErr \<notin> set (io_out io)"
  shows "\<exists>out'. client_sender cid (concat (map (\<lambda>l. l @ [newline]) ls) @ bytes_of ''<<quit>>'' @ newline # rest) io
     = Inr (io\<lparr>io_out := out', io_sent := io_sent io
         @ all_bytes (map (\<lambda>l. line_message cid (l @ [newline])) ls)
         @ header_bytes (create_message_header 0 (word_of_int cid) MESG_DCON)\<rparr>)"
  using assms
proof (induction ls arbitrary: io)
  case Nil
  from client_line_quit [OF Nil(2), of cid] obtain out' where
    "client_line cid (bytes_of ''<<quit>>'' @ [newline]) io = Inr (Quit, io\<lparr>io_out := out',
       io_sent := io_sent io @ header_bytes (create_message_header 0 (word_of_int cid) MESG_DCON)\<rparr>)" by blast
  then show ?case
    by (intro exI [of _ out'], subst client_sender.simps) (simp add: getline_line [OF quit_bytes(1)])
next
  case (Cons l ls)
  then have l: "newline \<notin> set l" "0 \<notin> set l" "l \<noteq> bytes_of ''<<quit>>''" by (simp_all add: typed_def)
  from client_line_ok [OF l(2) _ _ l(1,3) Cons.prems(2), of "[newline]" cid] obtain out1 where 1:
    "client_line cid (l @ [newline]) io = Inr (More, io\<lparr>io_out := out1,
       io_sent := io_sent io @ wire_bytes (line_message cid (l @ [newline]))\<rparr>)" "SendErr \<notin> set out1"
    by auto
  let ?io = "io\<lparr>io_out := out1, io_sent := io_sent io @ wire_bytes (line_message cid (l @ [newline]))\<rparr>"
  have "SendErr \<notin> set (io_out ?io)" "\<forall>l \<in> set ls. typed l" using 1(2) Cons.prems(1) by simp_all
  from Cons.IH [OF this(2,1)] obtain out' where
    "client_sender cid (concat (map (\<lambda>l. l @ [newline]) ls) @ bytes_of ''<<quit>>'' @ newline # rest) ?io
     = Inr (?io\<lparr>io_out := out', io_sent := io_sent ?io
         @ all_bytes (map (\<lambda>l. line_message cid (l @ [newline])) ls)
         @ header_bytes (create_message_header 0 (word_of_int cid) MESG_DCON)\<rparr>)" by blast
  then show ?case using 1(1)
    by (intro exI [of _ out'], subst client_sender.simps) (simp add: getline_line [OF l(1)])
qed

section \<open>What a message looks like on the screen\<close>

definition from_user :: "u16 \<Rightarrow> byte list \<Rightarrow> byte list" where
  "from_user i l = (if i = 0 then bytes_of ''<server>: ''
     else bytes_of ''<'' @ bytes_of (decimal (unat i)) @ bytes_of ''>: '') @ l @ [newline]"

lemma kinds_differ [simp]:
  "MESG_DATA \<noteq> MESG_CONN" "MESG_DATA \<noteq> MESG_DCON" "MESG_CONN \<noteq> MESG_DATA"
  "MESG_CONN \<noteq> MESG_DCON" "MESG_DCON \<noteq> MESG_DATA" "MESG_DCON \<noteq> MESG_CONN"
  by (simp_all add: mesg_kinds)

lemma c_str_terminated: "0 \<notin> set l \<Longrightarrow> c_str (Some (l @ [0])) = Inr l"
  by (simp add: c_str_def split_at)

lemma print_line_message:
  assumes "0 \<notin> set l"
  shows "print_message (line_message cid (l @ [newline])) = Inr (from_user (word_of_int cid) (take 2039 l))"
proof -
  have p: "take (min (length (l @ [newline])) 2040 - 1) (l @ [newline]) = take 2039 l"
    by (auto simp: min_def)
  have "0 \<notin> set (take 2039 l)" using assms by (meson in_set_takeD)
  then show ?thesis
    unfolding print_message_def line_message_def p by (simp add: c_str_terminated from_user_def)
qed

text \<open>What a server sends between the handshake and its disconnect: data, and headers of other kinds.\<close>

definition notice :: "message \<Rightarrow> bool" where
  "notice m \<longleftrightarrow> msg_kind m \<noteq> MESG_DATA \<and> msg_payload m = None \<and> \<not> (msg_kind m = MESG_DCON \<and> msg_id m = 0)"

definition incoming_ok :: "message \<Rightarrow> bool" where
  "incoming_ok m \<longleftrightarrow> notice m \<or> (msg_kind m = MESG_DATA \<and> data_message m)"

definition incoming_bytes :: "message \<Rightarrow> byte list" where
  "incoming_bytes m = (if msg_kind m = MESG_DATA then wire_bytes m else header_bytes m)"

definition shown :: "message \<Rightarrow> byte list" where
  "shown m = (case print_message m of Inr t \<Rightarrow> t | Inl _ \<Rightarrow> [])"

lemma print_incoming: "incoming_ok m \<Longrightarrow> print_message m = Inr (shown m)"
proof -
  assume m: "incoming_ok m"
  have "\<exists>t. print_message m = Inr t"
  proof (cases "notice m")
    case True
    then show ?thesis by (auto simp: print_message_def notice_def)
  next
    case False
    with m obtain p where "msg_kind m = MESG_DATA" "msg_payload m = Some p" "p \<noteq> []" "last p = 0"
      by (auto simp: incoming_ok_def data_message_def)
    then show ?thesis using last_in_set [of p] by (auto simp: print_message_def c_str_def)
  qed
  then show ?thesis by (auto simp: shown_def)
qed

definition bye :: "byte list" where "bye = bytes_of ''<server>: disconnected'' @ [newline]"

lemma client_receiver_ok:
  assumes "\<forall>m \<in> set ms. incoming_ok m"
    and "pending (io_in io) = concat (map incoming_bytes ms)
       @ header_bytes (create_message_header 0 0 MESG_DCON) @ rest"
  shows "\<exists>sc. client_receiver junk io = Some (Inr (io\<lparr>io_in := sc,
       io_printed := io_printed io @ concat (map shown ms) @ bye\<rparr>)) \<and> pending sc = rest"
  using assms
proof (induction ms arbitrary: io)
  case Nil
  let ?d = "create_message_header 0 0 MESG_DCON"
  obtain sc where h: "recv_header (io_in io) = Some (Inr (Some (?d\<lparr>msg_payload := None\<rparr>), sc))" "pending sc = rest"
    using recv_header_wire [of "io_in io" ?d rest] Nil(2) by auto
  have d: "?d\<lparr>msg_payload := None\<rparr> = ?d" by (simp add: create_message_header_def)
  have "print_message ?d = Inr bye" by (simp add: print_message_def bye_def)
  then have "client_receiver junk io = Some (Inr (io_print bye (io\<lparr>io_in := sc\<rparr>)))"
    using h(1) unfolding d by (subst client_receiver.simps) simp
  then show ?case using h(2) by (intro exI [of _ sc]) (simp add: io_print_def)
next
  case (Cons m ms)
  let ?rest = "concat (map incoming_bytes ms) @ header_bytes (create_message_header 0 0 MESG_DCON) @ rest"
  have m: "incoming_ok m" using Cons.prems(1) by simp
  have goon: "\<not> (msg_kind m = MESG_DCON \<and> msg_id m = 0)" using m by (auto simp: incoming_ok_def notice_def)
  obtain sc where sc: "client_receiver junk io = client_receiver junk (io_print (shown m) (io\<lparr>io_in := sc\<rparr>))"
    "pending sc = ?rest"
  proof (cases "msg_kind m = MESG_DATA")
    case True
    then have "data_message m" using m by (auto simp: incoming_ok_def notice_def)
    then obtain h sc1 sc2 where h: "recv_header (io_in io) = Some (Inr (Some h, sc1))" "msg_kind h = msg_kind m"
      "recv_payload junk h sc1 = Some (Inr ((0, m), sc2))" "pending sc2 = ?rest"
      using recv_data_message [of m "io_in io" ?rest junk] Cons.prems(2) True by (auto simp: incoming_bytes_def [of m])
    have "client_receiver junk io = client_receiver junk (io_print (shown m) (io\<lparr>io_in := sc2\<rparr>))"
      using h(1-3) True goon print_incoming [OF m] by (subst client_receiver.simps) auto
    with h(4) that show thesis by blast
  next
    case False
    then have "m\<lparr>msg_payload := None\<rparr> = m" using m by (auto simp: incoming_ok_def notice_def)
    then obtain sc1 where h: "recv_header (io_in io) = Some (Inr (Some m, sc1))" "pending sc1 = ?rest"
      using recv_header_wire [of "io_in io" m ?rest] Cons.prems(2) False by (auto simp: incoming_bytes_def [of m])
    have "client_receiver junk io = client_receiver junk (io_print (shown m) (io\<lparr>io_in := sc1\<rparr>))"
      using h(1) False goon print_incoming [OF m] by (subst client_receiver.simps) auto
    with h(2) that show thesis by blast
  qed
  have "pending (io_in (io_print (shown m) (io\<lparr>io_in := sc\<rparr>))) = ?rest" using sc(2) by (simp add: io_print_def)
  with Cons.IH [of "io_print (shown m) (io\<lparr>io_in := sc\<rparr>)"] Cons.prems(1) sc(1)
  show ?case by (auto simp: io_print_def)
qed

text \<open>The messages of typed lines, as they go out, arrive and are shown.\<close>

lemma line_message_kind [simp]: "msg_kind (line_message cid l) = MESG_DATA"
  by (simp add: line_message_def)

definition lines :: "int \<Rightarrow> byte list list \<Rightarrow> message list" where
  "lines cid ls = map (\<lambda>l. line_message cid (l @ [newline])) ls"

lemma lines_incoming:
  "\<forall>m \<in> set (lines cid ls). incoming_ok m" "concat (map incoming_bytes (lines cid ls)) = all_bytes (lines cid ls)"
  by (auto simp: lines_def incoming_ok_def line_message_data all_bytes_def incoming_bytes_def comp_def)

lemma lines_data: "\<forall>m \<in> set (lines cid ls). data_message m \<and> msg_kind m = MESG_DATA \<and> msg_id m = word_of_int cid"
  by (auto simp: lines_def line_message_data) (simp add: line_message_def)

lemma lines_shown:
  assumes "\<forall>l \<in> set ls. typed l"
  shows "concat (map shown (lines cid ls)) = concat (map (\<lambda>l. from_user (word_of_int cid) (take 2039 l)) ls)"
proof -
  have "shown (line_message cid (l @ [newline])) = from_user (word_of_int cid) (take 2039 l)" if "l \<in> set ls" for l
    using print_line_message [of l cid] assms that by (auto simp: shown_def typed_def)
  then show ?thesis by (simp cong: map_cong add: lines_def comp_def)
qed

text \<open>What one client sends and another one shows, if the stream is passed on unchanged.\<close>

lemma chat_end_to_end:
  assumes "\<forall>l \<in> set ls. typed l" "SendErr \<notin> set (io_out io)"
  shows "\<exists>io' sent. client_sender cid (concat (map (\<lambda>l. l @ [newline]) ls) @ bytes_of ''<<quit>>'' @ newline # inp) io
       = Inr io'
     \<and> io_sent io' = io_sent io @ sent @ header_bytes (create_message_header 0 (word_of_int cid) MESG_DCON)
     \<and> (\<forall>jo rest junk. pending (io_in jo) = sent @ header_bytes (create_message_header 0 0 MESG_DCON) @ rest \<longrightarrow>
         (\<exists>sc. client_receiver junk jo = Some (Inr (jo\<lparr>io_in := sc, io_printed := io_printed jo
            @ concat (map (\<lambda>l. from_user (word_of_int cid) (take 2039 l)) ls) @ bye\<rparr>)) \<and> pending sc = rest))"
proof -
  obtain out' where s: "client_sender cid (concat (map (\<lambda>l. l @ [newline]) ls) @ bytes_of ''<<quit>>'' @ newline # inp) io
     = Inr (io\<lparr>io_out := out', io_sent := io_sent io @ all_bytes (lines cid ls)
         @ header_bytes (create_message_header 0 (word_of_int cid) MESG_DCON)\<rparr>)"
    using client_sender_ok [OF assms] unfolding lines_def by blast
  show ?thesis
    using s client_receiver_ok [OF lines_incoming(1) [of cid ls], unfolded lines_incoming(2) lines_shown [OF assms(1)]]
    by (intro exI [of _ "io\<lparr>io_out := out', io_sent := io_sent io @ all_bytes (lines cid ls)
         @ header_bytes (create_message_header 0 (word_of_int cid) MESG_DCON)\<rparr>"] exI [of _ "all_bytes (lines cid ls)"]) simp
qed

section \<open>The answer to the handshake\<close>

lemma recv_refusal:
  assumes "length t < 2040" and "pending sc = wire_bytes (refusal t) @ rest"
  shows "\<exists>h sc1 sc2. recv_header sc = Some (Inr (Some h, sc1)) \<and> msg_kind h = MESG_DCON \<and>
     recv_payload junk h sc1 = Some (Inr ((0, refusal t), sc2)) \<and> pending sc2 = rest"
proof -
  have "unat (of_nat (length (c_string t)) :: u32) = length (c_string t)"
    using assms(1) by (intro unat_of_nat_small) (simp add: c_string_def)
  then have "data_message (refusal t)"
    using assms(1) by (simp add: data_message_def refusal_def c_string_def)
  from recv_data_message [OF this assms(2), of junk] show ?thesis
    by (auto simp: refusal_def)
qed

lemma print_refusal:
  assumes "length t < 2040" "0 \<notin> set (bytes_of t)"
  shows "print_message (refusal t) = Inr (bytes_of ''<server>: disconnected'' @ bytes_of '' - '' @ bytes_of t @ [newline])"
proof -
  have c: "c_string t = bytes_of t @ [0]" by (simp add: c_string_def bytes_of_def)
  have "unat (of_nat (length (c_string t)) :: u32) = length (c_string t)"
    using assms(1) by (intro unat_of_nat_small) (simp add: c_string_def)
  then have "0 < unat (of_nat (length (c_string t)) :: u32)" by (simp add: c_string_def)
  then have "0 < (of_nat (length (c_string t)) :: u32)" by (simp add: word_less_nat_alt)
  then show ?thesis
    by (simp add: print_message_def refusal_def c c_str_terminated [OF assms(2)])
qed

lemma client_handshake_welcome:
  assumes out: "SendErr \<notin> set (io_out io)"
    and w: "pending (io_in io) = wire_bytes (create_message_header 0 0 MESG_CONN) @ rest"
  shows "\<exists>io'. client_handshake junk cid io = Some (Inr (0, io')) \<and> pending (io_in io') = rest
     \<and> io_printed io' = io_printed io @ bytes_of ''<server>: connection accepted'' @ [newline]"
proof -
  let ?m = "create_message_header 0 (word_of_int cid) MESG_CONN" and ?r = "create_message_header 0 0 MESG_CONN"
  have "sendable ?m" by (rule header_sendable) simp_all
  from io_send_ok [OF this out] obtain o' where s: "io_send ?m io
      = Inr (0, io\<lparr>io_out := o', io_sent := io_sent io @ wire_bytes ?m\<rparr>)" by blast
  have e: "?r\<lparr>msg_payload := None\<rparr> = ?r" by (simp add: create_message_header_def)
  obtain sc where h: "recv_header (io_in io) = Some (Inr (Some ?r, sc))" "pending sc = rest"
    using recv_header_wire [of "io_in io" ?r rest] w unfolding e by (auto simp: header_wire)
  have "client_handshake junk cid io = Some (Inr (0, io_print (bytes_of ''<server>: connection accepted'' @ [newline])
      (io\<lparr>io_out := o', io_sent := io_sent io @ wire_bytes ?m, io_in := sc\<rparr>)))"
    using s h(1) by (simp add: client_handshake_def print_message_def)
  then show ?thesis using h(2) by (simp add: io_print_def)
qed

lemma client_handshake_refused:
  assumes out: "SendErr \<notin> set (io_out io)" and t: "length t < 2040" "0 \<notin> set (bytes_of t)"
    and w: "pending (io_in io) = wire_bytes (refusal t) @ rest"
  shows "\<exists>io'. client_handshake junk cid io = Some (Inr (-1, io')) \<and> pending (io_in io') = rest
     \<and> io_printed io' = io_printed io @ bytes_of ''<server>: disconnected'' @ bytes_of '' - '' @ bytes_of t @ [newline]"
proof -
  let ?m = "create_message_header 0 (word_of_int cid) MESG_CONN"
  have "sendable ?m" by (rule header_sendable) simp_all
  from io_send_ok [OF this out] obtain o' where s: "io_send ?m io
      = Inr (0, io\<lparr>io_out := o', io_sent := io_sent io @ wire_bytes ?m\<rparr>)" by blast
  obtain h sc1 sc2 where h: "recv_header (io_in io) = Some (Inr (Some h, sc1))" "msg_kind h = MESG_DCON"
    "recv_payload junk h sc1 = Some (Inr ((0, refusal t), sc2))" "pending sc2 = rest"
    using recv_refusal [OF t(1) w] by blast
  have "msg_kind (refusal t) = MESG_DCON" by (simp add: refusal_def)
  then have "client_handshake junk cid io = Some (Inr (-1,
      io_print (bytes_of ''<server>: disconnected'' @ bytes_of '' - '' @ bytes_of t @ [newline])
      (io\<lparr>io_out := o', io_sent := io_sent io @ wire_bytes ?m, io_in := sc2\<rparr>)))"
    using s h(1-3) by (simp add: client_handshake_def print_refusal [OF t])
  then show ?thesis using h(4) by (simp add: io_print_def)
qed

section \<open>Options and connecting\<close>

definition client_opts_ok :: "client_opts \<Rightarrow> bool" where
  "client_opts_ok opts \<longleftrightarrow> (\<forall>i. co_id opts = Some i \<longrightarrow> 1 \<le> i \<and> i \<le> 65535) \<and>
     (\<forall>s. co_port opts = Some s \<longrightarrow> (\<exists>p. atoi s = Inr p \<and> 1 \<le> p \<and> p \<le> 65535))"

lemma id_arg_ok: "id_arg arg opts = Inr (Continue opts') \<Longrightarrow> client_opts_ok opts \<Longrightarrow> client_opts_ok opts'"
  by (cases arg) (auto simp: id_arg_def client_opts_ok_def elim!: bind_res_InrE split: if_split_asm)

lemma port_arg_ok: "port_arg arg opts = Inr (Continue opts') \<Longrightarrow> client_opts_ok opts \<Longrightarrow> client_opts_ok opts'"
  by (cases arg) (auto simp: port_arg_def client_opts_ok_def elim!: bind_res_InrE split: if_split_asm)

lemma server_arg_ok: "server_arg arg opts = Inr (Continue opts') \<Longrightarrow> client_opts_ok opts \<Longrightarrow> client_opts_ok opts'"
  by (cases arg) (auto simp: server_arg_def client_opts_ok_def)

lemma file_arg_ok: "file_arg opens arg opts = Inr (Continue opts') \<Longrightarrow> client_opts_ok opts \<Longrightarrow> client_opts_ok opts'"
  by (cases arg) (auto simp: file_arg_def client_opts_ok_def split: if_split_asm)

lemmas arg_ok = id_arg_ok port_arg_ok server_arg_ok file_arg_ok

lemma client_option_ok:
  "client_option opens ev opts = Inr (Continue opts') \<Longrightarrow> client_opts_ok opts \<Longrightarrow> client_opts_ok opts'"
  by (cases ev) (auto simp: client_option_def split: if_split_asm intro: arg_ok)

lemma client_options_loop_ok:
  "client_options_loop opens evs opts = Inr (Continue opts') \<Longrightarrow> client_opts_ok opts \<Longrightarrow> client_opts_ok opts'"
proof (induction evs arbitrary: opts)
  case Nil
  then show ?case by simp
next
  case (Cons ev evs)
  from Cons.prems(1) obtain x where "client_option opens ev opts = Inr (Continue x)"
    "client_options_loop opens evs x = Inr (Continue opts')"
    by (auto elim!: bind_res_InrE split: step.split_asm)
  then show ?case using Cons.IH client_option_ok Cons.prems(2) by blast
qed

text \<open>Every socket that was opened and not connected is closed again.\<close>

lemma connect_loop_closes:
  "connect_loop (map (\<lambda>fd. (fd, -1)) fds @ (fd, r) # ps) = (Some fd, filter (\<lambda>fd. fd \<noteq> -1) fds)"
  if "r \<noteq> -1" "fd \<noteq> -1"
  using that by (induction fds) auto

section \<open>Properties\<close>

definition fresh_io :: "in_script \<Rightarrow> client_io" where
  "fresh_io sc = \<lparr>io_in = sc, io_out = [], io_sent = [], io_printed = []\<rparr>"

text \<open>C37: one line of input (no zero byte in it, not the quit command), with its newline or (at the end of a file) without.
  As long as the socket reports no error, it goes out as
  one message that carries the line cut to 2039 bytes and without its last byte, which is
  the newline, or else the last character the user wrote.\<close>

theorem client_line_sent:
  assumes "0 \<notin> set l" "newline \<notin> set l" "l \<noteq> bytes_of ''<<quit>>''" "nl = [newline] \<or> (nl = [] \<and> l \<noteq> [])"
    and "SendErr \<notin> set (io_out io)"
  shows "\<exists>io' m. client_line cid (l @ nl) io = Inr (More, io') \<and> io_sent io' = io_sent io @ wire_bytes m
     \<and> msg_id m = word_of_int cid \<and> msg_kind m = MESG_DATA
     \<and> msg_payload m = Some (take 2039 (if nl = [] then butlast l else l) @ [0])"
proof -
  have nl: "nl = [] \<or> nl = [newline]" "l @ nl \<noteq> []" using assms(4) by auto
  obtain out' where c: "client_line cid (l @ nl) io = Inr (More, io\<lparr>io_out := out',
       io_sent := io_sent io @ wire_bytes (line_message cid (l @ nl))\<rparr>)"
    using client_line_ok [OF assms(1) nl(2,1) assms(2,3,5)] by blast
  have "take (min (length (l @ nl)) 2040 - 1) (l @ nl) = take 2039 (if nl = [] then butlast l else l)"
  proof (cases "nl = []")
    case True
    have "min (length l) 2040 - 1 = min 2039 (length l - 1)" by linarith
    with True show ?thesis by (simp add: butlast_conv_take)
  qed (use nl(1) in \<open>auto simp: min_def\<close>)
  then have p: "msg_payload (line_message cid (l @ nl)) = Some (take 2039 (if nl = [] then butlast l else l) @ [0])"
    by (simp only: line_message_def message.select_convs)
  have k: "msg_id (line_message cid (l @ nl)) = word_of_int cid" "msg_kind (line_message cid (l @ nl)) = MESG_DATA"
    by (simp_all add: line_message_def)
  have "io_sent (io\<lparr>io_out := out', io_sent := io_sent io @ wire_bytes (line_message cid (l @ nl))\<rparr>)
      = io_sent io @ wire_bytes (line_message cid (l @ nl))" by simp
  with c k p show ?thesis by blast
qed

theorem client_line_sent_witness:
  "\<exists>io' m. client_line 7 (bytes_of ''bye'') (fresh_io []) = Inr (More, io') \<and> io_sent io' = wire_bytes m
     \<and> msg_payload m = Some (bytes_of ''by'' @ [0])"
proof -
  have l: "0 \<notin> set (bytes_of ''bye'')" "newline \<notin> set (bytes_of ''bye'')"
    "bytes_of ''bye'' \<noteq> bytes_of ''<<quit>>''" "bytes_of ''bye'' \<noteq> []"
    "butlast (bytes_of ''bye'') = bytes_of ''by''"
    by (simp_all add: bytes_of_def newline_def)
  have "SendErr \<notin> set (io_out (fresh_io []))" by (simp add: fresh_io_def)
  from client_line_sent [OF l(1-3) _ this, of "[]" 7] l(4,5)
  obtain io' m where "client_line 7 (bytes_of ''bye'') (fresh_io []) = Inr (More, io')"
    "io_sent io' = io_sent (fresh_io []) @ wire_bytes m"
    "msg_payload m = Some (take 2039 (bytes_of ''by'') @ [0])" by auto
  moreover have "take 2039 (bytes_of ''by'') = bytes_of ''by''" by (simp add: bytes_of_def)
  ultimately show ?thesis by (auto simp: fresh_io_def)
qed

text \<open>The client understands both answers of the server to its connect: it goes on after the
  welcome and gives up after a refusal, whose text it shows; in both cases the answer is read
  to its end.\<close>

theorem handshake_answered:
  assumes "SendErr \<notin> set (io_out io)" "pending (io_in io) = wire_bytes reply @ rest"
    and "reply = create_message_header 0 0 MESG_CONN \<or> (reply = refusal t \<and> length t < 2040 \<and> 0 \<notin> set (bytes_of t))"
  shows "\<exists>ret io'. client_handshake junk cid io = Some (Inr (ret, io')) \<and> pending (io_in io') = rest
     \<and> (if msg_kind reply = MESG_CONN
         then ret = 0 \<and> io_printed io' = io_printed io @ bytes_of ''<server>: connection accepted'' @ [newline]
         else ret = -1 \<and> io_printed io' = io_printed io @ bytes_of ''<server>: disconnected'' @ bytes_of '' - ''
            @ bytes_of t @ [newline])"
  using assms(3)
proof
  assume r: "reply = create_message_header 0 0 MESG_CONN"
  from client_handshake_welcome [OF assms(1) assms(2) [unfolded r], of junk cid] show ?thesis
    unfolding r by auto
next
  assume r: "reply = refusal t \<and> length t < 2040 \<and> 0 \<notin> set (bytes_of t)"
  then have "msg_kind reply \<noteq> MESG_CONN" by (simp add: refusal_def)
  with client_handshake_refused [OF assms(1), of t rest junk cid] r assms(2) show ?thesis by auto
qed

theorem handshake_answered_witness:
  "\<exists>io'. client_handshake (\<lambda>_. 0) 3 (fresh_io [Chunk (wire_bytes (refusal ''Error: unknown client id''))])
     = Some (Inr (-1, io'))
   \<and> io_printed io' = bytes_of ''<server>: disconnected - Error: unknown client id'' @ [newline]"
proof -
  let ?t = "''Error: unknown client id''"
  have "SendErr \<notin> set (io_out (fresh_io [Chunk (wire_bytes (refusal ?t))]))"
    "pending (io_in (fresh_io [Chunk (wire_bytes (refusal ?t))])) = wire_bytes (refusal ?t) @ []"
    by (simp_all add: fresh_io_def)
  moreover have "refusal ?t = create_message_header 0 0 MESG_CONN \<or>
      (refusal ?t = refusal ?t \<and> length ?t < 2040 \<and> 0 \<notin> set (bytes_of ?t))"
    by (simp add: bytes_of_def)
  moreover have "msg_kind (refusal ?t) \<noteq> MESG_CONN" by (simp add: refusal_def)
  ultimately obtain io' where "client_handshake (\<lambda>_. 0) 3 (fresh_io [Chunk (wire_bytes (refusal ?t))]) = Some (Inr (-1, io'))"
    "io_printed io' = io_printed (fresh_io [Chunk (wire_bytes (refusal ?t))])
       @ bytes_of ''<server>: disconnected'' @ bytes_of '' - '' @ bytes_of ?t @ [newline]"
    using handshake_answered [of "fresh_io [Chunk (wire_bytes (refusal ?t))]" "refusal ?t" "[]" ?t "\<lambda>_. 0" 3] by auto
  then show ?thesis by (auto simp: fresh_io_def bytes_of_def)
qed

text \<open>The client prints the reason of the server's disconnect without having read it.\<close>

lemma disconnect_reason_crashes:
  assumes "pending (io_in io) = header_bytes m @ rest"
    and "msg_kind m = MESG_DCON" "msg_id m = 0" "msg_length m \<noteq> 0"
  shows "client_receiver junk io = Some (Inl NullDeref)"
proof -
  obtain sc where "recv_header (io_in io) = Some (Inr (Some (m\<lparr>msg_payload := None\<rparr>), sc))"
    using recv_header_wire [OF assms(1)] by blast
  moreover have "0 < msg_length m" using assms(4) by (simp add: word_gt_0)
  then have "print_message (m\<lparr>msg_payload := None\<rparr>) = Inl NullDeref"
    using assms(2,3) by (simp add: print_message_def c_str_def)
  ultimately show ?thesis using assms(2) by (subst client_receiver.simps) simp
qed

text \<open>Eight zero bytes are the header of a data message of the server without a payload.\<close>

lemma zero_header: "header_bytes (create_message_header 0 0 MESG_DATA) = replicate 8 0"
  by code_simp

lemma client_receiver_zeros:
  assumes "pending (io_in io) = replicate 8 0 @ rest"
  shows "client_receiver junk io = Some (Inl OutOfBounds)"
proof -
  let ?z = "create_message_header 0 0 MESG_DATA"
  obtain sc where "recv_header (io_in io) = Some (Inr (Some (?z\<lparr>msg_payload := None\<rparr>), sc))"
    using recv_header_wire [of "io_in io" ?z rest] assms by (auto simp: zero_header)
  moreover have "recv_payload junk (?z\<lparr>msg_payload := None\<rparr>) sc = Some (Inl OutOfBounds)"
    by (rule recv_payload_empty_faults) (simp add: create_message_header_def)
  moreover have "msg_kind (?z\<lparr>msg_payload := None\<rparr>) = MESG_DATA" by (simp add: create_message_header_def)
  ultimately show ?thesis by (subst client_receiver.simps) simp
qed

text \<open>C35: a disconnect whose header has a length of 8 or more makes every client that receives it fault.
  The server forwards such a header with its length, and \<open>message_marshal\<close> pads it with zero
  bytes, but the client reads the payload of data messages only: from another client, the
  zero bytes are read as a data message of length 0, whose terminator is written outside its
  buffer; from the server, the reason that was not read is printed through a null pointer, which C leaves undefined
  for \<open>%s\<close> (the library of GNU prints a placeholder).\<close>

theorem disconnect_with_length:
  assumes "pending (io_in io) = wire_bytes m @ rest"
    and "msg_kind m = MESG_DCON" "msg_payload m = None" "8 \<le> unat (msg_length m)"
  shows "client_receiver junk io = Some (Inl (if msg_id m = 0 then NullDeref else OutOfBounds))"
proof (cases "msg_id m = 0")
  case True
  have "msg_length m \<noteq> 0" using assms(4) by auto
  moreover have "pending (io_in io) = header_bytes m @ body_bytes m @ rest"
    using assms(1) by (simp add: wire_bytes_def)
  ultimately show ?thesis using disconnect_reason_crashes [of io m] assms(2) True by simp
next
  case False
  have "body_bytes m = replicate 8 0 @ replicate (unat (msg_length m) - 8) 0"
    using assms(3,4) by (simp add: body_bytes_def flip: replicate_add)
  then obtain sc where h: "recv_header (io_in io) = Some (Inr (Some m, sc))"
    "pending sc = replicate 8 0 @ replicate (unat (msg_length m) - 8) 0 @ rest"
    using recv_header_wire [of "io_in io" m "body_bytes m @ rest"] assms(1,3) by (auto simp: wire_bytes_def)
  let ?out = "bytes_of ''<server>: <'' @ bytes_of (decimal (unat (msg_id m))) @ bytes_of ''> disconnected'' @ [newline]"
  have "print_message m = Inr ?out" using assms(2) False by (simp add: print_message_def mesg_kinds)
  then have "client_receiver junk io = client_receiver junk (io_print ?out (io\<lparr>io_in := sc\<rparr>))"
    using h(1) assms(2) False by (subst client_receiver.simps) (simp add: mesg_kinds)
  moreover have "client_receiver junk (io_print ?out (io\<lparr>io_in := sc\<rparr>)) = Some (Inl OutOfBounds)"
    by (rule client_receiver_zeros) (simp add: io_print_def h(2))
  ultimately show ?thesis using False by simp
qed

theorem disconnect_with_length_witness:
  "client_receiver (\<lambda>_. 0) (fresh_io [Chunk (wire_bytes (create_message_header 8 7 MESG_DCON))]) = Some (Inl OutOfBounds)"
proof -
  let ?m = "create_message_header 8 7 MESG_DCON"
  have "pending (io_in (fresh_io [Chunk (wire_bytes ?m)])) = wire_bytes ?m @ []" by (simp add: fresh_io_def)
  from disconnect_with_length [OF this] show ?thesis by (simp add: create_message_header_def)
qed

text \<open>An id and a port that the client's options set are numbers from 1 to 65535; that they
  are set at all is not checked.\<close>

lemma client_options_checked:
  assumes "client_options argc opens evs = Inr (Continue opts)"
  shows "(\<forall>i. co_id opts = Some i \<longrightarrow> 1 \<le> i \<and> i \<le> 65535) \<and>
     (\<forall>s. co_port opts = Some s \<longrightarrow> (\<exists>p. atoi s = Inr p \<and> 1 \<le> p \<and> p \<le> 65535)) \<and>
     client_options 2 opens [] = Inr (Continue \<lparr>co_id = None, co_server = None, co_port = None, co_file = None\<rparr>)"
proof -
  have "client_opts_ok \<lparr>co_id = None, co_server = None, co_port = None, co_file = None\<rparr>"
    by (simp add: client_opts_ok_def)
  with assms have "client_opts_ok opts"
    using client_options_loop_ok by (auto simp: client_options_def split: if_split_asm)
  then show ?thesis by (simp add: client_opts_ok_def client_options_def)
qed

end
