(* ===== verification/Chat_Delivery.thy ===== *)
theory Chat_Delivery
  imports Chat_Client
begin

text \<open>
  The components put together along the way of a message: the lines a user types go through the
  sending thread of the client, the network, the listener of the server, the send queue, the sender
  with its log, the network again, and the receiving thread of another client.
\<close>

section \<open>The sender's loop\<close>

text \<open>
  The loop of \<open>sender\<close> as long as there are messages in the queue: \<open>nps\<close> are the addresses for the
  nodes of the log. With an empty queue the thread sleeps in \<open>jobqueue_dequeue\<close>.
\<close>

fun sender_rounds :: "ptr list \<Rightarrow> server \<Rightarrow> net \<Rightarrow> (server \<times> net) run" where
  "sender_rounds [] s w = Some (Inr (s, w))"
| "sender_rounds (np # nps) s w =
     bind_run (sender_iteration np s w) (\<lambda>r.
       case r of None \<Rightarrow> Some (Inr (s, w)) | Some (s', w') \<Rightarrow> sender_rounds nps s' w')"

text \<open>No socket reports errors.\<close>

definition reliable :: "net \<Rightarrow> bool" where
  "reliable w \<longleftrightarrow> (\<forall>fd. SendErr \<notin> set (outs w fd))"

text \<open>Every connection of the clients \<open>es\<close> was sent the messages \<open>ms\<close> of other clients, whole.\<close>

definition all_told :: "entry list \<Rightarrow> message list \<Rightarrow> net \<Rightarrow> net \<Rightarrow> bool" where
  "all_told es ms w w' \<longleftrightarrow>
     (\<forall>e \<in> set es. \<forall>fd \<in> set (e_fds e). wire w' fd = wire w fd @ all_bytes (others (e_id e) ms))"

lemma all_bytes_append [simp]: "all_bytes (as @ bs) = all_bytes as @ all_bytes bs"
  by (simp add: all_bytes_def)

lemma round_told:
  assumes d: "delivered m w w' (targets m es)" and r: "reliable w"
    and c: "distinct (concat (map e_fds es))"
  shows "all_told es [m] w w'" and "reliable w'"
proof -
  show "reliable w'" unfolding reliable_def
  proof
    fix fd
    show "SendErr \<notin> set (outs w' fd)"
      using r delivered_in [OF d, of fd] delivered_out [OF d, of fd]
      by (cases "fd \<in> targets m es") (auto simp: reliable_def untouched_def elim!: got_error)
  qed
  show "all_told es [m] w w'" unfolding all_told_def
  proof (intro ballI)
    fix e fd assume e: "e \<in> set es" "fd \<in> set (e_fds e)"
    show "wire w' fd = wire w fd @ all_bytes (others (e_id e) [m])"
    proof (cases "e_id e = uint (msg_id m)")
      case True
      have "fd \<notin> targets m es"
      proof
        assume "fd \<in> targets m es"
        then obtain e' where e': "e' \<in> set es" "fd \<in> set (e_fds e')" "e_id e' \<noteq> uint (msg_id m)"
          by (auto simp: targets_def split: if_splits)
        then have "e' \<noteq> e" using True by auto
        from e(1) obtain as bs where "es = as @ e # bs" by (auto simp: in_set_conv_decomp)
        then show False using c e(2) e'(1,2) \<open>e' \<noteq> e\<close> by auto
      qed
      then show ?thesis using delivered_out [OF d] True by (simp add: untouched_def others_def)
    next
      case False
      then have "fd \<in> targets m es" using e by (auto simp: targets_def)
      from delivered_in [OF d this] r False show ?thesis
        by (auto simp: reliable_def others_def elim!: got_error)
    qed
  qed
qed

lemma told_append:
  assumes "all_told es as w w'" "all_told es' bs w' w''" "conns es' = conns es"
  shows "all_told es (as @ bs) w w''"
  unfolding all_told_def
proof (intro ballI)
  fix e fd assume e: "e \<in> set es" "fd \<in> set (e_fds e)"
  have "(e_id e, e_fds e) \<in> set (conns es)" using e(1) by (auto simp: conns_def)
  then have "(e_id e, e_fds e) \<in> set (conns es')" using assms(3) by simp
  then obtain e' where "e' \<in> set es'" "e_id e' = e_id e" "e_fds e' = e_fds e" by (auto simp: conns_def)
  then have "wire w'' fd = wire w' fd @ all_bytes (others (e_id e) bs)" using assms(2) e(2) by (force simp: all_told_def)
  then show "wire w'' fd = wire w fd @ all_bytes (others (e_id e) (as @ bs))"
    using assms(1) e by (simp add: all_told_def others_def)
qed

lemma read_up_to_conns [simp]: "conns (map (read_up_to node) es) = conns es"
  by (simp add: conns_def read_up_to_def)

lemma sender_rounds_ok:
  assumes "jq_holds (s_sendqueue s) (s_jobs s) xs" "log_rep s ps ms" "clients_rep k s es"
    and "distinct (concat (map e_fds es))" "\<forall>m \<in> set xs. sendable m" "reliable w"
    and "distinct nps" "\<forall>p \<in> set nps. p \<noteq> NULL \<and> nodes (s_log s) p = None" "length xs \<le> length nps"
  shows "\<exists>s' w' ps' es'. sender_rounds nps s w = Some (Inr (s', w')) \<and> log_rep s' ps' (ms @ xs)
     \<and> clients_rep k s' es' \<and> conns es' = conns es \<and> jq_holds (s_sendqueue s') (s_jobs s') []
     \<and> all_told es xs w w'"
  using assms
proof (induction nps arbitrary: s w xs ps ms es)
  case Nil
  then show ?case by (auto simp: all_told_def others_def)
next
  case (Cons np nps)
  show ?case
  proof (cases xs)
    case Nil
    have "jobqueue_dequeue (s_sendqueue s) (s_jobs s) = Inr None"
      using Cons.prems(1) Nil by (auto intro: jq.deq_empty_law)
    then have "sender_rounds (np # nps) s w = Some (Inr (s, w))" by (simp add: sender_iteration_def)
    then show ?thesis using Cons.prems(1-3) Nil
      by (intro exI [of _ s] exI [of _ w] exI [of _ ps] exI [of _ es]) (simp add: all_told_def others_def)
  next
    case xs: (Cons x ys)
    from jq.deq_law [OF Cons.prems(1) [unfolded xs]] obtain jobs where
      dq: "jobqueue_dequeue (s_sendqueue s) (s_jobs s) = Inr (Some (x, jobs))"
      "jq_holds (s_sendqueue s) jobs ys" by blast
    let ?s = "s\<lparr>s_jobs := jobs\<rparr>"
    have np: "np \<noteq> NULL" "nodes (s_log ?s) np = None" "sendable x" using Cons.prems(5,8) xs by simp_all
    have r: "log_rep ?s ps ms" "clients_rep k ?s es" using Cons.prems(2,3) by simp_all
    from sender_round_full [OF r(1) np(1,2) r(2) Cons.prems(4) np(3), of w]
    obtain st cells w1 where rd: "sender_round x np ?s w = Some (Inr (?s\<lparr>s_log := st, s_cells := cells\<rparr>, w1))"
      "log_rep (?s\<lparr>s_log := st, s_cells := cells\<rparr>) (ps @ [np]) (ms @ [x])"
      "clients_rep k (?s\<lparr>s_log := st, s_cells := cells\<rparr>) (map (read_up_to np) es)"
      "delivered x w w1 (targets x es)"
      "\<forall>p. nodes (s_log ?s) p = None \<longrightarrow> p \<noteq> np \<longrightarrow> nodes st p = None" by blast
    define s1 where "s1 = ?s\<lparr>s_log := st, s_cells := cells\<rparr>"
    note told = round_told [OF rd(4) Cons.prems(6,4)]
    have q1: "jq_holds (s_sendqueue s1) (s_jobs s1) ys" using dq(2) by (simp add: s1_def)
    have "distinct (concat (map e_fds (map (read_up_to np) es)))"
      using Cons.prems(4) by (simp add: comp_def read_up_to_def if_distrib cong: if_cong)
    moreover have "\<forall>p \<in> set nps. p \<noteq> NULL \<and> nodes (s_log s1) p = None"
      using Cons.prems(7,8) rd(5) by (simp add: s1_def) metis
    moreover have "\<forall>m \<in> set ys. sendable m" "distinct nps" "length ys \<le> length nps"
      using Cons.prems(5,7,9) xs by simp_all
    ultimately obtain s' w' ps' es' where ih: "sender_rounds nps s1 w1 = Some (Inr (s', w'))"
      "log_rep s' ps' ((ms @ [x]) @ ys)" "clients_rep k s' es'" "conns es' = conns (map (read_up_to np) es)"
      "jq_holds (s_sendqueue s') (s_jobs s') []" "all_told (map (read_up_to np) es) ys w1 w'"
      using Cons.IH [OF q1 rd(2) [folded s1_def] rd(3) [folded s1_def] _ _ told(2)] by blast
    have "sender_rounds (np # nps) s w = Some (Inr (s', w'))"
      using dq(1) rd(1) ih(1) by (simp add: sender_iteration_def s1_def)
    moreover have "all_told es ([x] @ ys) w w'" by (rule told_append [OF told(1) ih(6)]) simp
    ultimately show ?thesis using ih xs
      by (intro exI [of _ s'] exI [of _ w'] exI [of _ ps'] exI [of _ es']) simp
  qed
qed

section \<open>From keyboard to screen\<close>

lemma length_lines [simp]: "length (lines cid ls) = length ls"
  by (simp add: lines_def)

definition disconnect_of :: "int \<Rightarrow> message" where
  "disconnect_of cid = create_message_header 0 (word_of_int cid) MESG_DCON"

lemma connection_of_one:
  assumes "distinct (concat (map e_fds es))" "a \<in> set es" "b \<in> set es" "fd \<in> set (e_fds a)" "fd \<in> set (e_fds b)"
  shows "a = b"
proof (rule ccontr)
  assume ne: "a \<noteq> b"
  from assms(2) obtain as bs where es: "es = as @ a # bs" by (auto simp: in_set_conv_decomp)
  with ne assms(3) have "b \<in> set (as @ bs)" by auto
  with assms(1,4,5) show False by (auto simp: es)
qed

lemma others_of_one:
  "\<forall>m \<in> set ms. uint (msg_id m) = cid \<Longrightarrow> others c ms = (if c = cid then [] else ms)"
  by (auto simp: others_def)

text \<open>What another user sees: the lines with the sender's id, and the notice that the sender has left.\<close>

definition screen_of :: "int \<Rightarrow> byte list list \<Rightarrow> byte list" where
  "screen_of cid ls = concat (map (\<lambda>l. from_user (word_of_int cid) (take 2039 l)) ls)
     @ bytes_of (''<server>: <'' @ decimal (nat cid) @ ''> disconnected'') @ [newline]"

text \<open>What the receiver of another client makes of the lines and of the disconnect after them.\<close>

lemma conversation_shown:
  assumes "\<forall>l \<in> set ls. typed l" "0 < cid" "cid < 2 ^ 16"
    and "pending (io_in jo) = all_bytes (lines cid ls @ [disconnect_of cid])
      @ header_bytes (create_message_header 0 0 MESG_DCON) @ rest"
  shows "\<exists>sc. client_receiver junk jo = Some (Inr (jo\<lparr>io_in := sc, io_printed := io_printed jo
       @ screen_of cid ls @ bye\<rparr>)) \<and> pending sc = rest"
proof -
  let ?d = "disconnect_of cid"
  have id: "uint (word_of_int cid :: u16) = cid" using assms(2,3) by (simp add: uint_word_of_int)
  then have nz: "(word_of_int cid :: u16) \<noteq> 0" using assms(2) by (metis less_irrefl unsigned_0)
  have d: "msg_kind ?d = MESG_DCON" "msg_payload ?d = None" "msg_id ?d = word_of_int cid" "msg_length ?d = 0"
    by (simp_all add: disconnect_of_def)
  have "incoming_ok ?d" using d nz by (simp add: incoming_ok_def notice_def)
  then have ok: "\<forall>m \<in> set (lines cid ls @ [?d]). incoming_ok m" using lines_incoming(1) by auto
  have "wire_bytes ?d = header_bytes ?d" by (rule header_wire) (simp_all add: d)
  then have bytes: "concat (map incoming_bytes (lines cid ls @ [?d])) = all_bytes (lines cid ls @ [?d])"
    by (simp add: lines_incoming(2)) (simp add: all_bytes_def incoming_bytes_def d(1))
  have nat: "unat (word_of_int cid :: u16) = nat cid" using id by (metis nat_uint_eq)
  have "shown ?d = bytes_of (''<server>: <'' @ decimal (nat cid) @ ''> disconnected'') @ [newline]"
    using d nz by (simp add: shown_def print_message_def nat bytes_of_def)
  then have shown: "concat (map shown (lines cid ls @ [?d])) = screen_of cid ls"
    by (simp add: lines_shown [OF assms(1)] screen_of_def)
  from client_receiver_ok [OF ok, of jo rest junk] assms(4) show ?thesis unfolding bytes shown by simp
qed

section \<open>Properties\<close>

text \<open>C3: a conversation through the server. A client types lines and quits; whatever the fragmentation of
  what it sends, and as long as no socket reports an error, its listener puts one message for each line and the disconnect into the queue; the
  sender's rounds then leave the queue empty and every connection of every other client has been
  sent exactly those messages, in order and whole, while the connections of the client itself were
  sent nothing; and whoever receives them and after them a farewell of the server (without which the receiver
  does not return), again under any fragmentation, sees every line, cut to 2039 bytes, with the sender's id, and
  then the notice that the client has disconnected.\<close>

theorem conversation:
  assumes "\<forall>l \<in> set ls. typed l" "SendErr \<notin> set (io_out io)" "reliable w"
    and "clients_rep k s es" "log_rep s ps ms" "jq_holds (s_sendqueue s) (s_jobs s) []"
    and "distinct (concat (map e_fds es))" "a \<in> set es" "e_id a = cid" "0 < cid"
    and "distinct qs" "\<forall>p \<in> set qs. jq_fresh (s_jobs s) p" "length ls < length qs"
    and "distinct nps" "\<forall>p \<in> set nps. p \<noteq> NULL \<and> nodes (s_log s) p = None" "length ls < length nps"
  shows "\<exists>io' frames. client_sender cid (concat (map (\<lambda>l. l @ [newline]) ls) @ bytes_of ''<<quit>>'' @ newline # inp) io
       = Inr io' \<and> io_sent io' = io_sent io @ frames \<and>
     (\<forall>sc junk. pending sc = frames \<longrightarrow> (\<exists>sc' s1 s2 w2 ps2 told.
        listener_loop junk qs sc s = Some (Inr (sc', s1)) \<and> sender_rounds nps s1 w = Some (Inr (s2, w2))
        \<and> jq_holds (s_sendqueue s2) (s_jobs s2) [] \<and> log_rep s2 ps2 (ms @ told)
        \<and> (\<forall>b \<in> set es. \<forall>fd \<in> set (e_fds b). wire w2 fd = wire w fd @ (if b = a then [] else all_bytes told))
        \<and> (\<forall>jo rest junk. pending (io_in jo) = all_bytes told @ header_bytes (create_message_header 0 0 MESG_DCON) @ rest \<longrightarrow>
            (\<exists>sc. client_receiver junk jo = Some (Inr (jo\<lparr>io_in := sc, io_printed := io_printed jo @ screen_of cid ls @ bye\<rparr>))))))"
proof -
  let ?ms = "lines cid ls" and ?d = "disconnect_of cid"
  let ?told = "?ms @ [?d]"
  have "entry_ok s a" using assms(4,8) by (simp add: clients_rep_def)
  then have cid: "cid < 2 ^ 16" using assms(9) by (simp add: entry_ok_def)
  then have id: "uint (word_of_int cid :: u16) = cid" using assms(10) by (simp add: uint_word_of_int)
  obtain out' where c: "client_sender cid (concat (map (\<lambda>l. l @ [newline]) ls) @ bytes_of ''<<quit>>'' @ newline # inp) io
     = Inr (io\<lparr>io_out := out', io_sent := io_sent io @ all_bytes ?ms @ header_bytes ?d\<rparr>)"
    using client_sender_ok [OF assms(1,2)] unfolding disconnect_of_def lines_def by blast
  have d: "msg_kind ?d = MESG_DCON" "?d\<lparr>msg_payload := None\<rparr> = ?d" "sendable ?d"
    by (simp_all add: disconnect_of_def create_message_header_def sendable_def)
  have fr: "\<forall>m \<in> set ?ms. frame_ok m" using lines_data by (auto simp: frame_ok_def)
  have fw: "forwarded ?ms = ?ms" using lines_data by (auto simp: forwarded_def filter_id_conv)
  have "map frame_bytes ?ms = map wire_bytes ?ms" using lines_data by (auto simp: frame_bytes_def)
  then have fb: "concat (map frame_bytes ?ms) = all_bytes ?ms" by (simp only: all_bytes_def)
  have sm: "\<forall>m \<in> set ?told. sendable m" using d(3) lines_data by (auto intro: data_message_sendable)
  have served: "\<exists>sc' s1 s2 w2 ps2. listener_loop junk qs sc s = Some (Inr (sc', s1))
      \<and> sender_rounds nps s1 w = Some (Inr (s2, w2)) \<and> jq_holds (s_sendqueue s2) (s_jobs s2) []
      \<and> log_rep s2 ps2 (ms @ ?told) \<and> all_told es ?told w w2"
    if sc: "pending sc = all_bytes ?ms @ header_bytes ?d" for sc junk
  proof -
    have "pending sc = concat (map frame_bytes ?ms) @ header_bytes ?d @ []" using sc by (simp only: fb append_Nil2 append_assoc)
    from listener_loop_ok [OF fr d(1) this assms(6,11,12), of junk] assms(13) obtain sc' st where
      l: "listener_loop junk qs sc s = Some (Inr (sc', s\<lparr>s_jobs := st\<rparr>))" "jq_holds (s_sendqueue s) st ?told"
      unfolding fw d(2) by auto
    let ?s1 = "s\<lparr>s_jobs := st\<rparr>"
    have "jq_holds (s_sendqueue ?s1) (s_jobs ?s1) ?told" "log_rep ?s1 ps ms" "clients_rep k ?s1 es"
      "\<forall>p \<in> set nps. p \<noteq> NULL \<and> nodes (s_log ?s1) p = None" "length ?told \<le> length nps"
      using l(2) assms(4,5,15,16) by simp_all
    from sender_rounds_ok [OF this(1-3) assms(7) sm assms(3,14) this(4,5)] l(1) show ?thesis by blast
  qed
  have own: "others (e_id b) ?told = (if b = a then [] else ?told)" if b: "b \<in> set es" for b
  proof -
    have "\<forall>m \<in> set ?told. uint (msg_id m) = cid"
      using id lines_data by (auto simp: disconnect_of_def)
    moreover have "inj_on e_id (set es)" using assms(4) by (simp add: clients_rep_def distinct_map)
    from inj_on_eq_iff [OF this b assms(8)] have "e_id b = cid \<longleftrightarrow> b = a" by (simp only: assms(9))
    ultimately show ?thesis using others_of_one [of ?told cid "e_id b"] by simp
  qed
  have "\<exists>sc' s1 s2 w2 ps2 told.
        listener_loop junk qs sc s = Some (Inr (sc', s1)) \<and> sender_rounds nps s1 w = Some (Inr (s2, w2))
        \<and> jq_holds (s_sendqueue s2) (s_jobs s2) [] \<and> log_rep s2 ps2 (ms @ told)
        \<and> (\<forall>b \<in> set es. \<forall>fd \<in> set (e_fds b). wire w2 fd = wire w fd @ (if b = a then [] else all_bytes told))
        \<and> (\<forall>jo rest junk. pending (io_in jo) = all_bytes told @ header_bytes (create_message_header 0 0 MESG_DCON) @ rest \<longrightarrow>
            (\<exists>sc. client_receiver junk jo = Some (Inr (jo\<lparr>io_in := sc, io_printed := io_printed jo @ screen_of cid ls @ bye\<rparr>))))"
    if sc: "pending sc = all_bytes ?ms @ header_bytes ?d" for sc junk
  proof -
    from served [OF sc, of junk] obtain sc' s1 s2 w2 ps2 where x: "listener_loop junk qs sc s = Some (Inr (sc', s1))"
      "sender_rounds nps s1 w = Some (Inr (s2, w2))" "jq_holds (s_sendqueue s2) (s_jobs s2) []"
      "log_rep s2 ps2 (ms @ ?told)" "all_told es ?told w w2" by blast
    have "\<forall>b \<in> set es. \<forall>fd \<in> set (e_fds b). wire w2 fd = wire w fd @ (if b = a then [] else all_bytes ?told)"
    proof (intro ballI)
      fix b fd assume b: "b \<in> set es" "fd \<in> set (e_fds b)"
      then have "wire w2 fd = wire w fd @ all_bytes (others (e_id b) ?told)" using x(5) by (simp only: all_told_def)
      then show "wire w2 fd = wire w fd @ (if b = a then [] else all_bytes ?told)"
        unfolding own [OF b(1)] by (simp split: if_splits)
    qed
    moreover have "\<exists>sc. client_receiver junk jo = Some (Inr (jo\<lparr>io_in := sc, io_printed := io_printed jo @ screen_of cid ls @ bye\<rparr>))"
      if "pending (io_in jo) = all_bytes ?told @ header_bytes (create_message_header 0 0 MESG_DCON) @ rest" for jo rest junk
      using conversation_shown [OF assms(1,10) cid that, of junk] by (elim exE conjE, intro exI)
    ultimately show ?thesis using x(1-4)
      by (intro exI [of _ sc'] exI [of _ s1] exI [of _ s2] exI [of _ w2] exI [of _ ps2] exI [of _ ?told]) (intro conjI allI impI)
  qed
  with c show ?thesis
    by (intro exI [of _ "io\<lparr>io_out := out', io_sent := io_sent io @ all_bytes ?ms @ header_bytes ?d\<rparr>"]
        exI [of _ "all_bytes ?ms @ header_bytes ?d"]) simp
qed

text \<open>Client 1 talks, and client 2 is connected at socket 5.\<close>

lemma talking_state:
  "\<exists>k s a b. clients_rep k s [a, b] \<and> e_id a = 1 \<and> e_fds a = [] \<and> e_fds b = [5] \<and> b \<noteq> a \<and> log_rep s [] []
     \<and> jq_holds (s_sendqueue s) (s_jobs s) [] \<and> (\<forall>p. p \<noteq> NULL \<longrightarrow> jq_fresh (s_jobs s) p)
     \<and> (\<forall>p. nodes (s_log s) p = None)"
proof -
  obtain k s a b where s: "clients_rep k s ([a] @ b # [])" "e_id a = 1" "e_id b = 2" "e_fds a = []" "e_fds b = []"
    "nodes (s_fds s) 40 = None" "log_rep s [] []" "jq_holds (s_sendqueue s) (s_jobs s) []"
    "\<forall>p. p \<noteq> NULL \<longrightarrow> jq_fresh (s_jobs s) p" "\<forall>p. nodes (s_log s) p = None"
    using two_clients_full by blast
  let ?b = "b\<lparr>e_nodes := e_nodes b @ [40], e_fds := e_fds b @ [5]\<rparr>"
  obtain st where "clients_rep k (s\<lparr>s_fds := st\<rparr>) ([a] @ ?b # [])"
    using add_connection_present [OF s(1) _ s(6), of 5] by auto
  moreover have "?b \<noteq> a"
  proof
    assume "?b = a"
    then have "e_id ?b = e_id a" by (rule arg_cong)
    then show False using s(2,3) by simp
  qed
  ultimately show ?thesis using s
    by (intro exI [of _ k] exI [of _ "s\<lparr>s_fds := st\<rparr>"] exI [of _ a] exI [of _ ?b]) simp
qed

theorem conversation_witness:
  "\<exists>s frames io' sc' s1 s2 w2 jo'.
     client_sender 1 (bytes_of ''hi'' @ newline # bytes_of ''<<quit>>'' @ newline # []) (fresh_io []) = Inr io'
     \<and> io_sent io' = frames \<and> listener_loop (\<lambda>_. 0) [61, 62] [Chunk frames] s = Some (Inr (sc', s1))
     \<and> sender_rounds [51, 52] s1 quiet_net = Some (Inr (s2, w2))
     \<and> client_receiver (\<lambda>_. 0) (fresh_io [Chunk (wire w2 5), Chunk (header_bytes (create_message_header 0 0 MESG_DCON))])
         = Some (Inr jo')
     \<and> io_printed jo' = bytes_of ''<1>: hi'' @ newline # bytes_of ''<server>: <1> disconnected'' @ newline # bye"
proof -
  obtain k s a b where s: "clients_rep k s [a, b]" "e_id a = 1" "e_fds a = []" "e_fds b = [5]" "b \<noteq> a"
    "log_rep s [] []" "jq_holds (s_sendqueue s) (s_jobs s) []" "\<forall>p. p \<noteq> NULL \<longrightarrow> jq_fresh (s_jobs s) p"
    "\<forall>p. nodes (s_log s) p = None"
    using talking_state by blast
  have t: "\<forall>l \<in> set [bytes_of ''hi'']. typed l" by (simp add: typed_def bytes_of_def newline_def)
  have r: "SendErr \<notin> set (io_out (fresh_io []))" "reliable quiet_net"
    by (simp_all add: fresh_io_def reliable_def quiet_net_def)
  have f: "distinct (concat (map e_fds [a, b]))" "a \<in> set [a, b]" "\<forall>p \<in> set [61, 62]. jq_fresh (s_jobs s) p"
    "\<forall>p \<in> set [51, 52]. p \<noteq> NULL \<and> nodes (s_log s) p = None"
    using s(3,4,8,9) by simp_all
  from conversation [OF t r s(1,6,7) f(1,2) s(2) _ _ f(3) _ _ f(4), of "[]"] obtain io' frames where
    c: "client_sender 1 (concat (map (\<lambda>l. l @ [newline]) [bytes_of ''hi'']) @ bytes_of ''<<quit>>'' @ newline # []) (fresh_io []) = Inr io'"
    "io_sent io' = io_sent (fresh_io []) @ frames"
    and x: "\<forall>sc junk. pending sc = frames \<longrightarrow> (\<exists>sc' s1 s2 w2 ps2 told.
        listener_loop junk [61, 62] sc s = Some (Inr (sc', s1)) \<and> sender_rounds [51, 52] s1 quiet_net = Some (Inr (s2, w2))
        \<and> jq_holds (s_sendqueue s2) (s_jobs s2) [] \<and> log_rep s2 ps2 ([] @ told)
        \<and> (\<forall>e \<in> set [a, b]. \<forall>fd \<in> set (e_fds e). wire w2 fd = wire quiet_net fd @ (if e = a then [] else all_bytes told))
        \<and> (\<forall>jo rest junk. pending (io_in jo) = all_bytes told @ header_bytes (create_message_header 0 0 MESG_DCON) @ rest \<longrightarrow>
            (\<exists>sc. client_receiver junk jo = Some (Inr (jo\<lparr>io_in := sc,
               io_printed := io_printed jo @ screen_of 1 [bytes_of ''hi''] @ bye\<rparr>)))))"
    by auto
  have "pending [Chunk frames] = frames" by simp
  from x [rule_format, OF this, of "\<lambda>_. 0"] obtain sc' s1 s2 w2 told where y:
    "listener_loop (\<lambda>_. 0) [61, 62] [Chunk frames] s = Some (Inr (sc', s1))"
    "sender_rounds [51, 52] s1 quiet_net = Some (Inr (s2, w2))"
    "\<forall>e \<in> set [a, b]. \<forall>fd \<in> set (e_fds e). wire w2 fd = wire quiet_net fd @ (if e = a then [] else all_bytes told)"
    "\<forall>jo rest junk. pending (io_in jo) = all_bytes told @ header_bytes (create_message_header 0 0 MESG_DCON) @ rest \<longrightarrow>
            (\<exists>sc. client_receiver junk jo = Some (Inr (jo\<lparr>io_in := sc,
               io_printed := io_printed jo @ screen_of 1 [bytes_of ''hi''] @ bye\<rparr>)))" by blast
  have "wire w2 5 = all_bytes told" using y(3) s(4,5) by (simp add: quiet_net_def)
  moreover let ?jo = "fresh_io [Chunk (all_bytes told), Chunk (header_bytes (create_message_header 0 0 MESG_DCON))]"
  have "pending (io_in ?jo) = all_bytes told @ header_bytes (create_message_header 0 0 MESG_DCON) @ []"
    by (simp add: fresh_io_def)
  from y(4) [rule_format, OF this, of "\<lambda>_. 0"] obtain jo' where
    "client_receiver (\<lambda>_. 0) ?jo = Some (Inr jo')" "io_printed jo' = screen_of 1 [bytes_of ''hi''] @ bye"
    by (auto simp: fresh_io_def)
  moreover have "screen_of 1 [bytes_of ''hi''] = bytes_of ''<1>: hi'' @ newline # bytes_of ''<server>: <1> disconnected'' @ [newline]"
    by code_simp
  moreover have "io_sent io' = frames" using c(2) by (simp add: fresh_io_def)
  ultimately show ?thesis using c(1) y(1,2)
    by (intro exI [of _ s] exI [of _ frames] exI [of _ io'] exI [of _ sc'] exI [of _ s1] exI [of _ s2]
        exI [of _ w2] exI [of _ jo']) simp
qed

end
