(* ===== verification/Chat_System.thy ===== *)
theory Chat_System
  imports Server_Main
begin

text \<open>
  The running server: the sender thread and one listener thread for each connection, which
  interleave between their critical sections. Every step of \<open>chat_step\<close> is one critical section of
  \<^verbatim>\<open>server.c\<close> (or the stretch between two that touches only the thread's own socket), taken
  from the definitions of the server theories. A replay is two steps, because \<open>fast_forward\<close> holds
  the log's lock for reading only: between reading the client's place and setting it, other
  listeners may replay to other connections of the same client and the sender may broadcast (it holds
  the other lock); only the log cannot grow.
\<close>

section \<open>One turn of a listener\<close>

text \<open>
  One pass of the loop in \<open>listener\<close>, with at most one message for the queue: whether the
  loop goes on, what was enqueued, and the rest of the stream.
\<close>

definition listener_turn ::
    "(nat \<Rightarrow> byte) \<Rightarrow> ptr \<Rightarrow> in_script \<Rightarrow> server \<Rightarrow> (bool \<times> message list \<times> in_script \<times> server) run" where
  "listener_turn junk p sc s =
     bind_run (recv_header sc) (\<lambda>(mp, sc1).
       case mp of None \<Rightarrow> Some (Inl NullDeref)
       | Some m \<Rightarrow>
           if msg_kind m = MESG_DCON then
             bind_run (Some (jobqueue_enqueue (s_sendqueue s) m p (s_jobs s)))
               (\<lambda>(st, _). Some (Inr (False, [m], sc1, s\<lparr>s_jobs := st\<rparr>)))
           else if msg_kind m = MESG_CONN then Some (Inr (True, [], sc1, s))
           else
             bind_run (recv_payload junk m sc1) (\<lambda>((ret, m'), sc2).
               if ret \<noteq> 0 then Some (Inr (False, [], sc2, s))
               else
                 bind_run (Some (jobqueue_enqueue (s_sendqueue s) m' p (s_jobs s)))
                   (\<lambda>(st, _). Some (Inr (True, [m'], sc2, s\<lparr>s_jobs := st\<rparr>)))))"

text \<open>The loop is turns, one after the other, each with the next address for its queue cell.\<close>

lemma listener_loop_turns:
  "listener_loop junk ps sc s =
     bind_run (listener_turn junk (fst (take_addr ps)) sc s) (\<lambda>(again, ms, sc', s').
       if again then listener_loop junk (if ms = [] then ps else snd (take_addr ps)) sc' s'
       else Some (Inr (sc', s')))"
  unfolding listener_turn_def
  by (subst listener_loop.simps)
     (auto simp: bind_run_assoc split_def intro!: bind_run_cong_fun split: option.split)

section \<open>The two halves of a replay\<close>

text \<open>
  \<open>fast_forward\<close> reads where to start, and then sends and sets the client's place to what
  is the end of the log.
\<close>

definition ff_start :: "ptr \<Rightarrow> server \<Rightarrow> ptr run" where
  "ff_start c s =
     bind_run (Some (get_client s c)) (\<lambda>cl.
     bind_run (Some (get_list (s_log s) (s_log_list s))) (\<lambda>l.
     Some (Inr (if c_last_read cl = NULL then l_head l else c_last_read cl))))"

definition ff_finish :: "ptr \<Rightarrow> int \<Rightarrow> ptr \<Rightarrow> server \<Rightarrow> net \<Rightarrow> (int \<times> server \<times> net) run" where
  "ff_finish c fd cursor s w =
     bind_run (Some (get_client s c)) (\<lambda>cl.
     bind_run (Some (get_list (s_log s) (s_log_list s))) (\<lambda>l.
     bind_run (fast_forward_loop (c_id cl) fd cursor s w) (\<lambda>(ok, w').
       if ok then Some (Inr (0, set_client s c (cl\<lparr>c_last_read := l_tail l\<rparr>), w'))
       else Some (Inr (-1, s, w')))))"

lemma fast_forward_halves:
  "fast_forward c fd s w = bind_run (ff_start c s) (\<lambda>cursor. ff_finish c fd cursor s w)"
  by (cases "get_client s c"; cases "get_list (s_log s) (s_log_list s)")
     (simp_all add: fast_forward_def ff_start_def ff_finish_def)

section \<open>The system\<close>

text \<open>
  Where a thread is between its critical sections. A listener has done the handshake, has
  announced its client, is replaying the log from a cursor, has replayed it, has joined the
  client's connections, or has left its loop; the client's address and id are in its variables. \<open>Closed\<close> is a thread that has
  ended; its descriptor may be used again.
\<close>

datatype stage =
    Greeting
  | Welcomed ptr int
  | Announced ptr int
  | Replaying ptr int ptr
  | Replayed ptr int
  | Serving int
  | Leaving int
  | Closed

datatype sender_pc = Idle | Taken message | Logged message ptr

text \<open>
  The state, and notes on what has happened, which no step depends on: all messages ever put into
  the send queue (\<open>ch_posted\<close>); those the sender has logged and broadcast (\<open>ch_done\<close>); how much
  of the log each client has been brought up to, by a replay to one of its connections or by a
  broadcast while it had one (\<open>ch_read\<close>); and for each socket what it was to do when it was accepted,
  from which message of the log its replay started, how long the log was when the replay
  ended, and how many messages had been broadcast when the socket joined its client's connections.
\<close>

record history =
  nt_script :: out_script
  nt_from :: nat
  nt_upto :: nat
  nt_join :: nat

record chat =
  ch_server :: server
  ch_net :: net
  ch_sender :: sender_pc
  ch_threads :: "int \<rightharpoonup> stage \<times> in_script"
  ch_posted :: "message list"
  ch_done :: "message list"
  ch_read :: "int \<Rightarrow> nat"
  ch_notes :: "int \<Rightarrow> history"

fun in_hand :: "sender_pc \<Rightarrow> message list" where
  "in_hand (Taken m) = [m]"
| "in_hand _ = []"

fun logged :: "sender_pc \<Rightarrow> message list" where
  "logged (Logged m node) = [m]"
| "logged _ = []"

text \<open>What is in the log, by the notes.\<close>

definition ch_log :: "chat \<Rightarrow> message list" where
  "ch_log t = ch_done t @ logged (ch_sender t)"

text \<open>The client a thread has joined.\<close>

fun joined :: "stage \<Rightarrow> int option" where
  "joined (Serving cid) = Some cid"
| "joined (Leaving cid) = Some cid"
| "joined _ = None"

definition joined_at :: "(int \<rightharpoonup> stage \<times> in_script) \<Rightarrow> int \<Rightarrow> int option" where
  "joined_at th fd = (case th fd of None \<Rightarrow> None | Some (st, sc) \<Rightarrow> joined st)"

text \<open>The sockets that the log is being replayed to: their threads hold its lock for reading.\<close>

definition replaying :: "chat \<Rightarrow> int set" where
  "replaying t = {fd. \<exists>c cid cur sc. ch_threads t fd = Some (Replaying c cid cur, sc)}"

definition opened :: "int \<Rightarrow> out_script \<Rightarrow> net \<Rightarrow> net" where
  "opened fd out w =
     \<lparr>outs = (outs w)(fd := out), wire = (wire w)(fd := []), shut = (shut w)(fd := False)\<rparr>"

definition move :: "int \<Rightarrow> stage \<Rightarrow> in_script \<Rightarrow> server \<Rightarrow> net \<Rightarrow> chat \<Rightarrow> chat" where
  "move fd st sc s w t =
     t\<lparr>ch_threads := (ch_threads t)(fd \<mapsto> (st, sc)), ch_server := s, ch_net := w\<rparr>"

definition noting :: "int \<Rightarrow> (history \<Rightarrow> history) \<Rightarrow> chat \<Rightarrow> chat" where
  "noting fd f t = t\<lparr>ch_notes := (ch_notes t)(fd := f (ch_notes t fd))\<rparr>"

definition up_to_date :: "int set \<Rightarrow> chat \<Rightarrow> chat" where
  "up_to_date C t = t\<lparr>ch_read := (\<lambda>cid. if cid \<in> C then length (ch_log t) else ch_read t cid)\<rparr>"

definition post :: "message list \<Rightarrow> chat \<Rightarrow> chat" where
  "post ms t = t\<lparr>ch_posted := ch_posted t @ ms\<rparr>"

text \<open>
  The steps. A new socket may do anything; an address from the allocator is not null and not in
  use; the log grows only while no one is replaying it.
\<close>

inductive chat_step :: "(nat \<Rightarrow> byte) \<Rightarrow> chat \<Rightarrow> chat \<Rightarrow> bool" for junk where
  accept_step: "\<forall>st sc'. ch_threads t fd = Some (st, sc') \<longrightarrow> st = Closed \<Longrightarrow>
     chat_step junk t (noting fd (\<lambda>_. \<lparr>nt_script = out, nt_from = 0, nt_upto = 0, nt_join = 0\<rparr>)
       (move fd Greeting sc (ch_server t) (opened fd out (ch_net t)) t))"
| refuse_step: "ch_threads t fd = Some (Greeting, sc) \<Longrightarrow>
     listener_hello fd sc (ch_server t) (ch_net t) = Some (Inr (Refused, sc', w)) \<Longrightarrow>
     chat_step junk t (move fd Closed sc' (ch_server t) w t)"
| welcome_step: "ch_threads t fd = Some (Greeting, sc) \<Longrightarrow>
     listener_hello fd sc (ch_server t) (ch_net t) = Some (Inr (Welcome c cid, sc', w)) \<Longrightarrow>
     chat_step junk t (move fd (Welcomed c cid) sc' (ch_server t) w t)"
| announce_step: "ch_threads t fd = Some (Welcomed c cid, sc) \<Longrightarrow> s = ch_server t \<Longrightarrow> jq_fresh (s_jobs s) p \<Longrightarrow>
     m = create_message_header 0 (word_of_int cid) MESG_CONN \<Longrightarrow>
     jobqueue_enqueue (s_sendqueue s) m p (s_jobs s) = Inr (st, wk) \<Longrightarrow>
     chat_step junk t (post [m] (move fd (Announced c cid) sc (s\<lparr>s_jobs := st\<rparr>) (ch_net t) t))"
| replay_step: "ch_threads t fd = Some (Announced c cid, sc) \<Longrightarrow>
     ff_start c (ch_server t) = Some (Inr cur) \<Longrightarrow>
     chat_step junk t (noting fd (\<lambda>n. n\<lparr>nt_from := ch_read t cid - 1\<rparr>)
       (move fd (Replaying c cid cur) sc (ch_server t) (ch_net t) t))"
| replayed_step: "ch_threads t fd = Some (Replaying c cid cur, sc) \<Longrightarrow>
     ff_finish c fd cur (ch_server t) (ch_net t) = Some (Inr (ret, s, w)) \<Longrightarrow>
     chat_step junk t (up_to_date (if ret = 0 then {cid} else {})
       (noting fd (\<lambda>n. n\<lparr>nt_upto := length (ch_log t)\<rparr>) (move fd (Replayed c cid) sc s w t)))"
| join_step: "ch_threads t fd = Some (Replayed c cid, sc) \<Longrightarrow> np \<noteq> NULL \<Longrightarrow>
     nodes (s_fds (ch_server t)) np = None \<Longrightarrow>
     client_hash_add_connection cid fd np (ch_server t) = Some (Inr s) \<Longrightarrow>
     chat_step junk t (noting fd (\<lambda>n. n\<lparr>nt_join := length (ch_done t)\<rparr>)
       (move fd (Serving cid) sc s (ch_net t) t))"
| turn_step: "ch_threads t fd = Some (Serving cid, sc) \<Longrightarrow> jq_fresh (s_jobs (ch_server t)) p \<Longrightarrow>
     listener_turn junk p sc (ch_server t) = Some (Inr (again, ms, sc', s)) \<Longrightarrow>
     chat_step junk t (post ms (move fd (if again then Serving cid else Leaving cid) sc' s (ch_net t) t))"
| leave_step: "ch_threads t fd = Some (Leaving cid, sc) \<Longrightarrow>
     listener_leave cid fd (ch_server t) (ch_net t) = Some (Inr (s, w)) \<Longrightarrow>
     chat_step junk t (move fd Closed sc s w t)"
| take_step: "ch_sender t = Idle \<Longrightarrow> s = ch_server t \<Longrightarrow>
     jobqueue_dequeue (s_sendqueue s) (s_jobs s) = Inr (Some (m, st)) \<Longrightarrow>
     chat_step junk t (t\<lparr>ch_sender := Taken m, ch_server := s\<lparr>s_jobs := st\<rparr>\<rparr>)"
| log_step: "ch_sender t = Taken m \<Longrightarrow> replaying t = {} \<Longrightarrow> np \<noteq> NULL \<Longrightarrow> nodes (s_log (ch_server t)) np = None \<Longrightarrow>
     message_log_append m np (ch_server t) = Inr (node, s) \<Longrightarrow>
     chat_step junk t (t\<lparr>ch_sender := Logged m node, ch_server := s\<rparr>)"
| broadcast_step: "ch_sender t = Logged m node \<Longrightarrow>
     sender_loop m node (s_clients (ch_server t)) (ch_server t) (ch_net t) = Some (Inr (s, w)) \<Longrightarrow>
     chat_step junk t (up_to_date {cid. \<exists>fd. joined_at (ch_threads t) fd = Some cid}
       (t\<lparr>ch_sender := Idle, ch_server := s, ch_net := w, ch_done := ch_done t @ [m]\<rparr>))"

inductive_cases chat_stepE: "chat_step junk t t'"

text \<open>The start: the state \<open>main\<close> sets up, from addresses that are not null and all different.\<close>

definition good_addrs :: "(u16 \<times> ptr \<times> ptr \<times> ptr) list \<Rightarrow> ptr \<Rightarrow> ptr \<Rightarrow> ptr \<Rightarrow> bool" where
  "good_addrs ids qp gp lp \<longleftrightarrow> length ids \<le> 26
     \<and> (\<forall>(c, p, lp, tp) \<in> set ids. p \<noteq> NULL \<and> lp \<noteq> NULL \<and> tp \<noteq> NULL)
     \<and> distinct (map (\<lambda>(_, p, _). p) ids) \<and> distinct (map (\<lambda>(_, _, lp, _). lp) ids)
     \<and> qp \<noteq> NULL \<and> gp \<noteq> NULL \<and> lp \<noteq> NULL"

definition start_chat :: "server \<Rightarrow> net \<Rightarrow> chat" where
  "start_chat s w = \<lparr>ch_server = s, ch_net = w, ch_sender = Idle, ch_threads = Map.empty, ch_posted = [],
     ch_done = [], ch_read = (\<lambda>_. 0), ch_notes = (\<lambda>_. \<lparr>nt_script = [], nt_from = 0, nt_upto = 0, nt_join = 0\<rparr>)\<rparr>"

inductive chat_reachable :: "(nat \<Rightarrow> byte) \<Rightarrow> u16 list \<Rightarrow> chat \<Rightarrow> bool" for junk cids where
  start: "good_addrs ids qp gp lp \<Longrightarrow> map fst ids = cids \<Longrightarrow> server_init ids qp gp lp = Some (Inr s) \<Longrightarrow>
     chat_reachable junk cids (start_chat s w)"
| step: "chat_reachable junk cids t \<Longrightarrow> chat_step junk t t' \<Longrightarrow> chat_reachable junk cids t'"

section \<open>What a socket was sent\<close>

text \<open>
  The bytes of some messages, each one whole, or, with \<open>errs\<close>, cut short at some point. The
  flag is the socket's own (\<open>troubled\<close>): whether it has reported an error since it was accepted.
\<close>

definition pieces :: "bool \<Rightarrow> message list \<Rightarrow> byte list \<Rightarrow> bool" where
  "pieces errs ms bs \<longleftrightarrow> (\<exists>parts. bs = concat parts \<and>
     list_all2 (\<lambda>m x. \<exists>r. wire_bytes m = x @ r \<and> (errs \<or> r = [])) ms parts)"

lemma pieces_Nil [simp]: "pieces errs [] bs \<longleftrightarrow> bs = []"
  by (auto simp: pieces_def)

lemma pieces_one: "wire_bytes m = x @ r \<Longrightarrow> errs \<or> r = [] \<Longrightarrow> pieces errs [m] x"
  unfolding pieces_def by (intro exI [of _ "[x]"]) auto

lemma pieces_append: "pieces errs as x \<Longrightarrow> pieces errs bs y \<Longrightarrow> pieces errs (as @ bs) (x @ y)"
  unfolding pieces_def by (elim exE conjE, rule exI, rule conjI [OF _ list_all2_appendI]) auto

lemma pieces_whole: "pieces False ms bs \<longleftrightarrow> bs = all_bytes ms"
proof
  assume "pieces False ms bs"
  then obtain parts where "bs = concat parts" "list_all2 (\<lambda>m x. wire_bytes m = x) ms parts"
    by (auto simp: pieces_def)
  moreover from this(2) have "parts = map wire_bytes ms" by (induction rule: list_all2_induct) simp_all
  ultimately show "bs = all_bytes ms" by (simp add: all_bytes_def)
next
  assume "bs = all_bytes ms"
  then show "pieces False ms bs"
    by (auto simp: pieces_def all_bytes_def list_all2_map2 intro!: exI [of _ "map wire_bytes ms"] list.rel_refl)
qed

lemma pieces_prefix:
  assumes "all_bytes ms = x @ rest" and "errs \<or> rest = []"
  shows "pieces errs ms x"
  using assms
proof (induction ms arbitrary: x)
  case (Cons m ms)
  show ?case
  proof (cases "rest = []")
    case True
    with Cons.prems(1) have "pieces False (m # ms) x" by (simp add: pieces_whole)
    then show ?thesis by (fastforce simp: pieces_def elim!: list_all2_mono)
  next
    case False
    with Cons.prems(2) have e: errs by simp
    from Cons.prems(1) have "(\<exists>us. wire_bytes m = x @ us) \<or> (\<exists>us. wire_bytes m @ us = x \<and> all_bytes ms = us @ rest)"
      by (auto simp: append_eq_append_conv2)
    then show ?thesis
    proof (elim disjE exE conjE)
      fix us assume us: "wire_bytes m = x @ us"
      have "pieces errs ms []"
        using e by (auto simp: pieces_def list_all2_conv_all_nth intro!: exI [of _ "map (\<lambda>_. []) ms"])
      with pieces_one [OF us] e pieces_append [of errs "[m]" x ms "[]"] show ?thesis by simp
    next
      fix us assume us: "wire_bytes m @ us = x" "all_bytes ms = us @ rest"
      have "pieces errs [m] (wire_bytes m)" by (rule pieces_one [of _ _ "[]"]) simp_all
      with pieces_append [OF this Cons.IH [OF us(2) Cons.prems(2)]] us(1) show ?thesis by simp
    qed
  qed
qed simp

lemma pieces_mono: "pieces e ms bs \<Longrightarrow> e \<longrightarrow> e' \<Longrightarrow> pieces e' ms bs"
  by (fastforce simp: pieces_def elim!: list_all2_mono)

definition troubled :: "history \<Rightarrow> net \<Rightarrow> int \<Rightarrow> bool" where
  "troubled n w fd \<longleftrightarrow> errors (outs w fd) < errors (nt_script n)"

definition scripted :: "history \<Rightarrow> net \<Rightarrow> int \<Rightarrow> bool" where
  "scripted n w fd \<longleftrightarrow> used True (nt_script n) (outs w fd)"

lemma troubled_used:
  assumes "scripted n w fd" "used ok (outs w fd) (outs w' fd)"
  shows "scripted n w' fd" and "troubled n w fd \<longrightarrow> troubled n w' fd" and "\<not> ok \<longrightarrow> troubled n w' fd"
  using assms by (auto simp: scripted_def troubled_def used_def)

lemma got_pieces:
  assumes "got m w w' fd" "scripted n w fd" "pieces (troubled n w fd) ms (wire w fd)"
  shows "pieces (troubled n w' fd) (ms @ [m]) (wire w' fd)" and "scripted n w' fd"
proof -
  from assms(1) obtain x r where x: "wire w' fd = wire w fd @ x" "wire_bytes m = x @ r"
    and u: "used (r = []) (outs w fd) (outs w' fd)" by (auto simp: got_def)
  note t = troubled_used [OF assms(2) u]
  have "pieces (troubled n w' fd) [m] x" by (rule pieces_one [OF x(2)]) (use t(3) in blast)
  from pieces_append [OF pieces_mono [OF assms(3) t(2)] this] x(1)
  show "pieces (troubled n w' fd) (ms @ [m]) (wire w' fd)" by simp
  show "scripted n w' fd" by (rule t(1))
qed

lemma sent_part_pieces:
  assumes "sent_part (all_bytes as) fd ok w w'" "scripted n w fd" "pieces (troubled n w fd) ms (wire w fd)"
  shows "pieces (troubled n w' fd) (ms @ as) (wire w' fd)" and "scripted n w' fd"
    and "fd' \<noteq> fd \<Longrightarrow> untouched w w' fd'"
proof -
  from assms(1) obtain x r where x: "wire w' fd = wire w fd @ x" "all_bytes as = x @ r" "ok \<longleftrightarrow> r = []"
    and u: "used ok (outs w fd) (outs w' fd)" by (auto simp: sent_part_def)
  note t = troubled_used [OF assms(2) u]
  have "pieces (troubled n w' fd) as x" by (rule pieces_prefix [OF x(2)]) (use t(3) x(3) in blast)
  from pieces_append [OF pieces_mono [OF assms(3) t(2)] this] x(1)
  show "pieces (troubled n w' fd) (ms @ as) (wire w' fd)" by simp
  show "scripted n w' fd" by (rule t(1))
  show "fd' \<noteq> fd \<Longrightarrow> untouched w w' fd'" using assms(1) by (simp add: sent_part_def)
qed

end
