(* ===== verification/Chat_Invariant.thy ===== *)
theory Chat_Invariant
  imports Chat_System
begin

text \<open>
  The invariant of the running server, \<open>chat_rep\<close>, and that every step keeps it: what is in the
  log and in the queue, which sockets are among a client's connections, and what each socket
  was sent.
\<close>

section \<open>The invariant\<close>

abbreviation welcome_msg :: message where
  "welcome_msg \<equiv> create_message_header 0 0 MESG_CONN"

text \<open>
  What a thread's socket was sent, up to errors. With \<open>ds\<close> the messages the sender has broadcast, \<open>ms\<close>
  the log and \<open>n\<close> the notes on the socket: the welcome, then what the replay found in the log,
  then the broadcasts since the socket joined, in each case without the client's own messages.
\<close>

definition replay_of :: "message list \<Rightarrow> history \<Rightarrow> int \<Rightarrow> message list" where
  "replay_of ms n cid = others cid (drop (nt_from n) (take (nt_upto n) ms))"

definition replay_ok :: "message list \<Rightarrow> message list \<Rightarrow> history \<Rightarrow> bool" where
  "replay_ok ds ms n \<longleftrightarrow> nt_from n \<le> nt_upto n \<and> nt_upto n \<le> length ms \<and> nt_upto n \<le> length ds + 1"

definition served :: "message list \<Rightarrow> message list \<Rightarrow> history \<Rightarrow> int \<Rightarrow> message list \<Rightarrow> bool" where
  "served ds ms n cid xs \<longleftrightarrow> replay_ok ds ms n \<and> nt_upto n \<le> nt_join n + 1 \<and> nt_join n \<le> length ds
     \<and> xs = welcome_msg # replay_of ms n cid @ others cid (drop (nt_join n) ds)"

fun heard :: "message list \<Rightarrow> message list \<Rightarrow> history \<Rightarrow> stage \<Rightarrow> message list \<Rightarrow> bool" where
  "heard ds ms n Greeting xs \<longleftrightarrow> xs = []"
| "heard ds ms n (Welcomed c cid) xs \<longleftrightarrow> xs = [welcome_msg]"
| "heard ds ms n (Announced c cid) xs \<longleftrightarrow> xs = [welcome_msg]"
| "heard ds ms n (Replaying c cid cur) xs \<longleftrightarrow> xs = [welcome_msg]"
| "heard ds ms n (Replayed c cid) xs \<longleftrightarrow> replay_ok ds ms n \<and> xs = welcome_msg # replay_of ms n cid"
| "heard ds ms n (Serving cid) xs \<longleftrightarrow> served ds ms n cid xs"
| "heard ds ms n (Leaving cid) xs \<longleftrightarrow> served ds ms n cid xs"
| "heard ds ms n Closed xs \<longleftrightarrow> True"

text \<open>Where a replay that is under way starts: at message \<open>i\<close> of the log.\<close>

definition cursor_at :: "ptr list \<Rightarrow> ptr \<Rightarrow> nat \<Rightarrow> bool" where
  "cursor_at ps cur i \<longleftrightarrow> i \<le> length ps \<and> cur = (if i < length ps then ps ! i else NULL)"

fun reading :: "ptr list \<Rightarrow> history \<Rightarrow> stage \<Rightarrow> bool" where
  "reading ps n (Replaying c cid cur) \<longleftrightarrow> cursor_at ps cur (nt_from n)"
| "reading ps n _ \<longleftrightarrow> True"

text \<open>A client's place in the log is the last of the messages it has been brought up to.\<close>

definition placed :: "ptr list \<Rightarrow> ptr \<Rightarrow> nat \<Rightarrow> bool" where
  "placed ps p r \<longleftrightarrow> r \<le> length ps \<and> p = (if r = 0 then NULL else ps ! (r - 1))"

text \<open>The client a thread has in its variables.\<close>

fun knows :: "(int \<times> ptr) set \<Rightarrow> stage \<Rightarrow> bool" where
  "knows cs (Welcomed c cid) \<longleftrightarrow> (cid, c) \<in> cs"
| "knows cs (Announced c cid) \<longleftrightarrow> (cid, c) \<in> cs"
| "knows cs (Replaying c cid cur) \<longleftrightarrow> (cid, c) \<in> cs"
| "knows cs (Replayed c cid) \<longleftrightarrow> (cid, c) \<in> cs"
| "knows cs (Serving cid) \<longleftrightarrow> cid \<in> fst ` cs"
| "knows cs (Leaving cid) \<longleftrightarrow> cid \<in> fst ` cs"
| "knows cs _ \<longleftrightarrow> True"

definition thread_ok ::
    "(int \<times> ptr) set \<Rightarrow> ptr list \<Rightarrow> message list \<Rightarrow> message list \<Rightarrow> history \<Rightarrow> net \<Rightarrow> int \<Rightarrow> stage \<Rightarrow> bool" where
  "thread_ok cs ps ds ms n w fd st \<longleftrightarrow> knows cs st \<and> reading ps n st \<and> (st \<noteq> Closed \<longrightarrow>
     \<not> shut w fd \<and> scripted n w fd \<and> (\<exists>xs. heard ds ms n st xs \<and> pieces (troubled n w fd) xs (wire w fd)))"

definition entry_ref :: "entry \<Rightarrow> int \<times> ptr" where
  "entry_ref e = (e_id e, e_ptr e)"

text \<open>A client's connections are the sockets of the threads that have joined it.\<close>

definition conns_ok :: "(int \<rightharpoonup> stage \<times> in_script) \<Rightarrow> entry list \<Rightarrow> bool" where
  "conns_ok th es \<longleftrightarrow> distinct (concat (map e_fds es)) \<and>
     (\<forall>e \<in> set es. \<forall>fd. fd \<in> set (e_fds e) \<longleftrightarrow> joined_at th fd = Some (e_id e))"

fun node_ok :: "sender_pc \<Rightarrow> ptr list \<Rightarrow> bool" where
  "node_ok (Logged m node) ps \<longleftrightarrow> ps \<noteq> [] \<and> last ps = node"
| "node_ok _ ps \<longleftrightarrow> True"

text \<open>\<open>bs\<close> is the part of the log that has been broadcast, \<open>xs\<close> is what the queue holds.\<close>

definition chat_rep ::
    "(int \<times> ptr) list \<Rightarrow> chat \<Rightarrow> nat \<Rightarrow> entry list \<Rightarrow> ptr list \<Rightarrow> message list \<Rightarrow> message list \<Rightarrow> bool" where
  "chat_rep cs t k es ps bs xs \<longleftrightarrow>
     clients_rep k (ch_server t) es \<and> map entry_ref es = cs \<and>
     log_rep (ch_server t) ps (bs @ logged (ch_sender t)) \<and>
     jq_holds (s_sendqueue (ch_server t)) (s_jobs (ch_server t)) xs \<and>
     ch_done t = bs \<and> ch_posted t = bs @ logged (ch_sender t) @ in_hand (ch_sender t) @ xs \<and>
     node_ok (ch_sender t) ps \<and>
     (\<forall>e \<in> set es. placed ps (e_last e) (ch_read t (e_id e))) \<and>
     conns_ok (ch_threads t) es \<and>
     (\<forall>fd st sc. ch_threads t fd = Some (st, sc) \<longrightarrow>
        thread_ok (set cs) ps bs (bs @ logged (ch_sender t)) (ch_notes t fd) (ch_net t) fd st)"

definition chat_inv :: "(int \<times> ptr) list \<Rightarrow> chat \<Rightarrow> bool" where
  "chat_inv cs t \<longleftrightarrow> (\<forall>m \<in> set (ch_posted t). sendable m) \<longrightarrow> (\<exists>k es ps bs xs. chat_rep cs t k es ps bs xs)"

lemma chat_repI:
  assumes "clients_rep k (ch_server t) es" "map entry_ref es = cs"
    "log_rep (ch_server t) ps (bs @ logged (ch_sender t))"
    "jq_holds (s_sendqueue (ch_server t)) (s_jobs (ch_server t)) xs"
    "ch_done t = bs" "ch_posted t = bs @ logged (ch_sender t) @ in_hand (ch_sender t) @ xs"
    "node_ok (ch_sender t) ps" "\<And>e. e \<in> set es \<Longrightarrow> placed ps (e_last e) (ch_read t (e_id e))"
    "conns_ok (ch_threads t) es"
    "\<And>fd st sc. ch_threads t fd = Some (st, sc) \<Longrightarrow>
        thread_ok (set cs) ps bs (bs @ logged (ch_sender t)) (ch_notes t fd) (ch_net t) fd st"
  shows "chat_rep cs t k es ps bs xs"
  using assms by (simp add: chat_rep_def)

lemma chat_repE:
  assumes "chat_rep cs t k es ps bs xs"
  obtains "clients_rep k (ch_server t) es" "map entry_ref es = cs"
    "log_rep (ch_server t) ps (bs @ logged (ch_sender t))"
    "jq_holds (s_sendqueue (ch_server t)) (s_jobs (ch_server t)) xs"
    "ch_done t = bs" "ch_posted t = bs @ logged (ch_sender t) @ in_hand (ch_sender t) @ xs"
    "node_ok (ch_sender t) ps" "\<And>e. e \<in> set es \<Longrightarrow> placed ps (e_last e) (ch_read t (e_id e))"
    "conns_ok (ch_threads t) es"
    "\<And>fd st sc. ch_threads t fd = Some (st, sc) \<Longrightarrow>
        thread_ok (set cs) ps bs (bs @ logged (ch_sender t)) (ch_notes t fd) (ch_net t) fd st"
  using assms by (simp add: chat_rep_def)

lemma chat_rep_thread:
  "chat_rep cs t k es ps bs xs \<Longrightarrow> ch_threads t fd = Some (st, sc) \<Longrightarrow>
   thread_ok (set cs) ps bs (bs @ logged (ch_sender t)) (ch_notes t fd) (ch_net t) fd st"
  by (simp add: chat_rep_def)

section \<open>How the invariant moves\<close>

text \<open>What a thread was sent does not depend on what the others do.\<close>

lemma thread_ok_frame:
  assumes "thread_ok cs ps ds ms n w fd st" and "untouched w w' fd" and "shut w' fd = shut w fd"
  shows "thread_ok cs ps ds ms n w' fd st"
  using assms by (simp add: thread_ok_def untouched_def scripted_def troubled_def)

lemma replay_log:
  "replay_ok ds ms n \<Longrightarrow> replay_ok ds (ms @ [m]) n"
  "replay_ok ds ms n \<Longrightarrow> replay_of (ms @ [m]) n cid = replay_of ms n cid"
  by (auto simp: replay_ok_def replay_of_def)

lemma heard_log: "heard ds ms n st xs \<Longrightarrow> heard ds (ms @ [m]) n st xs"
  by (cases st) (auto simp: served_def replay_log)

lemma others_append [simp]: "others cid (as @ bs) = others cid as @ others cid bs"
  by (simp add: others_def)

text \<open>A broadcast is one more message for the threads that have joined.\<close>

lemma heard_broadcast:
  assumes "heard bs ms n st xs"
  shows "heard (bs @ [m]) ms n st (case joined st of None \<Rightarrow> xs | Some cid \<Rightarrow> xs @ others cid [m])"
proof -
  have "replay_ok bs ms n \<Longrightarrow> replay_ok (bs @ [m]) ms n" by (simp add: replay_ok_def)
  moreover from this have "served bs ms n cid xs \<Longrightarrow> served (bs @ [m]) ms n cid (xs @ others cid [m])" for cid
    by (auto simp: served_def)
  ultimately show ?thesis using assms by (cases st) simp_all
qed

section \<open>What a critical section leaves alone\<close>

definition others_same :: "net \<Rightarrow> net \<Rightarrow> int \<Rightarrow> bool" where
  "others_same w w' fd \<longleftrightarrow> (\<forall>fd'. fd' \<noteq> fd \<longrightarrow> untouched w w' fd' \<and> shut w' fd' = shut w fd')"

lemma others_same_refl [simp]: "others_same w w fd"
  by (simp add: others_same_def untouched_def)

lemma send_to_same: "send_to fd m w = Inr (r, w') \<Longrightarrow> others_same w w' fd \<and> shut w' = shut w"
  by (auto simp: send_to_def bind_res_eq_Inr others_same_def untouched_def)

lemma refuse_same: "refuse txt fd hm w = Inr w' \<Longrightarrow> others_same w w' fd"
  by (auto simp: refuse_def bind_res_eq_Inr others_same_def untouched_def dest!: send_to_same)

lemma hello_same:
  assumes "listener_hello fd sc s w = Some (Inr (h, sc', w'))"
  shows "others_same w w' fd"
  using assms unfolding listener_hello_def
  by (auto simp: bind_run_def split: option.splits sum.splits if_split_asm
      dest: refuse_same send_to_same)

lemma hello_welcomes:
  assumes rep: "clients_rep k s es"
    and "listener_hello fd sc s w = Some (Inr (Welcome c cid, sc', w'))"
  shows "(cid, c) \<in> entry_ref ` set es \<and> got welcome_msg w w' fd \<and> shut w' = shut w"
proof -
  from assms(2) obtain hm sc1 r where hs: "server_handshake sc = Some (Inr ((cid, hm), sc1))" "0 < cid"
    "client_hash_get cid s = Some (Inr c)" "c \<noteq> NULL" "send_to fd welcome_msg w = Inr (r, w')"
    unfolding listener_hello_def
    by (auto simp: bind_run_def split: option.splits sum.splits if_split_asm)
  from hs(1,2) have "\<exists>m::message. cid = uint (msg_id m)" unfolding server_handshake_def
    by (auto simp: bind_run_def split: option.splits sum.splits if_split_asm)
  then have "cid < 2 ^ 16" using uint_u16(2) by blast
  with hs(2-4) lookup_absent [OF rep, of cid] have "cid \<in> e_id ` set es"
    by (auto simp: client_hash_get_def)
  then obtain e where e: "e \<in> set es" "cid = e_id e" by blast
  with hs(3) lookup_present [OF rep e(1)] have "c = e_ptr e" by (simp add: client_hash_get_def)
  moreover have "sendable welcome_msg" by (rule header_sendable) (simp_all add: create_message_header_def)
  from send_to_ok [OF this, of fd w] hs(5) have "got welcome_msg w w' fd" by (auto dest: delivered_in)
  ultimately show ?thesis using e send_to_same [OF hs(5)] by (auto simp: entry_ref_def)
qed

text \<open>Nothing but a thread's own end closes a socket.\<close>

lemma fast_forward_loop_shut:
  assumes "fast_forward_loop cid fd cursor s w = Some r"
  shows "\<forall>ok w'. r = Inr (ok, w') \<longrightarrow> shut w' = shut w"
  by (rule fast_forward_loop.raw_induct [OF _ assms])
     (auto simp: bind_run_def split: option.splits sum.splits if_split_asm prod.splits dest!: send_to_same)

lemma send_fds_loop_shut:
  assumes "send_fds_loop m n s w = Some r"
  shows "\<forall>w'. r = Inr w' \<longrightarrow> shut w' = shut w"
  by (rule send_fds_loop.raw_induct [OF _ assms])
     (auto simp: bind_run_def split: option.splits sum.splits if_split_asm prod.splits dest!: send_to_same)

lemma sender_loop_shut:
  assumes "sender_loop m node c s w = Some r"
  shows "\<forall>s' w'. r = Inr (s', w') \<longrightarrow> shut w' = shut w"
  by (rule sender_loop.raw_induct [OF _ assms])
     (auto simp: bind_run_def split: option.splits sum.splits if_split_asm prod.splits dest!: send_fds_loop_shut)

lemma fast_forward_shut:
  assumes "fast_forward c fd s w = Some (Inr (r, s', w'))"
  shows "shut w' = shut w"
  using assms unfolding fast_forward_def
  by (auto simp: bind_run_def split: option.splits sum.splits if_split_asm dest!: fast_forward_loop_shut)

lemma log_rep_facts:
  assumes "log_rep s ps ms"
  shows "NULL \<notin> set ps" and "length ps = length ms"
proof -
  obtain l where l: "nchain (nexts (s_log s)) (l_head l) ps" "map (datas (s_log s)) ps = map Some ms"
    "lists (s_log s) (s_log_list s) = Some l"
    using assms unfolding log_rep_def by (rule llist_repE)
  show "NULL \<notin> set ps" by (rule chain_NULL_notin [OF l(1)])
  show "length ps = length ms" using l(2) by (metis length_map)
qed

lemma log_rep_fields:
  "s_log s' = s_log s \<Longrightarrow> s_log_list s' = s_log_list s \<Longrightarrow> log_rep s' ps ms = log_rep s ps ms"
  by (simp add: log_rep_def)

section \<open>Steps of a listener\<close>

text \<open>Threads: one socket is at a new stage, and the sender has not moved.\<close>

lemma threads_moved:
  assumes "\<And>fd st sc. th fd = Some (st, sc) \<Longrightarrow> thread_ok cs ps ds ms (ns fd) w fd st"
    and "thread_ok cs ps ds ms n w' fd st'" and "others_same w w' fd"
    and "(th(fd \<mapsto> (st', sc'))) fd' = Some (st, sc)"
  shows "thread_ok cs ps ds ms ((ns(fd := n)) fd') w' fd' st"
proof (cases "fd' = fd")
  case False
  with assms(4) have "thread_ok cs ps ds ms (ns fd') w fd' st" by (auto intro: assms(1))
  then show ?thesis using assms(3) False by (auto simp: others_same_def intro: thread_ok_frame)
qed (use assms(2,4) in simp)

lemma joined_at_upd [simp]:
  "joined_at (th(fd \<mapsto> (st, sc))) fd' = (if fd' = fd then joined st else joined_at th fd')"
  by (simp add: joined_at_def)

lemma conns_moved:
  assumes "conns_ok th es" "joined st = joined_at th fd" "conns es' = conns es"
  shows "conns_ok (th(fd \<mapsto> (st, sc))) es'"
proof -
  have "map e_fds es' = map snd (conns es')" "map e_fds es = map snd (conns es)" by (simp_all add: conns_def)
  then have 1: "map e_fds es' = map e_fds es" using assms(3) by simp
  have "(\<lambda>e. (e_id e, e_fds e)) ` set es' = set (conns es')" "(\<lambda>e. (e_id e, e_fds e)) ` set es = set (conns es)"
    by (simp_all add: conns_def)
  then have 2: "(\<lambda>e. (e_id e, e_fds e)) ` set es' = (\<lambda>e. (e_id e, e_fds e)) ` set es" using assms(3) by simp
  have "fd' \<in> set (e_fds e) \<longleftrightarrow> joined_at th fd' = Some (e_id e)" if "e \<in> set es'" for e fd'
  proof -
    from that 2 have "(e_id e, e_fds e) \<in> (\<lambda>e. (e_id e, e_fds e)) ` set es" by blast
    then obtain e0 where "e0 \<in> set es" "e_id e0 = e_id e" "e_fds e0 = e_fds e" by auto
    with assms(1) show ?thesis unfolding conns_ok_def by metis
  qed
  moreover have "joined_at (th(fd \<mapsto> (st, sc))) = joined_at th" using assms(2) by auto
  ultimately show ?thesis using assms(1) 1 unfolding conns_ok_def by simp
qed

text \<open>The notes.\<close>

lemma moved_fields [simp]:
  "ch_server (move fd st sc s w t) = s" "ch_net (move fd st sc s w t) = w"
  "ch_sender (move fd st sc s w t) = ch_sender t" "ch_posted (move fd st sc s w t) = ch_posted t"
  "ch_threads (move fd st sc s w t) = (ch_threads t)(fd \<mapsto> (st, sc))" "ch_done (move fd st sc s w t) = ch_done t"
  "ch_read (move fd st sc s w t) = ch_read t" "ch_notes (move fd st sc s w t) = ch_notes t"
  by (simp_all add: move_def)

lemma noting_fields [simp]:
  "ch_server (noting fd f t) = ch_server t" "ch_net (noting fd f t) = ch_net t"
  "ch_sender (noting fd f t) = ch_sender t" "ch_posted (noting fd f t) = ch_posted t"
  "ch_threads (noting fd f t) = ch_threads t" "ch_done (noting fd f t) = ch_done t"
  "ch_read (noting fd f t) = ch_read t" "ch_notes (noting fd f t) = (ch_notes t)(fd := f (ch_notes t fd))"
  by (simp_all add: noting_def)

lemma up_to_date_fields [simp]:
  "ch_server (up_to_date C t) = ch_server t" "ch_net (up_to_date C t) = ch_net t"
  "ch_sender (up_to_date C t) = ch_sender t" "ch_posted (up_to_date C t) = ch_posted t"
  "ch_threads (up_to_date C t) = ch_threads t" "ch_done (up_to_date C t) = ch_done t"
  "ch_notes (up_to_date C t) = ch_notes t"
  "ch_read (up_to_date C t) = (\<lambda>cid. if cid \<in> C then length (ch_log t) else ch_read t cid)"
  by (simp_all add: up_to_date_def)

lemma post_fields [simp]:
  "ch_server (post ms t) = ch_server t" "ch_net (post ms t) = ch_net t"
  "ch_sender (post ms t) = ch_sender t" "ch_posted (post ms t) = ch_posted t @ ms"
  "ch_threads (post ms t) = ch_threads t" "ch_done (post ms t) = ch_done t"
  "ch_read (post ms t) = ch_read t" "ch_notes (post ms t) = ch_notes t"
  by (simp_all add: post_def)

text \<open>A listener's step that leaves the clients' connections as they are.\<close>

lemma listener_moves:
  assumes rep: "chat_rep cs t k es ps bs xs"
    and s: "clients_rep k s es'" "map entry_ref es' = cs" "conns es' = conns es"
    and log: "s_log s = s_log (ch_server t)" "s_log_list s = s_log_list (ch_server t)"
    and jobs: "jq_holds (s_sendqueue s) (s_jobs s) (xs @ ms)"
    and t': "ch_server t' = s" "ch_net t' = w" "ch_sender t' = ch_sender t" "ch_posted t' = ch_posted t @ ms"
      "ch_threads t' = (ch_threads t)(fd \<mapsto> (st, sc))" "ch_done t' = ch_done t" "ch_notes t' = (ch_notes t)(fd := n)"
    and places: "\<And>e. e \<in> set es' \<Longrightarrow> placed ps (e_last e) (ch_read t' (e_id e))"
    and st: "joined st = joined_at (ch_threads t) fd"
    and w: "thread_ok (set cs) ps bs (bs @ logged (ch_sender t)) n w fd st" "others_same (ch_net t) w fd"
  shows "chat_rep cs t' k es' ps bs (xs @ ms)"
  using rep
proof (rule chat_repE)
  assume r: "log_rep (ch_server t) ps (bs @ logged (ch_sender t))" "ch_done t = bs"
    "ch_posted t = bs @ logged (ch_sender t) @ in_hand (ch_sender t) @ xs"
    "node_ok (ch_sender t) ps" "conns_ok (ch_threads t) es"
    and th: "\<And>fd st sc. ch_threads t fd = Some (st, sc) \<Longrightarrow>
        thread_ok (set cs) ps bs (bs @ logged (ch_sender t)) (ch_notes t fd) (ch_net t) fd st"
  show ?thesis
  proof (rule chat_repI, unfold t')
    show "log_rep s ps (bs @ logged (ch_sender t))" using r(1) log_rep_fields [OF log] by simp
    show "ch_posted t @ ms = bs @ logged (ch_sender t) @ in_hand (ch_sender t) @ xs @ ms" using r(3) by simp
    show "conns_ok ((ch_threads t)(fd \<mapsto> (st, sc))) es'" by (rule conns_moved [OF r(5) st s(3)])
    show "thread_ok (set cs) ps bs (bs @ logged (ch_sender t)) (((ch_notes t)(fd := n)) fd') w fd' st'"
      if "((ch_threads t)(fd \<mapsto> (st, sc))) fd' = Some (st', sc')" for fd' st' sc'
      by (rule threads_moved [where th = "ch_threads t", OF th w that])
  qed (fact s(1) s(2) jobs r(2,4) places)+
qed

lemma post_Nil [simp]: "post [] t = t"
  by (simp add: post_def)

text \<open>The same when the server's state does not change at all.\<close>

lemma listener_waits:
  assumes rep: "chat_rep cs t k es ps bs xs"
    and st: "joined st = joined_at (ch_threads t) fd"
    and w: "thread_ok (set cs) ps bs (bs @ logged (ch_sender t)) (f (ch_notes t fd)) w fd st"
      "others_same (ch_net t) w fd"
  shows "chat_rep cs (noting fd f (move fd st sc (ch_server t) w t)) k es ps bs xs"
  using rep
proof (rule chat_repE)
  assume r: "clients_rep k (ch_server t) es" "map entry_ref es = cs"
    "jq_holds (s_sendqueue (ch_server t)) (s_jobs (ch_server t)) xs"
    and e: "\<And>e. e \<in> set es \<Longrightarrow> placed ps (e_last e) (ch_read t (e_id e))"
  from listener_moves [OF rep r(1,2) refl refl refl, of "[]"
      "noting fd f (move fd st sc (ch_server t) w t)", OF _ _ _ _ _ _ _ _ _ st w] r(3) e show ?thesis by simp
qed

lemma noting_id [simp]: "noting fd (\<lambda>n. n) t = t"
  by (simp add: noting_def)

lemma listener_waits_plain:
  assumes "chat_rep cs t k es ps bs xs" "joined st = joined_at (ch_threads t) fd"
    and "thread_ok (set cs) ps bs (bs @ logged (ch_sender t)) (ch_notes t fd) w fd st" "others_same (ch_net t) w fd"
  shows "chat_rep cs (move fd st sc (ch_server t) w t) k es ps bs xs"
  using listener_waits [OF assms(1,2), of "\<lambda>n. n"] assms(3,4) by simp

lemma accept_inv:
  assumes rep: "chat_rep cs t k es ps bs xs"
    and "\<forall>st sc'. ch_threads t fd = Some (st, sc') \<longrightarrow> st = Closed"
  shows "chat_rep cs (noting fd (\<lambda>_. \<lparr>nt_script = out, nt_from = 0, nt_upto = 0, nt_join = 0\<rparr>)
       (move fd Greeting sc (ch_server t) (opened fd out (ch_net t)) t)) k es ps bs xs"
proof (rule listener_waits [OF rep])
  show "joined Greeting = joined_at (ch_threads t) fd"
    using assms(2) by (auto simp: joined_at_def split: option.split)
qed (simp_all add: thread_ok_def opened_def scripted_def troubled_def others_same_def untouched_def)

lemma refuse_inv:
  assumes rep: "chat_rep cs t k es ps bs xs"
    and th: "ch_threads t fd = Some (Greeting, sc)"
    and run: "listener_hello fd sc (ch_server t) (ch_net t) = Some (Inr (Refused, sc', w))"
  shows "chat_rep cs (move fd Closed sc' (ch_server t) w t) k es ps bs xs"
  by (rule listener_waits_plain [OF rep])
     (simp_all add: joined_at_def th thread_ok_def hello_same [OF run])

lemma welcome_inv:
  assumes rep: "chat_rep cs t k es ps bs xs"
    and th: "ch_threads t fd = Some (Greeting, sc)"
    and run: "listener_hello fd sc (ch_server t) (ch_net t) = Some (Inr (Welcome c cid, sc', w))"
  shows "chat_rep cs (move fd (Welcomed c cid) sc' (ch_server t) w t) k es ps bs xs"
proof (rule listener_waits_plain [OF rep])
  let ?n = "ch_notes t fd"
  show "joined (Welcomed c cid) = joined_at (ch_threads t) fd" by (simp add: joined_at_def th)
  show "others_same (ch_net t) w fd" by (rule hello_same [OF run])
  from rep obtain r: "clients_rep k (ch_server t) es" "map entry_ref es = cs" by (auto elim!: chat_repE)
  note hi = hello_welcomes [OF r(1) run]
  have q: "\<not> shut (ch_net t) fd" "scripted ?n (ch_net t) fd" "pieces (troubled ?n (ch_net t) fd) [] (wire (ch_net t) fd)"
    using chat_rep_thread [OF rep th] by (simp_all add: thread_ok_def)
  have "got welcome_msg (ch_net t) w fd" using hi by blast
  note got = got_pieces [OF this q(2,3)]
  have "(cid, c) \<in> set cs" using hi r(2) by auto
  then show "thread_ok (set cs) ps bs (bs @ logged (ch_sender t)) ?n w fd (Welcomed c cid)"
    using got q(1) hi by (simp add: thread_ok_def)
qed

lemma announce_inv:
  assumes rep: "chat_rep cs t k es ps bs xs"
    and th: "ch_threads t fd = Some (Welcomed c cid, sc)"
    and run: "jq_fresh (s_jobs (ch_server t)) p"
      "jobqueue_enqueue (s_sendqueue (ch_server t)) m p (s_jobs (ch_server t)) = Inr (st, wk)"
  shows "chat_rep cs (post [m] (move fd (Announced c cid) sc ((ch_server t)\<lparr>s_jobs := st\<rparr>) (ch_net t) t))
     k es ps bs (xs @ [m])"
  using rep
proof (rule chat_repE)
  assume r: "clients_rep k (ch_server t) es" "map entry_ref es = cs"
    "jq_holds (s_sendqueue (ch_server t)) (s_jobs (ch_server t)) xs"
    and e: "\<And>e. e \<in> set es \<Longrightarrow> placed ps (e_last e) (ch_read t (e_id e))"
  show ?thesis
  proof (rule listener_moves [OF rep])
    show "jq_holds (s_sendqueue (ch_server t\<lparr>s_jobs := st\<rparr>)) (s_jobs (ch_server t\<lparr>s_jobs := st\<rparr>)) (xs @ [m])"
      using jq.enq_appends [OF r(3) run] by simp
    show "thread_ok (set cs) ps bs (bs @ logged (ch_sender t)) (ch_notes t fd) (ch_net t) fd (Announced c cid)"
      using chat_rep_thread [OF rep th] by (simp add: thread_ok_def)
    show "joined (Announced c cid) = joined_at (ch_threads t) fd" by (simp add: joined_at_def th)
  qed (use r e in simp_all)
qed

text \<open>What a turn does: it touches nothing but the queue.\<close>

lemma turn_effect:
  assumes "listener_turn junk p sc s = Some (Inr (again, ms, sc', s'))"
    and "jq_holds (s_sendqueue s) (s_jobs s) xs" "jq_fresh (s_jobs s) p"
  shows "\<exists>st. s' = s\<lparr>s_jobs := st\<rparr> \<and> jq_holds (s_sendqueue s) st (xs @ ms)"
proof -
  have "(ms = [] \<and> s' = s) \<or> (\<exists>m st wk. ms = [m] \<and> s' = s\<lparr>s_jobs := st\<rparr>
      \<and> jobqueue_enqueue (s_sendqueue s) m p (s_jobs s) = Inr (st, wk))"
    using assms(1) unfolding listener_turn_def
    by (auto simp: bind_run_eq_Inr split: option.split_asm if_split_asm)
  then show ?thesis
  proof (elim disjE exE conjE)
    assume "ms = []" "s' = s"
    then show ?thesis using assms(2) by (intro exI [of _ "s_jobs s"]) simp
  next
    fix m st wk
    assume x: "ms = [m]" "s' = s\<lparr>s_jobs := st\<rparr>" "jobqueue_enqueue (s_sendqueue s) m p (s_jobs s) = Inr (st, wk)"
    then show ?thesis using jq.enq_appends [OF assms(2,3) x(3)] by blast
  qed
qed

lemma turn_inv:
  assumes rep: "chat_rep cs t k es ps bs xs"
    and th: "ch_threads t fd = Some (Serving cid, sc)"
    and run: "jq_fresh (s_jobs (ch_server t)) p"
      "listener_turn junk p sc (ch_server t) = Some (Inr (again, ms, sc', s))"
  shows "chat_rep cs (post ms (move fd (if again then Serving cid else Leaving cid) sc' s (ch_net t) t))
     k es ps bs (xs @ ms)"
  using rep
proof (rule chat_repE)
  assume r: "clients_rep k (ch_server t) es" "map entry_ref es = cs"
    "jq_holds (s_sendqueue (ch_server t)) (s_jobs (ch_server t)) xs"
    and e: "\<And>e. e \<in> set es \<Longrightarrow> placed ps (e_last e) (ch_read t (e_id e))"
  obtain st where st: "s = (ch_server t)\<lparr>s_jobs := st\<rparr>" "jq_holds (s_sendqueue (ch_server t)) st (xs @ ms)"
    using turn_effect [OF run(2) r(3) run(1)] by blast
  show ?thesis
  proof (rule listener_moves [OF rep])
    show "thread_ok (set cs) ps bs (bs @ logged (ch_sender t)) (ch_notes t fd) (ch_net t) fd
        (if again then Serving cid else Leaving cid)"
      using chat_rep_thread [OF rep th] by (simp add: thread_ok_def)
    show "joined (if again then Serving cid else Leaving cid) = joined_at (ch_threads t) fd"
      by (simp add: joined_at_def th)
  qed (use r e st in simp_all)
qed

text \<open>The replay.\<close>

lemma logged_short: "length (logged pc) \<le> 1"
  by (cases pc) simp_all

lemma placed_end: "placed ps (log_end ps) (length ps)"
  by (auto simp: placed_def log_end_def last_conv_nth)

lemma placed_append: "placed ps p r \<Longrightarrow> placed (ps @ [np]) p r"
  by (auto simp: placed_def nth_append)

lemma log_list:
  assumes "log_rep s ps ms"
  obtains l where "get_list (s_log s) (s_log_list s) = Inr l" "nchain (nexts (s_log s)) (l_head l) ps"
    "map (datas (s_log s)) ps = map Some ms" "l_tail l = log_end ps"
  using assms unfolding log_rep_def log_end_def by (elim llist_repE) simp

lemma ff_start_ok:
  assumes log: "log_rep s ps ms" and rep: "clients_rep k s es" and e: "e \<in> set es"
    and r: "placed ps (e_last e) r"
  shows "\<exists>cur. ff_start (e_ptr e) s = Some (Inr cur) \<and> cursor_at ps cur (r - 1)"
proof -
  obtain l where l: "get_list (s_log s) (s_log_list s) = Inr l" "nchain (nexts (s_log s)) (l_head l) ps"
    using log by (rule log_list)
  have "ps ! (r - 1) \<noteq> NULL" if "r \<noteq> 0"
  proof -
    have "r - 1 < length ps" using r that unfolding placed_def by linarith
    then have "ps ! (r - 1) \<in> set ps" by (rule nth_mem)
    then show ?thesis using log_rep_facts(1) [OF log] by metis
  qed
  then have "e_last e = NULL \<longleftrightarrow> r = 0" using r by (auto simp: placed_def)
  moreover have "l_head l = (if ps = [] then NULL else ps ! 0)" using l(2) by (cases ps) auto
  ultimately have "cursor_at ps (if e_last e = NULL then l_head l else e_last e) (r - 1)"
    using r by (auto simp: cursor_at_def placed_def)
  then show ?thesis using get_client_entry [OF rep e] l(1)
    by (intro exI [of _ "if e_last e = NULL then l_head l else e_last e"]) (simp add: ff_start_def)
qed

lemma ff_finish_ok:
  assumes log: "log_rep s ps ms" and rep: "clients_rep k s (as @ e # ds)"
    and i: "cursor_at ps cur i" and m: "\<forall>m \<in> set ms. sendable m"
  shows "\<exists>ok cells w'. ff_finish (e_ptr e) fd cur s w = Some (Inr (if ok then 0 else -1, s\<lparr>s_cells := cells\<rparr>, w'))
     \<and> sent_part (all_bytes (others (e_id e) (drop i ms))) fd ok w w'
     \<and> clients_rep k (s\<lparr>s_cells := cells\<rparr>) (as @ (if ok then e\<lparr>e_last := log_end ps\<rparr> else e) # ds)"
proof -
  have ex: "e \<in> set (as @ e # ds)" by simp
  note ec = get_client_entry [OF rep ex]
  obtain l where l: "get_list (s_log s) (s_log_list s) = Inr l" "l_tail l = log_end ps"
    using log by (rule log_list)
  have "nchain (nexts (s_log s)) cur (drop i ps)" "map (datas (s_log s)) (drop i ps) = map Some (drop i ms)"
    using i log log_rep_facts(2) [OF log] llist_suffix [of "s_log s" "s_log_list s" ps ms i]
    by (cases "i < length ps"; simp add: cursor_at_def log_rep_def)+
  moreover have "\<forall>m \<in> set (drop i ms). sendable m" using m by (meson in_set_dropD)
  ultimately obtain ok w' where x: "fast_forward_loop (e_id e) fd cur s w = Some (Inr (ok, w'))"
    "sent_part (all_bytes (others (e_id e) (drop i ms))) fd ok w w'"
    using fast_forward_loop_ok by blast
  let ?s = "set_client s (e_ptr e) \<lparr>c_id = e_id e, c_sockfds = e_list e, c_last_read = log_end ps\<rparr>"
  have run: "ff_finish (e_ptr e) fd cur s w =
      (if ok then Some (Inr (0, ?s, w')) else Some (Inr (-1, s, w')))"
    unfolding ff_finish_def ec(1) l(1) bind_run_simps client.select_convs x(1) prod.case
    by (simp add: l(2))
  show ?thesis
  proof (cases ok)
    case True
    then show ?thesis using run x(2) clients_rep_last [OF rep, of "log_end ps"]
      by (intro exI [of _ True] exI [of _ "s_cells ?s"] exI [of _ w']) (simp add: set_client_def)
  next
    case False
    then show ?thesis using run x(2) rep
      by (intro exI [of _ False] exI [of _ "s_cells s"] exI [of _ w']) simp
  qed
qed

lemma known_entry:
  assumes "chat_rep cs t k es ps bs xs" "(cid, c) \<in> set cs"
  obtains as e ds where "es = as @ e # ds" "e_id e = cid" "e_ptr e = c" "distinct (map e_id es)"
proof -
  from assms obtain e where e: "e \<in> set es" "e_id e = cid" "e_ptr e = c" by (auto simp: chat_rep_def entry_ref_def)
  moreover have "distinct (map e_id es)" using assms(1) by (auto simp: chat_rep_def clients_rep_def)
  ultimately show thesis using that by (metis in_set_conv_decomp)
qed

lemma replay_inv:
  assumes rep: "chat_rep cs t k es ps bs xs"
    and th: "ch_threads t fd = Some (Announced c cid, sc)"
    and run: "ff_start c (ch_server t) = Some (Inr cur)"
  shows "chat_rep cs (noting fd (\<lambda>n. n\<lparr>nt_from := ch_read t cid - 1\<rparr>)
       (move fd (Replaying c cid cur) sc (ch_server t) (ch_net t) t)) k es ps bs xs"
proof (rule listener_waits [OF rep])
  let ?n = "ch_notes t fd"
  note tk = chat_rep_thread [OF rep th]
  then have "(cid, c) \<in> set cs" by (simp add: thread_ok_def)
  from known_entry [OF rep this] obtain as e ds where e: "es = as @ e # ds" "e_id e = cid" "e_ptr e = c" .
  have r: "log_rep (ch_server t) ps (bs @ logged (ch_sender t))" "clients_rep k (ch_server t) es"
    "placed ps (e_last e) (ch_read t cid)" "e \<in> set es"
    using rep e by (auto simp: chat_rep_def)
  have "cursor_at ps cur (ch_read t cid - 1)" using ff_start_ok [OF r(1,2,4,3)] run e(3) by auto
  then show "thread_ok (set cs) ps bs (bs @ logged (ch_sender t)) (?n\<lparr>nt_from := ch_read t cid - 1\<rparr>) (ch_net t) fd
      (Replaying c cid cur)"
    using tk by (simp add: thread_ok_def scripted_def troubled_def)
  show "joined (Replaying c cid cur) = joined_at (ch_threads t) fd" by (simp add: joined_at_def th)
qed simp

lemma replayed_inv:
  assumes rep: "chat_rep cs t k es ps bs xs" and m: "\<forall>m \<in> set (ch_posted t). sendable m"
    and th: "ch_threads t fd = Some (Replaying c cid cur, sc)"
    and run: "ff_finish c fd cur (ch_server t) (ch_net t) = Some (Inr (ret, s, w))"
  shows "\<exists>es'. chat_rep cs (up_to_date (if ret = 0 then {cid} else {})
       (noting fd (\<lambda>n. n\<lparr>nt_upto := length (ch_log t)\<rparr>) (move fd (Replayed c cid) sc s w t))) k es' ps bs xs"
  using rep
proof (rule chat_repE)
  let ?ms = "bs @ logged (ch_sender t)" and ?n = "ch_notes t fd"
  let ?n' = "?n\<lparr>nt_upto := length (ch_log t)\<rparr>"
  let ?t = "up_to_date (if ret = 0 then {cid} else {})
       (noting fd (\<lambda>n. n\<lparr>nt_upto := length (ch_log t)\<rparr>) (move fd (Replayed c cid) sc s w t))"
  assume r: "clients_rep k (ch_server t) es" "map entry_ref es = cs" "log_rep (ch_server t) ps ?ms"
    "jq_holds (s_sendqueue (ch_server t)) (s_jobs (ch_server t)) xs" "ch_done t = bs"
    "ch_posted t = bs @ logged (ch_sender t) @ in_hand (ch_sender t) @ xs"
    and e: "\<And>e. e \<in> set es \<Longrightarrow> placed ps (e_last e) (ch_read t (e_id e))"
  have q: "(cid, c) \<in> set cs" "cursor_at ps cur (nt_from ?n)" "\<not> shut (ch_net t) fd" "scripted ?n (ch_net t) fd"
    "pieces (troubled ?n (ch_net t) fd) [welcome_msg] (wire (ch_net t) fd)"
    using chat_rep_thread [OF rep th] by (simp_all add: thread_ok_def)
  from known_entry [OF rep q(1)] obtain as e0 ds where
    e0: "es = as @ e0 # ds" "e_id e0 = cid" "e_ptr e0 = c" "distinct (map e_id es)" .
  have "\<forall>m \<in> set ?ms. sendable m" using m r(6) by auto
  from ff_finish_ok [OF r(3) r(1) [unfolded e0(1)] q(2) this, of fd "ch_net t"] run e0(2,3)
  obtain go cells where g: "sent_part (all_bytes (others cid (drop (nt_from ?n) ?ms))) fd go (ch_net t) w"
    "clients_rep k s (as @ (if go then e0\<lparr>e_last := log_end ps\<rparr> else e0) # ds)"
    "s = (ch_server t)\<lparr>s_cells := cells\<rparr>" "ret = (if go then 0 else -1)" by auto
  let ?es = "as @ (if go then e0\<lparr>e_last := log_end ps\<rparr> else e0) # ds"
  have len: "length ps = length ?ms" by (rule log_rep_facts(2) [OF r(3)])
  have shut: "shut w = shut (ch_net t)" using run unfolding ff_finish_def
    by (auto simp: bind_run_def split: option.splits sum.splits if_split_asm dest!: fast_forward_loop_shut)
  note p = sent_part_pieces [OF g(1) q(4,5)]
  have log: "ch_log t = ?ms" by (simp add: ch_log_def r(5))
  have "nt_from ?n \<le> length ?ms" using q(2) len by (simp add: cursor_at_def)
  moreover have "length ?ms \<le> length bs + 1" by (simp only: logged_short add_le_cancel_left length_append)
  ultimately have "heard bs ?ms ?n' (Replayed c cid) ([welcome_msg] @ others cid (drop (nt_from ?n) ?ms))"
    by (simp add: replay_ok_def replay_of_def log)
  moreover have "scripted ?n' w fd \<and> troubled ?n' w fd = troubled ?n w fd"
    using p(2) by (simp add: scripted_def troubled_def)
  ultimately have tk: "thread_ok (set cs) ps bs ?ms ?n' w fd (Replayed c cid)"
    using p(1) q(1,3) shut unfolding thread_ok_def knows.simps reading.simps by auto
  have "chat_rep cs ?t k ?es ps bs (xs @ [])"
  proof (rule listener_moves [OF rep, where fd = fd and st = "Replayed c cid"])
    show "map entry_ref ?es = cs" using r(2) by (simp add: e0(1) entry_ref_def)
    show "conns ?es = conns es" by (simp add: e0(1) conns_def)
    show "joined (Replayed c cid) = joined_at (ch_threads t) fd" by (simp add: joined_at_def th)
    show "others_same (ch_net t) w fd" using p(3) shut by (simp add: others_same_def)
    show "placed ps (e_last e1) (ch_read ?t (e_id e1))" if e1: "e1 \<in> set ?es" for e1
    proof (cases "e1 \<in> set (as @ ds)")
      case True
      moreover have "e_id e0 \<notin> e_id ` set (as @ ds)" using e0(1,4) by auto
      ultimately have "e_id e1 \<noteq> cid" using e0(2) by (metis imageI)
      then show ?thesis using e [of e1] True e0(1) by simp
    next
      case False
      then have "e1 = (if go then e0\<lparr>e_last := log_end ps\<rparr> else e0)" using e1 by auto
      then show ?thesis using e [of e0] e0(1,2) g(4) placed_end [of ps] len log by (simp add: ch_log_def move_def noting_def)
    qed
  qed (use g tk r(4) in simp_all)
  then show ?thesis by auto
qed

text \<open>Joining and leaving change one client's connections, and with them what its threads have joined.\<close>

lemma conns_ok_change:
  assumes "conns_ok th (as @ e # ds)" "distinct (map e_id (as @ e # ds))" "e_id e' = e_id e"
    and "distinct (concat (map e_fds (as @ e' # ds)))"
    and "\<And>fd. fd \<in> set (e_fds e') \<longleftrightarrow> joined_at th' fd = Some (e_id e)"
    and "\<And>fd i. i \<noteq> e_id e \<Longrightarrow> joined_at th' fd = Some i \<longleftrightarrow> joined_at th fd = Some i"
  shows "conns_ok th' (as @ e' # ds)"
proof -
  have "fd \<in> set (e_fds x) \<longleftrightarrow> joined_at th' fd = Some (e_id x)" if x: "x \<in> set (as @ e' # ds)" for x fd
  proof (cases "x = e'")
    case False
    with x have x: "x \<in> set (as @ ds)" by auto
    then have "fd \<in> set (e_fds x) \<longleftrightarrow> joined_at th fd = Some (e_id x)" using assms(1) by (auto simp: conns_ok_def)
    moreover have "e_id e \<notin> e_id ` set (as @ ds)" using assms(2) by auto
    with x have "e_id x \<noteq> e_id e" by (metis imageI)
    ultimately show ?thesis using assms(6) by simp
  qed (use assms(3,5) in simp)
  with assms(4) show ?thesis by (simp add: conns_ok_def)
qed

lemma conns_ok_join:
  assumes "conns_ok th (as @ e # ds)" "joined_at th fd = None" "joined st = Some (e_id e)"
    and "distinct (map e_id (as @ e # ds))" "e_id e' = e_id e" "e_fds e' = e_fds e @ [fd]"
  shows "conns_ok (th(fd \<mapsto> (st, sc))) (as @ e' # ds)"
proof (rule conns_ok_change [OF assms(1,4,5)])
  have no: "fd \<notin> set (e_fds x)" if "x \<in> set (as @ e # ds)" for x
    using assms(1,2) that unfolding conns_ok_def by auto
  have "distinct (concat (map e_fds (as @ e # ds)))" using assms(1) by (simp add: conns_ok_def)
  then show "distinct (concat (map e_fds (as @ e' # ds)))" using no assms(6) by auto
  show "fd' \<in> set (e_fds e') \<longleftrightarrow> joined_at (th(fd \<mapsto> (st, sc))) fd' = Some (e_id e)" for fd'
    using assms(1,3,6) by (auto simp: conns_ok_def)
qed (use assms(2,3) in auto)

lemma conns_ok_leave:
  assumes "conns_ok th (as @ e # ds)" "joined_at th fd = Some (e_id e)" "joined st = None"
    and "distinct (map e_id (as @ e # ds))" "e_id e' = e_id e" "e_fds e' = remove1 fd (e_fds e)"
  shows "conns_ok (th(fd \<mapsto> (st, sc))) (as @ e' # ds)"
proof (rule conns_ok_change [OF assms(1,4,5)])
  have "distinct (concat (map e_fds (as @ e # ds)))" using assms(1) by (simp add: conns_ok_def)
  then have d: "distinct (e_fds e)" and "distinct (concat (map e_fds (as @ e' # ds)))"
    using assms(6) set_remove1_subset [of fd "e_fds e"] by auto
  then show "distinct (concat (map e_fds (as @ e' # ds)))" by simp
  show "fd' \<in> set (e_fds e') \<longleftrightarrow> joined_at (th(fd \<mapsto> (st, sc))) fd' = Some (e_id e)" for fd'
    using assms(1,3,6) d by (auto simp: conns_ok_def)
qed (use assms(2,3) in auto)

text \<open>A step that replaces one client's entry.\<close>

lemma entry_moves:
  assumes rep: "chat_rep cs t k (as @ e # ds) ps bs xs"
    and s: "clients_rep k s (as @ e' # ds)" "s = (ch_server t)\<lparr>s_fds := f\<rparr>"
    and e': "entry_ref e' = entry_ref e" "e_last e' = e_last e"
    and conns: "conns_ok ((ch_threads t)(fd \<mapsto> (st, sc))) (as @ e' # ds)"
    and t': "ch_server t' = s" "ch_net t' = w" "ch_sender t' = ch_sender t" "ch_posted t' = ch_posted t"
      "ch_threads t' = (ch_threads t)(fd \<mapsto> (st, sc))" "ch_done t' = ch_done t" "ch_read t' = ch_read t"
      "ch_notes t' = (ch_notes t)(fd := n)"
    and w: "thread_ok (set cs) ps bs (bs @ logged (ch_sender t)) n w fd st" "others_same (ch_net t) w fd"
  shows "chat_rep cs t' k (as @ e' # ds) ps bs xs"
  using rep
proof (rule chat_repE)
  assume r: "map entry_ref (as @ e # ds) = cs" "log_rep (ch_server t) ps (bs @ logged (ch_sender t))"
    "jq_holds (s_sendqueue (ch_server t)) (s_jobs (ch_server t)) xs" "ch_done t = bs"
    "ch_posted t = bs @ logged (ch_sender t) @ in_hand (ch_sender t) @ xs" "node_ok (ch_sender t) ps"
    and st: "\<And>e0. e0 \<in> set (as @ e # ds) \<Longrightarrow> placed ps (e_last e0) (ch_read t (e_id e0))"
    and th: "\<And>fd st sc. ch_threads t fd = Some (st, sc) \<Longrightarrow>
        thread_ok (set cs) ps bs (bs @ logged (ch_sender t)) (ch_notes t fd) (ch_net t) fd st"
  have id: "e_id e' = e_id e" using e'(1) by (simp add: entry_ref_def)
  show ?thesis
  proof (rule chat_repI, unfold t')
    show "map entry_ref (as @ e' # ds) = cs" using r(1) e'(1) by simp
    show "log_rep s ps (bs @ logged (ch_sender t))" using r(2) s(2) by simp
    show "jq_holds (s_sendqueue s) (s_jobs s) xs" using r(3) s(2) by simp
    show "placed ps (e_last e0) (ch_read t (e_id e0))" if "e0 \<in> set (as @ e' # ds)" for e0
      using that st [of e0] st [of e] e'(2) id by auto
    show "thread_ok (set cs) ps bs (bs @ logged (ch_sender t)) (((ch_notes t)(fd := n)) fd') w fd' st'"
      if "((ch_threads t)(fd \<mapsto> (st, sc))) fd' = Some (st', sc')" for fd' st' sc'
      by (rule threads_moved [where th = "ch_threads t", OF th w that])
  qed (fact s(1) r(4-6) conns)+
qed

lemma chat_rep_entry:
  assumes "chat_rep cs t k es ps bs xs" "cid \<in> fst ` set cs"
  shows "\<exists>as e ds. es = as @ e # ds \<and> e_id e = cid \<and> distinct (map e_id es)"
proof -
  from assms obtain e where e: "e \<in> set es" "e_id e = cid" by (auto simp: chat_rep_def entry_ref_def)
  moreover have "distinct (map e_id es)" using assms(1) by (auto simp: chat_rep_def clients_rep_def)
  ultimately show ?thesis by (metis in_set_conv_decomp)
qed

lemma join_inv:
  assumes rep: "chat_rep cs t k es ps bs xs"
    and th: "ch_threads t fd = Some (Replayed c cid, sc)"
    and np: "np \<noteq> NULL" "nodes (s_fds (ch_server t)) np = None"
    and run: "client_hash_add_connection cid fd np (ch_server t) = Some (Inr s)"
  shows "\<exists>es'. chat_rep cs (noting fd (\<lambda>n. n\<lparr>nt_join := length (ch_done t)\<rparr>)
       (move fd (Serving cid) sc s (ch_net t) t)) k es' ps bs xs"
proof -
  let ?n = "ch_notes t fd" and ?ms = "bs @ logged (ch_sender t)"
  let ?n' = "?n\<lparr>nt_join := length (ch_done t)\<rparr>"
  note tk = chat_rep_thread [OF rep th]
  then have cid: "cid \<in> fst ` set cs" by (force simp: thread_ok_def)
  from chat_rep_entry [OF rep this] obtain as e ds where
    e: "es = as @ e # ds" "e_id e = cid" "distinct (map e_id es)" by blast
  have cr: "clients_rep k (ch_server t) (as @ e # ds)" "conns_ok (ch_threads t) (as @ e # ds)" "ch_done t = bs"
    using rep by (simp_all add: chat_rep_def e(1))
  let ?e = "e\<lparr>e_nodes := e_nodes e @ [np], e_fds := e_fds e @ [fd]\<rparr>"
  obtain f where f: "s = (ch_server t)\<lparr>s_fds := f\<rparr>" "clients_rep k s (as @ ?e # ds)"
    using add_connection_present [OF cr(1) np, of fd] run e(2) by auto
  have "heard bs ?ms ?n' (Serving cid) ys" if h: "heard bs ?ms ?n (Replayed c cid) ys" for ys
    using h cr(3) by (simp add: served_def replay_ok_def replay_of_def others_def)
  moreover have "troubled ?n' (ch_net t) fd = troubled ?n (ch_net t) fd"
    "scripted ?n' (ch_net t) fd = scripted ?n (ch_net t) fd" by (simp_all add: troubled_def scripted_def)
  ultimately have "thread_ok (set cs) ps bs ?ms ?n' (ch_net t) fd (Serving cid)"
    using tk cid unfolding thread_ok_def knows.simps reading.simps by auto
  moreover have "conns_ok ((ch_threads t)(fd \<mapsto> (Serving cid, sc))) (as @ ?e # ds)"
    by (rule conns_ok_join [OF cr(2)]) (use e th in \<open>simp_all add: joined_at_def\<close>)
  ultimately have "chat_rep cs (noting fd (\<lambda>n. n\<lparr>nt_join := length (ch_done t)\<rparr>)
       (move fd (Serving cid) sc s (ch_net t) t)) k (as @ ?e # ds) ps bs xs"
    by (intro entry_moves [OF rep [unfolded e(1)] f(2,1), where n = ?n' and w = "ch_net t"]) (simp_all add: entry_ref_def)
  then show ?thesis by blast
qed

lemma leave_inv:
  assumes rep: "chat_rep cs t k es ps bs xs"
    and th: "ch_threads t fd = Some (Leaving cid, sc)"
    and run: "listener_leave cid fd (ch_server t) (ch_net t) = Some (Inr (s, w))"
  shows "\<exists>es'. chat_rep cs (move fd Closed sc s w t) k es' ps bs xs"
proof -
  have "cid \<in> fst ` set cs" using chat_rep_thread [OF rep th] by (force simp: thread_ok_def)
  from chat_rep_entry [OF rep this] obtain as e ds where
    e: "es = as @ e # ds" "e_id e = cid" "distinct (map e_id es)" by blast
  have cr: "clients_rep k (ch_server t) (as @ e # ds)" "conns_ok (ch_threads t) (as @ e # ds)"
    using rep by (simp_all add: chat_rep_def e(1))
  obtain f rs where f: "client_hash_remove_connection (e_id e) fd (ch_server t) = Some (Inr ((ch_server t)\<lparr>s_fds := f\<rparr>))"
    "clients_rep k ((ch_server t)\<lparr>s_fds := f\<rparr>) (as @ e\<lparr>e_nodes := rs, e_fds := remove1 fd (e_fds e)\<rparr> # ds)"
    using remove_connection_present [OF cr(1), of fd] by blast
  let ?e = "e\<lparr>e_nodes := rs, e_fds := remove1 fd (e_fds e)\<rparr>"
  have s: "s = (ch_server t)\<lparr>s_fds := f\<rparr>" "w = (ch_net t)\<lparr>shut := (shut (ch_net t))(fd := True)\<rparr>"
    using run f(1) e(2) by (simp_all add: listener_leave_def)
  have "conns_ok ((ch_threads t)(fd \<mapsto> (Closed, sc))) (as @ ?e # ds)"
    by (rule conns_ok_leave [OF cr(2)]) (use e th in \<open>simp_all add: joined_at_def\<close>)
  then have "chat_rep cs (move fd Closed sc s w t) k (as @ ?e # ds) ps bs xs"
    using f(2) s(2) by (intro entry_moves [OF rep [unfolded e(1)] _ s(1), where n = "ch_notes t fd" and w = w and fd = fd and st = Closed])
      (simp_all add: entry_ref_def s(1) thread_ok_def others_same_def untouched_def)
  then show ?thesis by blast
qed

section \<open>Steps of the sender\<close>

lemma take_inv:
  assumes rep: "chat_rep cs t k es ps bs xs" and idle: "ch_sender t = Idle"
    and run: "jobqueue_dequeue (s_sendqueue (ch_server t)) (s_jobs (ch_server t)) = Inr (Some (m, st))"
  shows "\<exists>ys. chat_rep cs (t\<lparr>ch_sender := Taken m, ch_server := (ch_server t)\<lparr>s_jobs := st\<rparr>\<rparr>) k es ps bs ys"
proof -
  have q: "jq_holds (s_sendqueue (ch_server t)) (s_jobs (ch_server t)) xs" using rep by (simp add: chat_rep_def)
  obtain ys where "xs = m # ys" "jq_holds (s_sendqueue (ch_server t)) st ys"
    using jq.deq_takes_oldest [OF q run] by blast
  with rep idle show ?thesis by (intro exI [of _ ys]) (simp add: chat_rep_def)
qed

lemma thread_ok_log:
  assumes "thread_ok cs ps ds ms n w fd st" "\<And>c cid cur. st \<noteq> Replaying c cid cur"
  shows "thread_ok cs (ps @ [np]) ds (ms @ [m]) n w fd st"
proof -
  have "reading (ps @ [np]) n st" using assms(2) by (cases st) auto
  with assms(1) show ?thesis unfolding thread_ok_def by (blast intro: heard_log)
qed

lemma log_step_inv:
  assumes rep: "chat_rep cs t k es ps bs xs" and pc: "ch_sender t = Taken m" and none: "replaying t = {}"
    and np: "np \<noteq> NULL" "nodes (s_log (ch_server t)) np = None"
    and run: "message_log_append m np (ch_server t) = Inr (node, s)"
  shows "chat_rep cs (t\<lparr>ch_sender := Logged m node, ch_server := s\<rparr>) k es (ps @ [np]) bs xs"
  using rep
proof (rule chat_repE)
  assume r: "clients_rep k (ch_server t) es" "map entry_ref es = cs" "log_rep (ch_server t) ps (bs @ logged (ch_sender t))"
    "jq_holds (s_sendqueue (ch_server t)) (s_jobs (ch_server t)) xs" "ch_done t = bs"
    "ch_posted t = bs @ logged (ch_sender t) @ in_hand (ch_sender t) @ xs" "conns_ok (ch_threads t) es"
    and st: "\<And>e. e \<in> set es \<Longrightarrow> placed ps (e_last e) (ch_read t (e_id e))"
    and th: "\<And>fd st sc. ch_threads t fd = Some (st, sc) \<Longrightarrow>
        thread_ok (set cs) ps bs (bs @ logged (ch_sender t)) (ch_notes t fd) (ch_net t) fd st"
  have log: "log_rep (ch_server t) ps bs" using r(3) by (simp add: pc)
  from message_log_append_ok [OF log np, of m] run obtain lg where
    l: "node = np" "s = (ch_server t)\<lparr>s_log := lg\<rparr>" "log_rep s (ps @ [np]) (bs @ [m])" by auto
  let ?t = "t\<lparr>ch_sender := Logged m node, ch_server := s\<rparr>"
  show ?thesis
  proof (rule chat_repI)
    show "clients_rep k (ch_server ?t) es" using r(1) l(2) by (simp add: clients_rep_def entry_ok_def)
    show "placed (ps @ [np]) (e_last e) (ch_read ?t (e_id e))" if "e \<in> set es" for e
      using st [OF that] by (simp add: placed_append)
    show "thread_ok (set cs) (ps @ [np]) bs (bs @ logged (ch_sender ?t)) (ch_notes ?t fd) (ch_net ?t) fd st"
      if f: "ch_threads ?t fd = Some (st, sc)" for fd st sc
    proof -
      have "st \<noteq> Replaying c cid cur" for c cid cur using none f by (auto simp: replaying_def)
      then show ?thesis using thread_ok_log [OF th, of fd st sc np m] f by (simp add: pc)
    qed
  qed (use r l pc in simp_all)
qed

text \<open>What the sender's loop over the clients does to the sockets: a joined one gets the message.\<close>

lemma targets_iff:
  assumes "conns_ok th es"
  shows "fd \<in> targets m es \<longleftrightarrow> (\<exists>cid. cid \<in> e_id ` set es \<and> joined_at th fd = Some cid \<and> cid \<noteq> uint (msg_id m))"
  using assms unfolding targets_def conns_ok_def by (auto split: if_splits)

lemma broadcast_thread:
  assumes ok: "thread_ok (set cs) ps bs ms n w fd st"
    and d: "delivered m w w' (targets m es)" and conns: "conns_ok th es"
    and th: "th fd = Some (st, sc)" and cs: "map entry_ref es = cs" and shut: "shut w' = shut w"
  shows "thread_ok (set cs) ps (bs @ [m]) ms n w' fd st"
proof (cases "st = Closed")
  case False
  with ok obtain xs where x: "knows (set cs) st" "\<not> shut w fd" "scripted n w fd"
    "heard bs ms n st xs" "pieces (troubled n w fd) xs (wire w fd)" "reading ps n st" by (auto simp: thread_ok_def)
  have j: "joined_at th fd = joined st" by (simp add: joined_at_def th)
  let ?xs = "case joined st of None \<Rightarrow> xs | Some cid \<Rightarrow> xs @ others cid [m]"
  have "pieces (troubled n w' fd) ?xs (wire w' fd) \<and> scripted n w' fd"
  proof (cases "fd \<in> targets m es")
    case True
    then have "?xs = xs @ [m]" using targets_iff [OF conns, of fd m] j by (auto simp: others_def)
    then show ?thesis using got_pieces [OF delivered_in [OF d True] x(3,5)] by simp
  next
    case out: False
    have "?xs = xs"
    proof (cases "joined st")
      case (Some cid)
      then have "cid \<in> fst ` set cs" using x(1) by (cases st) auto
      then have "cid \<in> e_id ` set es" using cs by (force simp: entry_ref_def)
      moreover have "joined_at th fd = Some cid" using j Some by simp
      ultimately have "cid = uint (msg_id m)" using out targets_iff [OF conns, of fd m] by blast
      with Some show ?thesis by (simp add: others_def)
    qed simp
    then show ?thesis using delivered_out [OF d out] x(3,5) by (simp add: untouched_def scripted_def troubled_def)
  qed
  moreover have "heard (bs @ [m]) ms n st ?xs" by (rule heard_broadcast [OF x(4)])
  ultimately show ?thesis using x(1,2,6) shut unfolding thread_ok_def by metis
qed (use ok in \<open>simp add: thread_ok_def\<close>)

lemma broadcast_runs:
  assumes rep: "chat_rep cs t k es ps bs xs" and m: "sendable m"
  shows "\<exists>cells w. sender_loop m node (s_clients (ch_server t)) (ch_server t) (ch_net t)
       = Some (Inr ((ch_server t)\<lparr>s_cells := cells\<rparr>, w))
     \<and> clients_rep k ((ch_server t)\<lparr>s_cells := cells\<rparr>) (map (read_up_to node) es)
     \<and> delivered m (ch_net t) w (targets m es)"
proof -
  have r: "clients_rep k (ch_server t) es" "distinct (concat (map e_fds es))"
    using rep by (simp_all add: chat_rep_def conns_ok_def)
  then have ch: "nchain (appn (s_table (ch_server t))) (s_clients (ch_server t)) (map e_ptr es)"
    by (cases "es = []") (simp_all add: clients_rep_def ut_rep_def)
  from sender_loop_ok [OF m, of k "ch_server t" "[]" es, OF _ ch r(2), of node "ch_net t"] r(1)
  show ?thesis by simp
qed

lemma broadcast_inv:
  assumes rep: "chat_rep cs t k es ps bs xs" and m: "\<forall>m \<in> set (ch_posted t). sendable m"
    and pc: "ch_sender t = Logged m node"
    and run: "sender_loop m node (s_clients (ch_server t)) (ch_server t) (ch_net t) = Some (Inr (s, w))"
  shows "\<exists>es'. chat_rep cs (up_to_date {cid. \<exists>fd. joined_at (ch_threads t) fd = Some cid}
       (t\<lparr>ch_sender := Idle, ch_server := s, ch_net := w, ch_done := ch_done t @ [m]\<rparr>)) k es' ps (bs @ [m]) xs"
  using rep
proof (rule chat_repE)
  assume r: "clients_rep k (ch_server t) es" "map entry_ref es = cs" "log_rep (ch_server t) ps (bs @ logged (ch_sender t))"
    "jq_holds (s_sendqueue (ch_server t)) (s_jobs (ch_server t)) xs" "ch_done t = bs"
    "ch_posted t = bs @ logged (ch_sender t) @ in_hand (ch_sender t) @ xs" "node_ok (ch_sender t) ps"
    "conns_ok (ch_threads t) es"
    and st: "\<And>e. e \<in> set es \<Longrightarrow> placed ps (e_last e) (ch_read t (e_id e))"
    and th: "\<And>fd st sc. ch_threads t fd = Some (st, sc) \<Longrightarrow>
        thread_ok (set cs) ps bs (bs @ logged (ch_sender t)) (ch_notes t fd) (ch_net t) fd st"
  have sm: "sendable m" using m r(6) by (simp add: pc)
  from broadcast_runs [OF rep sm, of node] run
  obtain cells where l: "s = (ch_server t)\<lparr>s_cells := cells\<rparr>" "clients_rep k s (map (read_up_to node) es)"
    "delivered m (ch_net t) w (targets m es)" by auto
  have shut: "shut w = shut (ch_net t)" using sender_loop_shut [OF run] by blast
  let ?u = "t\<lparr>ch_sender := Idle, ch_server := s, ch_net := w, ch_done := ch_done t @ [m]\<rparr>"
  let ?t = "up_to_date {cid. \<exists>fd. joined_at (ch_threads t) fd = Some cid} ?u" and ?es = "map (read_up_to node) es"
  have len: "length ps = Suc (length bs)" using log_rep_facts(2) [OF r(3)] by (simp add: pc)
  have "chat_rep cs ?t k ?es ps (bs @ [m]) xs"
  proof (rule chat_repI)
    show "map entry_ref ?es = cs" using r(2) by (auto simp: entry_ref_def read_up_to_def)
    have "e_fds \<circ> read_up_to node = e_fds" by (auto simp: read_up_to_def)
    then show "conns_ok (ch_threads ?t) ?es" using r(8) by (auto simp: conns_ok_def read_up_to_def)
    show "placed ps (e_last e) (ch_read ?t (e_id e))" if "e \<in> set ?es" for e
    proof -
      from that obtain e0 where e0: "e0 \<in> set es" "e = read_up_to node e0" by auto
      have "(\<exists>fd. joined_at (ch_threads t) fd = Some (e_id e0)) \<longleftrightarrow> e_fds e0 \<noteq> []"
        using r(8) e0(1) unfolding conns_ok_def by (metis list.set_intros(1) list.exhaust empty_iff list.set(1))
      moreover have "placed ps node (length ps)" using placed_end [of ps] r(7) by (simp add: pc log_end_def)
      ultimately show ?thesis using st [OF e0(1)] e0(2) len
        by (cases "e_fds e0 = []") (simp_all add: read_up_to_def ch_log_def r(5))
    qed
    show "thread_ok (set cs) ps (bs @ [m]) ((bs @ [m]) @ logged (ch_sender ?t)) (ch_notes ?t fd) (ch_net ?t) fd st"
      if "ch_threads ?t fd = Some (st, sc)" for fd st sc
      using broadcast_thread [OF _ l(3) r(8) _ r(2) shut, of ps bs "bs @ [m]" "ch_notes t fd" fd st sc] th [of fd st sc] that
      by (simp add: pc)
  qed (use l r pc in \<open>simp_all add: log_rep_def\<close>)
  then show ?thesis by blast
qed

section \<open>Reachable states\<close>

lemma chat_step_posted: "chat_step junk t t' \<Longrightarrow> set (ch_posted t) \<subseteq> set (ch_posted t')"
  by (erule chat_stepE) auto

lemma chat_inv_step:
  assumes "chat_inv cs t" and "chat_step junk t t'"
  shows "chat_inv cs t'"
  unfolding chat_inv_def
proof
  assume m': "\<forall>m \<in> set (ch_posted t'). sendable m"
  then have m: "\<forall>m \<in> set (ch_posted t). sendable m" using chat_step_posted [OF assms(2)] by blast
  with assms(1) obtain k es ps bs xs where rep: "chat_rep cs t k es ps bs xs"
    unfolding chat_inv_def by blast
  show "\<exists>k es ps bs xs. chat_rep cs t' k es ps bs xs"
    using assms(2)
  proof (cases rule: chat_step.cases)
    case (accept_step fd out sc)
    then show ?thesis using accept_inv [OF rep] by blast
  next
    case (refuse_step fd sc sc' w)
    then show ?thesis using refuse_inv [OF rep] by blast
  next
    case (welcome_step fd sc c cid sc' w)
    then show ?thesis using welcome_inv [OF rep] by blast
  next
    case (announce_step fd c cid sc s p m st wk)
    then show ?thesis using announce_inv [OF rep] by blast
  next
    case (replay_step fd c cid sc cur)
    then show ?thesis using replay_inv [OF rep] by blast
  next
    case (replayed_step fd c cid cur sc ret s w)
    show ?thesis unfolding replayed_step(1) using replayed_inv [OF rep m replayed_step(2,3)] by blast
  next
    case (join_step fd c cid sc np s)
    then show ?thesis using join_inv [OF rep] by blast
  next
    case (turn_step fd cid sc p again ms sc' s)
    then show ?thesis using turn_inv [OF rep turn_step(2,3)] by blast
  next
    case (leave_step fd cid sc s w)
    then show ?thesis using leave_inv [OF rep] by blast
  next
    case (take_step s m st)
    then show ?thesis using take_inv [OF rep] by blast
  next
    case (log_step m np node s)
    then show ?thesis using log_step_inv [OF rep] by blast
  next
    case (broadcast_step m node s w)
    show ?thesis unfolding broadcast_step(1) using broadcast_inv [OF rep m broadcast_step(2,3)] by blast
  qed
qed

lemma chat_rep_start:
  assumes "good_addrs ids qp gp lp" "server_init ids qp gp lp = Some (Inr s)"
  shows "\<exists>k es. chat_rep (map entry_ref es) (start_chat s w) k es [] [] []
     \<and> map e_id es = add_ids (map fst ids) []"
proof -
  from server_init_ok [of ids qp gp lp] assms obtain k es where x: "clients_rep k s es"
    "conns es = map (\<lambda>i. (i, [])) (add_ids (map fst ids) [])" "\<forall>e \<in> set es. e_last e = NULL"
    "log_rep s [] []" "jq_holds (s_sendqueue s) (s_jobs s) []"
    by (auto simp: good_addrs_def)
  have "map fst (conns es) = add_ids (map fst ids) []" "snd ` set (conns es) \<subseteq> {[]}"
    unfolding x(2) by (auto simp: comp_def)
  then have f: "map e_id es = add_ids (map fst ids) []" "\<forall>e \<in> set es. e_fds e = []"
    by (auto simp: conns_def comp_def image_subset_iff)
  then have "concat (map e_fds es) = []" by simp
  then have "conns_ok Map.empty es" unfolding conns_ok_def using f(2)
    by (simp only: distinct.simps(1)) (simp add: joined_at_def)
  then have "chat_rep (map entry_ref es) (start_chat s w) k es [] [] []"
    using x by (intro chat_repI) (simp_all add: start_chat_def placed_def)
  with f(1) show ?thesis by blast
qed

lemma reachable_chat_inv:
  assumes "chat_reachable junk cids t"
  shows "\<exists>cs. map fst cs = add_ids cids [] \<and> chat_inv cs t"
  using assms
proof (induction rule: chat_reachable.induct)
  case (start ids qp gp lp s w)
  from chat_rep_start [OF start(1,3)] obtain k es where
    "chat_rep (map entry_ref es) (start_chat s w) k es [] [] []" "map e_id es = add_ids (map fst ids) []"
    by blast
  moreover from this(2) have "map fst (map entry_ref es) = add_ids cids []"
    using start(2) by (simp add: entry_ref_def comp_def)
  ultimately show ?case unfolding chat_inv_def by blast
next
  case (step t t')
  then show ?case using chat_inv_step by blast
qed

end
