(* ===== verification/Chat_Runs.thy ===== *)
theory Chat_Runs
  imports Chat_Invariant
begin

text \<open>
  Steps the running server can take, a run of it with two clients, and the properties of its
  reachable states: what is never lost or out of order, and the one way a message is lost.
\<close>

section \<open>Runs\<close>

text \<open>
  Steps that can be taken from a state that satisfies the invariant. They allocate nothing in
  the log or for the connections.
\<close>

definition same_lists :: "chat \<Rightarrow> chat \<Rightarrow> bool" where
  "same_lists t t' \<longleftrightarrow> s_log (ch_server t') = s_log (ch_server t) \<and> s_fds (ch_server t') = s_fds (ch_server t)"

lemma replay_starts:
  assumes rep: "chat_rep cs t k es ps bs xs" and th: "ch_threads t fd = Some (Announced c cid, sc)"
  shows "\<exists>cur. ff_start c (ch_server t) = Some (Inr cur)"
proof -
  have "(cid, c) \<in> set cs" using chat_rep_thread [OF rep th] by (simp add: thread_ok_def)
  from known_entry [OF rep this] obtain as e ds where e: "es = as @ e # ds" "e_ptr e = c" .
  have "log_rep (ch_server t) ps (bs @ logged (ch_sender t))" "clients_rep k (ch_server t) es"
    "placed ps (e_last e) (ch_read t (e_id e))" "e \<in> set es"
    using rep e by (auto simp: chat_rep_def)
  from ff_start_ok [OF this(1,2,4,3)] e(2) show ?thesis by auto
qed

lemma replay_ends:
  assumes rep: "chat_rep cs t k es ps bs xs" and m: "\<forall>m \<in> set (ch_posted t). sendable m"
    and th: "ch_threads t fd = Some (Replaying c cid cur, sc)"
  shows "\<exists>ret cells w. ff_finish c fd cur (ch_server t) (ch_net t) = Some (Inr (ret, (ch_server t)\<lparr>s_cells := cells\<rparr>, w))
     \<and> (\<forall>fd'. fd' \<noteq> fd \<longrightarrow> untouched (ch_net t) w fd')"
proof -
  have q: "(cid, c) \<in> set cs" "cursor_at ps cur (nt_from (ch_notes t fd))"
    using chat_rep_thread [OF rep th] by (simp_all add: thread_ok_def)
  from known_entry [OF rep q(1)] obtain as e ds where e: "es = as @ e # ds" "e_ptr e = c" .
  have r: "clients_rep k (ch_server t) (as @ e # ds)" "log_rep (ch_server t) ps (bs @ logged (ch_sender t))"
    "ch_posted t = bs @ logged (ch_sender t) @ in_hand (ch_sender t) @ xs"
    using rep by (simp_all add: chat_rep_def e(1))
  then have "\<forall>m \<in> set (bs @ logged (ch_sender t)). sendable m" using m by auto
  from ff_finish_ok [OF r(2,1) q(2) this, of fd "ch_net t"] show ?thesis
    unfolding e(2) sent_part_def by blast
qed

lemma replay_run:
  assumes "chat_reachable junk cids t" and rep: "chat_rep cs t k es ps bs xs"
    and m: "\<forall>m \<in> set (ch_posted t). sendable m" and th: "ch_threads t fd = Some (Announced c cid, sc)"
  shows "\<exists>t' es'. chat_reachable junk cids t' \<and> chat_rep cs t' k es' ps bs xs
     \<and> ch_threads t' = (ch_threads t)(fd \<mapsto> (Replayed c cid, sc)) \<and> ch_sender t' = ch_sender t
     \<and> ch_posted t' = ch_posted t \<and> same_lists t t'
     \<and> ch_notes t' fd = (ch_notes t fd)\<lparr>nt_from := ch_read t cid - 1, nt_upto := length (ch_log t)\<rparr>"
proof -
  obtain cur where f: "ff_start c (ch_server t) = Some (Inr cur)" using replay_starts [OF rep th] by blast
  define t1 where "t1 = noting fd (\<lambda>n. n\<lparr>nt_from := ch_read t cid - 1\<rparr>)
      (move fd (Replaying c cid cur) sc (ch_server t) (ch_net t) t)"
  have r1: "chat_reachable junk cids t1"
    unfolding t1_def using assms(1) chat_step.replay_step [OF th f] by (rule chat_reachable.step)
  have i1: "chat_rep cs t1 k es ps bs xs" unfolding t1_def by (rule replay_inv [OF rep th f])
  have th1: "ch_threads t1 fd = Some (Replaying c cid cur, sc)" by (simp add: t1_def)
  have m1: "\<forall>m \<in> set (ch_posted t1). sendable m" using m by (simp add: t1_def)
  obtain ret cells w where g: "ff_finish c fd cur (ch_server t1) (ch_net t1)
      = Some (Inr (ret, (ch_server t1)\<lparr>s_cells := cells\<rparr>, w))" using replay_ends [OF i1 m1 th1] by blast
  let ?t = "up_to_date (if ret = 0 then {cid} else {}) (noting fd (\<lambda>n. n\<lparr>nt_upto := length (ch_log t1)\<rparr>)
      (move fd (Replayed c cid) sc ((ch_server t1)\<lparr>s_cells := cells\<rparr>) w t1))"
  have "chat_reachable junk cids ?t"
    using r1 chat_step.replayed_step [OF th1 g] by (rule chat_reachable.step)
  moreover obtain es' where "chat_rep cs ?t k es' ps bs xs" using replayed_inv [OF i1 m1 th1 g] by blast
  ultimately show ?thesis
    by (intro exI [of _ ?t] exI [of _ es']) (simp add: t1_def same_lists_def ch_log_def)
qed

lemma take_run:
  assumes "chat_reachable junk cids t" and rep: "chat_rep cs t k es ps bs (m # ys)"
    and "ch_sender t = Idle"
  shows "\<exists>t' zs. chat_reachable junk cids t' \<and> chat_rep cs t' k es ps bs zs
     \<and> ch_threads t' = ch_threads t \<and> ch_sender t' = Taken m \<and> ch_posted t' = ch_posted t
     \<and> ch_notes t' = ch_notes t \<and> same_lists t t'"
proof -
  have "jq_holds (s_sendqueue (ch_server t)) (s_jobs (ch_server t)) (m # ys)"
    using rep by (simp add: chat_rep_def)
  from jq.deq_law [OF this] obtain st where
    st: "jobqueue_dequeue (s_sendqueue (ch_server t)) (s_jobs (ch_server t)) = Inr (Some (m, st))" by blast
  let ?t = "t\<lparr>ch_sender := Taken m, ch_server := (ch_server t)\<lparr>s_jobs := st\<rparr>\<rparr>"
  have "chat_reachable junk cids ?t"
    using assms(1) chat_step.take_step [OF assms(3) refl st] by (rule chat_reachable.step)
  moreover obtain zs where "chat_rep cs ?t k es ps bs zs" using take_inv [OF rep assms(3) st] by blast
  ultimately show ?thesis by (intro exI [of _ ?t] exI [of _ zs]) (simp add: same_lists_def)
qed

lemma join_runs:
  assumes rep: "chat_rep cs t k es ps bs xs" and th: "ch_threads t fd = Some (Replayed c cid, sc)"
    and np: "np \<noteq> NULL" "nodes (s_fds (ch_server t)) np = None"
  shows "\<exists>s. client_hash_add_connection cid fd np (ch_server t) = Some (Inr s)
     \<and> s_log s = s_log (ch_server t) \<and> s_log_list s = s_log_list (ch_server t)"
proof -
  have "cid \<in> fst ` set cs" using chat_rep_thread [OF rep th] by (force simp: thread_ok_def)
  from chat_rep_entry [OF rep this] obtain as e ds where e: "es = as @ e # ds" "e_id e = cid" by blast
  have "clients_rep k (ch_server t) (as @ e # ds)" using rep by (simp add: chat_rep_def e(1))
  from add_connection_present [OF this np, of fd] e(2) show ?thesis by auto
qed

definition connect_of :: "int \<Rightarrow> message" where
  "connect_of cid = create_message_header 0 (word_of_int cid) MESG_CONN"

lemma greet_run:
  assumes "chat_reachable junk cids t" and rep: "chat_rep cs t k es ps bs xs"
    and th: "ch_threads t fd = None" and e: "e \<in> set es" "0 < e_id e" and p: "jq_fresh (s_jobs (ch_server t)) p"
  shows "\<exists>t' sc. chat_reachable junk cids t' \<and> chat_rep cs t' k es ps bs (xs @ [connect_of (e_id e)])
     \<and> ch_threads t' = (ch_threads t)(fd \<mapsto> (Announced (e_ptr e) (e_id e), sc)) \<and> ch_sender t' = ch_sender t
     \<and> ch_posted t' = ch_posted t @ [connect_of (e_id e)]
     \<and> (\<forall>p'. jq_fresh (s_jobs (ch_server t)) p' \<longrightarrow> p' \<noteq> p \<longrightarrow> jq_fresh (s_jobs (ch_server t')) p')
     \<and> ch_done t' = ch_done t \<and> ch_read t' = ch_read t \<and> nt_script (ch_notes t' fd) = []
     \<and> same_lists t t'"
proof -
  let ?m = "connect_of (e_id e)"
  let ?sc = "[Chunk (header_bytes ?m)]"
  define t1 where "t1 = noting fd (\<lambda>_. \<lparr>nt_script = [], nt_from = 0, nt_upto = 0, nt_join = 0\<rparr>)
      (move fd Greeting ?sc (ch_server t) (opened fd [] (ch_net t)) t)"
  have "chat_step junk t t1" unfolding t1_def by (rule accept_step) (simp_all add: th)
  with assms(1) have r1: "chat_reachable junk cids t1" by (rule chat_reachable.step)
  have i1: "chat_rep cs t1 k es ps bs xs" unfolding t1_def by (rule accept_inv [OF rep]) (simp_all add: th)
  have th1: "ch_threads t1 fd = Some (Greeting, ?sc)" by (simp add: t1_def)
  have cr: "clients_rep k (ch_server t1) es" using i1 by (simp add: chat_rep_def)
  then have "entry_ok (ch_server t1) e" using e(1) by (simp add: clients_rep_def)
  then have id: "uint (msg_id ?m) = e_id e" "msg_id ?m \<noteq> 0" "msg_kind ?m = MESG_CONN"
    using e(2) by (auto simp: connect_of_def create_message_header_def entry_ok_def uint_word_of_int
        dest!: arg_cong [of _ 0 uint])
  from listener_hello_welcome [OF cr, of ?sc ?m "[]" e fd "ch_net t1"] id e(1) obtain sc w where
    h: "listener_hello fd ?sc (ch_server t1) (ch_net t1) = Some (Inr (Welcome (e_ptr e) (e_id e), sc, w))"
    by auto
  define t2 where "t2 = move fd (Welcomed (e_ptr e) (e_id e)) sc (ch_server t1) w t1"
  have r2: "chat_reachable junk cids t2"
    unfolding t2_def using r1 chat_step.welcome_step [OF th1 h] by (rule chat_reachable.step)
  have i2: "chat_rep cs t2 k es ps bs xs" unfolding t2_def by (rule welcome_inv [OF i1 th1 h])
  have th2: "ch_threads t2 fd = Some (Welcomed (e_ptr e) (e_id e), sc)" by (simp add: t2_def)
  have s2: "ch_server t2 = ch_server t" "ch_posted t2 = ch_posted t" "ch_sender t2 = ch_sender t"
    "ch_threads t2 = (ch_threads t)(fd \<mapsto> (Welcomed (e_ptr e) (e_id e), sc))"
    and n2: "ch_done t2 = ch_done t" "ch_read t2 = ch_read t" "nt_script (ch_notes t2 fd) = []"
    by (simp_all add: t2_def t1_def)
  have "jq_holds (s_sendqueue (ch_server t2)) (s_jobs (ch_server t2)) xs" using i2 by (simp add: chat_rep_def)
  from jq.enq_law [OF this, of p ?m] p obtain st wk where
    q: "jobqueue_enqueue (s_sendqueue (ch_server t2)) ?m p (s_jobs (ch_server t2)) = Inr (st, wk)"
    unfolding s2 by blast
  have p2: "jq_fresh (s_jobs (ch_server t2)) p" using p by (simp add: s2)
  let ?t = "post [?m] (move fd (Announced (e_ptr e) (e_id e)) sc ((ch_server t2)\<lparr>s_jobs := st\<rparr>) (ch_net t2) t2)"
  have "chat_reachable junk cids ?t"
    using r2 chat_step.announce_step [OF th2 refl p2 connect_of_def q] by (rule chat_reachable.step)
  moreover have "chat_rep cs ?t k es ps bs (xs @ [?m])" by (rule announce_inv [OF i2 th2 p2 q])
  moreover have "\<forall>p'. jq_fresh (s_jobs (ch_server t)) p' \<longrightarrow> p' \<noteq> p \<longrightarrow> jq_fresh st p'"
    using jobqueue_enqueue_fresh [OF q] by (simp add: s2)
  ultimately show ?thesis by (intro exI [of _ ?t] exI [of _ sc]) (simp add: s2 n2 same_lists_def)
qed

text \<open>The start leaves every address free but for the ones it is given.\<close>

lemma setup_clients_frees:
  "setup_clients ids s = Some (Inr s') \<Longrightarrow> s_jobs s' = s_jobs s \<and> s_log s' = s_log s \<and> nodes (s_fds s') = nodes (s_fds s)"
proof (induction ids s rule: setup_clients.induct)
  case (2 cid p lp tp ids s)
  from "2.prems" obtain c s1 s2 where x: "create_client cid p lp s = Inr (c, s1)"
    "client_hash_add_client tp True c s1 = Some (Inr s2)" "setup_clients ids s2 = Some (Inr s')"
    by (auto simp: bind_run_eq_Inr)
  have "s_jobs s1 = s_jobs s \<and> s_log s1 = s_log s \<and> nodes (s_fds s1) = nodes (s_fds s)" using x(1)
    by (auto simp: create_client_def create_llist_def set_client_def set_list_def bind_res_eq_Inr
        split: if_split_asm)
  moreover have "s_jobs s2 = s_jobs s1 \<and> s_log s2 = s_log s1 \<and> s_fds s2 = s_fds s1" using x(2)
    by (auto simp: client_hash_add_client_def bind_run_eq_Inr split: if_split_asm)
  ultimately show ?case using "2.IH" x by simp
qed simp

lemma server_init_frees:
  assumes "server_init ids qp gp lp = Some (Inr s)"
  shows "p \<noteq> NULL \<Longrightarrow> jq_fresh (s_jobs s) p" and "nodes (s_log s) p = None" and "nodes (s_fds s) p = None"
  using assms
  by (auto simp: server_init_def bind_run_eq_Inr bind_res_eq_Inr create_jobqueue_def create_message_log_def
      create_llist_def set_list_def blank_server_def jq_fresh_def set_queue_def
      dest!: setup_clients_frees split: if_split_asm)

text \<open>
  A run of a server for the clients 1 and 2: client 1 connects, its announcement is in the
  sender's hands, and the thread of client 2 has replayed the (empty) log and not yet joined.
\<close>

definition two_ids :: "(u16 \<times> ptr \<times> ptr \<times> ptr) list" where
  "two_ids = [(1, 10, 11, 12), (2, 20, 21, 22)]"

lemma two_ids_start:
  "\<exists>t cs k a b. chat_reachable junk [1, 2] t \<and> chat_rep cs t k [a, b] [] [] []
     \<and> e_id a = 1 \<and> e_id b = 2 \<and> ch_threads t = Map.empty \<and> ch_sender t = Idle \<and> ch_posted t = []
     \<and> (\<forall>p. p \<noteq> NULL \<longrightarrow> jq_fresh (s_jobs (ch_server t)) p) \<and> (\<forall>cid. ch_read t cid = 0)
     \<and> (\<forall>p. nodes (s_log (ch_server t)) p = None \<and> nodes (s_fds (ch_server t)) p = None)"
proof -
  have g: "good_addrs two_ids 30 31 32" "map fst two_ids = [1, 2]"
    by (simp_all add: good_addrs_def two_ids_def)
  then obtain s where s: "server_init two_ids 30 31 32 = Some (Inr s)"
    using server_init_ok [of two_ids 30 31 32] by (auto simp: good_addrs_def)
  let ?t = "start_chat s quiet_net"
  obtain k es where r: "chat_rep (map entry_ref es) ?t k es [] [] []" "map e_id es = add_ids [1, 2] []"
    using chat_rep_start [OF g(1) s, of quiet_net] unfolding g(2) by blast
  have "add_ids [1, 2] [] = [1, 2]" by (simp add: add_ids_def)
  with r(2) obtain a b where es: "es = [a, b]" "e_id a = 1" "e_id b = 2" by auto
  have "chat_reachable junk [1, 2] ?t" by (rule chat_reachable.start [OF g s])
  with r(1) es show ?thesis using server_init_frees [OF s]
    by (intro exI [of _ ?t] exI [of _ "map entry_ref es"] exI [of _ k] exI [of _ a] exI [of _ b])
      (simp add: start_chat_def)
qed

lemma race_state:
  "\<exists>t cs k es ps bs xs c sc. chat_reachable junk [1, 2] t \<and> chat_rep cs t k es ps bs xs
     \<and> ch_threads t 9 = Some (Replayed c 2, sc) \<and> ch_sender t = Taken (connect_of 1)
     \<and> (\<forall>m \<in> set (ch_posted t). sendable m) \<and> replaying t = {}
     \<and> (\<forall>p. nodes (s_log (ch_server t)) p = None \<and> nodes (s_fds (ch_server t)) p = None)
     \<and> ch_done t = [] \<and> nt_script (ch_notes t 9) = [] \<and> nt_from (ch_notes t 9) = 0 \<and> nt_upto (ch_notes t 9) = 0"
proof -
  obtain t0 cs k a b where t0: "chat_reachable junk [1, 2] t0" "chat_rep cs t0 k [a, b] [] [] []"
    "e_id a = 1" "e_id b = 2" "ch_threads t0 = Map.empty" "ch_sender t0 = Idle" "ch_posted t0 = []"
    "\<And>p. p \<noteq> NULL \<Longrightarrow> jq_fresh (s_jobs (ch_server t0)) p" "\<And>cid. ch_read t0 cid = 0"
    "\<And>p. nodes (s_log (ch_server t0)) p = None \<and> nodes (s_fds (ch_server t0)) p = None"
    using two_ids_start [of junk] by blast
  have e: "a \<in> set [a, b]" "0 < e_id a" "b \<in> set [a, b]" "0 < e_id b" using t0(3,4) by simp_all
  have f: "jq_fresh (s_jobs (ch_server t0)) 60" using t0(8) by simp
  from greet_run [OF t0(1,2) _ e(1,2) f, of 8] t0(3,5-7) obtain t1 sc1 where t1: "chat_reachable junk [1, 2] t1"
    "chat_rep cs t1 k [a, b] [] [] [connect_of 1]" "ch_threads t1 = [8 \<mapsto> (Announced (e_ptr a) 1, sc1)]"
    "ch_sender t1 = Idle" "ch_posted t1 = [connect_of 1]" "jq_fresh (s_jobs (ch_server t1)) 61" "same_lists t0 t1"
    "ch_read t1 = ch_read t0"
    using t0(8) by auto
  have "ch_threads t1 9 = None" by (simp add: t1(3))
  from greet_run [OF t1(1,2) this e(3,4) t1(6)] t0(4) t1(3-5) obtain t2 sc2 where t2:
    "chat_reachable junk [1, 2] t2" "chat_rep cs t2 k [a, b] [] [] [connect_of 1, connect_of 2]"
    "ch_threads t2 = [8 \<mapsto> (Announced (e_ptr a) 1, sc1), 9 \<mapsto> (Announced (e_ptr b) 2, sc2)]" "ch_sender t2 = Idle"
    "ch_posted t2 = [connect_of 1, connect_of 2]" "same_lists t1 t2" "ch_read t2 = ch_read t1"
    "nt_script (ch_notes t2 9) = []" by auto
  have "sendable (connect_of i)" for i
    by (rule header_sendable) (simp_all add: connect_of_def create_message_header_def)
  then have m: "\<forall>m \<in> set (ch_posted t2). sendable m" by (simp add: t2(5))
  have th2: "ch_threads t2 9 = Some (Announced (e_ptr b) 2, sc2)" by (simp add: t2(3))
  have "ch_log t2 = []" using t2(2,4) by (simp add: ch_log_def chat_rep_def)
  with replay_run [OF t2(1,2) m th2] t2(3,4,7,8) t1(8) t0(9) obtain t3 es where t3: "chat_reachable junk [1, 2] t3"
    "chat_rep cs t3 k es [] [] [connect_of 1, connect_of 2]" "ch_sender t3 = Idle"
    "ch_threads t3 = [8 \<mapsto> (Announced (e_ptr a) 1, sc1), 9 \<mapsto> (Replayed (e_ptr b) 2, sc2)]"
    "ch_posted t3 = ch_posted t2" "same_lists t2 t3"
    "nt_script (ch_notes t3 9) = []" "nt_from (ch_notes t3 9) = 0" "nt_upto (ch_notes t3 9) = 0"
    by auto
  from take_run [OF t3(1-3)] obtain t4 zs where t4: "chat_reachable junk [1, 2] t4"
    "chat_rep cs t4 k es [] [] zs" "ch_threads t4 = ch_threads t3" "ch_sender t4 = Taken (connect_of 1)"
    "ch_posted t4 = ch_posted t3" "ch_notes t4 = ch_notes t3" "same_lists t3 t4" by blast
  have "s_log (ch_server t4) = s_log (ch_server t0)" "s_fds (ch_server t4) = s_fds (ch_server t0)"
    using t1(7) t2(6) t3(6) t4(7) by (simp_all add: same_lists_def)
  then have "\<forall>p. nodes (s_log (ch_server t4)) p = None \<and> nodes (s_fds (ch_server t4)) p = None"
    using t0(10) by simp
  moreover have "ch_threads t4 9 = Some (Replayed (e_ptr b) 2, sc2)" using t3(4) t4(3) by simp
  moreover have "\<forall>m \<in> set (ch_posted t4). sendable m" using m t3(5) t4(5) by simp
  moreover have "replaying t4 = {}" using t3(4) t4(3) by (auto simp: replaying_def split: if_splits)
  moreover have "ch_done t4 = []" using t4(2) by (simp add: chat_rep_def)
  ultimately show ?thesis using t4(1,2,4,6) t3(7-9)
    by (intro exI [of _ t4] exI [of _ cs] exI [of _ k] exI [of _ es] exI [of _ "[]"] exI [of _ zs]
        exI [of _ "e_ptr b"] exI [of _ sc2]) simp
qed

text \<open>
  The replays that are under way can always end: there are finitely many, and each can take its
  last step. Nothing happens to the other sockets and threads.
\<close>

lemma finite_threads: "chat_reachable junk cids t \<Longrightarrow> finite (dom (ch_threads t))"
proof (induction rule: chat_reachable.induct)
  case (step t t')
  from step(2,3) show ?case by (cases rule: chat_step.cases) (simp_all del: fun_upd_apply)
qed (simp add: start_chat_def)

lemma finite_replaying: "chat_reachable junk cids t \<Longrightarrow> finite (replaying t)"
  by (rule finite_subset [OF _ finite_threads]) (auto simp: replaying_def)

lemma replays_end:
  assumes "chat_reachable junk cids t" "chat_rep cs t k es ps bs xs" "\<forall>m \<in> set (ch_posted t). sendable m"
  shows "\<exists>t' es'. (chat_step junk)\<^sup>*\<^sup>* t t' \<and> (replaying t = {} \<longrightarrow> t' = t) \<and> replaying t' = {}
     \<and> chat_reachable junk cids t' \<and> chat_rep cs t' k es' ps bs xs \<and> ch_sender t' = ch_sender t
     \<and> ch_posted t' = ch_posted t \<and> same_lists t t'
     \<and> (\<forall>fd. fd \<notin> replaying t \<longrightarrow> ch_threads t' fd = ch_threads t fd \<and> wire (ch_net t') fd = wire (ch_net t) fd)"
  using assms
proof (induction "card (replaying t)" arbitrary: t es)
  case 0
  then have "replaying t = {}" using finite_replaying by (metis card_0_eq)
  with "0.prems" show ?case by (intro exI [of _ t] exI [of _ es]) (simp add: same_lists_def)
next
  case (Suc n)
  then obtain fd where "fd \<in> replaying t" by (metis card_eq_0_iff all_not_in_conv nat.distinct(1))
  then obtain c cid cur sc where th: "ch_threads t fd = Some (Replaying c cid cur, sc)"
    by (auto simp: replaying_def)
  obtain ret cells w where f: "ff_finish c fd cur (ch_server t) (ch_net t)
      = Some (Inr (ret, (ch_server t)\<lparr>s_cells := cells\<rparr>, w))" "\<forall>fd'. fd' \<noteq> fd \<longrightarrow> untouched (ch_net t) w fd'"
    using replay_ends [OF Suc.prems(2,3) th] by blast
  let ?t = "up_to_date (if ret = 0 then {cid} else {}) (noting fd (\<lambda>n. n\<lparr>nt_upto := length (ch_log t)\<rparr>)
      (move fd (Replayed c cid) sc ((ch_server t)\<lparr>s_cells := cells\<rparr>) w t))"
  have s: "chat_step junk t ?t" by (rule chat_step.replayed_step [OF th f(1)])
  have rp: "replaying ?t = replaying t - {fd}" by (auto simp: replaying_def)
  have "n = card (replaying ?t)"
    using Suc.hyps(2) \<open>fd \<in> replaying t\<close> finite_replaying [OF Suc.prems(1)] by (simp add: rp)
  moreover obtain es1 where "chat_rep cs ?t k es1 ps bs xs" using replayed_inv [OF Suc.prems(2,3) th f(1)] by blast
  moreover have "\<forall>m \<in> set (ch_posted ?t). sendable m" using Suc.prems(3) by simp
  ultimately obtain t' es' where t': "(chat_step junk)\<^sup>*\<^sup>* ?t t'" "replaying t' = {}" "chat_reachable junk cids t'"
    "chat_rep cs t' k es' ps bs xs" "ch_sender t' = ch_sender ?t" "ch_posted t' = ch_posted ?t" "same_lists ?t t'"
    "\<forall>fd. fd \<notin> replaying ?t \<longrightarrow> ch_threads t' fd = ch_threads ?t fd \<and> wire (ch_net t') fd = wire (ch_net ?t) fd"
    using Suc.hyps(1) [of ?t es1] chat_reachable.step [OF Suc.prems(1) s] by blast
  have "ch_threads t' fd' = ch_threads t fd' \<and> wire (ch_net t') fd' = wire (ch_net t) fd'" if "fd' \<notin> replaying t" for fd'
  proof -
    have "fd' \<noteq> fd" using that \<open>fd \<in> replaying t\<close> by blast
    then show ?thesis using t'(8) [rule_format, of fd'] that rp f(2) by (simp add: untouched_def)
  qed
  moreover have "(chat_step junk)\<^sup>*\<^sup>* t t'" using s t'(1) by (rule converse_rtranclp_into_rtranclp)
  moreover have "ch_sender t' = ch_sender t" "ch_posted t' = ch_posted t" "same_lists t t'"
    using t'(5-7) by (simp_all add: same_lists_def)
  ultimately show ?case using t'(2-4) \<open>fd \<in> replaying t\<close> by blast
qed

section \<open>Properties\<close>

text \<open>C2: in every reachable state of the running server, whatever the threads' interleaving, the
  log is what was taken off the send queue and the queue holds the rest: together with the message
  in the sender's hands they are everything the listeners ever posted, in that order. The
  registered clients are those of the command line, and the connections of each are exactly the
  sockets of the threads that have joined it and not left, each once and none of them
  closed. (As long as nothing was posted that cannot be marshalled.)\<close>

theorem server_state_invariant:
  assumes "chat_reachable junk cids t" "\<forall>m \<in> set (ch_posted t). sendable m"
  shows "\<exists>k es ps ms xs. log_rep (ch_server t) ps ms
     \<and> jq_holds (s_sendqueue (ch_server t)) (s_jobs (ch_server t)) xs
     \<and> ch_posted t = ms @ in_hand (ch_sender t) @ xs
     \<and> clients_rep k (ch_server t) es \<and> map e_id es = add_ids cids []
     \<and> distinct (concat (map e_fds es))
     \<and> (\<forall>e \<in> set es. \<forall>fd. (fd \<in> set (e_fds e)) = (joined_at (ch_threads t) fd = Some (e_id e)))
     \<and> (\<forall>fd \<in> set (concat (map e_fds es)). \<not> shut (ch_net t) fd)"
proof -
  obtain cs k es ps bs xs where cs: "map fst cs = add_ids cids []" and r: "chat_rep cs t k es ps bs xs"
    using reachable_chat_inv [OF assms(1)] assms(2) unfolding chat_inv_def by blast
  have c: "distinct (concat (map e_fds es))"
    "\<forall>e \<in> set es. \<forall>fd. (fd \<in> set (e_fds e)) = (joined_at (ch_threads t) fd = Some (e_id e))"
    using r by (simp_all add: chat_rep_def conns_ok_def)
  have "\<not> shut (ch_net t) fd" if fd: "fd \<in> set (e_fds e)" "e \<in> set es" for e fd
  proof -
    from fd c(2) have "joined_at (ch_threads t) fd = Some (e_id e)" by blast
    then obtain st sc where "ch_threads t fd = Some (st, sc)" "joined st = Some (e_id e)"
      by (auto simp: joined_at_def split: option.splits)
    moreover from this have "st \<noteq> Closed" by auto
    ultimately show ?thesis using r by (auto simp: chat_rep_def thread_ok_def)
  qed
  moreover have "map e_id es = add_ids cids []"
    using r cs by (auto simp: chat_rep_def entry_ref_def comp_def)
  ultimately show ?thesis using r c
    by (intro exI [of _ k] exI [of _ es] exI [of _ ps] exI [of _ "bs @ logged (ch_sender t)"] exI [of _ xs])
      (simp add: chat_rep_def)
qed

theorem server_state_invariant_witness:
  "\<exists>t k es. chat_reachable (\<lambda>_. 0) [1, 2] t \<and> clients_rep k (ch_server t) es \<and> map e_id es = [1, 2]
     \<and> ch_sender t = Taken (connect_of 1) \<and> (\<exists>xs ms. ch_posted t = ms @ connect_of 1 # xs)"
proof -
  obtain t where t: "chat_reachable (\<lambda>_. 0) [1, 2] t" "\<forall>m \<in> set (ch_posted t). sendable m"
    "ch_sender t = Taken (connect_of 1)"
    using race_state [of "\<lambda>_. 0"] by blast
  have "add_ids [1, 2] [] = [1, 2]" by (simp add: add_ids_def)
  with server_state_invariant [OF t(1,2)] obtain k es ms xs where
    "clients_rep k (ch_server t) es" "map e_id es = [1, 2]" "ch_posted t = ms @ connect_of 1 # xs"
    by (auto simp: t(3))
  with t(1,3) show ?thesis by (intro exI [of _ t] exI [of _ k] exI [of _ es]) auto
qed

text \<open>C1: what a connection was sent, in every reachable state of the running server: the welcome, then the
  section of the log that the replay found, from the message its client had last been brought up to, that one
  included, to the end of the log as it was when the replay ended, then every message broadcast since the socket
  joined its client's connections, always without the messages of the client itself. As long as the socket
  itself has reported no error, every one of these messages was sent whole and nothing else was; on
  a socket that has reported one, messages may be cut short or missing. At most one message comes
  twice: the replay ends at most one message after the broadcasts start. (But nothing makes it
  reach that far: see the next property. As long as nothing was posted that cannot be marshalled.)\<close>

theorem connection_hears:
  assumes "chat_reachable junk cids t" "\<forall>m \<in> set (ch_posted t). sendable m"
    and "ch_threads t fd = Some (Serving cid, sc)"
  shows "let n = ch_notes t fd in (\<exists>ps. log_rep (ch_server t) ps (ch_log t))
     \<and> nt_from n \<le> nt_upto n \<and> nt_upto n \<le> length (ch_log t) \<and> nt_upto n \<le> nt_join n + 1 \<and> nt_join n \<le> length (ch_done t)
     \<and> pieces (errors (outs (ch_net t) fd) < errors (nt_script n))
         (create_message_header 0 0 MESG_CONN # others cid (drop (nt_from n) (take (nt_upto n) (ch_log t)))
           @ others cid (drop (nt_join n) (ch_done t))) (wire (ch_net t) fd)"
proof -
  obtain cs k es ps bs xs where r: "chat_rep cs t k es ps bs xs"
    using reachable_chat_inv [OF assms(1)] assms(2) unfolding chat_inv_def by blast
  then have bs: "ch_done t = bs" "ch_log t = bs @ logged (ch_sender t)" "log_rep (ch_server t) ps (ch_log t)"
    by (simp_all add: chat_rep_def ch_log_def)
  obtain ys where "served bs (ch_log t) (ch_notes t fd) cid ys" "pieces (troubled (ch_notes t fd) (ch_net t) fd) ys (wire (ch_net t) fd)"
    using chat_rep_thread [OF r assms(3)] bs(2) by (auto simp: thread_ok_def)
  then show ?thesis using bs(1,3)
    by (auto simp: Let_def served_def replay_ok_def replay_of_def troubled_def)
qed

text \<open>
  The run goes on: the thread of client 2 joins, and the sender logs and broadcasts the announcement of
  client 1.
\<close>

lemma served_state:
  "\<exists>t sc. chat_reachable junk [1, 2] t \<and> ch_threads t 9 = Some (Serving 2, sc)
     \<and> (\<forall>m \<in> set (ch_posted t). sendable m) \<and> ch_done t = [connect_of 1] \<and> nt_script (ch_notes t 9) = []
     \<and> nt_from (ch_notes t 9) = 0 \<and> nt_upto (ch_notes t 9) = 0 \<and> nt_join (ch_notes t 9) = 0"
proof -
  obtain t cs k es ps bs xs c sc where t: "chat_reachable junk [1, 2] t" "chat_rep cs t k es ps bs xs"
    "ch_threads t 9 = Some (Replayed c 2, sc)" "ch_sender t = Taken (connect_of 1)"
    "\<forall>m \<in> set (ch_posted t). sendable m" "replaying t = {}"
    "nodes (s_fds (ch_server t)) 40 = None" "nodes (s_log (ch_server t)) 50 = None"
    "ch_done t = []" "nt_script (ch_notes t 9) = []" "nt_from (ch_notes t 9) = 0" "nt_upto (ch_notes t 9) = 0"
    using race_state [of junk] by (elim exE conjE) (rule that; simp)
  obtain s where s: "client_hash_add_connection 2 9 40 (ch_server t) = Some (Inr s)" "s_log s = s_log (ch_server t)"
    using join_runs [OF t(2,3) _ t(7)] by auto
  define t1 where "t1 = noting 9 (\<lambda>n. n\<lparr>nt_join := length (ch_done t)\<rparr>) (move 9 (Serving 2) sc s (ch_net t) t)"
  have r1: "chat_reachable junk [1, 2] t1"
    unfolding t1_def using t(1) chat_step.join_step [OF t(3) _ t(7) s(1)] by (auto intro: chat_reachable.step)
  obtain es1 where i1: "chat_rep cs t1 k es1 ps bs xs" unfolding t1_def using join_inv [OF t(2,3) _ t(7) s(1)] by auto
  have x1: "ch_sender t1 = Taken (connect_of 1)" "nodes (s_log (ch_server t1)) 50 = None" "ch_posted t1 = ch_posted t"
    using t(4,8) s(2) by (simp_all add: t1_def)
  have none: "replaying t1 = {}" using t(6) by (auto simp: replaying_def t1_def split: if_splits)
  have d1: "ch_done t1 = []" using t(9) by (simp add: t1_def)
  have bs: "log_rep (ch_server t1) ps []" using i1 by (auto simp: chat_rep_def x1(1) d1)
  obtain lg where l: "message_log_append (connect_of 1) 50 (ch_server t1) = Inr (50, (ch_server t1)\<lparr>s_log := lg\<rparr>)"
    using message_log_append_ok [OF bs _ x1(2), of "connect_of 1"] by auto
  define t2 where "t2 = t1\<lparr>ch_sender := Logged (connect_of 1) 50, ch_server := (ch_server t1)\<lparr>s_log := lg\<rparr>\<rparr>"
  have r2: "chat_reachable junk [1, 2] t2"
    unfolding t2_def using r1 chat_step.log_step [OF x1(1) none _ x1(2) l] by (auto intro: chat_reachable.step)
  have i2: "chat_rep cs t2 k es1 (ps @ [50]) bs xs" unfolding t2_def by (rule log_step_inv [OF i1 x1(1) none _ x1(2) l]) simp
  have p2: "ch_sender t2 = Logged (connect_of 1) 50" "sendable (connect_of 1)"
    using t(2,4,5) by (auto simp: t2_def chat_rep_def)
  obtain s3 w where b: "sender_loop (connect_of 1) 50 (s_clients (ch_server t2)) (ch_server t2) (ch_net t2) = Some (Inr (s3, w))"
    using broadcast_runs [OF i2 p2(2)] by blast
  let ?t = "up_to_date {cid. \<exists>fd. joined_at (ch_threads t2) fd = Some cid}
      (t2\<lparr>ch_sender := Idle, ch_server := s3, ch_net := w, ch_done := ch_done t2 @ [connect_of 1]\<rparr>)"
  have "chat_reachable junk [1, 2] ?t"
    using r2 chat_step.broadcast_step [OF p2(1) b] by (rule chat_reachable.step)
  then show ?thesis using t(5,10-12) d1
    by (intro exI [of _ ?t] exI [of _ sc]) (simp add: t2_def t1_def t(9))
qed

theorem connection_hears_witness:
  "\<exists>t sc. chat_reachable (\<lambda>_. 0) [1, 2] t \<and> ch_threads t 9 = Some (Serving 2, sc)
     \<and> wire (ch_net t) 9 = all_bytes [create_message_header 0 0 MESG_CONN, connect_of 1]"
proof -
  obtain t sc where t: "chat_reachable (\<lambda>_. 0) [1, 2] t" "ch_threads t 9 = Some (Serving 2, sc)"
    "\<forall>m \<in> set (ch_posted t). sendable m" "ch_done t = [connect_of 1]" "nt_script (ch_notes t 9) = []"
    "nt_from (ch_notes t 9) = 0" "nt_upto (ch_notes t 9) = 0" "nt_join (ch_notes t 9) = 0"
    using served_state [of "\<lambda>_. 0"] by blast
  have "others 2 [connect_of 1] = [connect_of 1]"
    by (simp add: others_def connect_of_def create_message_header_def)
  with connection_hears [OF t(1,3,2)] t(4-8)
  have "pieces False [create_message_header 0 0 MESG_CONN, connect_of 1] (wire (ch_net t) 9)"
    by (simp add: Let_def others_def)
  with t(1,2) show ?thesis by (auto simp: pieces_whole)
qed

text \<open>C30: a message can be lost. When a listener has replayed the log and has not yet joined its
  client's connections, and the sender has a message in its hands, then the sender can log and
  broadcast it (once the replays to other sockets that are under way have ended, which they can) and the
  listener can join after that: the client is connected, the message is at the end
  of the log and the sender is done with it, and the socket was sent nothing on the way.\<close>

theorem message_lost:
  assumes "chat_reachable junk cids t" "\<forall>m \<in> set (ch_posted t). sendable m"
    and "ch_threads t fd = Some (Replayed c cid, sc)" "ch_sender t = Taken m"
    and "np \<noteq> NULL" "nodes (s_log (ch_server t)) np = None"
    and "fp \<noteq> NULL" "nodes (s_fds (ch_server t)) fp = None"
  shows "\<exists>t0 t1 t2 t3 ps ms. (chat_step junk)\<^sup>*\<^sup>* t t0 \<and> (replaying t = {} \<longrightarrow> t0 = t)
     \<and> chat_step junk t0 t1 \<and> chat_step junk t1 t2 \<and> chat_step junk t2 t3
     \<and> ch_threads t3 fd = Some (Serving cid, sc) \<and> ch_sender t3 = Idle
     \<and> log_rep (ch_server t3) ps (ms @ [m]) \<and> wire (ch_net t3) fd = wire (ch_net t) fd"
proof -
  obtain cs k es0 ps bs xs where r0: "chat_rep cs t k es0 ps bs xs"
    using reachable_chat_inv [OF assms(1)] assms(2) unfolding chat_inv_def by blast
  have "fd \<notin> replaying t" using assms(3) by (auto simp: replaying_def)
  obtain t0 es where t0: "(chat_step junk)\<^sup>*\<^sup>* t t0"
    "replaying t = {} \<longrightarrow> t0 = t" "replaying t0 = {}" "chat_rep cs t0 k es ps bs xs"
    "ch_posted t0 = ch_posted t" "ch_sender t0 = ch_sender t" "same_lists t t0"
    "\<forall>fd. fd \<notin> replaying t \<longrightarrow> ch_threads t0 fd = ch_threads t fd \<and> wire (ch_net t0) fd = wire (ch_net t) fd"
    using replays_end [OF assms(1) r0 assms(2)] by (elim exE conjE) (rule that)
  have u: "\<forall>m \<in> set (ch_posted t0). sendable m" "ch_threads t0 fd = Some (Replayed c cid, sc)" "ch_sender t0 = Taken m"
    "nodes (s_log (ch_server t0)) np = None" "nodes (s_fds (ch_server t0)) fp = None"
    "wire (ch_net t0) fd = wire (ch_net t) fd"
    using t0(5-8) \<open>fd \<notin> replaying t\<close> assms(2-4,6,8) by (simp_all add: same_lists_def)
  note r = t0(4)
  have l0: "log_rep (ch_server t0) ps bs" using r by (simp add: chat_rep_def u(3))
  obtain lg where l: "message_log_append m np (ch_server t0) = Inr (np, (ch_server t0)\<lparr>s_log := lg\<rparr>)"
    "log_rep ((ch_server t0)\<lparr>s_log := lg\<rparr>) (ps @ [np]) (bs @ [m])"
    using message_log_append_ok [OF l0 assms(5) u(4), of m] by blast
  define t1 where "t1 = t0\<lparr>ch_sender := Logged m np, ch_server := (ch_server t0)\<lparr>s_log := lg\<rparr>\<rparr>"
  have s1: "chat_step junk t0 t1" unfolding t1_def by (rule log_step [OF u(3) t0(3) assms(5) u(4) l(1)])
  have r1: "chat_rep cs t1 k es (ps @ [np]) bs xs"
    unfolding t1_def by (rule log_step_inv [OF r u(3) t0(3) assms(5) u(4) l(1)])
  have p1: "ch_sender t1 = Logged m np" "sendable m" using u(1) r by (auto simp: t1_def chat_rep_def u(3))
  obtain cells w where b: "sender_loop m np (s_clients (ch_server t1)) (ch_server t1) (ch_net t1)
       = Some (Inr ((ch_server t1)\<lparr>s_cells := cells\<rparr>, w))" "delivered m (ch_net t1) w (targets m es)"
    using broadcast_runs [OF r1 p1(2)] by blast
  define t2 where "t2 = up_to_date {cid. \<exists>fd. joined_at (ch_threads t1) fd = Some cid}
    (t1\<lparr>ch_sender := Idle, ch_server := (ch_server t1)\<lparr>s_cells := cells\<rparr>, ch_net := w, ch_done := ch_done t1 @ [m]\<rparr>)"
  have s2: "chat_step junk t1 t2" unfolding t2_def by (rule broadcast_step [OF p1(1) b(1)])
  have m1: "\<forall>m \<in> set (ch_posted t1). sendable m" using u(1) by (simp add: t1_def)
  obtain es2 where r2: "chat_rep cs t2 k es2 (ps @ [np]) (bs @ [m]) xs"
    unfolding t2_def using broadcast_inv [OF r1 m1 p1(1) b(1)] by blast
  have th2: "ch_threads t2 fd = Some (Replayed c cid, sc)" "nodes (s_fds (ch_server t2)) fp = None"
    using u(2,5) by (simp_all add: t2_def t1_def)
  obtain s where j: "client_hash_add_connection cid fd fp (ch_server t2) = Some (Inr s)" "s_log s = s_log (ch_server t2)"
    "s_log_list s = s_log_list (ch_server t2)"
    using join_runs [OF r2 th2(1) assms(7) th2(2)] by blast
  let ?t = "noting fd (\<lambda>n. n\<lparr>nt_join := length (ch_done t2)\<rparr>) (move fd (Serving cid) sc s (ch_net t2) t2)"
  have s3: "chat_step junk t2 ?t" by (rule join_step [OF th2(1) assms(7) th2(2) j(1)])
  have "conns_ok (ch_threads t1) es" "joined_at (ch_threads t1) fd = None"
    using r1 u(2) by (simp_all add: chat_rep_def joined_at_def t1_def)
  then have "fd \<notin> targets m es" using targets_iff by simp
  then have "wire w fd = wire (ch_net t) fd" using delivered_out [OF b(2)] u(6) by (simp add: untouched_def t1_def)
  moreover have "log_rep s (ps @ [np]) (bs @ [m])" using l(2) j(2,3) by (simp add: t2_def t1_def log_rep_def)
  ultimately show ?thesis using t0(1,2) s1 s2 s3
    by (intro exI [of _ t0] exI [of _ t1] exI [of _ t2] exI [of _ ?t] exI [of _ "ps @ [np]"] exI [of _ bs])
      (simp add: t2_def)
qed

theorem message_lost_witness:
  "\<exists>t t3 ps ms sc. chat_reachable (\<lambda>_. 0) [1, 2] t \<and> (chat_step (\<lambda>_. 0))\<^sup>*\<^sup>* t t3
     \<and> ch_threads t3 9 = Some (Serving 2, sc) \<and> ch_sender t3 = Idle
     \<and> log_rep (ch_server t3) ps (ms @ [connect_of 1]) \<and> wire (ch_net t3) 9 = wire (ch_net t) 9"
proof -
  obtain t c sc where t: "chat_reachable (\<lambda>_. 0) [1, 2] t" "\<forall>m \<in> set (ch_posted t). sendable m"
    "ch_threads t 9 = Some (Replayed c 2, sc)" "ch_sender t = Taken (connect_of 1)"
    "nodes (s_log (ch_server t)) 50 = None" "nodes (s_fds (ch_server t)) 40 = None"
    using race_state [of "\<lambda>_. 0"] by blast
  have n: "(50::ptr) \<noteq> NULL" "(40::ptr) \<noteq> NULL" by simp_all
  obtain t0 t1 t2 t3 ps ms where s: "(chat_step (\<lambda>_. 0))\<^sup>*\<^sup>* t t0" "chat_step (\<lambda>_. 0) t0 t1" "chat_step (\<lambda>_. 0) t1 t2"
    "chat_step (\<lambda>_. 0) t2 t3" "ch_threads t3 9 = Some (Serving 2, sc)" "ch_sender t3 = Idle"
    "log_rep (ch_server t3) ps (ms @ [connect_of 1])" "wire (ch_net t3) 9 = wire (ch_net t) 9"
    using message_lost [OF t(1-4) n(1) t(5) n(2) t(6)] by blast
  have "(chat_step (\<lambda>_. 0))\<^sup>*\<^sup>* t t3" using s(1-4) by (meson rtranclp.rtrancl_into_rtrancl)
  with t(1) s show ?thesis by blast
qed

end
