(* ===== verification/Uthash_Ops.thy ===== *)
theory Uthash_Ops
  imports Uthash_Rep
begin

text \<open>
  The other operations of \<^verbatim>\<open>uthash.h\<close> on one table: deletion, replacement, clearing, counting,
  iteration, and the integrity check \<open>HASH_FSCK\<close> that the macros run when the library is compiled
  with \<open>HASH_DEBUG\<close>. Deletion is shown to take exactly its element out of both doubly linked lists
  an element is on, and the check is shown to pass on every table that \<open>ut_rep\<close> describes.
\<close>

section \<open>Operations\<close>

definition write_app_prev :: "ut_store \<Rightarrow> ptr \<Rightarrow> ptr \<Rightarrow> ut_store res" where
  "write_app_prev s p q =
     bind_res (get_handle s p) (\<lambda>h. Inr (set_handle s p (h\<lparr>u_prev := q\<rparr>)))"

definition write_hh_next :: "ut_store \<Rightarrow> ptr \<Rightarrow> ptr \<Rightarrow> ut_store res" where
  "write_hh_next s p q =
     bind_res (get_handle s p) (\<lambda>h. Inr (set_handle s p (h\<lparr>u_hh_next := q\<rparr>)))"

text \<open>\<open>(head)->hh.tbl\<close>, with what it points to.\<close>

definition head_table :: "ut_store \<Rightarrow> ptr \<Rightarrow> (ptr \<times> ut_table) res" where
  "head_table s head =
     bind_res (get_handle s head) (\<lambda>h.
     bind_res (get_table s (u_tbl h)) (\<lambda>t. Inr (u_tbl h, t)))"

text \<open>The buckets are a part of the table here, so the two frees are one.\<close>

definition free_table :: "ut_store \<Rightarrow> ptr \<Rightarrow> ut_store" where
  "free_table s tp = s\<lparr>tables := (tables s)(tp := None)\<rparr>"

definition HASH_DEL_IN_BKT :: "ptr \<Rightarrow> u32 \<Rightarrow> ptr \<Rightarrow> ut_store \<Rightarrow> ut_store res" where
  "HASH_DEL_IN_BKT tp i del s =
     bind_res (get_table s tp) (\<lambda>t.
     bind_res (bucket_at (t_buckets t) i) (\<lambda>b.
     bind_res (get_handle s del) (\<lambda>d.
     let b' = b\<lparr>b_count := b_count b - 1, b_head := (if b_head b = del then u_hh_next d else b_head b)\<rparr>;
         s1 = set_table s tp (t\<lparr>t_buckets := (t_buckets t)[unat i := b']\<rparr>)
     in bind_res (if u_hh_prev d \<noteq> NULL then write_hh_next s1 (u_hh_prev d) (u_hh_next d) else Inr s1) (\<lambda>s2.
        bind_res (get_handle s2 del) (\<lambda>d2.
        if u_hh_next d2 \<noteq> NULL then write_hh_prev s2 (u_hh_next d2) (u_hh_prev d2) else Inr s2)))))"

text \<open>
  \<open>HASH_DELETE\<close> of the element at \<open>del\<close>: the new head and store. The last element takes the table
  with it; any other one is taken off the list of the elements, which moves the head or the tail
  when it is at one of the ends, and out of its bucket.
\<close>

definition HASH_DELETE :: "ut_store \<Rightarrow> ptr \<Rightarrow> ptr \<Rightarrow> (ptr \<times> ut_store) res" where
  "HASH_DELETE s head del =
     bind_res (get_handle s del) (\<lambda>d.
     if u_prev d = NULL \<and> u_next d = NULL then
       bind_res (head_table s head) (\<lambda>(tp, t). Inr (NULL, free_table s tp))
     else
       bind_res (head_table s head) (\<lambda>(tp, t).
       let s1 = (if del = t_tail t then set_table s tp (t\<lparr>t_tail := u_prev d\<rparr>) else s) in
       bind_res (if u_prev d \<noteq> NULL
                 then bind_res (write_app_next s1 (u_prev d) (u_next d)) (\<lambda>s2. Inr (head, s2))
                 else Inr (u_next d, s1)) (\<lambda>(head', s2).
       bind_res (get_handle s2 del) (\<lambda>d2.
       bind_res (if u_next d2 \<noteq> NULL then write_app_prev s2 (u_next d2) (u_prev d2) else Inr s2) (\<lambda>s3.
       bind_res (get_handle s3 del) (\<lambda>d3.
       bind_res (head_table s3 head') (\<lambda>(tp', t').
       bind_res (HASH_DEL_IN_BKT tp' (HASH_TO_BKT (u_hashv d3) (t_num_buckets t')) del s3) (\<lambda>s4.
       bind_res (head_table s4 head') (\<lambda>(tp'', t'').
       Inr (head', set_table s4 tp'' (t''\<lparr>t_num_items := t_num_items t'' - 1\<rparr>)))))))))))"

text \<open>\<open>HASH_REPLACE\<close>: the element that had the key, the new head and the store.\<close>

definition HASH_REPLACE ::
    "ptr \<Rightarrow> bool \<Rightarrow> ut_store \<Rightarrow> ptr \<Rightarrow> byte list \<Rightarrow> ptr \<Rightarrow> (ptr \<times> ptr \<times> ut_store) run" where
  "HASH_REPLACE tp mem s head key add =
     bind_run (HASH_FIND s head key) (\<lambda>replaced.
     bind_run (if replaced \<noteq> NULL then Some (HASH_DELETE s head replaced) else Some (Inr (head, s))) (\<lambda>(head', s').
     bind_run (HASH_ADD tp mem s' head' key add) (\<lambda>(head'', s'').
     Some (Inr (replaced, head'', s'')))))"

definition HASH_CLEAR :: "ut_store \<Rightarrow> ptr \<Rightarrow> (ptr \<times> ut_store) res" where
  "HASH_CLEAR s head =
     (if head \<noteq> NULL then bind_res (head_table s head) (\<lambda>(tp, t). Inr (NULL, free_table s tp))
      else Inr (head, s))"

definition HASH_CNT :: "ut_store \<Rightarrow> ptr \<Rightarrow> u32 res" where
  "HASH_CNT s head =
     (if head \<noteq> NULL then bind_res (head_table s head) (\<lambda>(tp, t). Inr (t_num_items t)) else Inr 0)"

text \<open>
  \<open>HASH_ITER\<close> around a body on the program's state, of which \<open>store\<close> is the part the table is in. The
  successor of an element is read before the body runs on the element.
\<close>

definition app_next :: "ut_store \<Rightarrow> ptr \<Rightarrow> ptr res" where
  "app_next s p = (if p \<noteq> NULL then bind_res (get_handle s p) (\<lambda>h. Inr (u_next h)) else Inr NULL)"

partial_function (option) iter_loop ::
    "('a \<Rightarrow> ut_store) \<Rightarrow> (ptr \<Rightarrow> 'a \<Rightarrow> 'a res) \<Rightarrow> ptr \<Rightarrow> ptr \<Rightarrow> 'a \<Rightarrow> 'a run" where
  "iter_loop store body el tmp st =
     (if el = NULL then Some (Inr st)
      else bind_run (Some (body el st)) (\<lambda>st'.
           bind_run (Some (app_next (store st') tmp)) (\<lambda>tmp'. iter_loop store body tmp tmp' st')))"

definition HASH_ITER ::
    "('a \<Rightarrow> ut_store) \<Rightarrow> (ptr \<Rightarrow> 'a \<Rightarrow> 'a res) \<Rightarrow> ptr \<Rightarrow> 'a \<Rightarrow> 'a run" where
  "HASH_ITER store body head st =
     bind_run (Some (app_next (store st) head)) (\<lambda>tmp. iter_loop store body head tmp st)"

section \<open>The integrity check\<close>

text \<open>The walk along one bucket: back links, and the number of elements.\<close>

partial_function (option) fsck_chain :: "ut_store \<Rightarrow> ptr \<Rightarrow> ptr \<Rightarrow> u32 \<Rightarrow> u32 run" where
  "fsck_chain s prev thh cnt =
     (if thh = NULL then Some (Inr cnt)
      else bind_run (Some (get_handle s thh)) (\<lambda>h.
           if prev \<noteq> u_hh_prev h then Some (Inl Exit)
           else fsck_chain s thh (u_hh_next h) (cnt + 1)))"

primrec fsck_buckets :: "ut_store \<Rightarrow> ut_bucket list \<Rightarrow> u32 \<Rightarrow> u32 run" where
  "fsck_buckets s [] cnt = Some (Inr cnt)"
| "fsck_buckets s (b # bs) cnt =
     bind_run (fsck_chain s NULL (b_head b) 0) (\<lambda>n.
     if b_count b \<noteq> n then Some (Inl Exit) else fsck_buckets s bs (cnt + n))"

partial_function (option) fsck_list :: "ut_store \<Rightarrow> ptr \<Rightarrow> ptr \<Rightarrow> u32 \<Rightarrow> u32 run" where
  "fsck_list s prev thh cnt =
     (if thh = NULL then Some (Inr cnt)
      else bind_run (Some (get_handle s thh)) (\<lambda>h.
           if prev \<noteq> u_prev h then Some (Inl Exit)
           else fsck_list s thh (u_next h) (cnt + 1)))"

text \<open>\<open>HASH_OOPS\<close> ends the process.\<close>

definition HASH_FSCK :: "ut_store \<Rightarrow> ptr \<Rightarrow> unit run" where
  "HASH_FSCK s head =
     (if head = NULL then Some (Inr ())
      else bind_run (Some (head_table s head)) (\<lambda>(tp, t).
        if length (t_buckets t) < unat (t_num_buckets t) then Some (Inl OutOfBounds)
        else bind_run (fsck_buckets s (take (unat (t_num_buckets t)) (t_buckets t)) 0) (\<lambda>n.
          if n \<noteq> t_num_items t then Some (Inl Exit)
          else bind_run (fsck_list s NULL head 0) (\<lambda>m.
            if m \<noteq> t_num_items t then Some (Inl Exit) else Some (Inr ())))))"

section \<open>The check passes\<close>

lemma fsck_chain_ok:
  assumes "nchain (hhn s) thh cs" "backs (hhp s) prev cs"
  shows "fsck_chain s prev thh cnt = Some (Inr (cnt + of_nat (length cs)))"
  using assms
proof (induction cs arbitrary: thh prev cnt)
  case Nil
  then show ?case by (subst fsck_chain.simps) simp
next
  case (Cons p cs)
  from Cons.prems(1) obtain h where h: "thh = p" "p \<noteq> NULL" "handles s p = Some h" "nchain (hhn s) (u_hh_next h) cs"
    by (rule nchain_hhn_Cons)
  moreover have "u_hh_prev h = prev" "backs (hhp s) p cs" using Cons.prems(2) ut_fields_at [OF h(3)] by simp_all
  ultimately show ?case
    using Cons.IH [of "u_hh_next h" p "cnt + 1"]
    by (subst fsck_chain.simps) (simp add: get_handle_eq add.assoc)
qed

lemma fsck_list_ok:
  assumes "nchain (appn s) thh es" "backs (appp s) prev es"
  shows "fsck_list s prev thh cnt = Some (Inr (cnt + of_nat (length es)))"
  using assms
proof (induction es arbitrary: thh prev cnt)
  case Nil
  then show ?case by (subst fsck_list.simps) simp
next
  case (Cons p es)
  from Cons.prems(1) obtain h where h: "thh = p" "p \<noteq> NULL" "handles s p = Some h" "nchain (appn s) (u_next h) es"
    by (rule nchain_appn_Cons)
  moreover have "u_prev h = prev" "backs (appp s) p es" using Cons.prems(2) ut_fields_at [OF h(3)] by simp_all
  ultimately show ?case
    using Cons.IH [of "u_next h" p "cnt + 1"]
    by (subst fsck_list.simps) (simp add: get_handle_eq add.assoc)
qed

lemma fsck_buckets_ok:
  assumes "\<And>j. j < length bs \<Longrightarrow> bucket_holds s (bs ! j) (css (m + j))"
  shows "fsck_buckets s bs cnt = Some (Inr (cnt + of_nat (length (concat (map css [m..<m + length bs])))))"
  using assms
proof (induction bs arbitrary: m cnt)
  case Nil
  then show ?case by simp
next
  case (Cons b bs)
  have b: "bucket_holds s b (css m)" using Cons.prems [of 0] by simp
  then have "fsck_chain s NULL (b_head b) 0 = Some (Inr (b_count b))"
    using fsck_chain_ok [of s "b_head b" "css m" NULL 0] by (simp add: bucket_holds_def)
  moreover have "bucket_holds s (bs ! j) (css (Suc m + j))" if "j < length bs" for j
    using Cons.prems [of "Suc j"] that by simp
  note Cons.IH [OF this, of "cnt + b_count b"]
  moreover have "[m..<m + length (b # bs)] = m # [Suc m..<Suc m + length bs]"
    by (simp del: upt_Suc add: upt_conv_Cons)
  ultimately show ?case using b by (simp add: bucket_holds_def add.assoc)
qed

text \<open>The chains of all buckets together have as many elements as the table.\<close>

lemma ut_table_ok_length:
  assumes "ut_table_ok s t k es css" "distinct es"
  shows "length (concat (map css [0..<2 ^ k])) = length es"
proof -
  have k: "k < 32" and ln: "length (t_buckets t) = 2 ^ k" and bh: "buckets_hold s (t_buckets t) css"
    and st: "\<And>j. j < 2 ^ k \<Longrightarrow> set (css j) = {p \<in> set es. bkt_of s (2 ^ k) p = j}"
    using assms(1) by (simp_all add: ut_table_ok_def)
  have d: "distinct (concat (map css [0..<2 ^ k]))"
    using buckets_hold_distinct [OF bh _ st] ln by simp
  have "set (concat (map css [0..<2 ^ k])) = set es" using st bkt_of_bound [OF k, of s] by auto
  then show ?thesis using distinct_card [OF d] distinct_card [OF assms(2)] by simp
qed

text \<open>The table of a representation, opened.\<close>

lemma ut_rep_open:
  assumes "ut_rep k s head es" "es \<noteq> []"
  obtains tp t css where "nchain (appn s) head es" "backs (appp s) NULL es" "tp \<noteq> NULL" "tables s tp = Some t"
    "ut_table_ok s t k es css" "t_tail t = last es" "t_num_items t = of_nat (length es)"
    "\<forall>p \<in> set es. ut_item s tp p" "head = hd es" "head_table s head = Inr (tp, t)"
proof -
  from assms obtain tp t css where r: "nchain (appn s) head es" "backs (appp s) NULL es" "tp \<noteq> NULL" "tables s tp = Some t"
    "ut_table_ok s t k es css" "t_tail t = last es" "t_num_items t = of_nat (length es)"
    "\<forall>p \<in> set es. ut_item s tp p"
    by (auto simp: ut_rep_def)
  have h: "head = hd es" using chain_hd [OF r(1)] assms(2) by simp
  then have "ut_item s tp head" using r(8) assms(2) by simp
  then have "head_table s head = Inr (tp, t)"
    using r(3,4) by (auto simp: head_table_def ut_item_def heap_simps)
  with r h that show thesis by blast
qed

text \<open>The check adds up the buckets, whatever the list of the elements; the tail of the table it does not look at.\<close>

lemma fsck_buckets_table:
  assumes "ut_table_ok s t k es css" "distinct es"
  shows "unat (t_num_buckets t) = length (t_buckets t)" "fsck_buckets s (t_buckets t) 0 = Some (Inr (of_nat (length es)))"
proof -
  have k: "k < 32" and nb: "t_num_buckets t = 2 ^ k" and ln: "length (t_buckets t) = 2 ^ k"
    and bh: "buckets_hold s (t_buckets t) css"
    using assms(1) by (simp_all add: ut_table_ok_def)
  show "unat (t_num_buckets t) = length (t_buckets t)" using nb k ln by (simp add: unat_exp32)
  show "fsck_buckets s (t_buckets t) 0 = Some (Inr (of_nat (length es)))"
    using fsck_buckets_ok [of "t_buckets t" s css 0 0] bh ln ut_table_ok_length [OF assms]
    by (simp add: buckets_hold_def)
qed

lemma HASH_FSCK_at:
  assumes "ut_table_ok s t k es css" "distinct es" "t_num_items t = of_nat (length es)" "head_table s head = Inr (tp, t)"
    and "nchain (appn s) head fs" "backs (appp s) NULL fs" "fs \<noteq> []"
  shows "HASH_FSCK s head = (if (of_nat (length fs) :: u32) = of_nat (length es) then Some (Inr ()) else Some (Inl Exit))"
proof -
  have "fsck_list s NULL head 0 = Some (Inr (of_nat (length fs)))" using fsck_list_ok [OF assms(5,6), of 0] by simp
  moreover have "head \<noteq> NULL" using assms(5,7) by (cases fs) auto
  ultimately show ?thesis using fsck_buckets_table [OF assms(1,2)] assms(3,4) by (simp add: HASH_FSCK_def)
qed

lemma HASH_FSCK_ok:
  assumes "ut_rep k s head es"
  shows "HASH_FSCK s head = Some (Inr ())"
proof (cases "es = []")
  case True
  with assms show ?thesis by (simp add: ut_rep_def HASH_FSCK_def)
next
  case False
  from ut_rep_open [OF assms False] obtain tp t css where r: "nchain (appn s) head es" "backs (appp s) NULL es"
    "ut_table_ok s t k es css" "t_num_items t = of_nat (length es)" "head_table s head = Inr (tp, t)" .
  from HASH_FSCK_at [OF r(3) nchain_distinct [OF r(1)] r(4,5,1,2) False] show ?thesis by simp
qed

section \<open>Deletion from a bucket\<close>

lemma write_hh_next_ok:
  assumes "p \<noteq> NULL \<Longrightarrow> p \<in> dom (handles s)"
  obtains s' where "(if p \<noteq> NULL then write_hh_next s p q else Inr s) = Inr s'"
    and "same_cores s s'" and "hhn s' = (if p \<noteq> NULL then (hhn s)(p \<mapsto> q) else hhn s)" and "hhp s' = hhp s"
proof (cases "p = NULL")
  case True
  then show thesis using that [of s] by simp
next
  case False
  with assms obtain h where h: "handles s p = Some h" by blast
  let ?s = "set_handle s p (h\<lparr>u_hh_next := q\<rparr>)"
  have "write_hh_next s p q = Inr ?s" using False h by (simp add: write_hh_next_def heap_simps)
  moreover have "same_cores s ?s" using h by (auto simp: same_cores_def cores_eq_def core_def)
  moreover have "hhp ?s = hhp s" using ut_fields_at [OF h] by (auto simp: fun_eq_iff)
  ultimately show thesis using that [of ?s] False by simp
qed

lemma HASH_DEL_IN_BKT_ok:
  assumes t: "tables s tp = Some t" "tp \<noteq> NULL" and ok: "ut_table_ok s t k es css" and dist: "distinct es"
    and del: "del \<in> set es" "handles s del = Some d" "del \<noteq> NULL"
  shows "\<exists>s' t' css'. HASH_DEL_IN_BKT tp (HASH_TO_BKT (u_hashv d) (2 ^ k)) del s = Inr s'
     \<and> cores_eq s s' \<and> tables s' = (tables s)(tp \<mapsto> t') \<and> ut_table_ok s' t' k (remove1 del es) css'
     \<and> t_tail t' = t_tail t \<and> t_num_items t' = t_num_items t"
proof -
  define i where "i = bkt_of s (2 ^ k) del"
  have i: "unat (HASH_TO_BKT (u_hashv d) (2 ^ k)) = i" using del(2) by (simp add: i_def bkt_of_def)
  have k: "k < 32" and bh: "buckets_hold s (t_buckets t) css" and ln: "length (t_buckets t) = 2 ^ k"
    and st: "\<And>j. j < 2 ^ k \<Longrightarrow> set (css j) = {p \<in> set es. bkt_of s (2 ^ k) p = j}"
    using ok by (simp_all add: ut_table_ok_def)
  have il: "i < 2 ^ k" using bkt_of_bound [OF k, of s del] by (simp add: i_def)
  let ?b = "t_buckets t ! i"
  have bi: "nchain (hhn s) (b_head ?b) (css i)" "backs (hhp s) NULL (css i)" "b_count ?b = of_nat (length (css i))"
    using bh il ln by (simp_all add: buckets_hold_def bucket_holds_def)
  have "del \<in> set (css i)" using st [OF il] del(1) by (simp add: i_def)
  then obtain as bs where ab: "css i = as @ del # bs" by (auto simp: in_set_conv_decomp)
  have di: "distinct (as @ del # bs)" using nchain_distinct [OF bi(1)] ab by simp
  define r where "r = (if bs = [] then NULL else hd bs)"
  define l where "l = last (NULL # as)"
  have nx: "u_hh_next d = r"
    using nchain_field [OF bi(1) [unfolded ab]] ut_fields_at(1) [OF del(2)] by (simp add: r_def)
  have pv: "u_hh_prev d = l" using backs_field [of "hhp s" NULL as del bs] bi(2) ut_fields_at(2) [OF del(2)]
    by (simp add: ab l_def)
  have nn: "NULL \<notin> set (css i)" by (rule chain_NULL_notin [OF bi(1)])
  have l0: "l = NULL \<longleftrightarrow> as = []" using nn last_NULL_iff [of as] by (simp add: ab l_def)
  have r0: "r = NULL \<longleftrightarrow> bs = []" using nn by (cases bs) (auto simp: ab r_def)
  have dom: "set (css i) \<subseteq> dom (handles s)" using chain_dom [OF bi(1)] by (simp add: hhn_dom)
  define b' where "b' = ?b\<lparr>b_count := b_count ?b - 1, b_head := (if b_head ?b = del then u_hh_next d else b_head ?b)\<rparr>"
  define t' where "t' = t\<lparr>t_buckets := (t_buckets t)[i := b']\<rparr>"
  let ?s1 = "set_table s tp t'"
  have "l \<in> dom (handles ?s1)" if "l \<noteq> NULL"
  proof -
    have "l \<in> set as" using that l0 by (simp add: l_def)
    with dom show ?thesis by (auto simp: ab)
  qed
  then obtain s2 where s2: "(if l \<noteq> NULL then write_hh_next ?s1 l r else Inr ?s1) = Inr s2"
    "same_cores ?s1 s2" "hhn s2 = (if l \<noteq> NULL then (hhn ?s1)(l \<mapsto> r) else hhn ?s1)" "hhp s2 = hhp ?s1"
    by (rule write_hh_next_ok) blast
  obtain d2 where d2: "handles s2 del = Some d2"
    using cores_eq_handle [OF same_cores_cores [OF s2(2)]] del(2) by (metis handles_set_table)
  have "l \<noteq> del" using di l0 del(3) by (auto simp: l_def)
  then have "hhn s2 del = hhn s del" "hhp s2 del = hhp s del" using s2(3,4) by simp_all
  then have d2f: "u_hh_next d2 = r" "u_hh_prev d2 = l"
    using ut_fields_at [OF d2] ut_fields_at [OF del(2)] nx pv by simp_all
  have "r \<in> dom (handles s2)" if "r \<noteq> NULL"
  proof -
    have "r \<in> set bs" using that r0 by (simp add: r_def)
    then have "r \<in> dom (handles s)" using dom by (auto simp: ab)
    then have "hhp s2 r \<noteq> None" using s2(4) by (auto simp: hhp_def)
    then show ?thesis by (auto simp: hhp_def)
  qed
  then obtain s3 where s3: "(if r \<noteq> NULL then write_hh_prev s2 r l else Inr s2) = Inr s3"
    "same_cores s2 s3" "hhn s3 = hhn s2" "hhp s3 = (if r \<noteq> NULL then (hhp s2)(r \<mapsto> l) else hhp s2)"
    by (rule write_hh_prev_ok) blast
  have at: "get_table s tp = Inr t" "get_handle s del = Inr d" "get_handle s2 del = Inr d2"
    "bucket_at (t_buckets t) (HASH_TO_BKT (u_hashv d) (2 ^ k)) = Inr ?b"
    using t del d2 i il ln by (simp_all add: heap_simps bucket_at_def)
  have run: "HASH_DEL_IN_BKT tp (HASH_TO_BKT (u_hashv d) (2 ^ k)) del s = Inr s3"
    unfolding HASH_DEL_IN_BKT_def at bind_res_Inr Let_def i b'_def [symmetric] t'_def [symmetric]
    unfolding pv nx s2(1) bind_res_Inr at d2f s3(1) ..
  have c: "cores_eq s s3"
    using cores_eq_trans [OF same_cores_cores [OF s2(2)] same_cores_cores [OF s3(2)]] by simp
  have tb: "tables s3 = (tables s)(tp \<mapsto> t')"
    using same_cores_tables [OF s3(2)] same_cores_tables [OF s2(2)] by simp
  have hn: "hhn s3 = (if as = [] then hhn s else (hhn s)(last as \<mapsto> r))"
  proof -
    have "as \<noteq> [] \<Longrightarrow> last as = l" by (simp add: l_def)
    then show ?thesis using s3(3) s2(3) l0 by simp
  qed
  have hp: "hhp s3 = (if bs = [] then hhp s else (hhp s)(hd bs \<mapsto> last (NULL # as)))"
  proof -
    have "bs \<noteq> [] \<Longrightarrow> hd bs = r" "last (NULL # as) = l" by (simp_all add: l_def r_def)
    then show ?thesis using s3(4) s2(4) r0 by simp
  qed
  have bhd: "b_head b' = (if as = [] then r else b_head ?b)"
    using chain_hd [OF bi(1)] di nx by (cases as) (auto simp: b'_def ab)
  have hold: "bucket_holds s3 b' (as @ bs)"
    unfolding bucket_holds_def bhd hn hp
  proof (intro conjI)
    show "nchain (if as = [] then hhn s else (hhn s)(last as \<mapsto> r)) (if as = [] then r else b_head ?b) (as @ bs)"
      using chain_unlink [of "hhn s" _ as del bs r] bi(1) by (simp only: ab r_def)
    show "backs (if bs = [] then hhp s else (hhp s)(hd bs \<mapsto> last (NULL # as))) NULL (as @ bs)"
      using backs_unlink [of "hhp s" NULL as del bs] bi(2) di by (simp only: ab)
    show "b_count b' = of_nat (length (as @ bs))" using bi(3) by (simp add: b'_def ab)
  qed
  have "bucket_holds s3 (t_buckets t ! j) (css j)" if j: "j < 2 ^ k" "j \<noteq> i" for j
  proof (rule bucket_holds_frame)
    show "bucket_holds s (t_buckets t ! j) (css j)" using bh ln j by (simp add: buckets_hold_def)
    fix a assume "a \<in> set (css j)"
    then have "a \<notin> set (css i)" using st [OF il] st [OF j(1)] j(2) by auto
    then have "as \<noteq> [] \<Longrightarrow> a \<noteq> last as" "bs \<noteq> [] \<Longrightarrow> a \<noteq> hd bs" by (auto simp: ab)
    then show "hhn s3 a = hhn s a" "hhp s3 a = hhp s a" by (simp_all add: hn hp)
  qed
  with hold have "buckets_hold s3 (t_buckets t') (css(i := as @ bs))"
    using ln il by (simp add: buckets_hold_def t'_def nth_list_update)
  moreover have "set ((css(i := as @ bs)) j) = {p \<in> set (remove1 del es). bkt_of s3 (2 ^ k) p = j}" if "j < 2 ^ k" for j
  proof -
    have "set ((css(i := as @ bs)) j) = set (css j) - {del}"
    proof (cases "j = i")
      case True
      have "set (css i) = insert del (set as \<union> set bs)" using arg_cong [OF ab, of set] by auto
      with True di show ?thesis by auto
    next
      case False
      with st [OF that] show ?thesis by (auto simp: i_def)
    qed
    then show ?thesis using st [OF that] dist by (auto simp: set_remove1_eq bkt_of_cores_eq [OF c])
  qed
  ultimately have "ut_table_ok s3 t' k (remove1 del es) (css(i := as @ bs))"
    using ok by (simp add: ut_table_ok_def t'_def)
  then show ?thesis using run c tb
    by (intro exI [of _ s3] exI [of _ t'] exI [of _ "css(i := as @ bs)"]) (simp add: t'_def)
qed

section \<open>Deletion from the list of elements\<close>

text \<open>What re-linking the list of the elements leaves alone.\<close>

definition app_core :: "ut_handle \<Rightarrow> ut_handle" where
  "app_core h = h\<lparr>u_prev := NULL, u_next := NULL\<rparr>"

definition app_eq :: "ut_store \<Rightarrow> ut_store \<Rightarrow> bool" where
  "app_eq s s' \<longleftrightarrow> (\<forall>p. map_option app_core (handles s' p) = map_option app_core (handles s p))"

lemma app_eq_refl: "app_eq s s"
  by (simp add: app_eq_def)

lemma app_eq_trans: "app_eq s s' \<Longrightarrow> app_eq s' s'' \<Longrightarrow> app_eq s s''"
  by (simp add: app_eq_def)

lemma app_eq_handles: "handles s1 = handles s \<Longrightarrow> app_eq s1 s' = app_eq s s'"
  by (simp add: app_eq_def)

lemma app_eq_field:
  assumes "app_eq s s'" and "\<And>h. f (app_core h) = f h"
  shows "map_option f (handles s' p) = map_option f (handles s p)"
proof -
  have *: "map_option f x = map_option f (map_option app_core x)" for x
    using assms(2) by (cases x) simp_all
  show ?thesis using assms(1) by (subst (1 2) *) (simp add: app_eq_def)
qed

lemma app_eq_handle:
  assumes "app_eq s s'" and "handles s p = Some h"
  obtains h' where "handles s' p = Some h'" "u_tbl h' = u_tbl h" "u_hh_prev h' = u_hh_prev h"
    "u_hh_next h' = u_hh_next h" "u_key h' = u_key h" "u_keylen h' = u_keylen h" "u_hashv h' = u_hashv h"
proof -
  from assms have "map_option app_core (handles s' p) = Some (app_core h)" by (simp add: app_eq_def)
  then obtain h' where "handles s' p = Some h'" "app_core h' = app_core h" by (auto simp: map_option_eq_Some)
  then show thesis using that by (cases h; cases h'; simp add: app_core_def)
qed

lemma app_eq_frame:
  assumes "app_eq s s'"
  shows "hhn s' = hhn s" "hhp s' = hhp s" "key_of s' = key_of s" "bkt_of s' n p = bkt_of s n p"
    "ut_item s tp p \<Longrightarrow> ut_item s' tp p"
proof -
  show "hhn s' = hhn s" "hhp s' = hhp s"
    by (auto simp: fun_eq_iff hhn_def hhp_def app_core_def intro!: app_eq_field [OF assms])
  have k: "map_option u_key (handles s' p) = map_option u_key (handles s p)" for p
    by (rule app_eq_field [OF assms]) (simp add: app_core_def)
  show "key_of s' = key_of s"
  proof
    fix p show "key_of s' p = key_of s p"
      using k [of p] by (cases "handles s p"; cases "handles s' p") (simp_all add: key_of_def)
  qed
  have v: "map_option u_hashv (handles s' p) = map_option u_hashv (handles s p)"
    by (rule app_eq_field [OF assms]) (simp add: app_core_def)
  then show "bkt_of s' n p = bkt_of s n p"
    by (cases "handles s p"; cases "handles s' p") (simp_all add: bkt_of_def)
  show "ut_item s tp p \<Longrightarrow> ut_item s' tp p"
    by (auto simp: ut_item_def elim!: app_eq_handle [OF assms])
qed

lemma write_app_ok:
  assumes "p \<noteq> NULL \<Longrightarrow> p \<in> dom (handles s)"
  shows "\<exists>s'. (if p \<noteq> NULL then write_app_next s p q else Inr s) = Inr s' \<and> tables s' = tables s \<and> app_eq s s'
      \<and> appn s' = (if p \<noteq> NULL then (appn s)(p \<mapsto> q) else appn s) \<and> appp s' = appp s" (is ?next)
    and "\<exists>s'. (if p \<noteq> NULL then write_app_prev s p q else Inr s) = Inr s' \<and> tables s' = tables s \<and> app_eq s s'
      \<and> appp s' = (if p \<noteq> NULL then (appp s)(p \<mapsto> q) else appp s) \<and> appn s' = appn s" (is ?prev)
proof -
  have "?next \<and> ?prev"
  proof (cases "p = NULL")
    case True
    then show ?thesis by (auto intro: app_eq_refl)
  next
    case False
    with assms obtain h where h: "handles s p = Some h" by blast
    have "app_eq s (set_handle s p (h\<lparr>u_next := q\<rparr>))" "app_eq s (set_handle s p (h\<lparr>u_prev := q\<rparr>))"
      using h by (auto simp: app_eq_def app_core_def)
    then show ?thesis using False ut_fields_at [OF h] h
      by (auto simp: write_app_next_def write_app_prev_def heap_simps fun_eq_iff)
  qed
  then show ?next ?prev by blast+
qed

lemma head_table_item:
  "ut_item s tp p \<Longrightarrow> tp \<noteq> NULL \<Longrightarrow> tables s tp = Some t \<Longrightarrow> head_table s p = Inr (tp, t)"
  by (auto simp: head_table_def ut_item_def heap_simps)

lemma HASH_DELETE_last:
  assumes "ut_rep k s head [del]"
  shows "\<exists>tp. HASH_DELETE s head del = Inr (NULL, free_table s tp)"
proof -
  from ut_rep_open [OF assms] obtain tp t where r: "nchain (appn s) head [del]" "backs (appp s) NULL [del]"
    "\<forall>p \<in> set [del]. ut_item s tp p" "head_table s head = Inr (tp, t)" by blast
  then obtain d where d: "handles s del = Some d" "del \<noteq> NULL" by (auto simp: ut_item_def)
  have "u_prev d = NULL" "u_next d = NULL" using r(1,2) ut_fields_at [OF d(1)] by auto
  with d r(4) show ?thesis by (intro exI [of _ tp]) (simp add: HASH_DELETE_def heap_simps)
qed

lemma HASH_DELETE_other:
  assumes rep: "ut_rep k s head (as @ del # bs)" and more: "as @ bs \<noteq> []"
  shows "\<exists>s'. HASH_DELETE s head del = Inr (hd (as @ bs), s') \<and> ut_rep k s' (hd (as @ bs)) (as @ bs) \<and> key_of s' = key_of s"
proof -
  let ?es = "as @ del # bs"
  from ut_rep_open [OF rep] obtain tp t css where r: "nchain (appn s) head ?es" "backs (appp s) NULL ?es"
    "tp \<noteq> NULL" "tables s tp = Some t" "ut_table_ok s t k ?es css" "t_tail t = last ?es"
    "t_num_items t = of_nat (length ?es)" "\<forall>p \<in> set ?es. ut_item s tp p" "head = hd ?es" "head_table s head = Inr (tp, t)"
    by blast
  have dist: "distinct ?es" using r(1) by (rule nchain_distinct)
  have nn: "NULL \<notin> set ?es" by (rule chain_NULL_notin [OF r(1)])
  obtain d where d: "handles s del = Some d" "del \<noteq> NULL" using r(8) by (auto simp: ut_item_def)
  define q where "q = (if bs = [] then NULL else hd bs)"
  define l where "l = last (NULL # as)"
  have nx: "u_next d = q" using nchain_field [OF r(1)] ut_fields_at(3) [OF d(1)] by (simp add: q_def)
  have pv: "u_prev d = l" using backs_field [OF r(2)] ut_fields_at(4) [OF d(1)] by (simp add: l_def)
  have l0: "l = NULL \<longleftrightarrow> as = []" using nn last_NULL_iff [of as] by (simp add: l_def)
  have q0: "q = NULL \<longleftrightarrow> bs = []" using nn by (cases bs) (auto simp: q_def)
  have lin: "l \<in> set as" if "l \<noteq> NULL" using that l0 by (simp add: l_def)
  have qin: "q \<in> set bs" if "q \<noteq> NULL" using that q0 by (simp add: q_def)
  have dom: "p \<in> dom (handles s)" if "p \<in> set ?es" for p using r(8) that by (auto simp: ut_item_def)
  have tl: "del = t_tail t \<longleftrightarrow> bs = []" using dist r(6) by (auto simp: last_append)
  define t1 where "t1 = (if del = t_tail t then t\<lparr>t_tail := l\<rparr> else t)"
  define s1 where "s1 = (if del = t_tail t then set_table s tp (t\<lparr>t_tail := l\<rparr>) else s)"
  have s1: "handles s1 = handles s" "tables s1 tp = Some t1" "tp \<noteq> NULL"
    using r(3,4) by (simp_all add: s1_def t1_def)
  have a1: "appn s1 = appn s" "appp s1 = appp s" by (simp_all add: s1_def)
  obtain s2 where s2: "(if l \<noteq> NULL then write_app_next s1 l q else Inr s1) = Inr s2" "tables s2 = tables s1"
    "app_eq s1 s2" "appn s2 = (if l \<noteq> NULL then (appn s1)(l \<mapsto> q) else appn s1)" "appp s2 = appp s1"
    using write_app_ok(1) [of l s1 q] lin dom s1(1) by auto
  obtain d2 where d2: "handles s2 del = Some d2"
    using app_eq_handle [OF s2(3)] d(1) s1(1) by metis
  have "l \<noteq> del" using dist lin d(2) by auto
  then have "appn s2 del = appn s del" "appp s2 del = appp s del" using s2(4,5) a1 by simp_all
  then have d2f: "u_next d2 = q" "u_prev d2 = l"
    using ut_fields_at [OF d2] ut_fields_at [OF d(1)] nx pv by simp_all
  have "q \<in> dom (handles s2)" if "q \<noteq> NULL"
  proof -
    have "q \<in> dom (handles s)" using dom qin [OF that] by simp
    then have "appp s2 q \<noteq> None" using s2(5) a1 by (auto simp: appp_def)
    then show ?thesis by (auto simp: appp_def)
  qed
  then obtain s3 where s3: "(if q \<noteq> NULL then write_app_prev s2 q l else Inr s2) = Inr s3" "tables s3 = tables s2"
    "app_eq s2 s3" "appp s3 = (if q \<noteq> NULL then (appp s2)(q \<mapsto> l) else appp s2)" "appn s3 = appn s2"
    using write_app_ok(2) [of q s2 l] by auto
  have e: "app_eq s s3" using app_eq_trans [OF s2(3) s3(3)] app_eq_handles [OF s1(1)] by simp
  note fr = app_eq_frame [OF e]
  obtain d3 where d3: "handles s3 del = Some d3" "u_hashv d3 = u_hashv d" using app_eq_handle [OF e d(1)] by metis
  have tb3: "tables s3 tp = Some t1" using s3(2) s2(2) s1(2) by simp
  have tok: "ut_table_ok s3 t1 k ?es css"
  proof (rule ut_table_ok_cong)
    show "ut_table_ok s3 t k ?es css" using r(5) by (rule ut_table_ok_frame) (simp_all add: fr)
  qed (simp_all add: t1_def)
  have nb: "t_num_buckets t1 = 2 ^ k" using tok by (simp add: ut_table_ok_def)
  have es: "remove1 del ?es = as @ bs" using dist by (simp add: remove1_split)
  obtain s4 t' css' where s4: "HASH_DEL_IN_BKT tp (HASH_TO_BKT (u_hashv d3) (2 ^ k)) del s3 = Inr s4"
    "cores_eq s3 s4" "tables s4 = (tables s3)(tp \<mapsto> t')" "ut_table_ok s4 t' k (as @ bs) css'"
    "t_tail t' = t_tail t1" "t_num_items t' = t_num_items t1"
    using HASH_DEL_IN_BKT_ok [OF tb3 r(3) tok dist _ d3(1) d(2)] unfolding es by auto
  define head' where "head' = hd (as @ bs)"
  have hin: "head' \<in> set (as @ bs)" using more by (simp only: head'_def hd_in_set not_False_eq_True)
  have hd: "(if as = [] then q else head) = head'" using more r(9) by (cases as) (simp_all add: q_def head'_def)
  have it3: "ut_item s3 tp p" if "p \<in> set (as @ bs)" for p using r(8) that fr(5) by simp
  have it4: "ut_item s4 tp p" if "p \<in> set (as @ bs)" for p using it3 [OF that] by (rule ut_item_cores_eq(1) [OF s4(2)])
  have ht: "head_table s3 head' = Inr (tp, t1)" "head_table s4 head' = Inr (tp, t')"
    using head_table_item [OF it3 [OF hin] r(3) tb3] head_table_item [OF it4 [OF hin] r(3), of t'] s4(3) by simp_all
  let ?s5 = "set_table s4 tp (t'\<lparr>t_num_items := t_num_items t' - 1\<rparr>)"
  have at: "get_handle s del = Inr d" "get_handle s2 del = Inr d2" "get_handle s3 del = Inr d3"
    using d d2 d3 by (simp_all add: heap_simps)
  have not_only: "(l = NULL \<and> q = NULL) = False" using more l0 q0 by auto
  have first: "(if l \<noteq> NULL then bind_res (write_app_next s1 l q) (\<lambda>s2. Inr (head, s2)) else Inr (q, s1)) = Inr (head', s2)"
    using s2(1) l0 hd by (auto split: if_splits)
  have "HASH_DELETE s head del = Inr (head', ?s5)"
    unfolding HASH_DELETE_def at bind_res_Inr pv nx not_only if_False r(10) prod.case s1_def [symmetric] Let_def
      first d2f s3(1) ht nb s4(1) by simp
  moreover have "ut_rep k ?s5 head' (as @ bs)"
  proof -
    have "appn s3 = (if as = [] then appn s else (appn s)(last as \<mapsto> q))"
    proof -
      have "as \<noteq> [] \<Longrightarrow> last as = l" by (simp add: l_def)
      then show ?thesis using s3(5) s2(4) a1 l0 by simp
    qed
    then have "nchain (appn s3) head' (as @ bs)"
      using chain_unlink [OF r(1), of q] hd by (simp add: q_def)
    moreover have "appp s3 = (if bs = [] then appp s else (appp s)(hd bs \<mapsto> last (NULL # as)))"
    proof -
      have "bs \<noteq> [] \<Longrightarrow> hd bs = q" "last (NULL # as) = l" by (simp_all add: l_def q_def)
      then show ?thesis using s3(4) s2(5) a1 q0 by simp
    qed
    then have "backs (appp s3) NULL (as @ bs)" using backs_unlink [OF r(2) dist] by simp
    moreover have "t_tail t' = last (as @ bs)"
    proof (cases "bs = []")
      case True
      then show ?thesis using more tl s4(5) by (simp add: t1_def l_def)
    next
      case False
      then show ?thesis using tl r(6) s4(5) by (simp add: t1_def)
    qed
    moreover have "t_num_items t' - 1 = of_nat (length (as @ bs))"
      using s4(6) r(7) by (simp add: t1_def)
    moreover have "ut_table_ok ?s5 (t'\<lparr>t_num_items := t_num_items t' - 1\<rparr>) k (as @ bs) css'"
      using ut_table_ok_cong [OF s4(4)] by simp
    ultimately show ?thesis
      using more it4 r(3) by (auto simp: ut_rep_def cores_eq_appn [OF s4(2)] cores_eq_appp [OF s4(2)] ut_item_def)
  qed
  moreover have "key_of ?s5 = key_of s"
  proof
    fix p
    have "cores_eq s3 ?s5" using s4(2) by simp
    then show "key_of ?s5 p = key_of s p" by (simp add: key_of_cores_eq fr(3))
  qed
  ultimately show ?thesis unfolding head'_def by blast
qed

lemma HASH_DELETE_ok:
  assumes "ut_rep k s head es" "del \<in> set es"
  shows "\<exists>s'. HASH_DELETE s head del = Inr (first_of (remove1 del es), s')
     \<and> ut_rep k s' (first_of (remove1 del es)) (remove1 del es) \<and> key_of s' = key_of s"
proof -
  from assms(2) obtain as bs where es: "es = as @ del # bs" "del \<notin> set as" by (metis split_list_first)
  then have rm: "remove1 del es = as @ bs" by (simp add: remove1_split)
  show ?thesis
  proof (cases "as @ bs = []")
    case True
    then have "ut_rep k s head [del]" using assms(1) es by simp
    from HASH_DELETE_last [OF this] obtain tp where x: "HASH_DELETE s head del = Inr (NULL, free_table s tp)" by blast
    have "key_of (free_table s tp) = key_of s" by (simp add: fun_eq_iff key_of_def free_table_def)
    with x True show ?thesis unfolding rm by (simp add: ut_rep_def)
  next
    case False
    then have f: "first_of (as @ bs) = hd (as @ bs)" by (simp only: if_False)
    show ?thesis unfolding rm f using assms(1) unfolding es(1) by (rule HASH_DELETE_other [OF _ False])
  qed
qed

section \<open>A keyed store\<close>

lemma remove1_key:
  "distinct (map f es) \<Longrightarrow> p \<in> set es \<Longrightarrow> remove1 p es = filter (\<lambda>q. f q \<noteq> f p) es"
proof (induction es)
  case Nil
  then show ?case by simp
next
  case (Cons e es)
  show ?case
  proof (cases "e = p")
    case True
    have "f e \<notin> f ` set es" using Cons.prems(1) by simp
    then have "\<forall>q \<in> set es. f q \<noteq> f p" using True by (metis imageI)
    with True show ?thesis by (simp add: filter_id_conv)
  next
    case False
    with Cons show ?thesis by (auto simp: image_iff)
  qed
qed

text \<open>
  An index whose elements can be removed: removal takes one element off the list and leaves the keys
  of all others alone.
\<close>

locale keyed_store = keyed_index rep key_at key_ok lookup append_elem
  for rep :: "nat \<Rightarrow> 's \<Rightarrow> ptr \<Rightarrow> ptr list \<Rightarrow> bool" and key_at :: "'s \<Rightarrow> ptr \<Rightarrow> 'k"
    and key_ok :: "'k \<Rightarrow> bool" and lookup :: "'s \<Rightarrow> ptr \<Rightarrow> 'k \<Rightarrow> ptr run"
    and append_elem :: "ptr \<Rightarrow> 's \<Rightarrow> ptr \<Rightarrow> 'k \<Rightarrow> ptr \<Rightarrow> (ptr \<times> 's) run" +
  fixes remove_elem :: "'s \<Rightarrow> ptr \<Rightarrow> ptr \<Rightarrow> (ptr \<times> 's) res"
  assumes remove_law: "rep k s head es \<Longrightarrow> p \<in> set es \<Longrightarrow>
      \<exists>s'. remove_elem s head p = Inr (first_of (remove1 p es), s')
        \<and> rep k s' (first_of (remove1 p es)) (remove1 p es) \<and> key_at s' = key_at s"
begin

text \<open>Removing whatever element has a key.\<close>

lemma drop_key:
  assumes rep: "rep k s head es" and ok: "key_ok key" and d: "distinct (map (key_at s) es)"
  shows "\<exists>r head' s'. lookup s head key = Some (Inr r)
     \<and> (if r \<noteq> NULL then remove_elem s head r else Inr (head, s)) = Inr (head', s')
     \<and> rep k s' head' (filter (\<lambda>p. key_at s p \<noteq> key) es) \<and> key_at s' = key_at s
     \<and> r = (case find (\<lambda>p. key_at s p = key) es of None \<Rightarrow> NULL | Some p \<Rightarrow> p)"
proof (cases "find (\<lambda>p. key_at s p = key) es")
  case None
  then have "filter (\<lambda>p. key_at s p \<noteq> key) es = es" by (auto simp: find_None_iff filter_id_conv)
  with None lookup_law [OF rep ok d] rep show ?thesis by simp
next
  case (Some p)
  then have p: "p \<in> set es" "key_at s p = key" by (auto simp: find_Some_iff)
  then have "p \<noteq> NULL" using nonnull [OF rep] by metis
  moreover obtain s' where s': "remove_elem s head p = Inr (first_of (remove1 p es), s')"
    "rep k s' (first_of (remove1 p es)) (remove1 p es)" "key_at s' = key_at s"
    using remove_law [OF rep p(1)] by blast
  moreover have "remove1 p es = filter (\<lambda>p. key_at s p \<noteq> key) es" using remove1_key [OF d p(1)] p(2) by simp
  ultimately show ?thesis using lookup_law [OF rep ok d] Some
    by (intro exI [of _ p] exI [of _ "first_of (remove1 p es)"] exI [of _ s']) simp
qed

lemma drop_key_keys: "distinct (map (key_at s) es) \<Longrightarrow> distinct (map (key_at s) (filter P es))"
  by (rule distinct_map_filter)

text \<open>The key is then gone, so it can be put in again.\<close>

lemma replace_key:
  assumes rep: "rep k s head es" and k: "k < 31" and ok: "key_ok key" and d: "distinct (map (key_at s) es)"
    and add: "add \<noteq> NULL" "add \<notin> set (filter (\<lambda>p. key_at s p \<noteq> key) es)" and tp: "tp \<noteq> NULL"
  defines "es' \<equiv> filter (\<lambda>p. key_at s p \<noteq> key) es @ [add]"
  shows "\<exists>r head' s' k' s''. lookup s head key = Some (Inr r)
     \<and> (if r \<noteq> NULL then remove_elem s head r else Inr (head, s)) = Inr (head', s')
     \<and> append_elem tp s' head' key add = Some (Inr (hd es', s''))
     \<and> k' \<le> max 6 (Suc k) \<and> rep k' s'' (hd es') es' \<and> key_at s'' = (key_at s)(add := key)
     \<and> distinct (map (key_at s'') es')
     \<and> r = (case find (\<lambda>p. key_at s p = key) es of None \<Rightarrow> NULL | Some p \<Rightarrow> p)"
proof -
  let ?es = "filter (\<lambda>p. key_at s p \<noteq> key) es"
  obtain r head' s' where x: "lookup s head key = Some (Inr r)"
    "(if r \<noteq> NULL then remove_elem s head r else Inr (head, s)) = Inr (head', s')"
    "rep k s' head' ?es" "key_at s' = key_at s"
    "r = (case find (\<lambda>p. key_at s p = key) es of None \<Rightarrow> NULL | Some p \<Rightarrow> p)"
    using drop_key [OF rep ok d] by blast
  have "distinct (map (key_at s') ?es)" using drop_key_keys [OF d] x(4) by simp
  moreover have "key \<notin> key_at s' ` set ?es" using x(4) by auto
  ultimately obtain s'' k' where "append_elem tp s' head' key add = Some (Inr (hd es', s''))"
    "k' \<le> max 6 (Suc k)" "rep k' s'' (hd es') es'" "key_at s'' = (key_at s')(add := key)"
    "distinct (map (key_at s'') es')"
    using append_absent [OF x(3) k add tp ok] unfolding es'_def by blast
  with x show ?thesis
    by (intro exI [of _ r] exI [of _ head'] exI [of _ s'] exI [of _ k'] exI [of _ s'']) simp
qed

end

interpretation uts: keyed_store ut_rep key_of "\<lambda>key. length key < 2 ^ 32" HASH_FIND
  "\<lambda>tp. HASH_ADD tp True" HASH_DELETE
  by unfold_locales (rule HASH_DELETE_ok)

lemma HASH_REPLACE_ok:
  assumes "ut_rep k s head es" "k < 31" "length key < 2 ^ 32" "distinct (map (key_of s) es)"
    and "add \<noteq> NULL" "add \<notin> set (filter (\<lambda>p. key_of s p \<noteq> key) es)" "tp \<noteq> NULL"
  defines "es' \<equiv> filter (\<lambda>p. key_of s p \<noteq> key) es @ [add]"
  shows "\<exists>r k' s'. HASH_REPLACE tp True s head key add = Some (Inr (r, hd es', s'))
     \<and> k' \<le> max 6 (Suc k) \<and> ut_rep k' s' (hd es') es' \<and> key_of s' = (key_of s)(add := key)
     \<and> distinct (map (key_of s') es')
     \<and> r = (case find (\<lambda>p. key_of s p = key) es of None \<Rightarrow> NULL | Some p \<Rightarrow> p)"
proof -
  obtain r head' s1 k' s'' where x: "HASH_FIND s head key = Some (Inr r)"
    "(if r \<noteq> NULL then HASH_DELETE s head r else Inr (head, s)) = Inr (head', s1)"
    "HASH_ADD tp True s1 head' key add = Some (Inr (hd es', s''))"
    "k' \<le> max 6 (Suc k)" "ut_rep k' s'' (hd es') es'" "key_of s'' = (key_of s)(add := key)"
    "distinct (map (key_of s'') es')"
    "r = (case find (\<lambda>p. key_of s p = key) es of None \<Rightarrow> NULL | Some p \<Rightarrow> p)"
    using uts.replace_key [OF assms(1-7)] unfolding es'_def by blast
  have "(if r \<noteq> NULL then Some (HASH_DELETE s head r) else Some (Inr (head, s))) = Some (Inr (head', s1))"
    using x(2) by (simp split: if_splits)
  then have "HASH_REPLACE tp True s head key add = Some (Inr (r, hd es', s''))"
    unfolding HASH_REPLACE_def by (simp only: x(1,3) bind_run_simps prod.case)
  with x(4-8) show ?thesis by (intro exI [of _ r] exI [of _ k'] exI [of _ s'']) simp
qed

lemma HASH_CNT_ok:
  assumes "ut_rep k s head es" shows "HASH_CNT s head = Inr (of_nat (length es))"
proof (cases "es = []")
  case True
  with assms show ?thesis by (simp add: ut_rep_def HASH_CNT_def)
next
  case False
  from ut_rep_open [OF assms False] obtain tp t where r: "nchain (appn s) head es" "head_table s head = Inr (tp, t)"
    "t_num_items t = of_nat (length es)" by blast
  moreover have "head \<noteq> NULL" using r(1) False by (cases es) auto
  ultimately show ?thesis by (simp add: HASH_CNT_def)
qed

lemma HASH_CLEAR_ok:
  assumes "ut_rep k s head es"
  shows "\<exists>s'. HASH_CLEAR s head = Inr (NULL, s') \<and> handles s' = handles s \<and>
     tables s' = (if es = [] then tables s else (tables s)(the (map_option u_tbl (handles s head)) := None))"
proof (cases "es = []")
  case True
  with assms show ?thesis by (simp add: ut_rep_def HASH_CLEAR_def)
next
  case False
  from ut_rep_open [OF assms False] obtain tp t where r: "nchain (appn s) head es" "\<forall>p \<in> set es. ut_item s tp p"
    "head = hd es" "head_table s head = Inr (tp, t)" by blast
  then have "ut_item s tp head" using False by simp
  then show ?thesis using r(4) False
    by (auto simp: HASH_CLEAR_def free_table_def ut_item_def)
qed

section \<open>Iteration\<close>

lemma app_next_ok:
  assumes "ut_rep k s head (as @ bs)"
  shows "app_next s (first_of bs) = Inr (first_of (tl bs))"
proof (cases bs)
  case Nil
  then show ?thesis by (simp add: app_next_def)
next
  case (Cons b cs)
  with assms have ch: "nchain (appn s) head (as @ b # cs)" by (simp add: ut_rep_def split: if_splits)
  then have "appn s b = Some (first_of cs)" by (rule nchain_field)
  moreover from this obtain h where "handles s b = Some h" "u_next h = first_of cs" by (auto simp: appn_def)
  moreover have "b \<noteq> NULL" using chain_NULL_notin [OF ch] by auto
  ultimately show ?thesis using Cons by (simp add: app_next_def heap_simps)
qed

text \<open>The program's state is what has been visited, the head and the store.\<close>

definition iter_store :: "ptr list \<times> ptr \<times> ut_store \<Rightarrow> ut_store" where
  "iter_store st = snd (snd st)"

text \<open>A body that visits the element and deletes it when \<open>P\<close> holds of it.\<close>

definition visit_and_drop :: "(ptr \<Rightarrow> bool) \<Rightarrow> ptr \<Rightarrow> ptr list \<times> ptr \<times> ut_store \<Rightarrow> (ptr list \<times> ptr \<times> ut_store) res" where
  "visit_and_drop P el st =
     (case st of (seen, head, s) \<Rightarrow>
        if P el then bind_res (HASH_DELETE s head el) (\<lambda>(head', s'). Inr (seen @ [el], head', s'))
        else Inr (seen @ [el], head, s))"

lemma iter_loop_ok:
  assumes "ut_rep k s (first_of (as @ bs)) (as @ bs)"
  shows "\<exists>s'. iter_loop iter_store (visit_and_drop P) (first_of bs) (first_of (tl bs)) (seen, first_of (as @ bs), s)
     = Some (Inr (seen @ bs, first_of (as @ filter (\<lambda>p. \<not> P p) bs), s'))
     \<and> ut_rep k s' (first_of (as @ filter (\<lambda>p. \<not> P p) bs)) (as @ filter (\<lambda>p. \<not> P p) bs) \<and> key_of s' = key_of s"
  using assms
proof (induction bs arbitrary: as s seen)
  case Nil
  then show ?case by (cases "as = []"; subst iter_loop.simps; simp)
next
  case (Cons b bs)
  have ch: "nchain (appn s) (first_of (as @ b # bs)) (as @ b # bs)"
    using Cons.prems by (simp add: ut_rep_def split: if_splits)
  have b0: "b \<noteq> NULL" using chain_NULL_notin [OF ch] by auto
  show ?case
  proof (cases "P b")
    case False
    have "ut_rep k s (first_of ((as @ [b]) @ bs)) ((as @ [b]) @ bs)" using Cons.prems by simp
    note rep = this
    have "iter_loop iter_store (visit_and_drop P) b (first_of bs) (seen, h, s)
      = iter_loop iter_store (visit_and_drop P) (first_of bs) (first_of (tl bs)) (seen @ [b], h, s)" for h
      by (subst iter_loop.simps) (simp only: b0 visit_and_drop_def False if_False prod.case
          bind_run_simps iter_store_def snd_conv app_next_ok [OF rep])
    with Cons.IH [OF rep, of "seen @ [b]"] False show ?thesis by (cases "bs = []"; simp)
  next
    case True
    have rm: "remove1 b (as @ b # bs) = as @ bs" using nchain_distinct [OF ch] by (simp add: remove1_split)
    have "b \<in> set (as @ b # bs)" by simp
    from HASH_DELETE_ok [OF Cons.prems this] obtain s' where s': "HASH_DELETE s (first_of (as @ b # bs)) b = Inr (first_of (as @ bs), s')"
      "ut_rep k s' (first_of (as @ bs)) (as @ bs)" "key_of s' = key_of s"
      unfolding rm by blast
    have "iter_loop iter_store (visit_and_drop P) b (first_of bs) (seen, first_of (as @ b # bs), s)
      = iter_loop iter_store (visit_and_drop P) (first_of bs) (first_of (tl bs)) (seen @ [b], first_of (as @ bs), s')"
      by (subst iter_loop.simps) (simp only: b0 visit_and_drop_def True s'(1) if_True if_False prod.case
          bind_res_Inr bind_run_simps iter_store_def snd_conv app_next_ok [OF s'(2)])
    note step = this
    have e: "filter (\<lambda>p. \<not> P p) (b # bs) = filter (\<lambda>p. \<not> P p) bs" "seen @ b # bs = (seen @ [b]) @ bs"
      "first_of (b # bs) = b" "tl (b # bs) = bs" using True by simp_all
    show ?thesis unfolding e step using Cons.IH [OF s'(2), of "seen @ [b]"] unfolding s'(3) .
  qed
qed

lemma HASH_ITER_ok:
  assumes "ut_rep k s (first_of es) es"
  shows "\<exists>s'. HASH_ITER iter_store (visit_and_drop P) (first_of es) ([], first_of es, s)
     = Some (Inr (es, first_of (filter (\<lambda>p. \<not> P p) es), s'))
     \<and> ut_rep k s' (first_of (filter (\<lambda>p. \<not> P p) es)) (filter (\<lambda>p. \<not> P p) es) \<and> key_of s' = key_of s"
proof -
  have rep: "ut_rep k s (first_of ([] @ es)) ([] @ es)" using assms by (simp only: append_Nil)
  from iter_loop_ok [OF rep, of P "[]"] show ?thesis
    by (simp only: HASH_ITER_def append_Nil bind_run_simps iter_store_def snd_conv app_next_ok [OF rep])
qed

section \<open>Sequences of operations\<close>

text \<open>
  What a program may do with a table: put an element in under a key, in place of the one that had it,
  and drop the element with a key. \<open>Put tp p key\<close> carries the address \<open>malloc\<close> returns when a table has
  to be made. The specification is a list of keys and elements, in insertion order.
\<close>

datatype table_op = Put ptr ptr "byte list" | Drop "byte list"

fun run_op :: "table_op \<Rightarrow> ptr \<times> ut_store \<Rightarrow> (ptr \<times> ut_store) run" where
  "run_op (Put tp p key) (head, s) =
     bind_run (HASH_REPLACE tp True s head key p) (\<lambda>(_, head', s'). Some (Inr (head', s')))"
| "run_op (Drop key) (head, s) =
     bind_run (HASH_FIND s head key) (\<lambda>p. Some (if p \<noteq> NULL then HASH_DELETE s head p else Inr (head, s)))"

primrec run_ops :: "table_op list \<Rightarrow> ptr \<times> ut_store \<Rightarrow> (ptr \<times> ut_store) run" where
  "run_ops [] st = Some (Inr st)"
| "run_ops (x # ops) st = bind_run (run_op x st) (run_ops ops)"

primrec spec_op :: "table_op \<Rightarrow> (byte list \<times> ptr) list \<Rightarrow> (byte list \<times> ptr) list" where
  "spec_op (Put tp p key) xs = filter (\<lambda>x. fst x \<noteq> key) xs @ [(key, p)]"
| "spec_op (Drop key) xs = filter (\<lambda>x. fst x \<noteq> key) xs"

primrec spec_ops :: "table_op list \<Rightarrow> (byte list \<times> ptr) list \<Rightarrow> (byte list \<times> ptr) list" where
  "spec_ops [] xs = xs"
| "spec_ops (x # ops) xs = spec_ops ops (spec_op x xs)"

text \<open>What the caller owes: an element is not put in twice, and keys have a length \<open>unsigned\<close> holds.\<close>

primrec op_ok :: "table_op \<Rightarrow> (byte list \<times> ptr) list \<Rightarrow> bool" where
  "op_ok (Put tp p key) xs \<longleftrightarrow> tp \<noteq> NULL \<and> p \<noteq> NULL \<and> length key < 2 ^ 32
     \<and> p \<notin> snd ` set (filter (\<lambda>x. fst x \<noteq> key) xs)"
| "op_ok (Drop key) xs \<longleftrightarrow> length key < 2 ^ 32"

primrec ops_ok :: "table_op list \<Rightarrow> (byte list \<times> ptr) list \<Rightarrow> bool" where
  "ops_ok [] xs \<longleftrightarrow> True"
| "ops_ok (x # ops) xs \<longleftrightarrow> op_ok x xs \<and> ops_ok ops (spec_op x xs)"

text \<open>The number of insertions, each of which may double the buckets.\<close>

primrec puts :: "table_op list \<Rightarrow> nat" where
  "puts [] = 0"
| "puts (x # ops) = (case x of Put _ _ _ \<Rightarrow> 1 | Drop _ \<Rightarrow> 0) + puts ops"

definition table_rep :: "nat \<Rightarrow> ut_store \<Rightarrow> ptr \<Rightarrow> (byte list \<times> ptr) list \<Rightarrow> bool" where
  "table_rep k s head xs \<longleftrightarrow> ut_rep k s head (map snd xs) \<and> distinct (map fst xs)
     \<and> (\<forall>x \<in> set xs. key_of s (snd x) = fst x)"

lemma table_rep_keys:
  assumes "table_rep k s head xs"
  shows "map (key_of s) (map snd xs) = map fst xs"
    and "filter (\<lambda>p. key_of s p \<noteq> key) (map snd xs) = map snd (filter (\<lambda>x. fst x \<noteq> key) xs)"
proof -
  have k: "\<And>x. x \<in> set xs \<Longrightarrow> key_of s (snd x) = fst x" using assms by (simp add: table_rep_def)
  show "map (key_of s) (map snd xs) = map fst xs" by (simp add: k)
  have "filter (\<lambda>x. key_of s (snd x) \<noteq> key) xs = filter (\<lambda>x. fst x \<noteq> key) xs"
    by (rule filter_cong) (simp_all add: k)
  then show "filter (\<lambda>p. key_of s p \<noteq> key) (map snd xs) = map snd (filter (\<lambda>x. fst x \<noteq> key) xs)"
    by (simp add: filter_map comp_def)
qed

lemma find_map_of:
  "(\<And>x. x \<in> set xs \<Longrightarrow> f (snd x) = fst x) \<Longrightarrow> find (\<lambda>p. f p = key) (map snd xs) = map_of xs key"
  by (induction xs) auto

lemma table_rep_find:
  assumes "table_rep k s head xs" "length key < 2 ^ 32"
  shows "HASH_FIND s head key = Some (Inr (case map_of xs key of None \<Rightarrow> NULL | Some p \<Rightarrow> p))"
proof -
  have "ut_rep k s head (map snd xs)" using assms(1) by (simp add: table_rep_def)
  moreover have "distinct (map (key_of s) (map snd xs))"
    unfolding table_rep_keys [OF assms(1)] using assms(1) by (simp add: table_rep_def)
  moreover have "find (\<lambda>p. key_of s p = key) (map snd xs) = map_of xs key"
    using assms(1) by (intro find_map_of) (simp add: table_rep_def)
  ultimately show ?thesis using HASH_FIND_ok [of k s head "map snd xs" key] assms(2) by simp
qed

lemma run_op_ok:
  assumes "table_rep k s head xs" "op_ok x xs" "k < 31 \<or> puts [x] = 0"
  shows "\<exists>head' s' k'. run_op x (head, s) = Some (Inr (head', s')) \<and> table_rep k' s' head' (spec_op x xs)
     \<and> max 5 k' \<le> max 5 k + puts [x]"
proof (cases x)
  case (Put tp p key)
  note f = table_rep_keys [OF assms(1)]
  let ?ys = "filter (\<lambda>x. fst x \<noteq> key) xs"
  have rep: "ut_rep k s head (map snd xs)" "distinct (map (key_of s) (map snd xs))"
    unfolding f using assms(1) by (simp_all add: table_rep_def)
  have pre: "k < 31" "length key < 2 ^ 32" "p \<noteq> NULL" "tp \<noteq> NULL" "p \<notin> snd ` set ?ys"
    using assms(2,3) Put by simp_all
  have "p \<notin> set (filter (\<lambda>p. key_of s p \<noteq> key) (map snd xs))" unfolding f(2) using pre(5) by simp
  from HASH_REPLACE_ok [OF rep(1) pre(1,2) rep(2) pre(3) this pre(4)] obtain r k' s' where x:
    "HASH_REPLACE tp True s head key p = Some (Inr (r, hd (map snd ?ys @ [p]), s'))"
    "k' \<le> max 6 (Suc k)" "ut_rep k' s' (hd (map snd ?ys @ [p])) (map snd ?ys @ [p])"
    "key_of s' = (key_of s)(p := key)"
    unfolding f(2) by blast
  have "table_rep k' s' (hd (map snd ?ys @ [p])) (?ys @ [(key, p)])"
    using x(3,4) assms(1) pre(5) by (auto simp: table_rep_def distinct_map_filter image_iff)
  then show ?thesis using x(1,2) Put
    by (intro exI [of _ "hd (map snd ?ys @ [p])"] exI [of _ s'] exI [of _ k']) simp
next
  case (Drop key)
  note f = table_rep_keys [OF assms(1)]
  let ?ys = "filter (\<lambda>x. fst x \<noteq> key) xs"
  have rep: "ut_rep k s head (map snd xs)" "distinct (map (key_of s) (map snd xs))"
    unfolding f using assms(1) by (simp_all add: table_rep_def)
  have "length key < 2 ^ 32" using assms(2) Drop by simp
  from uts.drop_key [OF rep(1) this rep(2)] obtain r head' s' where x: "HASH_FIND s head key = Some (Inr r)"
    "(if r \<noteq> NULL then HASH_DELETE s head r else Inr (head, s)) = Inr (head', s')"
    "ut_rep k s' head' (map snd ?ys)" "key_of s' = key_of s"
    unfolding f(2) by blast
  have "table_rep k s' head' ?ys"
    using x(3,4) assms(1) by (auto simp: table_rep_def distinct_map_filter)
  then show ?thesis using x(1,2) Drop
    by (intro exI [of _ head'] exI [of _ s'] exI [of _ k]) simp
qed

lemma run_ops_ok:
  assumes "table_rep k s head xs" "ops_ok ops xs" "max 5 k + puts ops \<le> 31"
  shows "\<exists>head' s' k'. run_ops ops (head, s) = Some (Inr (head', s')) \<and> table_rep k' s' head' (spec_ops ops xs)"
  using assms
proof (induction ops arbitrary: k s head xs)
  case Nil
  then show ?case by auto
next
  case (Cons x ops)
  have ok: "op_ok x xs" "ops_ok ops (spec_op x xs)" using Cons.prems(2) by simp_all
  have "k < 31 \<or> puts [x] = 0" using Cons.prems(3) by (cases x) simp_all
  then obtain head1 s1 k1 where 1: "run_op x (head, s) = Some (Inr (head1, s1))" "table_rep k1 s1 head1 (spec_op x xs)"
    "max 5 k1 \<le> max 5 k + puts [x]"
    using run_op_ok [OF Cons.prems(1) ok(1)] by blast
  have "puts (x # ops) = puts [x] + puts ops" by simp
  then have "max 5 k1 + puts ops \<le> 31" using 1(3) Cons.prems(3) by linarith
  then show ?case using Cons.IH [OF 1(2) ok(2)] 1(1) by simp
qed

section \<open>Properties\<close>

text \<open>\<open>HASH_DELETE\<close> takes exactly the given element out of the table, wherever it is: at the head,
  at the tail, in the middle, at either end of its bucket or alone. The head moves when it was the first element, the
  others keep their order and their keys, and deleting the only one frees the table and leaves a null head.\<close>

theorem hash_delete_removes:
  assumes "ut_rep k s head es" "del \<in> set es"
  shows "\<exists>s'. HASH_DELETE s head del = Inr (first_of (remove1 del es), s')
     \<and> ut_rep k s' (first_of (remove1 del es)) (remove1 del es) \<and> key_of s' = key_of s"
  using assms by (rule HASH_DELETE_ok)

theorem hash_delete_removes_witness:
  "\<exists>k s s' s''. ut_rep k s 10 [10, 11] \<and> HASH_DELETE s 10 10 = Inr (11, s') \<and> ut_rep k s' 11 [11]
     \<and> HASH_DELETE s 10 11 = Inr (10, s'') \<and> ut_rep k s'' 10 [10]"
proof -
  obtain k s where s: "ut_rep k s 10 [10, 11]" using two_items by blast
  obtain s' where 1: "HASH_DELETE s 10 10 = Inr (11, s')" "ut_rep k s' 11 [11]"
    using hash_delete_removes [OF s, of 10] by auto
  obtain s'' where "HASH_DELETE s 10 11 = Inr (10, s'')" "ut_rep k s'' 10 [10]"
    using hash_delete_removes [OF s, of 11] by auto
  with s 1 show ?thesis by blast
qed

text \<open>C8: the table is a map from keys to elements. After any sequence of insertions (in place of
  the element that had the key) and deletions by key, the code has not faulted, look-up of every key gives what the
  map holds or null, the count is the number of entries, and the library's own integrity check
  \<open>HASH_FSCK\<close> passes: back links of every bucket and of the list of elements, the count of every bucket and both
  totals. An insertion at most doubles the number of buckets, which is \<open>2 ^ 5\<close> at first and a 32-bit number: the
  sequence has at most 26 insertions if the table was empty, and as many fewer as it has already grown (\<open>max 5 k\<close>
  and the insertions together are at most 31, for \<open>2 ^ k\<close> buckets); deletions are not bounded.\<close>

theorem table_refines_map:
  assumes "table_rep k s head xs" "ops_ok ops xs" "max 5 k + puts ops \<le> 31"
  shows "\<exists>head' s' k'. run_ops ops (head, s) = Some (Inr (head', s'))
     \<and> table_rep k' s' head' (spec_ops ops xs)
     \<and> HASH_FSCK s' head' = Some (Inr ())
     \<and> HASH_CNT s' head' = Inr (of_nat (length (spec_ops ops xs)))
     \<and> (\<forall>key. length key < 2 ^ 32 \<longrightarrow> HASH_FIND s' head' key
          = Some (Inr (case map_of (spec_ops ops xs) key of None \<Rightarrow> NULL | Some p \<Rightarrow> p)))"
proof -
  obtain head' s' k' where x: "run_ops ops (head, s) = Some (Inr (head', s'))" "table_rep k' s' head' (spec_ops ops xs)"
    using run_ops_ok [OF assms] by blast
  then have rep: "ut_rep k' s' head' (map snd (spec_ops ops xs))" by (simp add: table_rep_def)
  from HASH_FSCK_ok [OF rep] HASH_CNT_ok [OF rep] table_rep_find [OF x(2)] x show ?thesis
    by (intro exI [of _ head'] exI [of _ s'] exI [of _ k']) simp
qed

theorem table_refines_map_witness:
  "\<exists>s'. run_ops [Put 20 10 [1], Put 20 11 [2], Put 20 12 [1], Drop [2], Drop [7]] (NULL, no_handles)
       = Some (Inr (12, s')) \<and> HASH_FSCK s' 12 = Some (Inr ()) \<and> HASH_CNT s' 12 = Inr 1
       \<and> HASH_FIND s' 12 [1] = Some (Inr 12) \<and> HASH_FIND s' 12 [2] = Some (Inr NULL)"
proof -
  let ?ops = "[Put 20 10 [1], Put 20 11 [2], Put 20 12 [1], Drop [2], Drop [7]]"
  have r: "table_rep 0 no_handles NULL []" by (simp add: table_rep_def ut_rep_empty)
  have o: "ops_ok ?ops []" "max 5 0 + puts ?ops \<le> 31" "spec_ops ?ops [] = [([1], 12)]" by simp_all
  from table_refines_map [OF r o(1,2)] obtain head' s' k' where x:
    "run_ops ?ops (NULL, no_handles) = Some (Inr (head', s'))" "table_rep k' s' head' [([1], 12)]"
    "HASH_FSCK s' head' = Some (Inr ())" "HASH_CNT s' head' = Inr (of_nat (length [([1::byte], 12::ptr)]))"
    "\<forall>key. length key < 2 ^ 32 \<longrightarrow> HASH_FIND s' head' key
      = Some (Inr (case map_of [([1], 12)] key of None \<Rightarrow> NULL | Some p \<Rightarrow> p))"
    unfolding o(3) by blast
  have "head' = 12" using x(2) by (auto simp: table_rep_def ut_rep_def)
  then show ?thesis using x(1,3,4) x(5) [rule_format, of "[1]"] x(5) [rule_format, of "[2]"]
    by (intro exI [of _ s']) simp
qed

text \<open>C26: \<open>HASH_ITER\<close> visits every element once, in insertion order, also when its body deletes the
  element it is at, since the successor is read before the body runs; what is left are the elements the body
  kept.\<close>

theorem iterate_and_delete:
  assumes "ut_rep k s (first_of es) es"
  shows "\<exists>s'. HASH_ITER iter_store (visit_and_drop P) (first_of es) ([], first_of es, s)
     = Some (Inr (es, first_of (filter (\<lambda>p. \<not> P p) es), s'))
     \<and> ut_rep k s' (first_of (filter (\<lambda>p. \<not> P p) es)) (filter (\<lambda>p. \<not> P p) es) \<and> key_of s' = key_of s"
  using assms by (rule HASH_ITER_ok)

theorem iterate_and_delete_witness:
  "\<exists>s s' s''. HASH_ITER iter_store (visit_and_drop (\<lambda>p. p = 10)) 10 ([], 10, s) = Some (Inr ([10, 11], 11, s'))
     \<and> HASH_ITER iter_store (visit_and_drop (\<lambda>_. True)) 10 ([], 10, s) = Some (Inr ([10, 11], NULL, s''))"
proof -
  obtain k s where "ut_rep k s 10 [10, 11]" using two_items by blast
  then have s: "ut_rep k s (first_of [10, 11]) [10, 11]" by simp
  show ?thesis
    using iterate_and_delete [OF s, of "\<lambda>p. p = 10"] iterate_and_delete [OF s, of "\<lambda>_. True"] by auto
qed

end
