(* ===== verification/Merge_Runs.thy ===== *)
theory Merge_Runs
  imports Chains "HOL-Library.Multiset"
begin

text \<open>
  The merge sort that \<^verbatim>\<open>uthash.h\<close> and \<^verbatim>\<open>utlist.h\<close> both contain, on lists: a bottom-up merge sort whose passes merge runs of
  a fixed length in pairs. The reference is the library's stable sort, \<open>sort_key\<close>. Facts on chains that the two sorts on
  pointers share are here as well.
\<close>

section \<open>Passes\<close>

fun merge_by :: "('a \<Rightarrow> 'a \<Rightarrow> bool) \<Rightarrow> 'a list \<Rightarrow> 'a list \<Rightarrow> 'a list" where
  "merge_by le [] bs = bs"
| "merge_by le as [] = as"
| "merge_by le (a # as) (b # bs) = (if le a b then a # merge_by le as (b # bs) else b # merge_by le (a # as) bs)"

text \<open>One pass with runs of \<open>Suc n\<close> elements, and the number of merges in it.\<close>

fun pass_by :: "('a \<Rightarrow> 'a \<Rightarrow> bool) \<Rightarrow> nat \<Rightarrow> 'a list \<Rightarrow> 'a list" where
  "pass_by le n [] = []"
| "pass_by le n (x # xs) = merge_by le (take (Suc n) (x # xs)) (take (Suc n) (drop n xs)) @ pass_by le n (drop (2 * n + 1) xs)"

fun merges :: "nat \<Rightarrow> 'a list \<Rightarrow> nat" where
  "merges n [] = 0"
| "merges n (x # xs) = Suc (merges n (drop (2 * n + 1) xs))"

lemma pass_by_step:
  "xs \<noteq> [] \<Longrightarrow> pass_by le n xs = merge_by le (take (Suc n) xs) (take (Suc n) (drop (Suc n) xs)) @ pass_by le n (drop (2 * Suc n) xs)"
  by (cases xs) simp_all

lemma merges_step: "xs \<noteq> [] \<Longrightarrow> merges n xs = Suc (merges n (drop (2 * Suc n) xs))"
  by (cases xs) simp_all

lemma merges_le: "merges n xs \<le> length xs"
proof (induction n xs rule: merges.induct)
  case (2 n x xs)
  then have "merges n (drop (2 * n + 1) xs) \<le> length xs" by simp
  then show ?case by simp
qed simp

lemma merges_one: "merges n xs \<le> 1 \<longleftrightarrow> length xs \<le> 2 * Suc n"
proof (cases "xs = []")
  case False
  have "merges n (drop (2 * Suc n) xs) = 0 \<longleftrightarrow> drop (2 * Suc n) xs = []"
    by (cases "drop (2 * Suc n) xs") simp_all
  with merges_step [OF False] show ?thesis by simp
qed simp

lemma mset_merge_by: "mset (merge_by le as bs) = mset as + mset bs"
  by (induction le as bs rule: merge_by.induct) simp_all

lemma set_merge_by: "set (merge_by le as bs) = set as \<union> set bs"
  by (induction le as bs rule: merge_by.induct) auto

lemma length_merge_by: "length (merge_by le as bs) = length as + length bs"
  by (induction le as bs rule: merge_by.induct) simp_all

lemma two_runs: "take n xs @ take n (drop n xs) @ drop (2 * n) xs = xs"
  by (metis append_assoc append_take_drop_id mult_2 take_add)

text \<open>Induction along the pairs of runs of a pass.\<close>

lemma runs_induct [case_names Nil runs]:
  assumes "P []" and "\<And>xs. xs \<noteq> [] \<Longrightarrow> P (drop (2 * Suc n) xs) \<Longrightarrow> P xs"
  shows "P xs"
proof (induction xs rule: length_induct)
  case (1 xs)
  show ?case
  proof (cases "xs = []")
    case False
    moreover from this have "P (drop (2 * Suc n) xs)" by (intro 1 [rule_format]) (cases xs, simp_all)
    ultimately show ?thesis by (rule assms(2))
  qed (simp add: assms(1))
qed

lemma mset_pass_by: "mset (pass_by le n xs) = mset xs"
proof (induction xs rule: runs_induct [where n = n])
  case (runs xs)
  have "mset xs = mset (take (Suc n) xs) + (mset (take (Suc n) (drop (Suc n) xs)) + mset (drop (2 * Suc n) xs))"
    by (metis mset_append two_runs)
  with runs show ?case by (simp add: pass_by_step mset_merge_by del: mult_Suc_right)
qed simp

lemma set_pass_by: "set (pass_by le n xs) = set xs"
  by (metis mset_pass_by set_mset_mset)

lemma length_pass_by: "length (pass_by le n xs) = length xs"
  by (metis mset_pass_by size_mset)

text \<open>From here on \<open>le\<close> compares by a key.\<close>

lemma sorted_merge_by:
  assumes "\<And>a b. a \<in> set as \<union> set bs \<Longrightarrow> b \<in> set as \<union> set bs \<Longrightarrow> le a b \<longleftrightarrow> f a \<le> (f b :: 'k::linorder)"
    and "sorted (map f as)" "sorted (map f bs)"
  shows "sorted (map f (merge_by le as bs))"
  using assms
proof (induction le as bs rule: merge_by.induct)
  case (3 le a as b bs)
  show ?case
  proof (cases "le a b")
    case True
    then have "f a \<le> f b" using 3(3) by simp
    moreover have "sorted (map f (merge_by le as (b # bs)))" using 3(3-5) by (intro 3(1) [OF True]) auto
    ultimately show ?thesis using True 3(4,5) by (auto simp: set_merge_by)
  next
    case False
    then have "f b \<le> f a" using 3(3) [of a b] by simp
    moreover have "sorted (map f (merge_by le (a # as) bs))" using 3(3-5) by (intro 3(2) [OF False]) auto
    ultimately show ?thesis using False 3(4,5) by (auto simp: set_merge_by)
  qed
qed simp_all

lemma stable_merge_by:
  assumes "\<And>a b. a \<in> set as \<union> set bs \<Longrightarrow> b \<in> set as \<union> set bs \<Longrightarrow> le a b \<longleftrightarrow> f a \<le> (f b :: 'k::linorder)"
    and "sorted (map f as)"
  shows "filter (\<lambda>x. f x = k) (merge_by le as bs) = filter (\<lambda>x. f x = k) as @ filter (\<lambda>x. f x = k) bs"
  using assms
proof (induction le as bs rule: merge_by.induct)
  case (3 le a as b bs)
  show ?case
  proof (cases "le a b")
    case True
    have "filter (\<lambda>x. f x = k) (merge_by le as (b # bs)) = filter (\<lambda>x. f x = k) as @ filter (\<lambda>x. f x = k) (b # bs)"
      using 3(3,4) by (intro 3(1) [OF True]) auto
    with True show ?thesis by simp
  next
    case False
    then have lt: "f b < f a" using 3(3) [of a b] by simp
    have ih: "filter (\<lambda>x. f x = k) (merge_by le (a # as) bs) = filter (\<lambda>x. f x = k) (a # as) @ filter (\<lambda>x. f x = k) bs"
      using 3(3,4) by (intro 3(2) [OF False]) auto
    show ?thesis
    proof (cases "f b = k")
      case True
      with lt 3(4) have "filter (\<lambda>x. f x = k) (a # as) = []" by (auto simp: filter_empty_conv)
      with ih True False show ?thesis by simp
    next
      case False
      with ih \<open>\<not> le a b\<close> show ?thesis by simp
    qed
  qed
qed simp_all

text \<open>Every run of \<open>n\<close> elements is sorted, from the first element on.\<close>

definition runs_sorted :: "('a \<Rightarrow> 'k::linorder) \<Rightarrow> nat \<Rightarrow> 'a list \<Rightarrow> bool" where
  "runs_sorted f n xs \<longleftrightarrow> (\<forall>i. sorted (map f (take n (drop (i * n) xs))))"

lemma runs_sorted_drop:
  assumes "runs_sorted f n xs" shows "runs_sorted f n (drop (j * n) xs)"
  unfolding runs_sorted_def
proof
  fix i
  have "drop (i * n) (drop (j * n) xs) = drop ((i + j) * n) xs" by (simp add: add_mult_distrib)
  with assms show "sorted (map f (take n (drop (i * n) (drop (j * n) xs))))" by (simp add: runs_sorted_def)
qed

lemma runs_sorted_first:
  assumes "runs_sorted f n xs" shows "sorted (map f (take n xs))" "sorted (map f (take n (drop n xs)))"
proof -
  show "sorted (map f (take n xs))" using assms [unfolded runs_sorted_def, rule_format, of 0] by simp
  show "sorted (map f (take n (drop n xs)))" using assms [unfolded runs_sorted_def, rule_format, of 1] by simp
qed

lemma runs_sorted_one: "runs_sorted f 1 xs"
  unfolding runs_sorted_def
proof
  fix i show "sorted (map f (take 1 (drop (i * 1) xs)))" by (cases "drop (i * 1) xs") simp_all
qed

lemma runs_sorted_Cons:
  assumes "sorted (map f as)" "length as = n \<or> bs = []" "length as \<le> n" "runs_sorted f n bs"
  shows "runs_sorted f n (as @ bs)"
  unfolding runs_sorted_def
proof
  fix i
  show "sorted (map f (take n (drop (i * n) (as @ bs))))"
  proof (cases i)
    case 0
    with assms(1,2,3) show ?thesis by auto
  next
    case (Suc j)
    show ?thesis
    proof (cases "length as = n")
      case True
      then have "drop (i * n) (as @ bs) = drop (j * n) bs" using Suc by simp
      with assms(4) show ?thesis by (simp add: runs_sorted_def)
    next
      case False
      then have "drop (i * n) (as @ bs) = []" using assms(2,3) Suc by simp
      then show ?thesis by simp
    qed
  qed
qed

lemma pass_by_ok:
  assumes "\<And>a b. a \<in> set xs \<Longrightarrow> b \<in> set xs \<Longrightarrow> le a b \<longleftrightarrow> f a \<le> (f b :: 'k::linorder)" and "runs_sorted f (Suc n) xs"
  shows "runs_sorted f (2 * Suc n) (pass_by le n xs)"
    and "filter (\<lambda>x. f x = k) (pass_by le n xs) = filter (\<lambda>x. f x = k) xs"
proof -
  have "runs_sorted f (2 * Suc n) (pass_by le n xs) \<and> filter (\<lambda>x. f x = k) (pass_by le n xs) = filter (\<lambda>x. f x = k) xs"
    using assms
  proof (induction xs rule: runs_induct [where n = n])
    case Nil
    show ?case by (simp add: runs_sorted_def)
  next
    case (runs xs)
    let ?a = "take (Suc n) xs" and ?b = "take (Suc n) (drop (Suc n) xs)" and ?c = "drop (2 * Suc n) xs"
    let ?m = "merge_by le ?a ?b"
    have le: "le x y \<longleftrightarrow> f x \<le> f y" if "x \<in> set ?a \<union> set ?b" "y \<in> set ?a \<union> set ?b" for x y
      using that by (intro runs.prems(1)) (auto dest: in_set_takeD in_set_dropD)
    note srt = runs_sorted_first [OF runs.prems(2)]
    have c: "runs_sorted f (Suc n) ?c" using runs_sorted_drop [OF runs.prems(2), of 2] .
    have lec: "le x y \<longleftrightarrow> f x \<le> f y" if "x \<in> set ?c" "y \<in> set ?c" for x y
      using that by (intro runs.prems(1)) (auto dest: in_set_dropD)
    note ih = runs.IH [OF lec c]
    have len: "length ?m = min (2 * Suc n) (length xs)" by (auto simp: length_merge_by min_def)
    have "length ?m = 2 * Suc n \<or> pass_by le n ?c = []"
    proof (cases "2 * Suc n \<le> length xs")
      case True
      with len have "length ?m = 2 * Suc n" by linarith
      then show ?thesis ..
    next
      case False
      then have "?c = []" by simp
      then show ?thesis by (intro disjI2) (simp only: pass_by.simps)
    qed
    moreover have "sorted (map f ?m)" by (rule sorted_merge_by [OF le srt])
    moreover have "length ?m \<le> 2 * Suc n" unfolding len by simp
    ultimately have "runs_sorted f (2 * Suc n) (?m @ pass_by le n ?c)" using ih by (intro runs_sorted_Cons) simp_all
    moreover have "filter (\<lambda>x. f x = k) (?m @ pass_by le n ?c) = filter (\<lambda>x. f x = k) xs"
    proof -
      have "filter (\<lambda>x. f x = k) xs = filter (\<lambda>x. f x = k) (?a @ ?b @ ?c)" by (simp only: two_runs)
      then show ?thesis using ih stable_merge_by [of ?a ?b le f k, OF le srt(1)] by simp
    qed
    ultimately show ?case by (simp only: pass_by_step [OF runs.hyps])
  qed
  then show "runs_sorted f (2 * Suc n) (pass_by le n xs)"
    "filter (\<lambda>x. f x = k) (pass_by le n xs) = filter (\<lambda>x. f x = k) xs" by blast+
qed

text \<open>A pass does not change what the list is when it is sorted, and the last pass sorts it.\<close>

lemma sort_key_pass:
  assumes "\<And>a b. a \<in> set xs \<Longrightarrow> b \<in> set xs \<Longrightarrow> le a b \<longleftrightarrow> f a \<le> (f b :: 'k::linorder)" "runs_sorted f (Suc n) xs"
  shows "sort_key f (pass_by le n xs) = sort_key f xs" "length xs \<le> 2 * Suc n \<Longrightarrow> pass_by le n xs = sort_key f xs"
proof -
  note ok = pass_by_ok [OF assms]
  have stable: "filter (\<lambda>x. f k = f x) (pass_by le n xs) = filter (\<lambda>x. f k = f x) xs" for k
    using ok(2) [of "f k"] by (simp only: eq_commute [of _ "f k"])
  show "sort_key f (pass_by le n xs) = sort_key f xs"
  proof (rule properties_for_sort_key [symmetric])
    fix k
    have "filter (\<lambda>x. f k = f x) (sort_key f ys) = filter (\<lambda>x. f k = f x) ys" for ys
      using sort_key_stable [of f "f k" ys] by (simp only: eq_commute [of _ "f k"])
    then show "filter (\<lambda>x. f k = f x) (sort_key f (pass_by le n xs)) = filter (\<lambda>x. f k = f x) xs"
      by (simp only: stable)
  qed (simp_all add: mset_pass_by)
  assume "length xs \<le> 2 * Suc n"
  then have "take (2 * Suc n) (pass_by le n xs) = pass_by le n xs" by (simp add: length_pass_by)
  with runs_sorted_first(1) [OF ok(1)] have "sorted (map f (pass_by le n xs))" by simp
  then show "pass_by le n xs = sort_key f xs"
    by (intro properties_for_sort_key [symmetric]) (simp_all add: mset_pass_by stable)
qed

abbreviation le_of :: "(ptr \<Rightarrow> ptr \<Rightarrow> int) \<Rightarrow> ptr \<Rightarrow> ptr \<Rightarrow> bool" where
  "le_of cmp \<equiv> (\<lambda>a b. cmp a b \<le> 0)"

section \<open>Chains\<close>

lemma chain_redirect: "chain f p (as @ [a]) v \<Longrightarrow> a \<notin> set as \<Longrightarrow> chain (f(a \<mapsto> w)) p (as @ [a]) w"
  by simp

lemma chain_off:
  assumes "chain g p as q" "set as \<inter> set rs = {}" "\<And>p. p \<notin> set rs \<Longrightarrow> f p = g p" shows "chain f p as q"
proof -
  have "f a = g a" if "a \<in> set as" for a using assms(2) that by (intro assms(3)) blast
  then show ?thesis using assms(1) chain_cong [of as f g] by simp
qed

lemma nchain_split: "nchain f p xs \<Longrightarrow> chain f p (take n xs) (first_of (drop n xs)) \<and> nchain f (first_of (drop n xs)) (drop n xs)"
proof -
  assume "nchain f p xs"
  then obtain r where r: "chain f p (take n xs) r" "nchain f r (drop n xs)"
    by (metis append_take_drop_id chain_append)
  then show ?thesis using chain_hd [OF r(2)] by simp
qed

end
