(* ===== verification/Uthash_Sort.thy ===== *)
theory Uthash_Sort
  imports Uthash_Ops Merge_Runs
begin

text \<open>
  \<open>HASH_SRT\<close> of \<^verbatim>\<open>uthash.h\<close>: a bottom-up merge sort of the list of the elements, on the pointers. Runs
  of \<open>insize\<close> elements are merged in pairs, \<open>insize\<close> doubles with every pass, and the last pass is the one with at
  most one merge. The reference is the library's stable sort, \<open>sort_key\<close>.
\<close>

section \<open>The code\<close>

text \<open>The successor of a handle that is not null.\<close>

definition srt_next :: "ut_store \<Rightarrow> ptr \<Rightarrow> ptr res" where
  "srt_next s p = bind_res (get_handle s p) (\<lambda>h. Inr (u_next h))"

text \<open>Stepping over a run: the number of elements in it and what comes after it.\<close>

partial_function (option) srt_split :: "ut_store \<Rightarrow> u32 \<Rightarrow> u32 \<Rightarrow> u32 \<Rightarrow> ptr \<Rightarrow> (u32 \<times> ptr) run" where
  "srt_split s insize i psize q =
     (if i < insize then
        bind_run (Some (srt_next s q)) (\<lambda>q'.
          if q' = NULL then Some (Inr (psize + 1, q')) else srt_split s insize (i + 1) (psize + 1) q')
      else Some (Inr (psize, q)))"

text \<open>The next element of the merge: the element, and both runs without it.\<close>

definition srt_take_p :: "ut_store \<Rightarrow> ptr \<Rightarrow> u32 \<Rightarrow> ptr \<Rightarrow> u32 \<Rightarrow> (ptr \<times> ptr \<times> u32 \<times> ptr \<times> u32) res" where
  "srt_take_p s p psize q qsize =
     bind_res (if p \<noteq> NULL then srt_next s p else Inr p) (\<lambda>p'. Inr (p, p', psize - 1, q, qsize))"

definition srt_take_q :: "ut_store \<Rightarrow> ptr \<Rightarrow> u32 \<Rightarrow> ptr \<Rightarrow> u32 \<Rightarrow> (ptr \<times> ptr \<times> u32 \<times> ptr \<times> u32) res" where
  "srt_take_q s p psize q qsize = bind_res (srt_next s q) (\<lambda>q'. Inr (q, p, psize, q', qsize - 1))"

definition srt_pick ::
    "(ptr \<Rightarrow> ptr \<Rightarrow> int) \<Rightarrow> ut_store \<Rightarrow> ptr \<Rightarrow> u32 \<Rightarrow> ptr \<Rightarrow> u32 \<Rightarrow> (ptr \<times> ptr \<times> u32 \<times> ptr \<times> u32) res" where
  "srt_pick cmp s p psize q qsize =
     (if psize = 0 then srt_take_q s p psize q qsize
      else if qsize = 0 \<or> q = NULL then srt_take_p s p psize q qsize
      else if cmp p q \<le> 0 then srt_take_p s p psize q qsize
      else srt_take_q s p psize q qsize)"

text \<open>The element \<open>e\<close> linked to the end of the list that is built.\<close>

definition srt_link :: "ut_store \<Rightarrow> ptr \<Rightarrow> ptr \<Rightarrow> ptr \<Rightarrow> (ptr \<times> ut_store) res" where
  "srt_link s lst tail e =
     bind_res (if tail \<noteq> NULL then bind_res (write_app_next s tail e) (\<lambda>s'. Inr (lst, s')) else Inr (e, s)) (\<lambda>(lst', s1).
     bind_res (if e \<noteq> NULL then write_app_prev s1 e tail else Inr s1) (\<lambda>s2. Inr (lst', s2)))"

partial_function (option) srt_merge ::
    "(ptr \<Rightarrow> ptr \<Rightarrow> int) \<Rightarrow> ptr \<Rightarrow> u32 \<Rightarrow> ptr \<Rightarrow> u32 \<Rightarrow> ptr \<Rightarrow> ptr \<Rightarrow> ut_store \<Rightarrow> (ptr \<times> ptr \<times> ptr \<times> ut_store) run" where
  "srt_merge cmp p psize q qsize lst tail s =
     (if psize \<noteq> 0 \<or> (qsize \<noteq> 0 \<and> q \<noteq> NULL) then
        bind_run (Some (srt_pick cmp s p psize q qsize)) (\<lambda>(e, p', psize', q', qsize').
        bind_run (Some (srt_link s lst tail e)) (\<lambda>(lst', s').
        srt_merge cmp p' psize' q' qsize' lst' e s'))
      else Some (Inr (q, lst, tail, s)))"

text \<open>One pass over the whole list.\<close>

partial_function (option) srt_pass ::
    "(ptr \<Rightarrow> ptr \<Rightarrow> int) \<Rightarrow> u32 \<Rightarrow> ptr \<Rightarrow> ptr \<Rightarrow> ptr \<Rightarrow> u32 \<Rightarrow> ut_store \<Rightarrow> (ptr \<times> ptr \<times> u32 \<times> ut_store) run" where
  "srt_pass cmp insize p lst tail nmerges s =
     (if p = NULL then Some (Inr (lst, tail, nmerges, s))
      else bind_run (srt_split s insize 0 0 p) (\<lambda>(psize, q).
           bind_run (srt_merge cmp p psize q insize lst tail s) (\<lambda>(p', lst', tail', s').
           srt_pass cmp insize p' lst' tail' (nmerges + 1) s')))"

partial_function (option) srt_loop ::
    "(ptr \<Rightarrow> ptr \<Rightarrow> int) \<Rightarrow> ptr \<Rightarrow> u32 \<Rightarrow> ptr \<Rightarrow> ut_store \<Rightarrow> (ptr \<times> ut_store) run" where
  "srt_loop cmp head insize lst s =
     bind_run (srt_pass cmp insize lst NULL NULL 0 s) (\<lambda>(lst', tail, nmerges, s1).
     bind_run (Some (if tail \<noteq> NULL then write_app_next s1 tail NULL else Inr s1)) (\<lambda>s2.
     if nmerges \<le> 1 then
       bind_run (Some (head_table s2 head)) (\<lambda>(tp, t). Some (Inr (lst', set_table s2 tp (t\<lparr>t_tail := tail\<rparr>))))
     else srt_loop cmp head (insize * 2) lst' s2))"

text \<open>\<open>cmp\<close> is the caller's comparison of two elements.\<close>

definition HASH_SRT :: "(ptr \<Rightarrow> ptr \<Rightarrow> int) \<Rightarrow> ut_store \<Rightarrow> ptr \<Rightarrow> (ptr \<times> ut_store) run" where
  "HASH_SRT cmp s head = (if head \<noteq> NULL then srt_loop cmp head 1 head s else Some (Inr (head, s)))"

section \<open>The sort on the pointers\<close>

lemma srt_next_ok: "appn s p = Some q \<Longrightarrow> p \<noteq> NULL \<Longrightarrow> srt_next s p = Inr q"
  by (auto simp: srt_next_def appn_def heap_simps)

lemma dom_appn: "dom (appn s) = dom (handles s)"
  by (auto simp: appn_def)

lemma srt_split_ok:
  assumes "nchain (appn s) q ys" "ys \<noteq> []" "j \<le> n" "n < 2 ^ 32"
  shows "srt_split s (of_nat n) (of_nat j) c q
    = Some (Inr (c + of_nat (min (n - j) (length ys)), first_of (drop (n - j) ys)))"
  using assms
proof (induction ys arbitrary: q j c)
  case (Cons y ys)
  then obtain r where r: "q = y" "y \<noteq> NULL" "appn s y = Some r" "nchain (appn s) r ys" by auto
  have lt: "(of_nat j < (of_nat n :: u32)) = (j < n)"
    using Cons.prems(3,4) by (simp add: word_less_nat_alt unat_of_nat_small)
  show ?case
  proof (cases "j < n")
    case True
    then obtain d where d: "n - j = Suc d" "n - Suc j = d" by (metis Suc_diff_Suc)
    note step = srt_split.simps [of s "of_nat n" "of_nat j" c q]
    show ?thesis
    proof (cases "ys = []")
      case True
      with r \<open>j < n\<close> d show ?thesis unfolding step lt by (simp add: srt_next_ok)
    next
      case False
      then have q: "r \<noteq> NULL" using r(4) by (cases ys) auto
      have "srt_split s (of_nat n) (of_nat j + 1) (c + 1) r
          = Some (Inr (c + 1 + of_nat (min d (length ys)), first_of (drop d ys)))"
        using Cons.IH [OF r(4) False, of "Suc j" "c + 1"] \<open>j < n\<close> Cons.prems(4) d by (simp add: add.commute)
      with q r \<open>j < n\<close> d show ?thesis unfolding step lt by (simp add: srt_next_ok add.assoc)
    qed
  next
    case False
    with Cons.prems(3) lt show ?thesis by (subst srt_split.simps) (simp add: r)
  qed
qed simp

text \<open>
  The list that is being built: both its directions are linked, but the last element still points to where it
  pointed before.
\<close>

definition open_list :: "ut_store \<Rightarrow> ptr list \<Rightarrow> bool" where
  "open_list s es \<longleftrightarrow> (\<exists>v. chain (appn s) (first_of es) es v) \<and> backs (appp s) NULL es"

lemma srt_link_ok:
  assumes "open_list s es" "distinct (es @ [e])" "e \<noteq> NULL" "e \<in> dom (handles s)"
  shows "\<exists>s'. srt_link s (first_of es) (last (NULL # es)) e = Inr (first_of (es @ [e]), s') \<and> tables s' = tables s
    \<and> app_eq s s' \<and> open_list s' (es @ [e]) \<and> (\<forall>p. p \<notin> set es \<longrightarrow> appn s' p = appn s p)"
proof -
  obtain v where v: "chain (appn s) (first_of es) es v" "backs (appp s) NULL es" using assms(1) by (auto simp: open_list_def)
  let ?t = "last (NULL # es)"
  have "?t \<in> dom (handles s)" if "?t \<noteq> NULL"
  proof -
    have "?t \<in> set es" using that by (auto split: if_splits)
    then show ?thesis using chain_dom [OF v(1)] by (auto simp: dom_appn)
  qed
  then obtain s1 where s1: "(if ?t \<noteq> NULL then write_app_next s ?t e else Inr s) = Inr s1" "tables s1 = tables s"
    "app_eq s s1" "appn s1 = (if ?t \<noteq> NULL then (appn s)(?t \<mapsto> e) else appn s)" "appp s1 = appp s"
    using write_app_ok(1) [of ?t s e] by blast
  have "e \<in> dom (handles s1)" using assms(4) app_eq_handle [OF s1(3), of e] by blast
  then obtain s2 where s2: "(if e \<noteq> NULL then write_app_prev s1 e ?t else Inr s1) = Inr s2" "tables s2 = tables s1"
    "app_eq s1 s2" "appp s2 = (if e \<noteq> NULL then (appp s1)(e \<mapsto> ?t) else appp s1)" "appn s2 = appn s1"
    using write_app_ok(2) [of e s1 ?t] by blast
  have nn: "NULL \<notin> set es" using v(1) by (rule chain_NULL_notin)
  then have t: "?t = NULL \<longleftrightarrow> es = []" by (rule last_NULL_iff)
  have w: "write_app_prev s1 e ?t = Inr s2" using s2(1) assms(3) by simp
  have "srt_link s (first_of es) ?t e = Inr (first_of (es @ [e]), s2)"
  proof (cases "es = []")
    case True
    with s1(1) t have "s1 = s" by simp
    with w True assms(3) show ?thesis by (simp add: srt_link_def)
  next
    case False
    with s1(1) t have "write_app_next s ?t e = Inr s1" by simp
    with w False t assms(3) show ?thesis by (simp add: srt_link_def)
  qed
  moreover obtain w where w: "appn s e = Some w" using assms(4) by (auto simp: appn_def)
  have "\<exists>v. chain (appn s2) (first_of (es @ [e])) (es @ [e]) v"
  proof (cases es rule: rev_cases)
    case Nil
    with w s1(4) s2(5) assms(3) show ?thesis by simp
  next
    case (snoc us u)
    with v(1) have "chain (appn s) (hd es) (us @ [u]) v" by simp
    then have "chain ((appn s)(u \<mapsto> e)) (hd es) (us @ [u]) e"
      using assms(2) snoc by (intro chain_redirect) simp_all
    moreover have "appn s2 = (appn s)(u \<mapsto> e)" using s1(4) s2(5) t snoc by (simp split: if_splits)
    moreover have "appn s2 e = Some w" using w assms(2) snoc calculation(2) by simp
    moreover have "hd (us @ [u, e]) = hd (us @ [u])" by (cases us) simp_all
    ultimately show ?thesis using assms(3) snoc by simp
  qed
  moreover have "backs (appp s2) NULL (es @ [e])"
    using v(2) assms(2,3) s2(4) s1(5) by simp
  moreover have "\<forall>p. p \<notin> set es \<longrightarrow> appn s2 p = appn s p"
    using s1(4) s2(5) t by (auto split: if_splits)
  ultimately show ?thesis
    using s1(2) s2(2) app_eq_trans [OF s1(3) s2(3)] by (intro exI [of _ s2]) (simp add: open_list_def)
qed

lemma of_nat_zero32: "n < 2 ^ 32 \<Longrightarrow> (of_nat n = (0 :: u32)) \<longleftrightarrow> n = 0"
  by (simp add: unat_eq_zero [symmetric] unat_of_nat_small)

lemma srt_pick_ok:
  assumes "chain (appn s) p ps x" "nchain (appn s) q ys" "length ps < 2 ^ 32" "m < 2 ^ 32"
    and "ps \<noteq> [] \<or> take m ys \<noteq> []"
  obtains (left) e ps' p' where "ps = e # ps'" "chain (appn s) p' ps' x"
      "srt_pick cmp s p (of_nat (length ps)) q (of_nat m) = Inr (e, p', of_nat (length ps'), q, of_nat m)"
      "merge_by (le_of cmp) ps (take m ys) = e # merge_by (le_of cmp) ps' (take m ys)"
  | (right) e ys' q' m' where "ys = e # ys'" "m = Suc m'" "nchain (appn s) q' ys'"
      "srt_pick cmp s p (of_nat (length ps)) q (of_nat m) = Inr (e, p, of_nat (length ps), q', of_nat m')"
      "merge_by (le_of cmp) ps (take m ys) = e # merge_by (le_of cmp) ps (take m' ys')"
proof -
  let ?le = "le_of cmp"
  have z: "(of_nat (length ps) = (0 :: u32)) = (ps = [])" "(of_nat m = (0 :: u32)) = (m = 0)"
    using of_nat_zero32 [OF assms(3)] of_nat_zero32 [OF assms(4)] by simp_all
  have tp: "srt_take_p s p (of_nat (length ps)) q (of_nat m) = Inr (e, r, of_nat (length ps'), q, of_nat m) \<and> chain (appn s) r ps' x \<and> p = e \<and> e \<noteq> NULL"
    if "ps = e # ps'" "appn s e = Some r" for e ps' r
    using assms(1) that by (simp add: srt_take_p_def srt_next_ok)
  have tq: "srt_take_q s p (of_nat (length ps)) q (of_nat m) = Inr (e, p, of_nat (length ps), r, of_nat m') \<and> nchain (appn s) r ys' \<and> q = e \<and> e \<noteq> NULL"
    if "ys = e # ys'" "m = Suc m'" "appn s e = Some r" for e ys' m' r
    using assms(2) that by (simp add: srt_take_q_def srt_next_ok)
  have pfield: "\<exists>r. appn s e = Some r" if "ps = e # ps'" for e ps' using assms(1) that by auto
  have qfield: "\<exists>r. appn s e = Some r" if "ys = e # ys'" for e ys' using assms(2) that by auto
  show thesis
  proof (cases "take m ys")
    case Nil
    then obtain e ps' where ps: "ps = e # ps'" using assms(5) by (cases ps) auto
    obtain r where r: "appn s e = Some r" using pfield [OF ps] by blast
    have "m = 0 \<or> q = NULL" using Nil assms(2) by auto
    moreover have "of_nat (length ps) \<noteq> (0 :: u32)" using z(1) ps by simp
    ultimately have "srt_pick cmp s p (of_nat (length ps)) q (of_nat m) = srt_take_p s p (of_nat (length ps)) q (of_nat m)"
      by (auto simp: srt_pick_def)
    moreover have "merge_by ?le ps (take m ys) = e # merge_by ?le ps' (take m ys)"
      unfolding Nil ps by (cases ps') simp_all
    ultimately show thesis using tp [OF ps r] by (intro left [OF ps, of r]) auto
  next
    case (Cons b bs)
    then obtain ys' m' where ys: "ys = b # ys'" "m = Suc m'" "bs = take m' ys'" by (cases ys; cases m) auto
    obtain r where r: "appn s b = Some r" using qfield [OF ys(1)] by blast
    note q = tq [OF ys(1,2) r]
    show thesis
    proof (cases ps)
      case Nil
      then have "srt_pick cmp s p (of_nat (length ps)) q (of_nat m) = srt_take_q s p (of_nat (length ps)) q (of_nat m)"
        by (simp add: srt_pick_def)
      with q Nil ys show thesis by (intro right [OF ys(1,2), of r]) auto
    next
      case ps: (Cons a as)
      obtain u where u: "appn s a = Some u" using pfield [OF ps] by blast
      note p = tp [OF ps u]
      have "srt_pick cmp s p (of_nat (length ps)) q (of_nat m) = (if ?le a b
          then srt_take_p s p (of_nat (length ps)) q (of_nat m) else srt_take_q s p (of_nat (length ps)) q (of_nat m))"
        using p q ps ys(2) unfolding srt_pick_def z by simp
      then show thesis
      proof (cases "?le a b")
        case True
        with p ps ys \<open>srt_pick _ _ _ _ _ _ = _\<close> show thesis by (intro left [OF ps, of u]) auto
      next
        case False
        with q ps ys \<open>srt_pick _ _ _ _ _ _ = _\<close> show thesis by (intro right [OF ys(1,2), of r]) auto
      qed
    qed
  qed
qed

lemma srt_merge_ok:
  assumes "chain (appn s) p ps x" "nchain (appn s) q ys" "length ps < 2 ^ 32" "m < 2 ^ 32"
    and "open_list s rs" "distinct (rs @ ps @ ys)"
  shows "\<exists>s'. srt_merge cmp p (of_nat (length ps)) q (of_nat m) (first_of rs) (last (NULL # rs)) s
      = Some (Inr (first_of (drop m ys), first_of (rs @ merge_by (le_of cmp) ps (take m ys)),
                   last (NULL # rs @ merge_by (le_of cmp) ps (take m ys)), s'))
    \<and> tables s' = tables s \<and> app_eq s s' \<and> open_list s' (rs @ merge_by (le_of cmp) ps (take m ys))
    \<and> nchain (appn s') (first_of (drop m ys)) (drop m ys)"
  using assms
proof (induction "length ps + length (take m ys)" arbitrary: p ps q ys m rs s)
  case 0
  from 0(1) have "length ps = 0" "length (take m ys) = 0" by linarith+
  then have e: "ps = []" "m = 0 \<or> ys = []" by (simp_all only: length_0_conv take_eq_Nil)
  have q: "q = first_of ys" using chain_hd [OF 0(3)] by simp
  have "first_of (drop m ys) = q" "merge_by (le_of cmp) ps (take m ys) = []" "nchain (appn s) q (drop m ys)" "m = 0 \<or> q = NULL"
    using e q 0(3) by auto
  with e(1) 0(6) show ?case by (subst srt_merge.simps) (auto intro: app_eq_refl)
next
  case (Suc k)
  have more: "ps \<noteq> [] \<or> take m ys \<noteq> []" using Suc.hyps(2) by auto
  have go: "(of_nat (length ps) \<noteq> (0 :: u32) \<or> of_nat m \<noteq> (0 :: u32) \<and> q \<noteq> NULL) = True"
  proof -
    have "ps \<noteq> [] \<or> m \<noteq> 0 \<and> q \<noteq> NULL" using more Suc.prems(2) by (cases ys) auto
    then show ?thesis using of_nat_zero32 [OF Suc.prems(3)] of_nat_zero32 [OF Suc.prems(4)] by simp
  qed
  let ?R = "\<lambda>rs ps ys m. rs @ merge_by (le_of cmp) ps (take m ys)"
  from Suc.prems(1-4) more show ?case
  proof (cases rule: srt_pick_ok [where cmp = cmp])
    case (left e ps' p')
    have e: "e \<noteq> NULL" "e \<in> dom (handles s)" using Suc.prems(1) left(1) by (auto simp: dom_appn [symmetric])
    have "distinct (rs @ [e])" using Suc.prems(6) left(1) by simp
    from srt_link_ok [OF Suc.prems(5) this e] obtain s1 where s1:
      "srt_link s (first_of rs) (last (NULL # rs)) e = Inr (first_of (rs @ [e]), s1)" "tables s1 = tables s"
      "app_eq s s1" "open_list s1 (rs @ [e])" "\<And>p. p \<notin> set rs \<Longrightarrow> appn s1 p = appn s p" by blast
    have "set ps' \<inter> set rs = {}" "set ys \<inter> set rs = {}" using Suc.prems(6) left(1) by auto
    then have c: "chain (appn s1) p' ps' x" "nchain (appn s1) q ys"
      using left(2) Suc.prems(2) s1(5) by (auto intro: chain_off)
    have pre: "k = length ps' + length (take m ys)" "length ps' < 2 ^ 32" "distinct ((rs @ [e]) @ ps' @ ys)"
      using Suc.hyps(2) Suc.prems(3,6) left(1) by auto
    from Suc.hyps(1) [OF pre(1) c pre(2) Suc.prems(4) s1(4) pre(3)] obtain s2 where s2:
      "srt_merge cmp p' (of_nat (length ps')) q (of_nat m) (first_of (rs @ [e])) (last (NULL # rs @ [e])) s1
        = Some (Inr (first_of (drop m ys), first_of (?R (rs @ [e]) ps' ys m), last (NULL # ?R (rs @ [e]) ps' ys m), s2))"
      "tables s2 = tables s1" "app_eq s1 s2" "open_list s2 (?R (rs @ [e]) ps' ys m)"
      "nchain (appn s2) (first_of (drop m ys)) (drop m ys)"
      by blast
    have R: "?R (rs @ [e]) ps' ys m = ?R rs ps ys m" using left(4) by simp
    have "last (NULL # rs @ [e]) = e" by simp
    with s2(1) have "srt_merge cmp p (of_nat (length ps)) q (of_nat m) (first_of rs) (last (NULL # rs)) s
        = Some (Inr (first_of (drop m ys), first_of (?R rs ps ys m), last (NULL # ?R rs ps ys m), s2))"
      unfolding R by (subst srt_merge.simps) (simp only: go if_True left(3) bind_run_simps prod.case s1(1))
    with s2(2-5) s1(2) app_eq_trans [OF s1(3) s2(3)] show ?thesis unfolding R by (intro exI [of _ s2]) simp
  next
    case (right e ys' q' m')
    have e: "e \<noteq> NULL" "e \<in> dom (handles s)" using Suc.prems(2) right(1) by (auto simp: dom_appn [symmetric])
    have "distinct (rs @ [e])" using Suc.prems(6) right(1) by simp
    from srt_link_ok [OF Suc.prems(5) this e] obtain s1 where s1:
      "srt_link s (first_of rs) (last (NULL # rs)) e = Inr (first_of (rs @ [e]), s1)" "tables s1 = tables s"
      "app_eq s s1" "open_list s1 (rs @ [e])" "\<And>p. p \<notin> set rs \<Longrightarrow> appn s1 p = appn s p" by blast
    have "set ps \<inter> set rs = {}" "set ys' \<inter> set rs = {}" using Suc.prems(6) right(1) by auto
    then have c: "chain (appn s1) p ps x" "nchain (appn s1) q' ys'"
      using right(3) Suc.prems(1) s1(5) by (auto intro: chain_off)
    have pre: "k = length ps + length (take m' ys')" "m' < 2 ^ 32" "distinct ((rs @ [e]) @ ps @ ys')"
      using Suc.hyps(2) Suc.prems(4,6) right(1,2) by auto
    from Suc.hyps(1) [OF pre(1) c Suc.prems(3) pre(2) s1(4) pre(3)] obtain s2 where s2:
      "srt_merge cmp p (of_nat (length ps)) q' (of_nat m') (first_of (rs @ [e])) (last (NULL # rs @ [e])) s1
        = Some (Inr (first_of (drop m' ys'), first_of (?R (rs @ [e]) ps ys' m'), last (NULL # ?R (rs @ [e]) ps ys' m'), s2))"
      "tables s2 = tables s1" "app_eq s1 s2" "open_list s2 (?R (rs @ [e]) ps ys' m')"
      "nchain (appn s2) (first_of (drop m' ys')) (drop m' ys')"
      by blast
    have R: "?R (rs @ [e]) ps ys' m' = ?R rs ps ys m" using right(5) by simp
    have D: "drop m' ys' = drop m ys" using right(1,2) by simp
    have "last (NULL # rs @ [e]) = e" by simp
    with s2(1) have "srt_merge cmp p (of_nat (length ps)) q (of_nat m) (first_of rs) (last (NULL # rs)) s
        = Some (Inr (first_of (drop m ys), first_of (?R rs ps ys m), last (NULL # ?R rs ps ys m), s2))"
      unfolding R D by (subst srt_merge.simps) (simp only: go if_True right(4) bind_run_simps prod.case s1(1))
    with s2(2-5) s1(2) app_eq_trans [OF s1(3) s2(3)] show ?thesis unfolding R D by (intro exI [of _ s2]) simp
  qed
qed

lemma srt_pass_ok:
  assumes "nchain (appn s) p xs" "open_list s rs" "distinct (rs @ xs)" "length xs < 2 ^ 32" "Suc n < 2 ^ 32"
  shows "\<exists>s'. srt_pass cmp (of_nat (Suc n)) p (first_of rs) (last (NULL # rs)) nm s
      = Some (Inr (first_of (rs @ pass_by (le_of cmp) n xs), last (NULL # rs @ pass_by (le_of cmp) n xs),
                   nm + of_nat (merges n xs), s'))
    \<and> tables s' = tables s \<and> app_eq s s' \<and> open_list s' (rs @ pass_by (le_of cmp) n xs)"
  using assms(1-4)
proof (induction xs arbitrary: p s rs nm rule: runs_induct [where n = n])
  case Nil
  then show ?case by (subst srt_pass.simps) (auto intro: app_eq_refl)
next
  case (runs xs)
  let ?N = "Suc n" and ?le = "le_of cmp"
  let ?a = "take ?N xs" and ?y = "drop ?N xs" and ?c = "drop (2 * ?N) xs"
  let ?m = "merge_by ?le ?a (take ?N ?y)"
  have c: "drop ?N ?y = ?c" by (simp add: mult_2)
  have p: "p \<noteq> NULL" using runs.prems(1) runs.hyps by (cases xs) auto
  have sp: "srt_split s (of_nat ?N) 0 0 p = Some (Inr (of_nat (length ?a), first_of ?y))"
    using srt_split_ok [OF runs.prems(1) runs.hyps le0 assms(5), of 0] by (simp add: min.commute)
  have ch: "chain (appn s) p ?a (first_of ?y)" "nchain (appn s) (first_of ?y) ?y" using nchain_split [OF runs.prems(1)] by blast+
  have len: "length ?a < 2 ^ 32" using runs.prems(4) by simp
  have "distinct (rs @ ?a @ ?y)" using runs.prems(3) by simp
  from srt_merge_ok [OF ch len assms(5) runs.prems(2) this] obtain s1 where s1:
    "srt_merge cmp p (of_nat (length ?a)) (first_of ?y) (of_nat ?N) (first_of rs) (last (NULL # rs)) s
      = Some (Inr (first_of ?c, first_of (rs @ ?m), last (NULL # rs @ ?m), s1))"
    "tables s1 = tables s" "app_eq s s1" "open_list s1 (rs @ ?m)" "nchain (appn s1) (first_of ?c) ?c"
    unfolding c by blast
  have "mset xs = mset (?a @ take ?N ?y @ ?c)" by (simp only: two_runs)
  then have "mset ((rs @ ?m) @ ?c) = mset (rs @ xs)" by (simp add: mset_merge_by)
  then have d: "distinct ((rs @ ?m) @ ?c)" using runs.prems(3) by (metis mset_eq_imp_distinct_iff)
  have lc: "length ?c < 2 ^ 32" using runs.prems(4) by simp
  from runs.IH [OF s1(5,4) d lc, of "nm + 1"] obtain s2 where s2:
    "srt_pass cmp (of_nat ?N) (first_of ?c) (first_of (rs @ ?m)) (last (NULL # rs @ ?m)) (nm + 1) s1
      = Some (Inr (first_of ((rs @ ?m) @ pass_by ?le n ?c), last (NULL # (rs @ ?m) @ pass_by ?le n ?c),
                   nm + 1 + of_nat (merges n ?c), s2))"
    "tables s2 = tables s1" "app_eq s1 s2" "open_list s2 ((rs @ ?m) @ pass_by ?le n ?c)"
    by blast
  have R: "(rs @ ?m) @ pass_by ?le n ?c = rs @ pass_by ?le n xs" by (simp only: pass_by_step [OF runs.hyps] append_assoc)
  have M: "nm + 1 + of_nat (merges n ?c) = nm + of_nat (merges n xs)" by (simp only: merges_step [OF runs.hyps] of_nat_Suc add.assoc)
  have "srt_pass cmp (of_nat ?N) p (first_of rs) (last (NULL # rs)) nm s
      = Some (Inr (first_of (rs @ pass_by ?le n xs), last (NULL # rs @ pass_by ?le n xs), nm + of_nat (merges n xs), s2))"
    using p s2(1) unfolding R M by (subst srt_pass.simps) (simp only: if_False sp s1(1) bind_run_simps prod.case)
  with s2(2-4) s1(2) app_eq_trans [OF s1(3) s2(3)] show ?case unfolding R by (intro exI [of _ s2]) simp
qed

lemma srt_close_ok:
  assumes "open_list s zs" "zs \<noteq> []" "distinct zs"
  shows "\<exists>s'. write_app_next s (last zs) NULL = Inr s' \<and> tables s' = tables s \<and> app_eq s s'
    \<and> nchain (appn s') (hd zs) zs \<and> backs (appp s') NULL zs"
proof -
  obtain us u where zs: "zs = us @ [u]" using assms(2) by (cases zs rule: rev_cases) auto
  obtain v where v: "chain (appn s) (hd zs) zs v" "backs (appp s) NULL zs" using assms(1,2) by (auto simp: open_list_def)
  have u: "u \<noteq> NULL" "u \<in> dom (handles s)" using v(1) zs by (auto simp: dom_appn [symmetric])
  then obtain s' where s': "write_app_next s u NULL = Inr s'" "tables s' = tables s" "app_eq s s'"
    "appn s' = (appn s)(u \<mapsto> NULL)" "appp s' = appp s"
    using write_app_ok(1) [of u s NULL] by auto
  have "nchain (appn s') (hd zs) (us @ [u])"
    unfolding s'(4) using v(1) assms(3) zs by (intro chain_redirect) simp_all
  with s' v(2) zs show ?thesis by (intro exI [of _ s']) simp
qed

lemma srt_loop_ok:
  assumes "nchain (appn s) lst xs" "xs \<noteq> []" "length xs < 2 ^ 32" "j = 0 \<or> 2 ^ j < length xs"
    and "runs_sorted f (2 ^ j) xs"
    and "\<And>a b. a \<in> set xs \<Longrightarrow> b \<in> set xs \<Longrightarrow> cmp a b \<le> 0 \<longleftrightarrow> f a \<le> (f b :: 'k::linorder)"
    and "ut_item s tp head" "tp \<noteq> NULL" "tables s tp = Some t"
  shows "\<exists>s'. srt_loop cmp head (of_nat (2 ^ j)) lst s = Some (Inr (hd (sort_key f xs), s'))
    \<and> tables s' = (tables s)(tp \<mapsto> t\<lparr>t_tail := last (sort_key f xs)\<rparr>) \<and> app_eq s s'
    \<and> nchain (appn s') (hd (sort_key f xs)) (sort_key f xs) \<and> backs (appp s') NULL (sort_key f xs)"
  using assms
proof (induction "length xs - 2 ^ j" arbitrary: xs j lst s rule: less_induct)
  case less
  let ?le = "le_of cmp"
  obtain n where n: "2 ^ j = Suc n" by (metis gr0_implies_Suc zero_less_numeral zero_less_power)
  have n32: "Suc n < 2 ^ 32" using less.prems(3,4) n by auto
  let ?zs = "pass_by ?le n xs"
  have d: "distinct ([] @ xs)" using nchain_distinct [OF less.prems(1)] by simp
  have dz: "distinct ?zs" using d mset_eq_imp_distinct_iff [OF mset_pass_by [of ?le n xs]] by simp
  have ne: "?zs \<noteq> []" using less.prems(2) length_pass_by [of ?le n xs] by auto
  have "open_list s []" by (simp add: open_list_def)
  from srt_pass_ok [OF less.prems(1) this d less.prems(3) n32, of cmp 0] obtain s1 where s1:
    "srt_pass cmp (of_nat (Suc n)) lst NULL NULL 0 s = Some (Inr (hd ?zs, last ?zs, of_nat (merges n xs), s1))"
    "tables s1 = tables s" "app_eq s s1" "open_list s1 ?zs"
    using ne by auto
  obtain s2 where s2: "write_app_next s1 (last ?zs) NULL = Inr s2" "tables s2 = tables s1" "app_eq s1 s2"
    "nchain (appn s2) (hd ?zs) ?zs" "backs (appp s2) NULL ?zs"
    using srt_close_ok [OF s1(4) ne dz] by blast
  have tl: "last ?zs \<noteq> NULL" using chain_NULL_notin [OF s2(4)] ne by (metis last_in_set)
  have fr: "app_eq s s2" by (rule app_eq_trans [OF s1(3) s2(3)])
  have it: "ut_item s2 tp head" by (rule app_eq_frame(5) [OF fr less.prems(7)])
  have tb: "tables s2 tp = Some t" using s1(2) s2(2) less.prems(9) by simp
  have "merges n xs < 2 ^ 32" using merges_le [of n xs] less.prems(3) by simp
  then have "unat (of_nat (merges n xs) :: u32) = merges n xs" by (intro unat_of_nat_small) simp
  then have one: "(of_nat (merges n xs) \<le> (1 :: u32)) = (length xs \<le> 2 * Suc n)"
    by (simp only: word_le_nat_alt unat_1 merges_one)
  have step: "srt_loop cmp head (of_nat (2 ^ j)) lst s = (if length xs \<le> 2 * Suc n
      then Some (Inr (hd ?zs, set_table s2 tp (t\<lparr>t_tail := last ?zs\<rparr>)))
      else srt_loop cmp head (of_nat (2 ^ j) * 2) (hd ?zs) s2)"
    unfolding n by (subst srt_loop.simps)
      (simp add: s1(1) s2(1) tl one head_table_item [OF it less.prems(8) tb] del: mult_Suc_right of_nat_Suc)
  have le: "a \<in> set xs \<Longrightarrow> b \<in> set xs \<Longrightarrow> ?le a b \<longleftrightarrow> f a \<le> f b" for a b by (rule less.prems(6))
  have rs: "runs_sorted f (Suc n) xs" using less.prems(5) n by simp
  have sk1: "sort_key f ?zs = sort_key f xs" by (rule sort_key_pass(1) [OF _ rs]) (rule le)
  have sk2: "?zs = sort_key f xs" if "length xs \<le> 2 * Suc n" by (rule sort_key_pass(2) [OF _ rs that]) (rule le)
  show ?case
  proof (cases "length xs \<le> 2 * Suc n")
    case True
    have "?zs = sort_key f xs" by (rule sk2 [OF True])
    with step True s2(2,4,5) s1(2) fr tb show ?thesis
      by (intro exI [of _ "set_table s2 tp (t\<lparr>t_tail := last ?zs\<rparr>)"]) (simp add: app_eq_def appn_def appp_def del: mult_Suc_right)
  next
    case False
    have j: "2 ^ Suc j = 2 * Suc n" using n by simp
    have lz: "length ?zs = length xs" "set ?zs = set xs" by (simp_all add: length_pass_by set_pass_by)
    have "length ?zs - 2 ^ Suc j < length xs - 2 ^ j" using False n by (simp add: length_pass_by)
    moreover have "Suc j = 0 \<or> 2 ^ Suc j < length ?zs" using False unfolding j lz(1) by simp
    moreover have "runs_sorted f (2 ^ Suc j) ?zs" unfolding j by (rule pass_by_ok(1) [OF _ rs]) (rule le)
    ultimately obtain s3 where s3: "srt_loop cmp head (of_nat (2 ^ Suc j)) (hd ?zs) s2 = Some (Inr (hd (sort_key f ?zs), s3))"
      "tables s3 = (tables s2)(tp \<mapsto> t\<lparr>t_tail := last (sort_key f ?zs)\<rparr>)" "app_eq s2 s3"
      "nchain (appn s3) (hd (sort_key f ?zs)) (sort_key f ?zs)" "backs (appp s3) NULL (sort_key f ?zs)"
      using less.hyps [of ?zs "Suc j" s2 "hd ?zs"] s2(4) ne less.prems(3,6,8) it tb lz by auto
    have "of_nat (2 ^ Suc j) = (of_nat (2 ^ j) * 2 :: u32)" by simp
    with step False s3 s1(2) s2(2) app_eq_trans [OF fr s3(3)] show ?thesis
      unfolding sk1 by (intro exI [of _ s3]) (simp add: mult.commute del: mult_Suc_right)
  qed
qed

section \<open>Property\<close>

text \<open>C10: \<open>HASH_SORT\<close> is a stable sort. Whenever the comparison is that of a key of the elements, the merge sort on
  the pointers ends and leaves the list of the elements in the order of the library's stable sort, linked in both
  directions from the new head to the new tail, with every bucket and every key as it was. It does so for any number of
  elements that the 32-bit counters can count.\<close>

theorem hash_sort_sorts:
  assumes "ut_rep k s head es" "length es < 2 ^ 32"
    and "\<And>a b. a \<in> set es \<Longrightarrow> b \<in> set es \<Longrightarrow> cmp a b \<le> 0 \<longleftrightarrow> f a \<le> (f b :: 'k::linorder)"
  shows "\<exists>s'. HASH_SRT cmp s head = Some (Inr (first_of (sort_key f es), s'))
    \<and> ut_rep k s' (first_of (sort_key f es)) (sort_key f es) \<and> key_of s' = key_of s"
proof (cases "es = []")
  case True
  with assms(1) show ?thesis by (auto simp: ut_rep_def HASH_SRT_def)
next
  case False
  from ut_rep_open [OF assms(1) False] obtain tp t css where r: "nchain (appn s) head es" "backs (appp s) NULL es"
    "tp \<noteq> NULL" "tables s tp = Some t" "ut_table_ok s t k es css" "t_tail t = last es" "t_num_items t = of_nat (length es)"
    "\<forall>p \<in> set es. ut_item s tp p" "head = hd es" by blast
  have it: "ut_item s tp head" using r(8,9) False by simp
  then have h: "head \<noteq> NULL" by (simp add: ut_item_def)
  let ?zs = "sort_key f es"
  have ne: "?zs \<noteq> []" using False by (metis length_0_conv length_sort)
  obtain s' where s': "srt_loop cmp head (of_nat (2 ^ 0)) head s = Some (Inr (hd ?zs, s'))"
    "tables s' = (tables s)(tp \<mapsto> t\<lparr>t_tail := last ?zs\<rparr>)" "app_eq s s'"
    "nchain (appn s') (hd ?zs) ?zs" "backs (appp s') NULL ?zs"
    using srt_loop_ok [of s head es 0 f cmp, OF r(1) False assms(2) _ _ assms(3) it r(3,4)] runs_sorted_one [of f es] by auto
  note fr = app_eq_frame [OF s'(3)]
  have "ut_table_ok s' (t\<lparr>t_tail := last ?zs\<rparr>) k ?zs css"
  proof (rule ut_table_ok_cong)
    show "ut_table_ok s' t k ?zs css"
      using ut_table_ok_frame [OF r(5), of s'] fr(1,2,4) by (simp add: ut_table_ok_def)
  qed simp_all
  then have "ut_rep k s' (hd ?zs) ?zs" using ne s'(2,4,5) r(3,7,8) fr(5) by (auto simp: ut_rep_def)
  moreover have "HASH_SRT cmp s head = Some (Inr (hd ?zs, s'))" using h s'(1) by (simp add: HASH_SRT_def)
  ultimately show ?thesis using ne fr(3) by (intro exI [of _ s']) simp
qed

theorem hash_sort_sorts_witness:
  "\<exists>k s s' s''. ut_rep k s 10 [10, 11] \<and> HASH_SRT (\<lambda>a b. int b - int a) s 10 = Some (Inr (11, s')) \<and> ut_rep k s' 11 [11, 10]
     \<and> HASH_SRT (\<lambda>a b. 0) s 10 = Some (Inr (10, s'')) \<and> ut_rep k s'' 10 [10, 11]"
proof -
  obtain k s where s: "ut_rep k s 10 [10, 11]" using two_items by blast
  have "\<exists>s'. HASH_SRT (\<lambda>a b. int b - int a) s 10 = Some (Inr (11, s')) \<and> ut_rep k s' 11 [11, 10]"
    using hash_sort_sorts [OF s, of "\<lambda>a b. int b - int a" "\<lambda>a. - int a"] by auto
  moreover have "\<exists>s'. HASH_SRT (\<lambda>a b. 0) s 10 = Some (Inr (10, s')) \<and> ut_rep k s' 10 [10, 11]"
    using hash_sort_sorts [OF s, of "\<lambda>a b. 0" "\<lambda>a. 0"] by auto
  ultimately show ?thesis using s by blast
qed

end
