(* ===== verification/Uthash_Inorder.thy ===== *)
theory Uthash_Inorder
  imports Uthash_Ops Merge_Runs
begin

text \<open>
  The sorted insertions of \<^verbatim>\<open>uthash.h\<close>: an element is put before the first one that compares greater, and otherwise
  at the end. A table filled this way, with replacements and deletions, is shown to be the stable sort of the table that the
  plain operations make.
\<close>

section \<open>Operations\<close>

text \<open>\<open>HASH_AKBI_INNER_LOOP\<close>, from \<open>iter\<close>, which is not null.\<close>

partial_function (option) akbi_loop :: "(ptr \<Rightarrow> ptr \<Rightarrow> int) \<Rightarrow> ut_store \<Rightarrow> ptr \<Rightarrow> ptr \<Rightarrow> ptr run" where
  "akbi_loop cmp s add iter =
     (if cmp iter add > 0 then Some (Inr iter)
      else bind_run (Some (get_handle s iter)) (\<lambda>h.
           if u_next h \<noteq> NULL then akbi_loop cmp s add (u_next h) else Some (Inr NULL)))"

text \<open>\<open>add\<close> is linked in before \<open>iter\<close>: the new head and the store.\<close>

definition link_before :: "ptr \<Rightarrow> ptr \<Rightarrow> ptr \<Rightarrow> ut_store \<Rightarrow> (ptr \<times> ut_store) res" where
  "link_before head iter add s =
     bind_res (write_app_next s add iter) (\<lambda>s.
     bind_res (get_handle s iter) (\<lambda>i.
     bind_res (write_app_prev s add (u_prev i)) (\<lambda>s.
     bind_res (if u_prev i \<noteq> NULL then bind_res (write_app_next s (u_prev i) add) (\<lambda>s. Inr (head, s))
               else Inr (add, s)) (\<lambda>(head, s).
     bind_res (write_app_prev s iter add) (\<lambda>s. Inr (head, s))))))"

definition HASH_ADD_INORDER ::
    "(ptr \<Rightarrow> ptr \<Rightarrow> int) \<Rightarrow> ptr \<Rightarrow> bool \<Rightarrow> ut_store \<Rightarrow> ptr \<Rightarrow> byte list \<Rightarrow> ptr \<Rightarrow> (ptr \<times> ut_store) run" where
  "HASH_ADD_INORDER cmp tp mem s head key add =
     (if add = NULL then Some (Inl NullDeref)
      else
        let hashval = HASH_JEN key; a = new_handle NULL key
        in bind_run (if head = NULL then
                   Some (bind_res (HASH_MAKE_TABLE tp mem add (set_handle s add (a\<lparr>u_tbl := tp\<rparr>)))
                     (\<lambda>s1. Inr (add, tp, s1)))
                 else
                   bind_run (Some (get_handle s head)) (\<lambda>h.
                   let s1 = set_handle s add (a\<lparr>u_tbl := u_tbl h\<rparr>) in
                   bind_run (akbi_loop cmp s1 add head) (\<lambda>iter.
                   if iter \<noteq> NULL then Some (bind_res (link_before head iter add s1) (\<lambda>(head, s). Inr (head, u_tbl h, s)))
                   else Some (bind_res (HASH_APPEND_LIST (u_tbl h) add s1) (\<lambda>s. Inr (head, u_tbl h, s)))))) (\<lambda>(head, tp, s).
           bind_run (HASH_ADD_TO_TABLE mem tp hashval add s) (\<lambda>s. Some (Inr (head, s)))))"

definition HASH_REPLACE_INORDER ::
    "(ptr \<Rightarrow> ptr \<Rightarrow> int) \<Rightarrow> ptr \<Rightarrow> bool \<Rightarrow> ut_store \<Rightarrow> ptr \<Rightarrow> byte list \<Rightarrow> ptr \<Rightarrow> (ptr \<times> ptr \<times> ut_store) run" where
  "HASH_REPLACE_INORDER cmp tp mem s head key add =
     bind_run (HASH_FIND s head key) (\<lambda>replaced.
     bind_run (if replaced \<noteq> NULL then Some (HASH_DELETE s head replaced) else Some (Inr (head, s))) (\<lambda>(head', s').
     bind_run (HASH_ADD_INORDER cmp tp mem s' head' key add) (\<lambda>(head'', s'').
     Some (Inr (replaced, head'', s'')))))"

section \<open>The place of an element\<close>

definition put_in_place :: "('a \<Rightarrow> bool) \<Rightarrow> 'a \<Rightarrow> 'a list \<Rightarrow> 'a list" where
  "put_in_place after a xs = takeWhile (\<lambda>x. \<not> after x) xs @ a # dropWhile (\<lambda>x. \<not> after x) xs"

lemma put_in_place_split: "\<exists>as bs. xs = as @ bs \<and> put_in_place after a xs = as @ a # bs"
  by (metis put_in_place_def takeWhile_dropWhile_id)

lemma put_in_place_mset: "mset (put_in_place after a xs) = add_mset a (mset xs)"
  using put_in_place_split [of xs after a] by auto

lemma put_in_place_map: "put_in_place after (f a) (map f xs) = map f (put_in_place (after \<circ> f) a xs)"
  by (simp add: put_in_place_def takeWhile_map dropWhile_map comp_def)

text \<open>In a sorted list the place is the one that a stable sort gives to an element at the end.\<close>

lemma after_place: "sorted (map f xs) \<Longrightarrow> x \<in> set (dropWhile (\<lambda>x. \<not> f a < f x) xs) \<Longrightarrow> f a < (f x :: 'k::linorder)"
  by (induction xs) (auto split: if_splits)

lemma put_in_place_sorted:
  fixes f :: "'a \<Rightarrow> 'k::linorder"
  shows "put_in_place (\<lambda>x. f a < f x) a (sort_key f xs) = sort_key f (xs @ [a])"
proof (rule properties_for_sort_key [symmetric])
  let ?ss = "sort_key f xs"
  define as bs where "as = takeWhile (\<lambda>x. \<not> f a < f x) ?ss" and "bs = dropWhile (\<lambda>x. \<not> f a < f x) ?ss"
  have ss: "as @ bs = ?ss" and put: "put_in_place (\<lambda>x. f a < f x) a ?ss = as @ a # bs"
    by (simp_all add: as_def bs_def put_in_place_def)
  have s: "sorted (map f (as @ bs))" by (simp add: ss)
  have bs: "f a < f x" if "x \<in> set bs" for x using after_place [of f ?ss x a] that by (simp add: bs_def)
  have as: "f x \<le> f a" if "x \<in> set as" for x using that by (auto simp: as_def not_less dest: set_takeWhileD)
  show "mset (put_in_place (\<lambda>x. f a < f x) a ?ss) = mset (xs @ [a])" by (simp add: put_in_place_mset)
  show "sorted (map f (put_in_place (\<lambda>x. f a < f x) a ?ss))"
    unfolding put using s as less_imp_le [OF bs] by (auto simp: sorted_append)
  fix k
  have "filter (\<lambda>x. f k = f x) ?ss = filter (\<lambda>x. f k = f x) xs"
    using sort_key_stable [of f "f k" xs] by (simp only: eq_commute [of _ "f k"])
  then have st: "filter (\<lambda>x. f k = f x) as @ filter (\<lambda>x. f k = f x) bs = filter (\<lambda>x. f k = f x) xs"
    by (metis ss filter_append)
  moreover have "filter (\<lambda>x. f k = f x) bs = []" if "f k = f a" using that by (auto simp: filter_empty_conv dest: bs)
  ultimately show "filter (\<lambda>x. f k = f x) (put_in_place (\<lambda>x. f a < f x) a ?ss) = filter (\<lambda>x. f k = f x) (xs @ [a])"
    unfolding put by auto
qed

section \<open>What a sorted insertion does\<close>

lemma akbi_loop_ok:
  assumes "nchain (appn s) iter es" "es \<noteq> []"
  shows "akbi_loop cmp s add iter = Some (Inr (first_of (dropWhile (\<lambda>x. \<not> cmp x add > 0) es)))"
  using assms
proof (induction es arbitrary: iter)
  case (Cons p es)
  from Cons.prems(1) obtain h where h: "iter = p" "p \<noteq> NULL" "handles s p = Some h" "nchain (appn s) (u_next h) es"
    by (rule nchain_appn_Cons)
  then show ?case using Cons.IH [of "u_next h"]
    by (subst akbi_loop.simps) (cases "es = []"; auto simp: get_handle_eq)
qed simp

text \<open>Without an element that compares greater the macro is the plain one.\<close>

lemma HASH_ADD_INORDER_plain:
  assumes "ut_rep k s head es" "add \<notin> set es" "dropWhile (\<lambda>x. \<not> cmp x add > 0) es = []"
  shows "HASH_ADD_INORDER cmp tp mem s head key add = HASH_ADD tp mem s head key add"
proof (cases "es = []")
  case True
  with assms(1) have "head = NULL" by (simp add: ut_rep_def)
  then show ?thesis
    by (auto simp: HASH_ADD_INORDER_def HASH_ADD_def Let_def split: sum.splits option.splits)
next
  case False
  from ut_rep_open [OF assms(1) False] obtain tp' t where r: "nchain (appn s) head es" "head = hd es"
    "head_table s head = Inr (tp', t)" by blast
  then obtain h where h: "get_handle s head = Inr h" "head \<noteq> NULL"
    using False by (cases es) (auto simp: appn_def get_handle_def)
  have "nchain (appn (set_handle s add a)) head es" for a using r(1) assms(2) by simp
  note l = akbi_loop_ok [OF this False, where cmp = cmp and add = add]
  show ?thesis using h l assms(3)
    by (auto simp: HASH_ADD_INORDER_def HASH_ADD_def Let_def split: sum.splits option.splits)
qed

lemma link_before_ok:
  assumes c: "nchain (appn s) head (as @ b # bs)" and g: "backs (appp s) NULL (as @ b # bs)"
    and add: "add \<noteq> NULL" "add \<notin> set (as @ b # bs)" "add \<in> dom (handles s)"
  shows "\<exists>s'. link_before head b add s = Inr (hd (as @ [add]), s') \<and> tables s' = tables s \<and> app_eq s s'
     \<and> nchain (appn s') (hd (as @ [add])) (as @ add # b # bs) \<and> backs (appp s') NULL (as @ add # b # bs)"
proof -
  have d: "distinct (as @ b # bs)" using c by (rule nchain_distinct)
  have dm: "set (as @ b # bs) \<subseteq> dom (handles s)" using chain_dom [OF c] by (simp add: appn_def dom_def subset_eq)
  have b0: "b \<noteq> NULL" using chain_NULL_notin [OF c] by auto
  let ?l = "last (NULL # as)"
  have l0: "?l \<noteq> NULL \<longleftrightarrow> as \<noteq> []" using last_NULL_iff [of as] chain_NULL_notin [OF c] by simp
  have ln: "?l \<noteq> add" using add by auto
  have ld: "?l \<in> dom (handles s)" if "as \<noteq> []" using subsetD [OF dm, of ?l] last_in_set [OF that] that by simp
  have dom: "dom (handles s') = dom (handles s)" if "app_eq s s'" for s'
    using that by (auto simp: app_eq_def dom_def) (metis map_option_is_None option.exhaust_sel)+
  obtain s1 where s1: "write_app_next s add b = Inr s1" "tables s1 = tables s" "app_eq s s1"
    "appn s1 = (appn s)(add \<mapsto> b)" "appp s1 = appp s"
    using write_app_ok(1) [of add s b] add by auto
  have "appp s1 b = Some ?l" using g s1(5) by simp
  then obtain i where i: "handles s1 b = Some i" "u_prev i = ?l" by (auto simp: appp_def)
  obtain s2 where s2: "write_app_prev s1 add ?l = Inr s2" "tables s2 = tables s1" "app_eq s1 s2"
    "appp s2 = (appp s1)(add \<mapsto> ?l)" "appn s2 = appn s1"
    using write_app_ok(2) [of add s1 ?l] add dom [OF s1(3)] by auto
  have e2: "app_eq s s2" using app_eq_trans [OF s1(3) s2(3)] .
  obtain s3 where s3: "(if ?l \<noteq> NULL then write_app_next s2 ?l add else Inr s2) = Inr s3" "tables s3 = tables s2"
    "app_eq s2 s3" "appn s3 = (if ?l \<noteq> NULL then (appn s2)(?l \<mapsto> add) else appn s2)" "appp s3 = appp s2"
    using write_app_ok(1) [of ?l s2 add] ld dom [OF e2] l0 by metis
  have e3: "app_eq s s3" using app_eq_trans [OF e2 s3(3)] .
  obtain s4 where s4: "write_app_prev s3 b add = Inr s4" "tables s4 = tables s3" "app_eq s3 s4"
    "appp s4 = (appp s3)(b \<mapsto> add)" "appn s4 = appn s3"
    using write_app_ok(2) [of b s3 add] b0 dm dom [OF e3] by auto
  have hd: "(if ?l \<noteq> NULL then head else add) = hd (as @ [add])" using chain_hd [OF c] l0 by (auto simp: hd_append)
  have step: "(if ?l \<noteq> NULL then bind_res (write_app_next s2 ?l add) (\<lambda>s. Inr (head, s)) else Inr (add, s2)) = Inr (hd (as @ [add]), s3)"
    using s3(1) hd by (auto split: if_splits)
  have "link_before head b add s = Inr (hd (as @ [add]), s4)"
    unfolding link_before_def s1(1) bind_res_Inr get_handle_eq [OF b0 i(1)] i(2) s2(1) step prod.case s4(1) ..
  moreover have "app_eq s s4" using app_eq_trans [OF e3 s4(3)] .
  moreover have "nchain (appn s4) (hd (as @ [add])) (as @ add # b # bs)"
  proof -
    have "appn s4 = (if as = [] then appn s else (appn s)(last as \<mapsto> add))(add \<mapsto> b)"
      using s4(5) s3(4) s2(5) s1(4) l0 ln by (auto simp: fun_upd_twist [of add])
    moreover have "hd (as @ [add]) = (if as = [] then add else head)" using chain_hd [OF c] by (auto simp: hd_append)
    ultimately show ?thesis using chain_link [OF c, of add b] d add by auto
  qed
  moreover have "backs (appp s4) NULL (as @ add # b # bs)"
  proof -
    have "appp s4 = (appp s)(b \<mapsto> add, add \<mapsto> ?l)"
      using s4(4) s3(5) s2(4) s1(5) add by (auto simp: fun_upd_twist [of add])
    with backs_link [OF g d add(2)] show ?thesis by simp
  qed
  ultimately show ?thesis using s4(2) s3(2) s2(2) s1(2) by auto
qed

lemma HASH_ADD_INORDER_ok:
  fixes cmp :: "ptr \<Rightarrow> ptr \<Rightarrow> int"
  assumes rep: "ut_rep k s head es" and k: "k < 31" and add: "add \<noteq> NULL" "add \<notin> set es"
    and tp: "tp \<noteq> NULL" and key: "length key < 2 ^ 32"
  defines "fs \<equiv> put_in_place (\<lambda>x. cmp x add > 0) add es"
  shows "\<exists>s' k'. HASH_ADD_INORDER cmp tp True s head key add = Some (Inr (hd fs, s'))
     \<and> k' \<le> max 6 (Suc k) \<and> ut_rep k' s' (hd fs) fs \<and> key_of s' = (key_of s)(add := key)"
proof (cases "dropWhile (\<lambda>x. \<not> cmp x add > 0) es")
  case Nil
  then have "takeWhile (\<lambda>x. \<not> cmp x add > 0) es = es" by (metis append_Nil2 takeWhile_dropWhile_id)
  with Nil have "fs = es @ [add]" by (simp add: fs_def put_in_place_def)
  with HASH_ADD_ok [OF rep k add tp key] HASH_ADD_INORDER_plain [of k s head es add cmp tp True key, OF rep add(2) Nil] show ?thesis by simp
next
  case (Cons b bs)
  define as where "as = takeWhile (\<lambda>x. \<not> cmp x add > 0) es"
  have es: "es = as @ b # bs" using Cons unfolding as_def by (metis takeWhile_dropWhile_id)
  have fs: "fs = as @ add # b # bs" using Cons by (simp add: fs_def put_in_place_def as_def)
  have ne: "es \<noteq> []" using es by simp
  from ut_rep_open [OF rep ne] obtain tp' t css where r: "nchain (appn s) head es" "backs (appp s) NULL es"
    "tp' \<noteq> NULL" "tables s tp' = Some t" "ut_table_ok s t k es css" "t_tail t = last es" "t_num_items t = of_nat (length es)"
    "\<forall>p \<in> set es. ut_item s tp' p" "head = hd es" "head_table s head = Inr (tp', t)" .
  have "head \<in> set es" using r(9) ne by simp
  with r(8) obtain h where h: "handles s head = Some h" "u_tbl h = tp'" "head \<noteq> NULL" by (auto simp: ut_item_def)
  let ?s0 = "set_handle s add (new_handle tp' key)"
  have fr: "hhn ?s0 p = hhn s p" "hhp ?s0 p = hhp s p" "bkt_of ?s0 n p = bkt_of s n p" "key_of ?s0 p = key_of s p" if "p \<noteq> add" for p n
    using that by (simp_all add: bkt_of_def key_of_def hhn_def hhp_def)
  have c0: "nchain (appn ?s0) head (as @ b # bs)" "backs (appp ?s0) NULL (as @ b # bs)" using r(1,2) add(2) unfolding es by simp_all
  have "add \<notin> set (as @ b # bs)" "add \<in> dom (handles ?s0)" using add(2) es by simp_all
  from link_before_ok [OF c0 add(1) this] obtain s1 where s1: "link_before head b add ?s0 = Inr (hd (as @ [add]), s1)"
    "tables s1 = tables ?s0" "app_eq ?s0 s1" "nchain (appn s1) (hd (as @ [add])) fs" "backs (appp s1) NULL fs"
    unfolding fs by blast
  have hd: "hd (as @ [add]) = hd fs" by (cases as) (simp_all add: fs)
  note f1 = app_eq_frame [OF s1(3)]
  have "ut_table_ok s1 t k es css"
  proof (rule ut_table_ok_frame [OF r(5)])
    fix p assume "p \<in> set es"
    then have "p \<noteq> add" using add(2) by auto
    then show "hhn s1 p = hhn s p" "hhp s1 p = hhp s p" "bkt_of s1 (2 ^ k) p = bkt_of s (2 ^ k) p" by (simp_all add: f1 fr)
  qed
  moreover have "\<forall>p \<in> set fs. ut_item s1 tp' p"
  proof
    fix p assume "p \<in> set fs"
    then have "ut_item ?s0 tp' p" using r(8) add key by (cases "p = add") (auto simp: fs es ut_item_def)
    then show "ut_item s1 tp' p" by (rule f1(5))
  qed
  moreover have "HASH_JEN key = HASH_JEN (key_of s1 add)" by (simp add: f1(3)) (simp add: key_of_def)
  moreover have "tables s1 tp' = Some t" "set fs = insert add (set es)" "length fs = Suc (length es)" "t_tail t = last fs"
    using s1(2) r(4,6) by (auto simp: fs es)
  ultimately obtain s' k' where x: "HASH_ADD_TO_TABLE True tp' (HASH_JEN key) add s1 = Some (Inr s')"
    "k' \<le> Suc k" "ut_rep k' s' (hd fs) fs" "\<forall>p. key_of s' p = key_of s1 p"
    using HASH_ADD_TO_TABLE_at [of s1 tp' t k es css add fs "hd fs" "HASH_JEN key"] r(3,7) k add(2) s1(4,5) unfolding hd by blast
  have "b \<noteq> NULL" using chain_NULL_notin [OF r(1)] es by auto
  then have "akbi_loop cmp ?s0 add head = Some (Inr b)"
    using akbi_loop_ok [OF c0(1) _, of cmp add] Cons unfolding es [symmetric] by (simp only: ne list.distinct list.sel if_False not_False_eq_True)
  then have "HASH_ADD_INORDER cmp tp True s head key add = Some (Inr (hd fs, s'))"
    using add(1) h x(1) s1(1) \<open>b \<noteq> NULL\<close> unfolding HASH_ADD_INORDER_def by (simp add: Let_def get_handle_eq hd)
  moreover have "key_of s' = (key_of s)(add := key)" using x(4) fr(4) by (auto simp: fun_eq_iff f1(3)) (simp add: key_of_def)
  ultimately show ?thesis using x(2,3) by (intro exI [of _ s'] exI [of _ k']) simp
qed

text \<open>A store that also has elements put in at a place that depends on those already there.\<close>

locale placing_store = keyed_store rep key_at key_ok lookup append_elem remove_elem
  for rep :: "nat \<Rightarrow> 's \<Rightarrow> ptr \<Rightarrow> ptr list \<Rightarrow> bool" and key_at :: "'s \<Rightarrow> ptr \<Rightarrow> 'k"
    and key_ok :: "'k \<Rightarrow> bool" and lookup :: "'s \<Rightarrow> ptr \<Rightarrow> 'k \<Rightarrow> ptr run"
    and append_elem :: "ptr \<Rightarrow> 's \<Rightarrow> ptr \<Rightarrow> 'k \<Rightarrow> ptr \<Rightarrow> (ptr \<times> 's) run"
    and remove_elem :: "'s \<Rightarrow> ptr \<Rightarrow> ptr \<Rightarrow> (ptr \<times> 's) res" +
  fixes place_elem :: "(ptr \<Rightarrow> ptr \<Rightarrow> int) \<Rightarrow> ptr \<Rightarrow> 's \<Rightarrow> ptr \<Rightarrow> 'k \<Rightarrow> ptr \<Rightarrow> (ptr \<times> 's) run"
  assumes place_law: "rep k s head es \<Longrightarrow> k < 31 \<Longrightarrow> add \<noteq> NULL \<Longrightarrow> add \<notin> set es \<Longrightarrow> tp \<noteq> NULL \<Longrightarrow> key_ok key \<Longrightarrow>
      \<exists>s' k'. place_elem cmp tp s head key add = Some (Inr (hd (put_in_place (\<lambda>x. cmp x add > 0) add es), s'))
        \<and> k' \<le> max 6 (Suc k) \<and> rep k' s' (hd (put_in_place (\<lambda>x. cmp x add > 0) add es)) (put_in_place (\<lambda>x. cmp x add > 0) add es)
        \<and> key_at s' = (key_at s)(add := key)"
begin

lemma replace_in_place:
  fixes cmp :: "ptr \<Rightarrow> ptr \<Rightarrow> int"
  assumes rep: "rep k s head es" and k: "k < 31" and ok: "key_ok key" and d: "distinct (map (key_at s) es)"
    and add: "add \<noteq> NULL" "add \<notin> set (filter (\<lambda>p. key_at s p \<noteq> key) es)" and tp: "tp \<noteq> NULL"
  defines "fs \<equiv> put_in_place (\<lambda>x. cmp x add > 0) add (filter (\<lambda>p. key_at s p \<noteq> key) es)"
  shows "\<exists>r head' s' k' s''. lookup s head key = Some (Inr r)
     \<and> (if r \<noteq> NULL then remove_elem s head r else Inr (head, s)) = Inr (head', s')
     \<and> place_elem cmp tp s' head' key add = Some (Inr (hd fs, s''))
     \<and> k' \<le> max 6 (Suc k) \<and> rep k' s'' (hd fs) fs \<and> key_at s'' = (key_at s)(add := key)"
proof -
  obtain r head' s' where x: "lookup s head key = Some (Inr r)"
    "(if r \<noteq> NULL then remove_elem s head r else Inr (head, s)) = Inr (head', s')"
    "rep k s' head' (filter (\<lambda>p. key_at s p \<noteq> key) es)" "key_at s' = key_at s"
    using drop_key [OF rep ok d] by blast
  with place_law [OF x(3) k add tp ok, of cmp] show ?thesis unfolding fs_def by metis
qed

end

interpretation utp: placing_store ut_rep key_of "\<lambda>key. length key < 2 ^ 32" HASH_FIND
  "\<lambda>tp. HASH_ADD tp True" HASH_DELETE "\<lambda>cmp tp. HASH_ADD_INORDER cmp tp True"
  by unfold_locales (rule HASH_ADD_INORDER_ok)

section \<open>Sequences of operations\<close>

lemma same_entries:
  assumes "mset xs = mset ys" "distinct (map fst xs)"
  shows "distinct (map fst ys)" "map_of xs = map_of ys"
proof -
  have "mset (map fst xs) = mset (map fst ys)" using assms(1) by simp
  then show d: "distinct (map fst ys)" using assms(2) by (metis mset_eq_imp_distinct_iff)
  show "map_of xs = map_of ys" using map_of_inject_set [OF assms(2) d] mset_eq_setD [OF assms(1)] by simp
qed

fun run_ordered_op :: "(ptr \<Rightarrow> ptr \<Rightarrow> int) \<Rightarrow> table_op \<Rightarrow> ptr \<times> ut_store \<Rightarrow> (ptr \<times> ut_store) run" where
  "run_ordered_op cmp (Put tp p key) (head, s) =
     bind_run (HASH_REPLACE_INORDER cmp tp True s head key p) (\<lambda>(_, head', s'). Some (Inr (head', s')))"
| "run_ordered_op cmp (Drop key) st = run_op (Drop key) st"

primrec run_ordered_ops :: "(ptr \<Rightarrow> ptr \<Rightarrow> int) \<Rightarrow> table_op list \<Rightarrow> ptr \<times> ut_store \<Rightarrow> (ptr \<times> ut_store) run" where
  "run_ordered_ops cmp [] st = Some (Inr st)"
| "run_ordered_ops cmp (x # ops) st = bind_run (run_ordered_op cmp x st) (run_ordered_ops cmp ops)"

lemma run_ordered_op_ok:
  fixes f :: "ptr \<Rightarrow> 'k::linorder"
  assumes rep: "table_rep k s head (sort_key (f \<circ> snd) xs)" and ok: "op_ok x xs" and k: "k < 31 \<or> puts [x] = 0"
    and cmp: "\<And>a b. cmp a b > 0 \<longleftrightarrow> f b < f a"
  shows "\<exists>head' s' k'. run_ordered_op cmp x (head, s) = Some (Inr (head', s'))
     \<and> table_rep k' s' head' (sort_key (f \<circ> snd) (spec_op x xs)) \<and> max 5 k' \<le> max 5 k + puts [x]"
proof (cases x)
  case (Put tp p key)
  let ?ss = "sort_key (f \<circ> snd) xs"
  let ?ys = "filter (\<lambda>x. fst x \<noteq> key) xs"
  let ?fs = "sort_key (f \<circ> snd) (?ys @ [(key, p)])"
  note g = table_rep_keys [OF rep]
  have r: "ut_rep k s head (map snd ?ss)" "distinct (map (key_of s) (map snd ?ss))"
    unfolding g using rep by (simp_all add: table_rep_def)
  have pre: "k < 31" "length key < 2 ^ 32" "p \<noteq> NULL" "tp \<noteq> NULL" "p \<notin> snd ` set ?ys" using ok k Put by simp_all
  have fl: "filter (\<lambda>p. key_of s p \<noteq> key) (map snd ?ss) = map snd (sort_key (f \<circ> snd) ?ys)"
    unfolding g(2) by (simp add: filter_sort)
  have "p \<notin> set (filter (\<lambda>p. key_of s p \<noteq> key) (map snd ?ss))" unfolding fl using pre(5) by simp
  note x = utp.replace_in_place [OF r(1) pre(1,2) r(2) pre(3) this pre(4), of cmp]
  have place: "put_in_place (\<lambda>x. cmp x p > 0) p (map snd (sort_key (f \<circ> snd) ?ys)) = map snd ?fs"
    using put_in_place_map [of "\<lambda>x. cmp x p > 0" snd "(key, p)" "sort_key (f \<circ> snd) ?ys"]
      put_in_place_sorted [of "f \<circ> snd" "(key, p)" ?ys] by (simp add: cmp comp_def)
  from x obtain r head' s' k' s'' where y: "HASH_FIND s head key = Some (Inr r)"
    "(if r \<noteq> NULL then HASH_DELETE s head r else Inr (head, s)) = Inr (head', s')"
    "HASH_ADD_INORDER cmp tp True s' head' key p = Some (Inr (hd (map snd ?fs), s''))"
    "k' \<le> max 6 (Suc k)" "ut_rep k' s'' (hd (map snd ?fs)) (map snd ?fs)" "key_of s'' = (key_of s)(p := key)"
    unfolding fl place by blast
  have "(if r \<noteq> NULL then Some (HASH_DELETE s head r) else Some (Inr (head, s))) = Some (Inr (head', s'))"
    using y(2) by (simp split: if_splits)
  then have "run_ordered_op cmp x (head, s) = Some (Inr (hd (map snd ?fs), s''))"
    unfolding Put run_ordered_op.simps HASH_REPLACE_INORDER_def by (simp only: y(1,3) bind_run_simps prod.case)
  moreover have "table_rep k' s'' (hd (map snd ?fs)) ?fs"
  proof -
    have "distinct (map fst xs)" using rep by (intro same_entries(1) [of ?ss xs]) (simp_all add: table_rep_def)
    then have "distinct (map fst (?ys @ [(key, p)]))" by (auto simp: distinct_map_filter)
    then have "distinct (map fst ?fs)" by (intro same_entries(1) [of "?ys @ [(key, p)]" ?fs]) simp_all
    moreover have "key_of s'' (snd z) = fst z" if "z \<in> set ?fs" for z
      using that y(6) rep pre(5) by (auto simp: table_rep_def)
    ultimately show ?thesis using y(5) by (simp add: table_rep_def)
  qed
  ultimately show ?thesis using y(4) Put
    by (intro exI [of _ "hd (map snd ?fs)"] exI [of _ s''] exI [of _ k']) simp
next
  case (Drop key)
  have "op_ok x (sort_key (f \<circ> snd) xs)" using ok Drop by simp
  from run_op_ok [OF rep this k] show ?thesis using Drop by (simp add: filter_sort)
qed

lemma run_ordered_ops_ok:
  fixes f :: "ptr \<Rightarrow> 'k::linorder"
  assumes "table_rep k s head (sort_key (f \<circ> snd) xs)" "ops_ok ops xs" "max 5 k + puts ops \<le> 31"
    and cmp: "\<And>a b. cmp a b > 0 \<longleftrightarrow> f b < f a"
  shows "\<exists>head' s' k'. run_ordered_ops cmp ops (head, s) = Some (Inr (head', s'))
     \<and> table_rep k' s' head' (sort_key (f \<circ> snd) (spec_ops ops xs))"
  using assms(1-3)
proof (induction ops arbitrary: k s head xs)
  case Nil
  then show ?case by auto
next
  case (Cons x ops)
  have ok: "op_ok x xs" "ops_ok ops (spec_op x xs)" using Cons.prems(2) by simp_all
  have "k < 31 \<or> puts [x] = 0" using Cons.prems(3) by (cases x) simp_all
  then obtain head1 s1 k1 where 1: "run_ordered_op cmp x (head, s) = Some (Inr (head1, s1))"
    "table_rep k1 s1 head1 (sort_key (f \<circ> snd) (spec_op x xs))" "max 5 k1 \<le> max 5 k + puts [x]"
    using run_ordered_op_ok [OF Cons.prems(1) ok(1) _ cmp] by blast
  have "puts (x # ops) = puts [x] + puts ops" by simp
  then have "max 5 k1 + puts ops \<le> 31" using 1(3) Cons.prems(3) by linarith
  then show ?case using Cons.IH [OF 1(2) ok(2)] 1(1) by simp
qed

section \<open>Property\<close>

text \<open>C11: a table filled by sorted insertions is sorted, and stably. From a table that is sorted (an empty one, say), any sequence
  of sorted insertions (in place of the element that had the key) and deletions by key runs without a fault, and then the
  table lists exactly the entries that the plain operations leave, in the order of a stable sort: elements that compare
  equal are in the order in which they were put in. Look-up finds the same elements, and the integrity check
  passes. The insertions are bounded as in the theorem on the table as a map: with \<open>2 ^ k\<close> buckets at the start,
  \<open>max 5 k\<close> plus the number of insertions is at most 31 (26 insertions into an empty table), since each may double the
  number of buckets, an \<open>unsigned\<close>; deletions are not bounded.\<close>

theorem ordered_table_sorts:
  fixes f :: "ptr \<Rightarrow> 'k::linorder"
  assumes "table_rep k s head (sort_key (f \<circ> snd) xs)" "ops_ok ops xs" "max 5 k + puts ops \<le> 31"
    and "\<And>a b. cmp a b > 0 \<longleftrightarrow> f b < f a"
  shows "\<exists>head' s' k'. run_ordered_ops cmp ops (head, s) = Some (Inr (head', s'))
     \<and> table_rep k' s' head' (sort_key (f \<circ> snd) (spec_ops ops xs))
     \<and> HASH_FSCK s' head' = Some (Inr ())
     \<and> (\<forall>key. length key < 2 ^ 32 \<longrightarrow> HASH_FIND s' head' key
          = Some (Inr (case map_of (spec_ops ops xs) key of None \<Rightarrow> NULL | Some p \<Rightarrow> p)))"
proof -
  let ?xs = "sort_key (f \<circ> snd) (spec_ops ops xs)"
  from run_ordered_ops_ok [OF assms] obtain head' s' k' where
    x: "run_ordered_ops cmp ops (head, s) = Some (Inr (head', s'))" "table_rep k' s' head' ?xs" by auto
  have rep: "ut_rep k' s' head' (map snd ?xs)" using x(2) by (simp add: table_rep_def)
  have "distinct (map fst ?xs)" using x(2) by (simp add: table_rep_def)
  moreover have "mset ?xs = mset (spec_ops ops xs)" by simp
  ultimately have "map_of ?xs = map_of (spec_ops ops xs)" by (intro same_entries(2))
  with x HASH_FSCK_ok [OF rep] table_rep_find [OF x(2)] show ?thesis
    by (intro exI [of _ head'] exI [of _ s'] exI [of _ k']) simp
qed

theorem ordered_table_sorts_witness:
  "\<exists>s' k'. run_ordered_ops (\<lambda>a b. int a - int b) [Put 20 12 [1], Put 20 11 [2], Put 20 13 [3], Put 20 10 [1], Drop [3]] (NULL, no_handles)
       = Some (Inr (10, s')) \<and> table_rep k' s' 10 [([1], 10), ([2], 11)] \<and> HASH_FIND s' 10 [2] = Some (Inr 11)"
proof -
  let ?cmp = "\<lambda>a b. int a - int b"
  let ?ops = "[Put 20 12 [1], Put 20 11 [2], Put 20 13 [3], Put 20 10 [1], Drop [3]]"
  have t: "table_rep 0 no_handles NULL (sort_key (int \<circ> snd) [])" by (simp add: table_rep_def ut_rep_empty)
  have o: "ops_ok ?ops []" "max 5 0 + puts ?ops \<le> 31" by simp_all
  have c: "?cmp a b > 0 \<longleftrightarrow> int b < int a" for a b by simp
  have r: "sort_key (int \<circ> snd) (spec_ops ?ops []) = [([1], 10), ([2], 11)]" by simp
  from ordered_table_sorts [OF t o c] obtain head' s' k' where x:
    "run_ordered_ops ?cmp ?ops (NULL, no_handles) = Some (Inr (head', s'))" "table_rep k' s' head' [([1], 10), ([2], 11)]"
    "\<forall>key. length key < 2 ^ 32 \<longrightarrow> HASH_FIND s' head' key
      = Some (Inr (case map_of (spec_ops ?ops []) key of None \<Rightarrow> NULL | Some p \<Rightarrow> p))" unfolding r by blast
  have "head' = 10" using x(2) by (auto simp: table_rep_def ut_rep_def)
  with x(1,2) x(3) [rule_format, of "[2]"] show ?thesis by (intro exI [of _ s'] exI [of _ k']) simp
qed

end
