(* ===== verification/Uthash_Select.thy ===== *)
theory Uthash_Select
  imports Uthash_Ops
begin

text \<open>
  \<open>HASH_SELECT\<close> of \<^verbatim>\<open>uthash.h\<close>: the elements of one table that satisfy a condition are put into a second one, through a second
  handle that each element has. The two handles of an element are at one address in two stores: \<open>s\<close> has the handles and the table of
  the source, which is only read, and \<open>d\<close> those of the destination. The new table is right but for its tail, which keeps pointing to
  the first element; what that leads to is shown as well.
\<close>

section \<open>The code\<close>

definition write_tbl :: "ut_store \<Rightarrow> ptr \<Rightarrow> ptr \<Rightarrow> ut_store res" where
  "write_tbl d p tp = bind_res (get_handle d p) (\<lambda>h. Inr (set_handle d p (h\<lparr>u_tbl := tp\<rparr>)))"

text \<open>
  The body of the loops for an element that satisfies the condition, with the source's handle \<open>h\<close>. The state is the
  destination's head, the element selected last, and the destination's store.
\<close>

definition select_elem ::
    "ptr \<Rightarrow> bool \<Rightarrow> ut_handle \<Rightarrow> ptr \<Rightarrow> ptr \<times> ptr \<times> ut_store \<Rightarrow> (ptr \<times> ptr \<times> ut_store) run" where
  "select_elem tp mem h elt = (\<lambda>(dst, last_elt, d).
     bind_run (Some (get_handle d elt)) (\<lambda>e.
     let d = set_handle d elt (e\<lparr>u_key := u_key h, u_keylen := u_keylen h, u_hashv := u_hashv h, u_prev := last_elt, u_next := NULL\<rparr>) in
     bind_run (Some (if last_elt \<noteq> NULL then write_app_next d last_elt elt else Inr d)) (\<lambda>d.
     bind_run (Some (if dst = NULL
                     then bind_res (write_tbl d elt tp) (\<lambda>d. bind_res (HASH_MAKE_TABLE tp mem elt d) (\<lambda>d. Inr (elt, d)))
                     else bind_res (get_handle d dst) (\<lambda>g. bind_res (write_tbl d elt (u_tbl g)) (\<lambda>d. Inr (dst, d))))) (\<lambda>(dst, d).
     bind_run (Some (head_table d elt)) (\<lambda>(tp, t).
     bind_run (HASH_ADD_TO_BKT mem tp (HASH_TO_BKT (u_hashv h) (t_num_buckets t)) elt d) (\<lambda>d.
     bind_run (Some (head_table d dst)) (\<lambda>(tp, t).
     Some (Inr (dst, elt, set_table d tp (t\<lparr>t_num_items := t_num_items t + 1\<rparr>))))))))))"

partial_function (option) select_chain ::
    "(ptr \<Rightarrow> bool) \<Rightarrow> ptr \<Rightarrow> bool \<Rightarrow> ut_store \<Rightarrow> ptr \<Rightarrow> ptr \<times> ptr \<times> ut_store \<Rightarrow> (ptr \<times> ptr \<times> ut_store) run" where
  "select_chain cond tp mem s src_hh st =
     (if src_hh = NULL then Some (Inr st)
      else bind_run (Some (get_handle s src_hh)) (\<lambda>h.
           bind_run (if cond src_hh then select_elem tp mem h src_hh st else Some (Inr st)) (\<lambda>st.
           select_chain cond tp mem s (u_hh_next h) st)))"

primrec select_buckets ::
    "(ptr \<Rightarrow> bool) \<Rightarrow> ptr \<Rightarrow> bool \<Rightarrow> ut_store \<Rightarrow> ut_bucket list \<Rightarrow> ptr \<times> ptr \<times> ut_store \<Rightarrow> (ptr \<times> ptr \<times> ut_store) run" where
  "select_buckets cond tp mem s [] st = Some (Inr st)"
| "select_buckets cond tp mem s (b # bs) st =
     bind_run (select_chain cond tp mem s (b_head b) st) (select_buckets cond tp mem s bs)"

text \<open>The destination's head and its store.\<close>

definition HASH_SELECT ::
    "(ptr \<Rightarrow> bool) \<Rightarrow> ptr \<Rightarrow> bool \<Rightarrow> ut_store \<Rightarrow> ptr \<Rightarrow> ptr \<times> ut_store \<Rightarrow> (ptr \<times> ut_store) run" where
  "HASH_SELECT cond tp mem s src = (\<lambda>(dst, d).
     if src \<noteq> NULL then
       bind_run (Some (head_table s src)) (\<lambda>(_, t).
       if length (t_buckets t) < unat (t_num_buckets t) then Some (Inl OutOfBounds)
       else bind_run (select_buckets cond tp mem s (take (unat (t_num_buckets t)) (t_buckets t)) (dst, NULL, d)) (\<lambda>(dst, _, d).
            Some (Inr (dst, d))))
     else Some (Inr (dst, d)))"

section \<open>What is selected\<close>

text \<open>A table all of which is right but the tail.\<close>

definition sel_rep :: "nat \<Rightarrow> ut_store \<Rightarrow> ptr \<Rightarrow> ptr list \<Rightarrow> bool" where
  "sel_rep k d dst fs \<longleftrightarrow> (if fs = [] then dst = NULL else
     nchain (appn d) dst fs \<and> backs (appp d) NULL fs \<and>
     (\<exists>tp t css. tp \<noteq> NULL \<and> tables d tp = Some t \<and> ut_table_ok d t k fs css \<and>
        t_tail t = hd fs \<and> t_num_items t = of_nat (length fs) \<and> (\<forall>p \<in> set fs. ut_item d tp p)))"

text \<open>The element gets into the buckets, whatever has been done to its links before.\<close>

lemma select_into_buckets:
  assumes t: "tables d tp = Some t" "tp \<noteq> NULL" and ok: "ut_table_ok d t k fs css" and k: "k < 31" and new: "elt \<notin> set fs"
    and items: "\<forall>p \<in> set (fs @ [elt]). ut_item d tp p"
    and app: "nchain (appn d) dst (fs @ [elt])" "backs (appp d) NULL (fs @ [elt])"
    and tail: "t_tail t = hd (fs @ [elt])" and num: "t_num_items t = of_nat (length fs)"
    and e: "handles d elt = Some e"
  shows "\<exists>d1 t1 k'. HASH_ADD_TO_BKT True tp (HASH_TO_BKT (u_hashv e) (t_num_buckets t)) elt d = Some (Inr d1)
     \<and> head_table d1 dst = Inr (tp, t1) \<and> k \<le> k' \<and> k' \<le> Suc k
     \<and> sel_rep k' (set_table d1 tp (t1\<lparr>t_num_items := t_num_items t1 + 1\<rparr>)) dst (fs @ [elt])
     \<and> cores_eq d d1"
proof -
  have elt: "elt \<noteq> NULL" using items by (auto simp: ut_item_def)
  obtain s1 t' k' css' where x:
    "HASH_ADD_TO_BKT True tp (HASH_TO_BKT (u_hashv e) (2 ^ k)) elt d = Some (Inr (set_table s1 tp t'))"
    "cores_eq d s1" "k \<le> k'" "k' \<le> Suc k" "ut_table_ok s1 t' k' (fs @ [elt]) css'"
    "t_tail t' = t_tail t" "t_num_items t' = t_num_items t"
    using HASH_ADD_TO_BKT_ok [OF t ok k e elt new] by blast
  let ?d1 = "set_table s1 tp t'" and ?t2 = "t'\<lparr>t_num_items := t_num_items t' + 1\<rparr>"
  have c: "cores_eq d ?d1" using x(2) by simp
  have dst: "dst \<in> set (fs @ [elt])" using chain_hd [OF app(1)] by (cases fs) simp_all
  have "ut_item ?d1 tp dst" using ut_item_cores_eq(1) [OF c] items dst by blast
  then have "head_table ?d1 dst = Inr (tp, t')" using t(2) by (intro head_table_item) simp_all
  moreover have "ut_table_ok (set_table ?d1 tp ?t2) ?t2 k' (fs @ [elt]) css'"
    using ut_table_ok_cong [OF x(5), of ?t2] by simp
  then have "sel_rep k' (set_table ?d1 tp ?t2) dst (fs @ [elt])"
    using x(6,7) t(2) tail num app items ut_item_cores_eq(1) [OF c, of tp]
    by (auto simp: sel_rep_def cores_eq_appn [OF x(2)] cores_eq_appp [OF x(2)] ut_item_def)
  moreover have "t_num_buckets t = 2 ^ k" using ok by (simp add: ut_table_ok_def)
  ultimately show ?thesis using x(1,3,4) c
    by (intro exI [of _ ?d1] exI [of _ t'] exI [of _ k']) (simp del: ut_table_ok_set_table)
qed

lemma cores_eq_dom: "cores_eq s s' \<Longrightarrow> dom (handles s') = dom (handles s)"
  by (auto simp: cores_eq_def dom_def) (metis map_option_is_None option.exhaust_sel)+

text \<open>What the macro copies from the source's handle is what an element of a table has.\<close>

definition source_handle :: "ut_handle \<Rightarrow> bool" where
  "source_handle h \<longleftrightarrow> u_hashv h = HASH_JEN (u_key h) \<and> u_keylen h = of_nat (length (u_key h)) \<and> length (u_key h) < 2 ^ 32"

lemma select_first_ok:
  assumes "elt \<noteq> NULL" "tp \<noteq> NULL" "elt \<in> dom (handles d)" "source_handle h"
  shows "\<exists>d' k'. select_elem tp True h elt (NULL, NULL, d) = Some (Inr (elt, elt, d')) \<and> k' \<le> 6
     \<and> sel_rep k' d' elt [elt] \<and> key_of d' = (key_of d)(elt := u_key h) \<and> dom (handles d') = dom (handles d)"
proof -
  obtain e where e: "handles d elt = Some e" using assms(3) by blast
  define e1 where "e1 = e\<lparr>u_key := u_key h, u_keylen := u_keylen h, u_hashv := u_hashv h, u_prev := NULL, u_next := NULL\<rparr>"
  define t where "t = \<lparr>t_buckets = replicate (unat HASH_INITIAL_NUM_BUCKETS) \<lparr>b_head = NULL, b_count = 0, b_expand_mult = 0\<rparr>,
         t_num_buckets = HASH_INITIAL_NUM_BUCKETS, t_log2_num_buckets = HASH_INITIAL_NUM_BUCKETS_LOG2,
         t_num_items = 0, t_tail = elt, t_ideal_chain_maxlen = 0, t_nonideal_items = 0, t_ineff_expands = 0, t_noexpand = 0\<rparr>"
  let ?d1 = "set_handle d elt e1"
  let ?d2 = "set_handle d elt (e1\<lparr>u_tbl := tp\<rparr>)"
  let ?d3 = "set_table ?d2 tp t"
  have w: "write_tbl ?d1 elt tp = Inr ?d2" using assms(1) by (simp add: write_tbl_def get_handle_eq)
  have mk: "HASH_MAKE_TABLE tp True elt ?d2 = Inr ?d3" using assms(2) by (simp add: HASH_MAKE_TABLE_def t_def)
  have it: "ut_item ?d3 tp elt" using assms(1,4) by (simp add: ut_item_def e1_def source_handle_def)
  have ht: "head_table ?d3 elt = Inr (tp, t)" using it assms(2) by (intro head_table_item) simp_all
  have "ut_table_ok ?d3 t 5 [] (\<lambda>_. [])" unfolding t_def by (rule ut_table_ok_empty)
  moreover have "t_tail t = hd ([] @ [elt])" "t_num_items t = of_nat (length ([] :: ptr list))" by (simp_all add: t_def)
  moreover have "nchain (appn ?d3) elt ([] @ [elt])" "backs (appp ?d3) NULL ([] @ [elt])" using assms(1) by (simp_all add: e1_def)
  ultimately obtain d4 t1 k' where x:
    "HASH_ADD_TO_BKT True tp (HASH_TO_BKT (u_hashv (e1\<lparr>u_tbl := tp\<rparr>)) (t_num_buckets t)) elt ?d3 = Some (Inr d4)"
    "head_table d4 elt = Inr (tp, t1)" "k' \<le> Suc 5"
    "sel_rep k' (set_table d4 tp (t1\<lparr>t_num_items := t_num_items t1 + 1\<rparr>)) elt ([] @ [elt])" "cores_eq ?d3 d4"
    using select_into_buckets [of ?d3 tp t 5 "[]" "\<lambda>_. []" elt elt "e1\<lparr>u_tbl := tp\<rparr>"] assms(2) it by auto
  let ?d5 = "set_table d4 tp (t1\<lparr>t_num_items := t_num_items t1 + 1\<rparr>)"
  have hv: "u_hashv h = u_hashv (e1\<lparr>u_tbl := tp\<rparr>)" by (simp add: e1_def)
  have "select_elem tp True h elt (NULL, NULL, d) = Some (Inr (elt, elt, ?d5))"
    unfolding select_elem_def prod.case get_handle_eq [OF assms(1) e] bind_run_simps e1_def [symmetric] Let_def
    by (simp add: w mk ht x(2) x(1) [folded hv])
  moreover have "key_of ?d5 = (key_of d)(elt := u_key h)"
  proof -
    have "key_of ?d5 = key_of ?d3" using key_of_cores_eq [of ?d3 ?d5] x(5) by auto
    also have "\<dots> = (key_of d)(elt := u_key h)" by (auto simp: key_of_def fun_eq_iff e1_def)
    finally show ?thesis .
  qed
  moreover have "dom (handles ?d5) = dom (handles d)"
    using cores_eq_dom [OF x(5)] e by auto
  ultimately show ?thesis using x(3,4) by (intro exI [of _ ?d5] exI [of _ k']) simp
qed

lemma sel_rep_open:
  assumes "sel_rep k d dst fs" "fs \<noteq> []"
  obtains tp t css where "nchain (appn d) dst fs" "backs (appp d) NULL fs" "tp \<noteq> NULL" "tables d tp = Some t"
    "ut_table_ok d t k fs css" "t_tail t = hd fs" "t_num_items t = of_nat (length fs)" "\<forall>p \<in> set fs. ut_item d tp p"
    "dst = hd fs" "dst \<noteq> NULL" "head_table d dst = Inr (tp, t)"
proof -
  from assms obtain tp t css where r: "nchain (appn d) dst fs" "backs (appp d) NULL fs" "tp \<noteq> NULL" "tables d tp = Some t"
    "ut_table_ok d t k fs css" "t_tail t = hd fs" "t_num_items t = of_nat (length fs)" "\<forall>p \<in> set fs. ut_item d tp p"
    by (auto simp: sel_rep_def)
  have h: "dst = hd fs" using chain_hd [OF r(1)] assms(2) by simp
  then have "ut_item d tp dst" using r(8) assms(2) by simp
  then have "head_table d dst = Inr (tp, t)" "dst \<noteq> NULL" using r(3,4) by (simp_all add: head_table_item ut_item_def)
  with r h that show thesis by blast
qed

lemma select_next_ok:
  assumes rep: "sel_rep k d dst fs" and ne: "fs \<noteq> []" and k: "k < 31" and elt: "elt \<noteq> NULL" "elt \<notin> set fs"
    and e: "elt \<in> dom (handles d)" and h: "source_handle h"
  shows "\<exists>d' k'. select_elem tp' True h elt (dst, last fs, d) = Some (Inr (dst, elt, d')) \<and> k' \<le> Suc k
     \<and> sel_rep k' d' dst (fs @ [elt]) \<and> key_of d' = (key_of d)(elt := u_key h) \<and> dom (handles d') = dom (handles d)"
proof -
  from sel_rep_open [OF rep ne] obtain tp t css where r: "nchain (appn d) dst fs" "backs (appp d) NULL fs" "tp \<noteq> NULL"
    "tables d tp = Some t" "ut_table_ok d t k fs css" "t_tail t = hd fs" "t_num_items t = of_nat (length fs)"
    "\<forall>p \<in> set fs. ut_item d tp p" "dst = hd fs" "dst \<noteq> NULL" .
  obtain eh where eh: "handles d elt = Some eh" using e by blast
  let ?l = "last fs"
  have l: "?l \<in> set fs" "?l \<noteq> elt" using elt(2) last_in_set [OF ne] by metis+
  then obtain hl where hl: "handles d ?l = Some hl" "u_tbl hl = tp" "?l \<noteq> NULL" using r(8) by (auto simp: ut_item_def)
  have dd: "dst \<in> set fs" "dst \<noteq> elt" using r(9) ne elt(2) hd_in_set [OF ne] by auto
  define e1 where "e1 = eh\<lparr>u_key := u_key h, u_keylen := u_keylen h, u_hashv := u_hashv h, u_prev := ?l, u_next := NULL\<rparr>"
  let ?d1 = "set_handle d elt e1"
  let ?d2 = "set_handle ?d1 ?l (hl\<lparr>u_next := elt\<rparr>)"
  let ?e3 = "e1\<lparr>u_tbl := tp\<rparr>"
  let ?d3 = "set_handle ?d2 elt ?e3"
  have w1: "write_app_next ?d1 ?l elt = Inr ?d2" using hl l by (simp add: write_app_next_def get_handle_eq)
  obtain g where g: "get_handle ?d2 dst = Inr g" "u_tbl g = tp"
    using r(8) dd hl by (cases "dst = ?l") (auto simp: ut_item_def get_handle_def)
  have w2: "write_tbl ?d2 elt tp = Inr ?d3" using elt(1) l by (simp add: write_tbl_def get_handle_eq)
  have d3: "?d3 = set_handle (set_handle d elt ?e3) ?l (hl\<lparr>u_next := elt\<rparr>)"
    using l by (simp add: set_handle_def fun_upd_twist)
  note ln = link_behind [OF hl(1) l(2) d3]
  have items: "\<forall>p \<in> set (fs @ [elt]). ut_item ?d3 tp p"
    using r(8) hl l elt(1) h by (auto simp: ut_item_def e1_def source_handle_def)
  have ht: "head_table ?d3 elt = Inr (tp, t)" using items r(3,4) by (intro head_table_item) simp_all
  have "ut_table_ok ?d3 t k fs css" by (rule ln(4) [OF elt(2) r(5)])
  moreover have "nchain (appn ?d3) dst (fs @ [elt])" using nchain_append_last [OF r(1) ne elt] ln(1) by (simp add: e1_def)
  moreover have "backs (appp ?d3) NULL (fs @ [elt])" using r(2) elt(2) ne ln(2) by (simp add: e1_def)
  moreover have "t_tail t = hd (fs @ [elt])" using r(6) ne by simp
  ultimately obtain d4 t1 k' where x:
    "HASH_ADD_TO_BKT True tp (HASH_TO_BKT (u_hashv ?e3) (t_num_buckets t)) elt ?d3 = Some (Inr d4)"
    "head_table d4 dst = Inr (tp, t1)" "k' \<le> Suc k"
    "sel_rep k' (set_table d4 tp (t1\<lparr>t_num_items := t_num_items t1 + 1\<rparr>)) dst (fs @ [elt])" "cores_eq ?d3 d4"
    using select_into_buckets [of ?d3 tp t k fs css elt dst ?e3] r(3,4,7) k elt(2) items by auto
  let ?d5 = "set_table d4 tp (t1\<lparr>t_num_items := t_num_items t1 + 1\<rparr>)"
  have hv: "u_hashv h = u_hashv ?e3" by (simp add: e1_def)
  have "select_elem tp' True h elt (dst, ?l, d) = Some (Inr (dst, elt, ?d5))"
    unfolding select_elem_def prod.case get_handle_eq [OF elt(1) eh] bind_run_simps e1_def [symmetric] Let_def
    using r(10) hl(3) by (simp add: w1 w2 g ht x(2) x(1) [folded hv])
  moreover have "key_of ?d5 = (key_of d)(elt := u_key h)"
  proof -
    have "key_of ?d5 = key_of ?d3" using key_of_cores_eq [of ?d3 ?d5] x(5) by auto
    also have "\<dots> = (key_of d)(elt := u_key h)" using ln(3) by (simp add: e1_def)
    finally show ?thesis .
  qed
  moreover have "dom (handles ?d5) = dom (handles d)" using cores_eq_dom [OF x(5)] eh hl by auto
  ultimately show ?thesis using x(3,4) by (intro exI [of _ ?d5] exI [of _ k']) simp
qed

lemma select_elem_ok:
  assumes "sel_rep k d dst fs" "max 5 k < 31" "elt \<noteq> NULL" "elt \<notin> set fs" "elt \<in> dom (handles d)" "source_handle h" "tp \<noteq> NULL"
  shows "\<exists>dst' d' k'. select_elem tp True h elt (dst, last (NULL # fs), d) = Some (Inr (dst', elt, d')) \<and> max 5 k' \<le> Suc (max 5 k)
     \<and> sel_rep k' d' dst' (fs @ [elt]) \<and> key_of d' = (key_of d)(elt := u_key h) \<and> dom (handles d') = dom (handles d)"
proof (cases "fs = []")
  case True
  with assms(1) have "dst = NULL" by (simp add: sel_rep_def)
  moreover obtain d' k' where "select_elem tp True h elt (NULL, NULL, d) = Some (Inr (elt, elt, d'))" "k' \<le> 6"
    "sel_rep k' d' elt [elt]" "key_of d' = (key_of d)(elt := u_key h)" "dom (handles d') = dom (handles d)"
    using select_first_ok [OF assms(3,7,5,6)] by blast
  moreover from this have "max 5 k' \<le> Suc (max 5 k)" by linarith
  ultimately show ?thesis using True
    by - (rule exI [of _ elt], rule exI [of _ d'], rule exI [of _ k'], simp)
next
  case False
  obtain d' k' where "select_elem tp True h elt (dst, last fs, d) = Some (Inr (dst, elt, d'))" "k' \<le> Suc k"
    "sel_rep k' d' dst (fs @ [elt])" "key_of d' = (key_of d)(elt := u_key h)" "dom (handles d') = dom (handles d)"
    using select_next_ok [OF assms(1) False _ assms(3-6), of tp] assms(2) by auto
  moreover from this have "max 5 k' \<le> Suc (max 5 k)" by linarith
  ultimately show ?thesis using False
    by - (rule exI [of _ dst], rule exI [of _ d'], rule exI [of _ k'], simp)
qed

text \<open>The elements that are selected from a part \<open>cs\<close> of the source, and what the destination is then.\<close>

definition selected ::
    "(ptr \<Rightarrow> bool) \<Rightarrow> ut_store \<Rightarrow> nat \<Rightarrow> ut_store \<Rightarrow> ptr list \<Rightarrow> ptr list \<Rightarrow> (ptr \<times> ptr \<times> ut_store) run \<Rightarrow> bool" where
  "selected cond s k d fs cs r \<longleftrightarrow> (\<exists>dst' d' k'. r = Some (Inr (dst', last (NULL # fs @ filter cond cs), d'))
     \<and> sel_rep k' d' dst' (fs @ filter cond cs) \<and> max 5 k' \<le> max 5 k + length (filter cond cs)
     \<and> (\<forall>p. key_of d' p = (if p \<in> set (filter cond cs) then key_of s p else key_of d p))
     \<and> dom (handles d') = dom (handles d))"

lemma selected_append:
  assumes "selected cond s k d fs cs r"
    and "\<And>dst' d' k'. sel_rep k' d' dst' (fs @ filter cond cs) \<Longrightarrow> max 5 k' \<le> max 5 k + length (filter cond cs)
      \<Longrightarrow> dom (handles d') = dom (handles d)
      \<Longrightarrow> selected cond s k' d' (fs @ filter cond cs) cs' (f (dst', last (NULL # fs @ filter cond cs), d'))"
  shows "selected cond s k d fs (cs @ cs') (bind_run r f)"
proof -
  obtain dst' d' k' where 1: "r = Some (Inr (dst', last (NULL # fs @ filter cond cs), d'))"
    "sel_rep k' d' dst' (fs @ filter cond cs)" "max 5 k' \<le> max 5 k + length (filter cond cs)"
    "\<forall>p. key_of d' p = (if p \<in> set (filter cond cs) then key_of s p else key_of d p)"
    "dom (handles d') = dom (handles d)"
    using assms(1) unfolding selected_def by blast
  obtain dst'' d'' k'' where 2: "f (dst', last (NULL # fs @ filter cond cs), d')
      = Some (Inr (dst'', last (NULL # (fs @ filter cond cs) @ filter cond cs'), d''))"
    "sel_rep k'' d'' dst'' ((fs @ filter cond cs) @ filter cond cs')" "max 5 k'' \<le> max 5 k' + length (filter cond cs')"
    "\<forall>p. key_of d'' p = (if p \<in> set (filter cond cs') then key_of s p else key_of d' p)"
    "dom (handles d'') = dom (handles d')"
    using assms(2) [OF 1(2,3,5)] unfolding selected_def by blast
  have "bind_run r f = Some (Inr (dst'', last (NULL # fs @ filter cond (cs @ cs')), d''))" unfolding 1(1) bind_run_simps 2(1) by simp
  moreover have "sel_rep k'' d'' dst'' (fs @ filter cond (cs @ cs'))" using 2(2) by simp
  moreover have "max 5 k'' \<le> max 5 k + length (filter cond (cs @ cs'))" using 1(3) 2(3) by (simp only: filter_append length_append)
  moreover have "\<forall>p. key_of d'' p = (if p \<in> set (filter cond (cs @ cs')) then key_of s p else key_of d p)"
    using 1(4) 2(4) by simp
  moreover have "dom (handles d'') = dom (handles d)" using 1(5) 2(5) by simp
  ultimately show ?thesis unfolding selected_def by blast
qed

lemma selected_Nil: "sel_rep k d dst fs \<Longrightarrow> selected cond s k d fs [] (Some (Inr (dst, last (NULL # fs), d)))"
  by (auto simp: selected_def)

lemma select_chain_ok:
  assumes "nchain (hhn s) src_hh cs" "\<forall>p \<in> set cs. ut_item s tps p" "sel_rep k d dst fs"
    and "max 5 k + length (filter cond cs) \<le> 31" "distinct (fs @ filter cond cs)" "set (filter cond cs) \<subseteq> dom (handles d)" "tp \<noteq> NULL"
  shows "selected cond s k d fs cs (select_chain cond tp True s src_hh (dst, last (NULL # fs), d))"
  using assms(1-6)
proof (induction cs arbitrary: src_hh k d dst fs)
  case Nil
  then show ?case by (subst select_chain.simps) (simp add: selected_Nil del: last.simps)
next
  case (Cons p cs)
  from Cons.prems(1) obtain h where h: "src_hh = p" "p \<noteq> NULL" "handles s p = Some h" "nchain (hhn s) (u_hh_next h) cs"
    by (rule nchain_hhn_Cons)
  have sh: "source_handle h" "key_of s p = u_key h" using Cons.prems(2) h(3) by (auto simp: ut_item_def source_handle_def key_of_def)
  have one: "selected cond s k d fs [p] (if cond p then select_elem tp True h p (dst, last (NULL # fs), d)
      else Some (Inr (dst, last (NULL # fs), d)))"
  proof (cases "cond p")
    case True
    have "p \<notin> set fs" "max 5 k < 31" "p \<in> dom (handles d)" using Cons.prems(4-6) True by auto
    from select_elem_ok [OF Cons.prems(3) this(2) h(2) this(1,3) sh(1) assms(7)] obtain dst' d' k' where
      "select_elem tp True h p (dst, last (NULL # fs), d) = Some (Inr (dst', p, d'))" "max 5 k' \<le> Suc (max 5 k)"
      "sel_rep k' d' dst' (fs @ [p])" "key_of d' = (key_of d)(p := u_key h)" "dom (handles d') = dom (handles d)" by blast
    with True sh(2) show ?thesis unfolding selected_def by (intro exI [of _ dst'] exI [of _ d'] exI [of _ k']) simp
  next
    case False
    with Cons.prems(3) show ?thesis unfolding selected_def by (intro exI [of _ dst] exI [of _ d] exI [of _ k]) simp
  qed
  have "selected cond s k d fs ([p] @ cs) (bind_run (if cond p then select_elem tp True h p (dst, last (NULL # fs), d)
      else Some (Inr (dst, last (NULL # fs), d))) (select_chain cond tp True s (u_hh_next h)))"
  proof (rule selected_append [OF one])
    fix dst' d' k'
    assume "sel_rep k' d' dst' (fs @ filter cond [p])" "max 5 k' \<le> max 5 k + length (filter cond [p])"
      "dom (handles d') = dom (handles d)"
    then show "selected cond s k' d' (fs @ filter cond [p]) cs
        (select_chain cond tp True s (u_hh_next h) (dst', last (NULL # fs @ filter cond [p]), d'))"
      using Cons.prems(2,4-6) by (intro Cons.IH [OF h(4)]) (auto split: if_splits)
  qed
  then show ?case unfolding h(1)
    by (subst select_chain.simps) (simp only: get_handle_eq [OF h(2,3)] bind_run_simps if_not_P [OF h(2)] append_Cons append_Nil)
qed

lemma select_buckets_ok:
  assumes "list_all2 (bucket_holds s) bs ccs" "\<forall>p \<in> set (concat ccs). ut_item s tps p" "sel_rep k d dst fs"
    and "max 5 k + length (filter cond (concat ccs)) \<le> 31" "distinct (fs @ filter cond (concat ccs))"
    and "set (filter cond (concat ccs)) \<subseteq> dom (handles d)" "tp \<noteq> NULL"
  shows "selected cond s k d fs (concat ccs) (select_buckets cond tp True s bs (dst, last (NULL # fs), d))"
  using assms(1-6)
proof (induction bs ccs arbitrary: k d dst fs rule: list_all2_induct)
  case Nil
  then show ?case by (simp add: selected_Nil del: last.simps)
next
  case (Cons b bs cs ccs)
  have c: "nchain (hhn s) (b_head b) cs" using Cons.hyps(1) by (simp add: bucket_holds_def)
  have one: "selected cond s k d fs cs (select_chain cond tp True s (b_head b) (dst, last (NULL # fs), d))"
    using Cons.prems by (intro select_chain_ok [OF c _ Cons.prems(2) _ _ _ assms(7)]) auto
  have "selected cond s k d fs (cs @ concat ccs) (bind_run (select_chain cond tp True s (b_head b) (dst, last (NULL # fs), d))
      (select_buckets cond tp True s bs))"
  proof (rule selected_append [OF one])
    fix dst' d' k'
    assume "sel_rep k' d' dst' (fs @ filter cond cs)" "max 5 k' \<le> max 5 k + length (filter cond cs)"
      "dom (handles d') = dom (handles d)"
    then show "selected cond s k' d' (fs @ filter cond cs) (concat ccs)
        (select_buckets cond tp True s bs (dst', last (NULL # fs @ filter cond cs), d'))"
      using Cons.prems by (intro Cons.IH) auto
  qed
  then show ?case by (simp del: last.simps)
qed

section \<open>The whole selection\<close>

lemma HASH_SELECT_ok:
  assumes rep: "ut_rep k s src es" and len: "length (filter cond es) \<le> 26" and tp: "tp \<noteq> NULL"
    and cells: "set (filter cond es) \<subseteq> dom (handles d)"
  shows "\<exists>fs dst d' k'. HASH_SELECT cond tp True s src (NULL, d) = Some (Inr (dst, d'))
     \<and> distinct fs \<and> set fs = set (filter cond es) \<and> sel_rep k' d' dst fs \<and> k' \<le> 5 + length (filter cond es)
     \<and> (\<forall>p \<in> set fs. key_of d' p = key_of s p)"
proof (cases "es = []")
  case True
  with rep show ?thesis by (intro exI [of _ "[]"]) (auto simp: ut_rep_def HASH_SELECT_def sel_rep_def)
next
  case False
  from ut_rep_open [OF rep False] obtain tps t css where r: "nchain (appn s) src es" "ut_table_ok s t k es css"
    "\<forall>p \<in> set es. ut_item s tps p" "head_table s src = Inr (tps, t)" .
  have k: "k < 32" and nb: "t_num_buckets t = 2 ^ k" and ln: "length (t_buckets t) = 2 ^ k"
    and bh: "buckets_hold s (t_buckets t) css"
    and st: "\<And>j. j < 2 ^ k \<Longrightarrow> set (css j) = {p \<in> set es. bkt_of s (2 ^ k) p = j}"
    using r(2) by (simp_all add: ut_table_ok_def)
  have src: "src \<noteq> NULL" using r(1) False by (cases es) auto
  have un: "unat (t_num_buckets t) = 2 ^ k" using nb k by (simp add: unat_exp32)
  let ?ccs = "map css [0..<2 ^ k]"
  let ?fs = "filter cond (concat ?ccs)"
  have d: "distinct (concat ?ccs)" using buckets_hold_distinct [OF bh _ st] ln by simp
  have set: "set (concat ?ccs) = set es" using st bkt_of_bound [OF k, of s] by auto
  have fs: "set ?fs = set (filter cond es)" using set by auto
  have "length ?fs = length (filter cond es)"
    using distinct_card [of ?fs] distinct_card [of "filter cond es"] d nchain_distinct [OF r(1)] fs by simp
  then have "max 5 0 + length (filter cond (concat ?ccs)) \<le> 31" using len by simp
  moreover have "list_all2 (bucket_holds s) (t_buckets t) ?ccs"
    using bh ln by (simp add: list_all2_conv_all_nth buckets_hold_def)
  moreover have "sel_rep 0 d NULL []" by (simp add: sel_rep_def)
  moreover have "\<forall>p \<in> set (concat ?ccs). ut_item s tps p" using r(3) set by blast
  moreover have "distinct ([] @ ?fs)" using d by simp
  ultimately have "selected cond s 0 d [] (concat ?ccs) (select_buckets cond tp True s (t_buckets t) (NULL, last (NULL # []), d))"
    using cells fs tp by (intro select_buckets_ok) auto
  moreover have l: "last [NULL] = NULL" by simp
  ultimately obtain dst d' k' where x: "select_buckets cond tp True s (t_buckets t) (NULL, NULL, d) = Some (Inr (dst, last (NULL # ?fs), d'))"
    "sel_rep k' d' dst ?fs" "max 5 k' \<le> max 5 0 + length ?fs" "\<forall>p. key_of d' p = (if p \<in> set ?fs then key_of s p else key_of d p)"
    unfolding selected_def append_Nil l by blast
  have "HASH_SELECT cond tp True s src (NULL, d) = Some (Inr (dst, d'))"
    using src un ln x(1) r(4) by (simp add: HASH_SELECT_def)
  moreover have "k' \<le> 5 + length (filter cond es)" using x(3) \<open>length ?fs = length (filter cond es)\<close> by simp
  moreover have "distinct ?fs" using d by simp
  ultimately show ?thesis using fs x(2,4)
    by (intro exI [of _ ?fs] exI [of _ dst] exI [of _ d'] exI [of _ k'] conjI) auto
qed

text \<open>What a table without a right tail does.\<close>

lemma sel_rep_reads:
  assumes "sel_rep k d dst fs"
  shows "HASH_CNT d dst = Inr (of_nat (length fs))" "HASH_FSCK d dst = Some (Inr ())"
    and "length key < 2 ^ 32 \<Longrightarrow> distinct (map (key_of d) fs)
      \<Longrightarrow> HASH_FIND d dst key = Some (Inr (case find (\<lambda>p. key_of d p = key) fs of None \<Rightarrow> NULL | Some p \<Rightarrow> p))"
proof -
  have "HASH_CNT d dst = Inr (of_nat (length fs)) \<and> HASH_FSCK d dst = Some (Inr ()) \<and>
    (length key < 2 ^ 32 \<longrightarrow> distinct (map (key_of d) fs)
      \<longrightarrow> HASH_FIND d dst key = Some (Inr (case find (\<lambda>p. key_of d p = key) fs of None \<Rightarrow> NULL | Some p \<Rightarrow> p)))"
  proof (cases "fs = []")
    case True
    with assms show ?thesis by (simp add: sel_rep_def HASH_CNT_def HASH_FSCK_def HASH_FIND_def)
  next
    case False
    from sel_rep_open [OF assms False] obtain tp t css where r: "nchain (appn d) dst fs" "backs (appp d) NULL fs" "tp \<noteq> NULL"
      "tables d tp = Some t" "ut_table_ok d t k fs css" "t_tail t = hd fs" "t_num_items t = of_nat (length fs)"
      "\<forall>p \<in> set fs. ut_item d tp p" "dst = hd fs" "dst \<noteq> NULL" "head_table d dst = Inr (tp, t)" .
    have dst: "dst \<in> set fs" using r(9) False by simp
    show ?thesis using HASH_FSCK_at [OF r(5) nchain_distinct [OF r(1)] r(7,11,1,2) False]
        HASH_FIND_at [OF dst r(3,4,5,8)] r(7,10,11) by (simp add: HASH_CNT_def)
  qed
  then show "HASH_CNT d dst = Inr (of_nat (length fs))" "HASH_FSCK d dst = Some (Inr ())"
    "length key < 2 ^ 32 \<Longrightarrow> distinct (map (key_of d) fs)
      \<Longrightarrow> HASH_FIND d dst key = Some (Inr (case find (\<lambda>p. key_of d p = key) fs of None \<Rightarrow> NULL | Some p \<Rightarrow> p))"
    by blast+
qed

text \<open>
  An element added to such a table is linked behind the tail, which is the first element, so the others are no longer
  on the list; they are still in the buckets.
\<close>

lemma HASH_ADD_stale:
  assumes rep: "sel_rep k d dst (a # b # cs)" and k: "k < 31" and len: "length cs < 2 ^ 31"
    and add: "add \<noteq> NULL" "add \<notin> set (a # b # cs)" and key: "length key < 2 ^ 32"
    and dk: "distinct (map (key_of d) (a # b # cs))" "key \<notin> key_of d ` set (a # b # cs)"
  shows "\<exists>d'. HASH_ADD tp' True d dst key add = Some (Inr (dst, d')) \<and> nchain (appn d') dst [a, add]
     \<and> HASH_CNT d' dst = Inr (of_nat (length cs + 3)) \<and> HASH_FSCK d' dst = Some (Inl Exit)
     \<and> HASH_FIND d' dst key = Some (Inr add)
     \<and> (\<forall>p \<in> set (a # b # cs). length (key_of d p) < 2 ^ 32 \<longrightarrow> HASH_FIND d' dst (key_of d p) = Some (Inr p))"
proof -
  let ?fs = "a # b # cs" and ?gs = "(a # b # cs) @ [add]"
  have ne: "?fs \<noteq> []" by simp
  from sel_rep_open [OF rep ne] obtain tp t css where r0: "nchain (appn d) dst ?fs" "backs (appp d) NULL ?fs" "tp \<noteq> NULL"
    "tables d tp = Some t" "ut_table_ok d t k ?fs css" "t_tail t = hd ?fs" "t_num_items t = of_nat (length ?fs)"
    "\<forall>p \<in> set ?fs. ut_item d tp p" "dst = hd ?fs" "dst \<noteq> NULL" .
  note r = r0(1-5) r0(6) [unfolded list.sel] r0(7,8) r0(9) [unfolded list.sel] r0(10)
  have "ut_item d tp a" using r(8) by simp
  then obtain ha where ha: "handles d a = Some ha" "u_tbl ha = tp" "a \<noteq> NULL" by (auto simp: ut_item_def)
  have an: "a \<noteq> add" using add(2) by simp
  let ?d0 = "set_handle d add (new_handle tp key)"
  let ?d1 = "set_handle ?d0 add ((new_handle tp key)\<lparr>u_next := NULL, u_prev := a\<rparr>)"
  let ?d2 = "set_handle ?d1 a (ha\<lparr>u_next := add\<rparr>)"
  let ?d3 = "set_table ?d2 tp (t\<lparr>t_tail := add\<rparr>)"
  let ?t4 = "t\<lparr>t_tail := add, t_num_items := t_num_items t + 1\<rparr>"
  let ?d4 = "set_table ?d3 tp ?t4"
  have "get_table ?d0 tp = Inr t" "get_handle ?d0 add = Inr (new_handle tp key)" "write_app_next ?d1 a add = Inr ?d2"
    using r(3,4) add(1) an ha by (simp_all add: get_table_def get_handle_def write_app_next_def)
  then have ap: "HASH_APPEND_LIST tp add ?d0 = Inr ?d3" using r(6) by (simp add: HASH_APPEND_LIST_def Let_def)
  note ln = link_behind [OF ha(1) an refl, where a = "(new_handle tp key)\<lparr>u_next := NULL, u_prev := a\<rparr>" and x = add]
  have ok: "ut_table_ok ?d4 ?t4 k ?fs css" using ut_table_ok_cong [OF ln(4) [OF add(2) r(5)], of ?t4] by simp
  obtain e where e: "handles ?d4 add = Some e" "u_hashv e = HASH_JEN key" using an by simp
  obtain s1 t1 k1 css1 where x:
    "HASH_ADD_TO_BKT True tp (HASH_TO_BKT (u_hashv e) (2 ^ k)) add ?d4 = Some (Inr (set_table s1 tp t1))"
    "cores_eq ?d4 s1" "ut_table_ok s1 t1 k1 ?gs css1" "t_num_items t1 = t_num_items ?t4"
    using HASH_ADD_TO_BKT_ok [OF _ r(3) ok k e(1) add] by auto
  let ?d5 = "set_table s1 tp t1"
  have c: "cores_eq ?d4 ?d5" using x(2) by simp
  have "t_num_buckets t = 2 ^ k" using r(5) by (simp add: ut_table_ok_def)
  then have "HASH_ADD_TO_TABLE True tp (HASH_JEN key) add ?d3 = Some (Inr ?d5)"
    unfolding HASH_ADD_TO_TABLE_def using r(3) x(1) e(2) by (simp add: get_table_eq)
  moreover have "get_handle d dst = Inr ha" using ha r(9) by (simp add: get_handle_eq)
  ultimately have run: "HASH_ADD tp' True d dst key add = Some (Inr (dst, ?d5))"
    using add(1) r(10) ha(2) ap by (simp add: HASH_ADD_def Let_def)
  have items: "\<forall>p \<in> set ?gs. ut_item ?d5 tp p"
  proof
    fix p assume "p \<in> set ?gs"
    then have "ut_item ?d4 tp p" using r(8) add key ha by (cases "p = add") (auto simp: ut_item_def)
    then show "ut_item ?d5 tp p" by (rule ut_item_cores_eq(1) [OF c])
  qed
  have "ut_item ?d5 tp dst" using items r(9) by simp
  then have ht: "head_table ?d5 dst = Inr (tp, t1)" using r(3) by (intro head_table_item) simp_all
  have okg: "ut_table_ok ?d5 t1 k1 ?gs css1" using x(3) by simp
  have n: "t_num_items t1 = of_nat (length ?gs)" using x(4) r(7) by simp
  have dg: "distinct ?gs" using nchain_distinct [OF r(1)] add(2) by auto
  have ap5: "appn ?d5 = (appn d)(add \<mapsto> NULL, a \<mapsto> add)" "appp ?d5 = (appp d)(add \<mapsto> a)"
    using ln(1,2) by (simp_all add: cores_eq_appn [OF x(2)] cores_eq_appp [OF x(2)])
  have ch: "nchain (appn ?d5) dst [a, add]" using ap5(1) an add(1) ha(3) r(9) by simp
  have bk: "backs (appp ?d5) NULL [a, add]" using ap5(2) r(2) an by simp
  have "(of_nat (length [a, add]) :: u32) \<noteq> of_nat (length ?gs)"
  proof
    assume "(of_nat (length [a, add]) :: u32) = of_nat (length ?gs)"
    then have "unat (of_nat (length [a, add]) :: u32) = unat (of_nat (length ?gs) :: u32)" by simp
    then show False using len unat_of_nat_small [of "length ?gs", where 'a = 32] by simp
  qed
  then have fsck: "HASH_FSCK ?d5 dst = Some (Inl Exit)" using HASH_FSCK_at [OF okg dg n ht ch bk] by simp
  have cnt: "HASH_CNT ?d5 dst = Inr (of_nat (length cs + 3))" using r(10) ht n by (simp add: HASH_CNT_def)
  have kd: "key_of ?d5 = (key_of d)(add := key)"
  proof -
    have "key_of ?d5 = key_of ?d4" using key_of_cores_eq [OF c] by auto
    then show ?thesis using ln(3) by (simp add: fun_eq_iff key_of_def)
  qed
  have "map (key_of ?d5) ?gs = map (key_of d) ?fs @ [key]" unfolding kd using add(2) by auto
  moreover have "distinct (map (key_of d) ?fs @ [key])" using dk by auto
  ultimately have dkg: "distinct (map (key_of ?d5) ?gs)" by metis
  have find: "HASH_FIND ?d5 dst (key_of ?d5 p) = Some (Inr p)" if "p \<in> set ?gs" "length (key_of ?d5 p) < 2 ^ 32" for p
  proof -
    have "dst \<in> set ?gs" using r(9) by simp
    from HASH_FIND_at [OF this r(3) _ okg items that(2) dkg] find_own_key [OF dkg that(1)] show ?thesis by simp
  qed
  have "HASH_FIND ?d5 dst key = Some (Inr add)" using find [of add] key by (simp add: kd)
  moreover have "HASH_FIND ?d5 dst (key_of d p) = Some (Inr p)" if "p \<in> set ?fs" "length (key_of d p) < 2 ^ 32" for p
  proof -
    have "p \<noteq> add" using that(1) add(2) by auto
    with find [of p] that show ?thesis by (simp add: kd)
  qed
  ultimately show ?thesis using run ch cnt fsck by blast
qed

section \<open>Properties\<close>

lemma ut_rep_keys: "ut_rep k s head es \<Longrightarrow> p \<in> set es \<Longrightarrow> length (key_of s p) < 2 ^ 32"
  by (auto simp: ut_rep_def ut_item_def key_of_def split: if_splits)

lemma sel_rep_chain: "sel_rep k d dst fs \<Longrightarrow> nchain (appn d) dst fs"
  by (auto simp: sel_rep_def split: if_splits)

text \<open>C12: selecting at most 26 elements from a table of any size gives a table of exactly the elements that satisfy the
  condition. The loops over the buckets and their chains end without a fault, a walk from the new head visits each
  of these elements once, the count is theirs, the integrity check passes, and look-up finds each under the key it has in
  the source and nothing else. (The new table starts with \<open>2 ^ 5\<close> buckets and each element that is added to it may double
  them; the bound keeps their number below the range of an \<open>unsigned\<close> whatever the keys hash to. The keys in the
  source are all different.)\<close>

theorem select_copies:
  assumes "ut_rep k s src es" "distinct (map (key_of s) es)" "length (filter cond es) \<le> 26" "tp \<noteq> NULL"
    and "set (filter cond es) \<subseteq> dom (handles d)"
  shows "\<exists>fs dst d'. HASH_SELECT cond tp True s src (NULL, d) = Some (Inr (dst, d'))
     \<and> distinct fs \<and> set fs = set (filter cond es) \<and> nchain (appn d') dst fs
     \<and> HASH_CNT d' dst = Inr (of_nat (length (filter cond es))) \<and> HASH_FSCK d' dst = Some (Inr ())
     \<and> (\<forall>key. length key < 2 ^ 32 \<longrightarrow> HASH_FIND d' dst key
          = Some (Inr (case find (\<lambda>p. key_of s p = key) (filter cond es) of None \<Rightarrow> NULL | Some p \<Rightarrow> p)))"
proof -
  obtain fs dst d' k' where x: "HASH_SELECT cond tp True s src (NULL, d) = Some (Inr (dst, d'))" "distinct fs"
    "set fs = set (filter cond es)" "sel_rep k' d' dst fs" "\<forall>p \<in> set fs. key_of d' p = key_of s p"
    using HASH_SELECT_ok [OF assms(1,3,4,5)] by blast
  have des: "distinct (map (key_of s) (filter cond es))" using assms(2) by (rule distinct_map_filter)
  then have inj: "inj_on (key_of s) (set fs)" using x(3) by (simp add: distinct_map)
  have len: "length fs = length (filter cond es)"
    using distinct_card [OF x(2)] distinct_card [of "filter cond es"] des x(3) by (simp add: distinct_map)
  have kfs: "map (key_of d') fs = map (key_of s) fs" using x(5) by simp
  then have dk: "distinct (map (key_of d') fs)" using x(2) inj by (simp only: kfs distinct_map)
  have "find (\<lambda>p. key_of d' p = key) fs = find (\<lambda>p. key_of s p = key) (filter cond es)" for key
  proof -
    have "find (\<lambda>p. key_of d' p = key) fs = find (\<lambda>p. key_of s p = key) fs" using x(5) by (intro find_cong) auto
    also have "\<dots> = find (\<lambda>p. key_of s p = key) (filter cond es)"
      by (rule find_unique_cong [OF des]) (use x(3) in auto)
    finally show ?thesis .
  qed
  then have "\<forall>key. length key < 2 ^ 32 \<longrightarrow> HASH_FIND d' dst key
          = Some (Inr (case find (\<lambda>p. key_of s p = key) (filter cond es) of None \<Rightarrow> NULL | Some p \<Rightarrow> p))"
    using sel_rep_reads(3) [OF x(4) _ dk] by simp
  then show ?thesis using x sel_rep_reads(1,2) [OF x(4)] sel_rep_chain [OF x(4)] len by metis
qed

theorem select_copies_witness:
  "\<exists>s fs dst d'. HASH_SELECT even 30 True s 10 (NULL, \<lparr>handles = \<lambda>_. Some (new_handle 0 []), tables = Map.empty\<rparr>) = Some (Inr (dst, d'))
     \<and> set fs = {10} \<and> nchain (appn d') dst fs \<and> HASH_CNT d' dst = Inr 1
     \<and> HASH_FIND d' dst [1, 0, 0, 0] = Some (Inr 10) \<and> HASH_FIND d' dst [2, 0, 0, 0] = Some (Inr NULL)"
proof -
  obtain k s where s: "ut_rep k s 10 [10, 11]" "key_of s 10 = [1, 0, 0, 0]" "key_of s 11 = [2, 0, 0, 0]"
    using two_items by blast
  let ?d = "\<lparr>handles = \<lambda>_. Some (new_handle 0 []), tables = Map.empty\<rparr>"
  have pre: "distinct (map (key_of s) [10, 11])" "length (filter even [10, 11 :: ptr]) \<le> 26" "(30 :: ptr) \<noteq> NULL"
    "set (filter even [10, 11 :: ptr]) \<subseteq> dom (handles ?d)" using s by simp_all
  have f: "filter even [10, 11 :: ptr] = [10]" by simp
  show ?thesis using select_copies [OF s(1) pre] unfolding f using s(2,3)
    by (elim exE conjE) (intro exI conjI, assumption, simp_all)
qed

text \<open>C13: the table that a selection makes must not be added to. The tail still points to the first element selected, so an
  element added later is linked behind that one: when 2 to 25 elements were selected a walk from the head then visits the
  first and the added one only. The others are still counted and found by their keys, and the integrity check ends
  the process. (25 elements, so that with the added one the number of buckets stays in range, as above.)\<close>

theorem select_tail_stale:
  assumes "ut_rep k s src es" "distinct (map (key_of s) es)" "length (filter cond es) \<le> 25" "tp \<noteq> NULL"
    and "set (filter cond es) \<subseteq> dom (handles d)" "2 \<le> length (filter cond es)"
    and "add \<noteq> NULL" "add \<notin> set es" "length key < 2 ^ 32" "key \<notin> key_of s ` set es"
  shows "\<exists>fs dst d1 d2. HASH_SELECT cond tp True s src (NULL, d) = Some (Inr (dst, d1)) \<and> nchain (appn d1) dst fs
     \<and> set fs = set (filter cond es) \<and> HASH_ADD tp True d1 dst key add = Some (Inr (dst, d2))
     \<and> nchain (appn d2) dst [hd fs, add] \<and> HASH_CNT d2 dst = Inr (of_nat (length (filter cond es) + 1))
     \<and> HASH_FSCK d2 dst = Some (Inl Exit) \<and> (\<forall>p \<in> set fs. HASH_FIND d2 dst (key_of s p) = Some (Inr p))"
proof -
  have "length (filter cond es) \<le> 26" using assms(3) by simp
  from HASH_SELECT_ok [OF assms(1) this assms(4,5)] obtain fs dst d1 k' where x:
    "HASH_SELECT cond tp True s src (NULL, d) = Some (Inr (dst, d1))" "distinct fs"
    "set fs = set (filter cond es)" "sel_rep k' d1 dst fs" "k' \<le> 5 + length (filter cond es)" "\<forall>p \<in> set fs. key_of d1 p = key_of s p"
    by blast
  have des: "distinct (map (key_of s) (filter cond es))" using assms(2) by (rule distinct_map_filter)
  then have inj: "inj_on (key_of s) (set fs)" using x(3) by (simp add: distinct_map)
  have len: "length fs = length (filter cond es)"
    using distinct_card [OF x(2)] distinct_card [of "filter cond es"] des x(3) by (simp add: distinct_map)
  then obtain a b cs where fs: "fs = a # b # cs" using assms(6) by (metis Suc_le_length_iff numeral_2_eq_2)
  have kfs: "map (key_of d1) fs = map (key_of s) fs" using x(6) by simp
  then have dk: "distinct (map (key_of d1) fs)" using x(2) inj by (simp only: kfs distinct_map)
  have sub: "set fs \<subseteq> set es" using x(3) by auto
  have nk: "key \<notin> key_of d1 ` set fs" using assms(10) sub x(6) by (auto simp: image_iff)
  have na: "add \<notin> set fs" using assms(8) sub by auto
  have "k' < 31" "length cs < 2 ^ 31" using x(5) assms(3) len fs by simp_all
  from HASH_ADD_stale [OF x(4) [unfolded fs] this assms(7) na [unfolded fs] assms(9) dk [unfolded fs] nk [unfolded fs], of tp]
  obtain d2 where y: "HASH_ADD tp True d1 dst key add = Some (Inr (dst, d2))" "nchain (appn d2) dst [a, add]"
    "HASH_CNT d2 dst = Inr (of_nat (length cs + 3))" "HASH_FSCK d2 dst = Some (Inl Exit)"
    "\<forall>p \<in> set (a # b # cs). length (key_of d1 p) < 2 ^ 32 \<longrightarrow> HASH_FIND d2 dst (key_of d1 p) = Some (Inr p)" by blast
  have "HASH_FIND d2 dst (key_of s p) = Some (Inr p)" if "p \<in> set fs" for p
  proof -
    have "length (key_of s p) < 2 ^ 32" using ut_rep_keys [OF assms(1)] sub that by auto
    then show ?thesis using y(5) x(6) that fs by fastforce
  qed
  then have "\<forall>p \<in> set fs. HASH_FIND d2 dst (key_of s p) = Some (Inr p)" by blast
  moreover have "length (filter cond es) + 1 = length cs + 3" using len fs by simp
  ultimately show ?thesis using x(1,3) y(1-4) sel_rep_chain [OF x(4)] fs
    by - (rule exI [of _ fs], rule exI [of _ dst], rule exI [of _ d1], rule exI [of _ d2], simp only: list.sel simp_thms ball_simps)
qed

theorem select_tail_stale_witness:
  "\<exists>s fs dst d1 d2. HASH_SELECT (\<lambda>_. True) 30 True s 10 (NULL, \<lparr>handles = \<lambda>_. Some (new_handle 0 []), tables = Map.empty\<rparr>) = Some (Inr (dst, d1))
     \<and> nchain (appn d1) dst fs \<and> set fs = {10, 11} \<and> HASH_ADD 30 True d1 dst [3, 0, 0, 0] 12 = Some (Inr (dst, d2))
     \<and> nchain (appn d2) dst [hd fs, 12] \<and> HASH_CNT d2 dst = Inr 3 \<and> HASH_FSCK d2 dst = Some (Inl Exit)"
proof -
  obtain k s where s: "ut_rep k s 10 [10, 11]" "key_of s 10 = [1, 0, 0, 0]" "key_of s 11 = [2, 0, 0, 0]"
    using two_items by blast
  let ?d = "\<lparr>handles = \<lambda>_. Some (new_handle 0 []), tables = Map.empty\<rparr>"
  let ?fs = "filter (\<lambda>_. True) [10, 11 :: ptr]"
  have pre: "distinct (map (key_of s) [10, 11])" "length ?fs \<le> 25" "(30 :: ptr) \<noteq> NULL" "set ?fs \<subseteq> dom (handles ?d)"
    "2 \<le> length ?fs" "(12 :: ptr) \<noteq> NULL" "(12 :: ptr) \<notin> set [10, 11]" "length [3, 0, 0, 0 :: byte] < 2 ^ 32"
    "[3, 0, 0, 0 :: byte] \<notin> key_of s ` set [10, 11]" using s by simp_all
  from select_tail_stale [OF s(1) pre] obtain fs dst d1 d2 where
    x: "HASH_SELECT (\<lambda>_. True) 30 True s 10 (NULL, ?d) = Some (Inr (dst, d1))" "nchain (appn d1) dst fs" "set fs = set ?fs"
    "HASH_ADD 30 True d1 dst [3, 0, 0, 0] 12 = Some (Inr (dst, d2))" "nchain (appn d2) dst [hd fs, 12]"
    "HASH_CNT d2 dst = Inr (of_nat (length ?fs + 1))" "HASH_FSCK d2 dst = Some (Inl Exit)" by blast
  have "set ?fs = {10, 11}" "(of_nat (length ?fs + 1) :: u32) = 3" by simp_all
  with x show ?thesis
    by - (rule exI [of _ s], rule exI [of _ fs], rule exI [of _ dst], rule exI [of _ d1], rule exI [of _ d2], simp only: simp_thms)
qed

end
