(* ===== verification/Uthash_Hashes.thy ===== *)
theory Uthash_Hashes
  imports Uthash_Ops
begin

text \<open>
  What \<^verbatim>\<open>uthash.h\<close> can be compiled with in place of its defaults: the hash functions that may be chosen instead of \<open>HASH_JEN\<close>,
  on 32-bit words, and the Bloom filter that a look-up may ask first.
\<close>

unbundle bit_operations_syntax

section \<open>Hash functions\<close>

definition HASH_BER :: "byte list \<Rightarrow> u32" where
  "HASH_BER key = fold (\<lambda>b hashv. push_bit 5 hashv + hashv + ucast b) key 0"

definition HASH_SAX :: "byte list \<Rightarrow> u32" where
  "HASH_SAX key = fold (\<lambda>b hashv. hashv XOR (push_bit 5 hashv + drop_bit 2 hashv + ucast b)) key 0"

definition HASH_FNV :: "byte list \<Rightarrow> u32" where
  "HASH_FNV key = fold (\<lambda>b hashv. (hashv XOR ucast b) * 16777619) key 2166136261"

definition HASH_OAT :: "byte list \<Rightarrow> u32" where
  "HASH_OAT key =
     (let hashv = fold (\<lambda>b hashv.
            let hashv = hashv + ucast b; hashv = hashv + push_bit 10 hashv in hashv XOR drop_bit 6 hashv) key 0;
          hashv = hashv + push_bit 3 hashv;
          hashv = hashv XOR drop_bit 11 hashv
      in hashv + push_bit 15 hashv)"

text \<open>Odd factors and shifted differences can be undone.\<close>

lemma shift_add: "x + push_bit n x = (2 ^ n + 1) * (x :: u32)"
  by (simp add: push_bit_eq_mult algebra_simps)

lemma odd_factor:
  fixes x y u v :: u32
  assumes "u * x = u * y" "v * u = 1" shows "x = y"
proof -
  have "v * (u * z) = z" for z using assms(2) by (simp only: mult.assoc [symmetric] mult_1_left)
  then show ?thesis using assms(1) by metis
qed

lemma xor_cancel:
  fixes x y z :: u32
  shows "x XOR z = y XOR z \<longleftrightarrow> x = y" "z XOR x = z XOR y \<longleftrightarrow> x = y"
proof -
  have "x = y" if e: "x XOR z = y XOR z"
  proof (rule bit_eqI)
    fix i
    have "bit (x XOR z) i = bit (y XOR z) i" by (simp only: e)
    then show "bit x i = bit y i" by (auto simp: bit_xor_iff)
  qed
  then show "x XOR z = y XOR z \<longleftrightarrow> x = y" "z XOR x = z XOR y \<longleftrightarrow> x = y" by (auto simp: xor.commute [of z])
qed

lemma shift_xor:
  fixes x y :: u32
  assumes "x XOR drop_bit n x = y XOR drop_bit n y" "0 < n"
  shows "x = y"
proof -
  define d where "d = x XOR y"
  have d: "drop_bit n d = d"
  proof (rule bit_eqI)
    fix i
    have "bit (x XOR drop_bit n x) i = bit (y XOR drop_bit n y) i" using assms(1) by simp
    then show "bit (drop_bit n d) i = bit d i" by (auto simp: d_def bit_drop_bit_eq bit_xor_iff)
  qed
  have "drop_bit (k * n) d = d" for k
  proof (induction k)
    case (Suc k)
    have "drop_bit (n + k * n) d = drop_bit n (drop_bit (k * n) d)" by (simp add: drop_bit_drop_bit)
    with Suc d show ?case by simp
  qed simp
  then have "drop_bit (32 * n) d = d" .
  moreover have "(2 :: u32) ^ 32 = 0" by simp
  then have "(2 :: u32) ^ (32 * n) = 0" using assms(2) unfolding power_mult by (simp only: zero_power)
  then have "drop_bit (32 * n) d = 0" by (simp only: drop_bit_eq_div div_by_0)
  ultimately have "x XOR y = y XOR y" by (simp add: d_def)
  then show ?thesis by (simp only: xor_cancel)
qed

lemma ucast_byte_inj: "ucast (b :: byte) = (ucast c :: u32) \<longleftrightarrow> b = c"
proof
  assume e: "ucast b = (ucast c :: u32)"
  show "b = c"
  proof (rule bit_word_eqI)
    fix n assume "n < LENGTH(8)"
    then have "possible_bit TYPE(u32) n" by simp
    moreover have "bit (ucast b :: u32) n = bit (ucast c :: u32) n" using e by simp
    ultimately show "bit b n = bit c n" by (simp add: bit_unsigned_iff)
  qed
qed simp

text \<open>A loop over the bytes whose step is injective in the hash value and in the byte tells one changed byte.\<close>

lemma fold_tells_byte:
  assumes "\<And>b x y. step b x = step b y \<Longrightarrow> x = y" "\<And>b c x. step b x = step c x \<Longrightarrow> b = c" "b \<noteq> c"
  shows "fold step (xs @ b # ys) h \<noteq> fold step (xs @ c # ys) h"
proof -
  have inj: "fold step ys x = fold step ys y \<Longrightarrow> x = y" for x y
    by (induction ys arbitrary: x y) (auto dest: assms(1))
  show ?thesis
  proof
    assume "fold step (xs @ b # ys) h = fold step (xs @ c # ys) h"
    then have "step b (fold step xs h) = step c (fold step xs h)" using inj by simp
    then have "b = c" by (rule assms(2))
    with assms(3) show False by simp
  qed
qed

lemma BER_tells: "b \<noteq> c \<Longrightarrow> HASH_BER (xs @ b # ys) \<noteq> HASH_BER (xs @ c # ys)"
  unfolding HASH_BER_def
proof (rule fold_tells_byte)
  fix b :: byte and x y :: u32
  assume "push_bit 5 x + x + ucast b = push_bit 5 y + y + ucast b"
  then have "33 * x = 33 * y" using shift_add [of x 5] shift_add [of y 5] by (simp add: add.commute)
  then show "x = y" by (rule odd_factor [where v = 1041204193]) simp
qed (simp_all add: ucast_byte_inj)

lemma FNV_tells: "b \<noteq> c \<Longrightarrow> HASH_FNV (xs @ b # ys) \<noteq> HASH_FNV (xs @ c # ys)"
  unfolding HASH_FNV_def
proof (rule fold_tells_byte)
  fix b c :: byte and x y :: u32
  have m: "u = v" if "u * 16777619 = v * 16777619" for u v :: u32
    using that by (intro odd_factor [of 16777619 u v 899433627]) (simp_all add: mult.commute)
  show "x = y" if "(x XOR ucast b) * 16777619 = (y XOR ucast b) * 16777619"
    using m [OF that] by (simp only: xor_cancel)
  show "b = c" if "(x XOR ucast b) * 16777619 = (x XOR ucast c) * 16777619"
    using m [OF that] by (simp only: xor_cancel ucast_byte_inj)
qed

lemma OAT_tells: "b \<noteq> c \<Longrightarrow> HASH_OAT (xs @ b # ys) \<noteq> HASH_OAT (xs @ c # ys)"
proof -
  assume bc: "b \<noteq> c"
  let ?step = "\<lambda>b hashv :: u32. let hashv = hashv + ucast (b :: byte); hashv = hashv + push_bit 10 hashv in hashv XOR drop_bit 6 hashv"
  have st: "x + ucast b = y + ucast c" if "?step b x = ?step c y" for b c x y
  proof -
    have "x + ucast b + push_bit 10 (x + ucast b) = y + ucast c + push_bit 10 (y + ucast c)"
      by (rule shift_xor [where n = 6]) (use that in \<open>simp_all add: Let_def\<close>)
    then have "1025 * (x + ucast b) = 1025 * (y + ucast c)" by (simp only: shift_add) simp
    then show ?thesis by (rule odd_factor [where v = 3222273025]) simp
  qed
  have "fold ?step (xs @ b # ys) 0 \<noteq> fold ?step (xs @ c # ys) 0"
    by (rule fold_tells_byte) (use st bc in \<open>auto simp: ucast_byte_inj dest: st\<close>)
  moreover have fin: "x = y" if e: "(let h = x + push_bit 3 x; h = h XOR drop_bit 11 h in h + push_bit 15 h)
      = (let h = y + push_bit 3 y; h = h XOR drop_bit 11 h in h + push_bit 15 h)" for x y :: u32
  proof -
    let ?f = "\<lambda>x :: u32. x + push_bit 3 x"
    have "32769 * (?f x XOR drop_bit 11 (?f x)) = 32769 * (?f y XOR drop_bit 11 (?f y))"
      using e by (simp only: Let_def shift_add [of _ 15]) simp
    then have "?f x XOR drop_bit 11 (?f x) = ?f y XOR drop_bit 11 (?f y)"
      by (rule odd_factor [where v = 1073709057]) simp
    then have "?f x = ?f y" by (rule shift_xor) simp
    then have "9 * x = 9 * y" by (simp only: shift_add) simp
    then show ?thesis by (rule odd_factor [where v = 954437177]) simp
  qed
  ultimately show ?thesis unfolding HASH_OAT_def by (metis (no_types, lifting))
qed

lemma SAX_tells: "b \<noteq> c \<Longrightarrow> HASH_SAX (xs @ [b]) \<noteq> HASH_SAX (xs @ [c])"
proof
  assume "b \<noteq> c" "HASH_SAX (xs @ [b]) = HASH_SAX (xs @ [c])"
  then show False unfolding HASH_SAX_def
    by (simp add: xor_cancel ucast_byte_inj)
qed

section \<open>The Bloom filter\<close>

text \<open>
  With \<open>HASH_BLOOM\<close> defined as \<open>n\<close> a table has a bit vector of \<open>2 ^ n\<close> bits besides its buckets. It is a state of its own
  here, the list \<open>bv\<close> of its bytes.
\<close>

definition HASH_BLOOM_BYTELEN :: "nat \<Rightarrow> nat" where
  "HASH_BLOOM_BYTELEN n = 2 ^ n div 8 + (if 2 ^ n mod 8 \<noteq> (0 :: nat) then 1 else 0)"

definition HASH_BLOOM_MAKE :: "bool \<Rightarrow> nat \<Rightarrow> byte list res" where
  "HASH_BLOOM_MAKE mem n = (if mem then Inr (replicate (HASH_BLOOM_BYTELEN n) 0) else Inl Exit)"

definition HASH_BLOOM_BITSET :: "byte list \<Rightarrow> u32 \<Rightarrow> byte list res" where
  "HASH_BLOOM_BITSET bv idx =
     (let k = unat (idx div 8) in
      if k < length bv then Inr (bv[k := bv ! k OR push_bit (unat (idx mod 8)) 1]) else Inl OutOfBounds)"

definition HASH_BLOOM_BITTEST :: "byte list \<Rightarrow> u32 \<Rightarrow> bool res" where
  "HASH_BLOOM_BITTEST bv idx =
     (let k = unat (idx div 8) in
      if k < length bv then Inr (bv ! k AND push_bit (unat (idx mod 8)) 1 \<noteq> 0) else Inl OutOfBounds)"

text \<open>The shift in the mask is one of an \<open>unsigned long\<close>, cut to 32 bits.\<close>

definition bloom_index :: "nat \<Rightarrow> u32 \<Rightarrow> u32" where
  "bloom_index n hashv = hashv AND ucast (push_bit n 1 - 1 :: 64 word)"

definition HASH_BLOOM_ADD :: "nat \<Rightarrow> byte list \<Rightarrow> u32 \<Rightarrow> byte list res" where
  "HASH_BLOOM_ADD n bv hashv = HASH_BLOOM_BITSET bv (bloom_index n hashv)"

definition HASH_BLOOM_TEST :: "nat \<Rightarrow> byte list \<Rightarrow> u32 \<Rightarrow> bool res" where
  "HASH_BLOOM_TEST n bv hashv = HASH_BLOOM_BITTEST bv (bloom_index n hashv)"

definition HASH_FIND_bloom :: "nat \<Rightarrow> byte list \<Rightarrow> ut_store \<Rightarrow> ptr \<Rightarrow> byte list \<Rightarrow> ptr run" where
  "HASH_FIND_bloom n bv s head key =
     (if head = NULL then Some (Inr NULL)
      else bind_run (Some (HASH_BLOOM_TEST n bv (HASH_JEN key))) (\<lambda>test.
           if test then HASH_FIND s head key else Some (Inr NULL)))"

lemma bloom_index_mask:
  assumes "n < 64" shows "bloom_index n hashv = take_bit n hashv"
proof -
  have "ucast (push_bit n 1 - 1 :: 64 word) = (mask n :: u32)"
  proof (rule bit_word_eqI)
    fix i assume i: "i < LENGTH(32)"
    have "push_bit n 1 - 1 = (mask n :: 64 word)" by (simp add: mask_eq_exp_minus_1 push_bit_eq_mult)
    with i show "bit (ucast (push_bit n 1 - 1 :: 64 word) :: u32) i = bit (mask n :: u32) i"
      by (simp add: bit_unsigned_iff bit_mask_iff)
  qed
  then show ?thesis by (simp add: bloom_index_def take_bit_eq_mask)
qed

lemma bytes_enough: "m < 2 ^ n \<Longrightarrow> m div 8 < HASH_BLOOM_BYTELEN n"
proof -
  assume m: "m < 2 ^ n"
  have "k \<le> 8 * (k div 8 + (if k mod 8 \<noteq> 0 then 1 else 0))" for k :: nat by presburger
  then have "2 ^ n \<le> 8 * HASH_BLOOM_BYTELEN n" unfolding HASH_BLOOM_BYTELEN_def .
  with m have "m < HASH_BLOOM_BYTELEN n * 8" by simp
  then show ?thesis by (rule less_mult_imp_div_less)
qed

lemma bloom_index_bound:
  assumes "n < 64" shows "unat (bloom_index n hashv div 8) < HASH_BLOOM_BYTELEN n"
proof -
  have "unat (take_bit n hashv) < 2 ^ n" by (simp add: unsigned_take_bit_eq)
  from bytes_enough [OF this] show ?thesis by (simp add: bloom_index_mask [OF assms] unat_div)
qed

lemma HASH_BLOOM_BITTEST_bit:
  "HASH_BLOOM_BITTEST bv idx =
     (if unat (idx div 8) < length bv then Inr (bit (bv ! unat (idx div 8)) (unat (idx mod 8))) else Inl OutOfBounds)"
  unfolding HASH_BLOOM_BITTEST_def Let_def bit_iff_and_push_bit_not_eq_0 [symmetric] ..

lemma HASH_BLOOM_BITSET_ok:
  assumes "unat (idx div 8) < length bv"
  shows "\<exists>bv'. HASH_BLOOM_BITSET bv idx = Inr bv' \<and> length bv' = length bv \<and> HASH_BLOOM_BITTEST bv' idx = Inr True
     \<and> (\<forall>j. HASH_BLOOM_BITTEST bv j = Inr True \<longrightarrow> HASH_BLOOM_BITTEST bv' j = Inr True)"
proof -
  have "unat (idx mod 8) < 8" by (simp add: unat_mod)
  with assms show ?thesis
    by (auto simp: HASH_BLOOM_BITSET_def HASH_BLOOM_BITTEST_bit Let_def nth_list_update bit_or_iff bit_exp_iff split: if_splits)
qed

text \<open>The values of all elements that have been added.\<close>

primrec bloom_add_all :: "nat \<Rightarrow> u32 list \<Rightarrow> byte list \<Rightarrow> byte list res" where
  "bloom_add_all n [] bv = Inr bv"
| "bloom_add_all n (h # hs) bv = bind_res (HASH_BLOOM_ADD n bv h) (bloom_add_all n hs)"

lemma bloom_add_all_ok:
  assumes "n < 64" "length bv = HASH_BLOOM_BYTELEN n"
  shows "\<exists>bv'. bloom_add_all n hs bv = Inr bv' \<and> length bv' = length bv
     \<and> (\<forall>h. h \<in> set hs \<or> HASH_BLOOM_TEST n bv h = Inr True \<longrightarrow> HASH_BLOOM_TEST n bv' h = Inr True)"
  using assms(2)
proof (induction hs arbitrary: bv)
  case (Cons h hs)
  obtain bv1 where 1: "HASH_BLOOM_BITSET bv (bloom_index n h) = Inr bv1" "length bv1 = length bv"
    "HASH_BLOOM_BITTEST bv1 (bloom_index n h) = Inr True"
    "\<forall>j. HASH_BLOOM_BITTEST bv j = Inr True \<longrightarrow> HASH_BLOOM_BITTEST bv1 j = Inr True"
    using HASH_BLOOM_BITSET_ok bloom_index_bound [OF assms(1), of h] Cons.prems by metis
  from Cons.IH [of bv1] 1 Cons.prems show ?case by (auto simp: HASH_BLOOM_ADD_def HASH_BLOOM_TEST_def)
qed simp

section \<open>Properties\<close>

text \<open>The hash functions tell every byte. Two keys that differ in one byte, anywhere, have different values under
  \<open>HASH_BER\<close>, \<open>HASH_FNV\<close> and \<open>HASH_OAT\<close>, for keys of any length: each step of their loops can be undone. For \<open>HASH_SAX\<close> it is so
  for the last byte.\<close>

theorem hash_functions_tell_bytes:
  assumes "b \<noteq> c"
  shows "HASH_BER (xs @ b # ys) \<noteq> HASH_BER (xs @ c # ys) \<and> HASH_FNV (xs @ b # ys) \<noteq> HASH_FNV (xs @ c # ys)
     \<and> HASH_OAT (xs @ b # ys) \<noteq> HASH_OAT (xs @ c # ys) \<and> HASH_SAX (xs @ [b]) \<noteq> HASH_SAX (xs @ [c])"
  using assms by (intro conjI) (rule BER_tells FNV_tells OAT_tells SAX_tells, assumption)+

theorem hash_functions_tell_bytes_witness:
  "HASH_BER [1, 2, 3] \<noteq> HASH_BER [1, 7, 3] \<and> HASH_FNV [1, 2, 3] \<noteq> HASH_FNV [1, 7, 3]
     \<and> HASH_OAT [1, 2, 3] \<noteq> HASH_OAT [1, 7, 3] \<and> HASH_SAX [1, 2] \<noteq> HASH_SAX [1, 7]"
  using hash_functions_tell_bytes [of 2 7 "[1]" "[3]"] by simp

text \<open>C14: the Bloom filter changes no look-up. A filter of any size to which the values of all elements of the table have been added,
  and those of any others, in any order, is not written outside its bytes, and a look-up that asks it first returns what
  the look-up without it returns, for every key.\<close>

theorem bloom_filter_transparent:
  assumes "ut_rep k s head es" "distinct (map (key_of s) es)" "n < 64" "length key < 2 ^ 32"
    and "HASH_JEN ` key_of s ` set es \<subseteq> set hs"
  shows "\<exists>bv. bind_res (HASH_BLOOM_MAKE True n) (bloom_add_all n hs) = Inr bv
     \<and> HASH_FIND_bloom n bv s head key = HASH_FIND s head key"
proof -
  let ?bv = "replicate (HASH_BLOOM_BYTELEN n) (0 :: byte)"
  obtain bv where bv: "bloom_add_all n hs ?bv = Inr bv" "length bv = HASH_BLOOM_BYTELEN n"
    "\<forall>h \<in> set hs. HASH_BLOOM_TEST n bv h = Inr True"
    using bloom_add_all_ok [OF assms(3), of ?bv hs] by auto
  have "HASH_FIND_bloom n bv s head key = HASH_FIND s head key"
  proof (cases "key \<in> key_of s ` set es")
    case True
    then have "HASH_BLOOM_TEST n bv (HASH_JEN key) = Inr True" using bv(3) assms(5) by blast
    then show ?thesis by (simp add: HASH_FIND_bloom_def HASH_FIND_def)
  next
    case False
    from ut.find_absent [OF assms(1,4,2) this] have f: "HASH_FIND s head key = Some (Inr NULL)" .
    obtain test where "HASH_BLOOM_TEST n bv (HASH_JEN key) = Inr test"
      using bloom_index_bound [OF assms(3), of "HASH_JEN key"] bv(2) by (simp add: HASH_BLOOM_TEST_def HASH_BLOOM_BITTEST_def Let_def)
    with f show ?thesis by (simp add: HASH_FIND_bloom_def)
  qed
  with bv(1) show ?thesis by (simp add: HASH_BLOOM_MAKE_def)
qed

theorem bloom_filter_transparent_witness:
  "\<exists>s bv. bind_res (HASH_BLOOM_MAKE True 2) (bloom_add_all 2 [HASH_JEN [2, 0, 0, 0], 7, HASH_JEN [1, 0, 0, 0]]) = Inr bv
     \<and> HASH_FIND_bloom 2 bv s 10 [2, 0, 0, 0] = Some (Inr 11)"
proof -
  obtain k s where s: "ut_rep k s 10 [10, 11]" "key_of s 10 = [1, 0, 0, 0]" "key_of s 11 = [2, 0, 0, 0]"
    using two_items by blast
  then have d: "distinct (map (key_of s) [10, 11])" by simp
  have l: "length [2, 0, 0, 0 :: byte] < 2 ^ 32" by simp
  have f: "HASH_FIND s 10 [2, 0, 0, 0] = Some (Inr 11)" using HASH_FIND_ok [OF s(1) l d] s(2,3) by simp
  have h: "HASH_JEN ` key_of s ` set [10, 11] \<subseteq> set [HASH_JEN [2, 0, 0, 0], 7, HASH_JEN [1, 0, 0, 0]]" using s by simp
  from bloom_filter_transparent [OF s(1) d _ l h, of 2] f show ?thesis by auto
qed

end
