(* ===== verification/Client_Threads.thy ===== *)
theory Client_Threads
  imports Chat_Client "HOL-Library.Sublist"
begin

text \<open>
  The client as a process: \<open>main\<close> starts the receiving and the sending thread and joins them, and
  whichever thread leaves its loop cancels the other. A thread's step is one pass of its loop; a cancellation
  takes effect where POSIX lets it, at a call of \<open>recv\<close>, \<open>read\<close>, \<open>send\<close> or \<open>write\<close>, so a pass that is cut
  short may have printed or sent a part of what it had to.
\<close>

section \<open>One pass of each loop\<close>

definition receiver_turn :: "(nat \<Rightarrow> byte) \<Rightarrow> client_io \<Rightarrow> (bool \<times> client_io) run" where
  "receiver_turn junk io =
     bind_run (recv_header (io_in io)) (\<lambda>(mp, sc).
       case mp of None \<Rightarrow> Some (Inl NullDeref)
       | Some m \<Rightarrow>
           bind_run (if msg_kind m = MESG_DATA then recv_payload junk m sc else Some (Inr ((0, m), sc)))
             (\<lambda>((ret, m'), sc').
               if ret = -1 then
                 Some (Inr (False, io_print (bytes_of ''Error receiving message'' @ [newline]) (io\<lparr>io_in := sc'\<rparr>)))
               else
                 bind_run (Some (print_message m')) (\<lambda>out.
                   Some (Inr (\<not> (msg_kind m' = MESG_DCON \<and> msg_id m' = 0), io_print out (io\<lparr>io_in := sc'\<rparr>))))))"

definition sender_turn :: "int \<Rightarrow> byte list \<Rightarrow> client_io \<Rightarrow> (bool \<times> byte list \<times> client_io) res" where
  "sender_turn cid inp io =
     (case getline inp of
        None \<Rightarrow> Inr (False, inp, io)
      | Some (line, rest) \<Rightarrow>
          bind_res (client_line cid line io) (\<lambda>(r, io'). Inr (r = More, rest, io')))"

text \<open>The body of the receiver's loop, for anything in the place of the recursive call.\<close>

lemma receiver_body:
  "bind_run (recv_header (io_in io)) (\<lambda>(mp, sc).
       case mp of None \<Rightarrow> Some (Inl NullDeref)
       | Some m \<Rightarrow>
           bind_run (if msg_kind m = MESG_DATA then recv_payload junk m sc else Some (Inr ((0, m), sc)))
             (\<lambda>((ret, m'), sc').
               if ret = -1 then
                 Some (Inr (io_print (bytes_of ''Error receiving message'' @ [newline]) (io\<lparr>io_in := sc'\<rparr>)))
               else
                 bind_run (Some (print_message m')) (\<lambda>out.
                   if msg_kind m' = MESG_DCON \<and> msg_id m' = 0
                   then Some (Inr (io_print out (io\<lparr>io_in := sc'\<rparr>)))
                   else again junk (io_print out (io\<lparr>io_in := sc'\<rparr>))))) =
     bind_run (receiver_turn junk io) (\<lambda>(goon, io'). if goon then again junk io' else Some (Inr io'))"
  unfolding receiver_turn_def
  by (auto simp: bind_run_def split: option.split sum.split prod.split)

lemma client_receiver_turns:
  "client_receiver junk io =
     bind_run (receiver_turn junk io) (\<lambda>(goon, io'). if goon then client_receiver junk io' else Some (Inr io'))"
  by (subst client_receiver.simps) (rule receiver_body)

text \<open>Induction over the passes of a receiver that returns.\<close>

lemma client_receiver_induct [consumes 1, case_names final more]:
  assumes run: "client_receiver junk io = Some (Inr jo)"
    and final: "\<And>io jo. receiver_turn junk io = Some (Inr (False, jo)) \<Longrightarrow> P io jo"
    and more: "\<And>io io' jo. receiver_turn junk io = Some (Inr (True, io')) \<Longrightarrow> P io' jo \<Longrightarrow> P io jo"
  shows "P io jo"
proof -
  have "\<forall>jo. j = junk \<longrightarrow> r = Inr jo \<longrightarrow> P io jo" if "client_receiver j io = Some r" for j r
  proof (rule client_receiver.raw_induct [OF _ that], unfold receiver_body, intro allI impI)
    fix rec j' io' r' jo'
    assume ih: "\<And>j io r. rec j io = Some r \<Longrightarrow> \<forall>jo. j = junk \<longrightarrow> r = Inr jo \<longrightarrow> P io jo"
      and b: "bind_run (receiver_turn j' io') (\<lambda>(goon, io''). if goon then rec j' io'' else Some (Inr io'')) = Some r'"
      and j: "j' = junk" "r' = Inr jo'"
    from b j obtain goon io1 where t: "receiver_turn junk io' = Some (Inr (goon, io1))"
      "(if goon then rec junk io1 else Some (Inr io1)) = Some (Inr jo')"
      by (auto simp: bind_run_def split: option.split_asm sum.split_asm prod.split_asm)
    show "P io' jo'"
    proof (cases goon)
      case True
      with t ih [of junk io1 "Inr jo'"] have "P io1 jo'" by simp
      moreover have "receiver_turn junk io' = Some (Inr (True, io1))" using t(1) True by simp
      ultimately show ?thesis by (rule more [rotated])
    next
      case False
      with t show ?thesis by (auto intro: final)
    qed
  qed
  with run show ?thesis by blast
qed

lemma client_sender_turns:
  "client_sender cid inp io =
     bind_res (sender_turn cid inp io) (\<lambda>(again, rest, io'). if again then client_sender cid rest io' else Inr io')"
  by (subst client_sender.simps)
     (auto simp: sender_turn_def bind_res_def split: option.split sum.split prod.split)

section \<open>The process\<close>

datatype thread = NotCreated | Looping | LeftLoop | Ended

datatype main_pc = Starting | RecvStarted | JoiningRecv | JoiningSend | Finished

record process =
  pr_main :: main_pc
  pr_recv :: thread
  pr_send :: thread
  pr_recv_cancel :: bool
  pr_send_cancel :: bool
  pr_input :: "byte list"
  pr_io :: client_io

text \<open>
  \<open>pthread_cancel\<close> of a thread that has not been created (its variable still holds 0) or that has been joined is
  undefined; of any other thread it is a request.
\<close>

definition cancel_ok :: "thread \<Rightarrow> bool \<Rightarrow> unit res" where
  "cancel_ok th joined = (if th = NotCreated \<or> joined then Inl BadPointer else Inr ())"

definition recv_joined :: "process \<Rightarrow> bool" where
  "recv_joined t \<longleftrightarrow> pr_main t = JoiningSend \<or> pr_main t = Finished"

definition send_joined :: "process \<Rightarrow> bool" where
  "send_joined t \<longleftrightarrow> pr_main t = Finished"

inductive proc_step :: "(nat \<Rightarrow> byte) \<Rightarrow> int \<Rightarrow> process \<Rightarrow> process res \<Rightarrow> bool" for junk cid where
  create_recv: "pr_main t = Starting \<Longrightarrow>
     proc_step junk cid t (Inr (t\<lparr>pr_main := RecvStarted, pr_recv := Looping\<rparr>))"
| create_send: "pr_main t = RecvStarted \<Longrightarrow>
     proc_step junk cid t (Inr (t\<lparr>pr_main := JoiningRecv, pr_send := Looping\<rparr>))"
| join_recv: "pr_main t = JoiningRecv \<Longrightarrow> pr_recv t = Ended \<Longrightarrow>
     proc_step junk cid t (Inr (t\<lparr>pr_main := JoiningSend\<rparr>))"
| join_send: "pr_main t = JoiningSend \<Longrightarrow> pr_send t = Ended \<Longrightarrow>
     proc_step junk cid t (Inr (t\<lparr>pr_main := Finished\<rparr>))"
| recv_turn: "pr_recv t = Looping \<Longrightarrow> \<not> pr_recv_cancel t \<Longrightarrow>
     receiver_turn junk (pr_io t) = Some (Inr (again, io)) \<Longrightarrow>
     proc_step junk cid t (Inr (t\<lparr>pr_recv := (if again then Looping else LeftLoop), pr_io := io\<rparr>))"
| recv_fault: "pr_recv t = Looping \<Longrightarrow> \<not> pr_recv_cancel t \<Longrightarrow> receiver_turn junk (pr_io t) = Some (Inl e) \<Longrightarrow>
     proc_step junk cid t (Inl e)"
| recv_cancels: "pr_recv t = LeftLoop \<Longrightarrow> cancel_ok (pr_send t) (send_joined t) = Inr () \<Longrightarrow>
     proc_step junk cid t (Inr (t\<lparr>pr_recv := Ended, pr_send_cancel := True\<rparr>))"
| recv_cancels_bad: "pr_recv t = LeftLoop \<Longrightarrow> cancel_ok (pr_send t) (send_joined t) = Inl e \<Longrightarrow>
     proc_step junk cid t (Inl e)"
| recv_cancelled: "pr_recv t = Looping \<Longrightarrow> pr_recv_cancel t \<Longrightarrow>
     io = pr_io t \<or> (\<exists>again full. receiver_turn junk (pr_io t) = Some (Inr (again, full))
       \<and> io = (pr_io t)\<lparr>io_in := sc, io_printed := pd\<rparr> \<and> prefix (io_printed (pr_io t)) pd \<and> prefix pd (io_printed full)) \<Longrightarrow>
     proc_step junk cid t (Inr (t\<lparr>pr_recv := Ended, pr_io := io\<rparr>))"
| send_turn: "pr_send t = Looping \<Longrightarrow> \<not> pr_send_cancel t \<Longrightarrow>
     sender_turn cid (pr_input t) (pr_io t) = Inr (again, rest, io) \<Longrightarrow>
     proc_step junk cid t (Inr (t\<lparr>pr_send := (if again then Looping else LeftLoop), pr_input := rest, pr_io := io\<rparr>))"
| send_fault: "pr_send t = Looping \<Longrightarrow> \<not> pr_send_cancel t \<Longrightarrow> sender_turn cid (pr_input t) (pr_io t) = Inl e \<Longrightarrow>
     proc_step junk cid t (Inl e)"
| send_cancels: "pr_send t = LeftLoop \<Longrightarrow> cancel_ok (pr_recv t) (recv_joined t) = Inr () \<Longrightarrow>
     proc_step junk cid t (Inr (t\<lparr>pr_send := Ended, pr_recv_cancel := True\<rparr>))"
| send_cancels_bad: "pr_send t = LeftLoop \<Longrightarrow> cancel_ok (pr_recv t) (recv_joined t) = Inl e \<Longrightarrow>
     proc_step junk cid t (Inl e)"
| send_cancelled: "pr_send t = Looping \<Longrightarrow> pr_send_cancel t \<Longrightarrow>
     io = pr_io t \<or> (\<exists>again rest full. sender_turn cid (pr_input t) (pr_io t) = Inr (again, rest, full)
       \<and> io = (pr_io t)\<lparr>io_out := os, io_sent := sd\<rparr> \<and> prefix (io_sent (pr_io t)) sd \<and> prefix sd (io_sent full)) \<Longrightarrow>
     proc_step junk cid t (Inr (t\<lparr>pr_send := Ended, pr_io := io\<rparr>))"

inductive_cases proc_stepE: "proc_step junk cid t r"

definition start_process :: "byte list \<Rightarrow> client_io \<Rightarrow> process" where
  "start_process inp io = \<lparr>pr_main = Starting, pr_recv = NotCreated, pr_send = NotCreated,
     pr_recv_cancel = False, pr_send_cancel = False, pr_input = inp, pr_io = io\<rparr>"

definition proc_next :: "(nat \<Rightarrow> byte) \<Rightarrow> int \<Rightarrow> process \<Rightarrow> process \<Rightarrow> bool" where
  "proc_next junk cid t t' \<longleftrightarrow> proc_step junk cid t (Inr t')"

abbreviation proc_reach :: "(nat \<Rightarrow> byte) \<Rightarrow> int \<Rightarrow> process \<Rightarrow> process \<Rightarrow> bool" where
  "proc_reach junk cid \<equiv> (proc_next junk cid)\<^sup>*\<^sup>*"

section \<open>Who is where\<close>

text \<open>The control part of the invariant.\<close>

definition control_ok :: "process \<Rightarrow> bool" where
  "control_ok t \<longleftrightarrow>
     (pr_main t = Starting \<longrightarrow> pr_recv t = NotCreated) \<and>
     (pr_main t = Starting \<or> pr_main t = RecvStarted \<longleftrightarrow> pr_send t = NotCreated) \<and>
     (pr_main t \<noteq> Starting \<longrightarrow> pr_recv t \<noteq> NotCreated) \<and>
     (recv_joined t \<longrightarrow> pr_recv t = Ended) \<and> (send_joined t \<longrightarrow> pr_send t = Ended) \<and>
     (pr_recv t = Ended \<longrightarrow> pr_send_cancel t \<or> pr_send t = Ended) \<and>
     (pr_send t = Ended \<longrightarrow> pr_recv_cancel t \<or> pr_recv t = Ended) \<and>
     (pr_send_cancel t \<longrightarrow> pr_recv t = Ended \<and> pr_send t \<noteq> NotCreated) \<and> (pr_recv_cancel t \<longrightarrow> pr_send t = Ended) \<and>
     (pr_recv t = Ended \<or> pr_send t = Ended \<longrightarrow> pr_recv_cancel t \<or> pr_send_cancel t)"

lemma control_ok_start: "control_ok (start_process inp io)"
  by (simp add: control_ok_def start_process_def recv_joined_def send_joined_def)

lemma control_ok_step:
  assumes "proc_step junk cid t r" "control_ok t" "r = Inr t'"
  shows "control_ok t'"
  using assms(1)
proof cases
qed (insert assms(2,3), simp_all add: control_ok_def recv_joined_def send_joined_def cancel_ok_def split: if_split_asm, auto)

lemma control_ok_reach: "proc_reach junk cid t t' \<Longrightarrow> control_ok t \<Longrightarrow> control_ok t'"
  by (induction rule: rtranclp_induct) (auto simp: proc_next_def dest: control_ok_step)

section \<open>The threads do not disturb each other\<close>

text \<open>What a thread does to its side of the connection does not depend on the other side.\<close>

lemma io_send_other_side:
  "io_send m (io\<lparr>io_in := a, io_printed := b\<rparr>) =
     bind_res (io_send m io) (\<lambda>(r, io'). Inr (r, io'\<lparr>io_in := a, io_printed := b\<rparr>))"
  by (cases io) (simp add: io_send_def bind_res_assoc split_def)

lemma client_line_other_side:
  "client_line cid line (io\<lparr>io_in := a, io_printed := b\<rparr>) =
     bind_res (client_line cid line io) (\<lambda>(r, io'). Inr (r, io'\<lparr>io_in := a, io_printed := b\<rparr>))"
  by (simp add: client_line_def io_send_other_side bind_res_assoc split_def Let_def)

lemma sender_turn_other_side:
  "sender_turn cid inp (io\<lparr>io_in := a, io_printed := b\<rparr>) =
     bind_res (sender_turn cid inp io) (\<lambda>(again, rest, io'). Inr (again, rest, io'\<lparr>io_in := a, io_printed := b\<rparr>))"
  by (simp add: sender_turn_def client_line_other_side bind_res_assoc split_def split: option.split)

lemma receiver_turn_other_side:
  "receiver_turn junk (io\<lparr>io_out := a, io_sent := b\<rparr>) =
     bind_run (receiver_turn junk io) (\<lambda>(again, io'). Some (Inr (again, io'\<lparr>io_out := a, io_sent := b\<rparr>)))"
  by (auto simp: receiver_turn_def io_print_def bind_run_def split: option.split sum.split prod.split)

lemma io_send_keeps:
  assumes "io_send m io = Inr (r, io')"
  shows "\<exists>a b. io' = io\<lparr>io_out := a, io_sent := io_sent io @ b\<rparr>"
  using assms by (auto simp: io_send_def bind_res_eq_Inr)

lemma client_line_keeps:
  assumes "client_line cid line io = Inr (r, io')"
  shows "\<exists>a b. io' = io\<lparr>io_out := a, io_sent := io_sent io @ b\<rparr>"
  using assms by (auto simp: client_line_def Let_def bind_res_eq_Inr dest!: io_send_keeps split: if_split_asm)

lemma sender_turn_keeps:
  assumes "sender_turn cid inp io = Inr (again, rest, io')"
  shows "\<exists>a b. io' = io\<lparr>io_out := a, io_sent := io_sent io @ b\<rparr>"
proof (cases "getline inp")
  case None
  with assms show ?thesis by (intro exI [of _ "io_out io"] exI [of _ "[]"]) (simp add: sender_turn_def)
next
  case (Some lr)
  with assms show ?thesis
    by (auto simp: sender_turn_def bind_res_eq_Inr dest: client_line_keeps split: prod.split_asm)
qed

lemma receiver_turn_keeps:
  assumes "receiver_turn junk io = Some (Inr (again, io'))"
  shows "\<exists>a b. io' = io\<lparr>io_in := a, io_printed := io_printed io @ b\<rparr>"
  using assms
  by (auto simp: receiver_turn_def io_print_def bind_run_def split: option.split_asm sum.split_asm prod.split_asm if_split_asm)

section \<open>What has been sent and printed\<close>

text \<open>
  What each thread does in its first \<open>n\<close> passes when it runs alone: whether its loop goes on after them,
  and the state it leaves.
\<close>

fun sender_passes :: "int \<Rightarrow> nat \<Rightarrow> byte list \<Rightarrow> client_io \<Rightarrow> (bool \<times> byte list \<times> client_io) res" where
  "sender_passes cid 0 inp io = Inr (True, inp, io)"
| "sender_passes cid (Suc n) inp io =
     bind_res (sender_turn cid inp io) (\<lambda>(again, rest, io').
       if again then sender_passes cid n rest io' else Inr (False, rest, io'))"

fun receiver_passes :: "(nat \<Rightarrow> byte) \<Rightarrow> nat \<Rightarrow> client_io \<Rightarrow> (bool \<times> client_io) run" where
  "receiver_passes junk 0 io = Some (Inr (True, io))"
| "receiver_passes junk (Suc n) io =
     bind_run (receiver_turn junk io) (\<lambda>(again, io').
       if again then receiver_passes junk n io' else Some (Inr (False, io')))"

lemma sender_passes_more:
  "sender_passes cid n inp io = Inr (True, rest, jo) \<Longrightarrow> sender_turn cid rest jo = Inr (again, rest', ko) \<Longrightarrow>
     sender_passes cid (Suc n) inp io = Inr (again, rest', ko)"
proof (induction n arbitrary: inp io)
  case (Suc n)
  from Suc.prems(1) obtain rest1 io1 where t: "sender_turn cid inp io = Inr (True, rest1, io1)"
    "sender_passes cid n rest1 io1 = Inr (True, rest, jo)" by (auto simp: bind_res_eq_Inr split: if_split_asm)
  from Suc.IH [OF t(2) Suc.prems(2)] show ?case by (subst sender_passes.simps(2)) (simp add: t(1))
qed (cases again; simp)

lemma sender_passes_all:
  "sender_passes cid n inp io = Inr (False, rest, jo) \<Longrightarrow> client_sender cid inp io = Inr jo"
proof (induction n arbitrary: inp io)
  case (Suc n)
  then show ?case by (subst client_sender_turns) (auto simp: bind_res_eq_Inr split: if_split_asm)
qed simp

lemma receiver_passes_more:
  "receiver_passes junk n io = Some (Inr (True, jo)) \<Longrightarrow> receiver_turn junk jo = Some (Inr (again, ko)) \<Longrightarrow>
     receiver_passes junk (Suc n) io = Some (Inr (again, ko))"
proof (induction n arbitrary: io)
  case (Suc n)
  from Suc.prems(1) obtain io1 where t: "receiver_turn junk io = Some (Inr (True, io1))"
    "receiver_passes junk n io1 = Some (Inr (True, jo))" by (auto simp: bind_run_eq_Inr split: if_split_asm)
  from Suc.IH [OF t(2) Suc.prems(2)] show ?case by (subst receiver_passes.simps(2)) (simp add: t(1))
qed (cases again; simp)

lemma receiver_passes_all:
  "receiver_passes junk n io = Some (Inr (False, jo)) \<Longrightarrow> client_receiver junk io = Some (Inr jo)"
proof (induction n arbitrary: io)
  case (Suc n)
  then show ?case by (subst client_receiver_turns) (auto simp: bind_run_eq_Inr split: if_split_asm)
qed simp

text \<open>
  The invariant of each side, from the state \<open>io\<close> in which the process started: as long as the thread loops, its
  side is what some passes make of it; once it has left its loop by itself, what all of its passes
  make of it; and when it was cancelled, a part of a pass may have been done.
\<close>

definition sent_inv :: "int \<Rightarrow> byte list \<Rightarrow> client_io \<Rightarrow> process \<Rightarrow> bool" where
  "sent_inv cid inp io t \<longleftrightarrow>
     (pr_send t = NotCreated \<or> pr_send t = Looping \<longrightarrow>
       (\<exists>n jo a b. sender_passes cid n inp io = Inr (True, pr_input t, jo) \<and> pr_io t = jo\<lparr>io_in := a, io_printed := b\<rparr>))
     \<and> (pr_send t = LeftLoop \<or> pr_recv_cancel t \<longrightarrow>
       (\<exists>jo. client_sender cid inp io = Inr jo \<and> io_sent (pr_io t) = io_sent jo))
     \<and> (\<exists>n again rest jo. sender_passes cid n inp io = Inr (again, rest, jo) \<and> prefix (io_sent (pr_io t)) (io_sent jo))"

definition printed_inv :: "(nat \<Rightarrow> byte) \<Rightarrow> client_io \<Rightarrow> process \<Rightarrow> bool" where
  "printed_inv junk io t \<longleftrightarrow>
     (pr_recv t = NotCreated \<or> pr_recv t = Looping \<longrightarrow>
       (\<exists>n jo a b. receiver_passes junk n io = Some (Inr (True, jo)) \<and> pr_io t = jo\<lparr>io_out := a, io_sent := b\<rparr>))
     \<and> (pr_recv t = LeftLoop \<or> pr_send_cancel t \<longrightarrow>
       (\<exists>jo. client_receiver junk io = Some (Inr jo) \<and> io_printed (pr_io t) = io_printed jo))
     \<and> (\<exists>n again jo. receiver_passes junk n io = Some (Inr (again, jo)) \<and> prefix (io_printed (pr_io t)) (io_printed jo))"

lemma sent_inv_other_side:
  assumes "sent_inv cid inp io t" "pr_send t' = pr_send t" "pr_recv_cancel t' = pr_recv_cancel t"
    "pr_input t' = pr_input t" "pr_io t' = (pr_io t)\<lparr>io_in := a, io_printed := b\<rparr>"
  shows "sent_inv cid inp io t'"
proof -
  have "\<exists>a' b'. (jo\<lparr>io_in := a1, io_printed := b1\<rparr>)\<lparr>io_in := a, io_printed := b\<rparr> = jo\<lparr>io_in := a', io_printed := b'\<rparr>" for jo a1 b1
    by (intro exI [of _ a] exI [of _ b]) simp
  with assms(1) show ?thesis unfolding sent_inv_def assms(2-5) by (simp, metis)
qed

lemma printed_inv_other_side:
  assumes "printed_inv junk io t" "pr_recv t' = pr_recv t" "pr_send_cancel t' = pr_send_cancel t"
    "pr_io t' = (pr_io t)\<lparr>io_out := a, io_sent := b\<rparr>"
  shows "printed_inv junk io t'"
proof -
  have "\<exists>a' b'. (jo\<lparr>io_out := a1, io_sent := b1\<rparr>)\<lparr>io_out := a, io_sent := b\<rparr> = jo\<lparr>io_out := a', io_sent := b'\<rparr>" for jo a1 b1
    by (intro exI [of _ a] exI [of _ b]) simp
  with assms(1) show ?thesis unfolding printed_inv_def assms(2-4) by (simp, metis)
qed

text \<open>A pass of each thread is the next of its passes alone.\<close>

lemma sent_inv_turn:
  assumes "sent_inv cid inp io t" "pr_send t = Looping" "sender_turn cid (pr_input t) (pr_io t) = Inr (again, rest, io1)"
  shows "\<exists>n jo a b. sender_passes cid n inp io = Inr (again, rest, jo) \<and> io1 = jo\<lparr>io_in := a, io_printed := b\<rparr>"
proof -
  from assms(1,2) obtain n jo a b where k: "sender_passes cid n inp io = Inr (True, pr_input t, jo)"
    "pr_io t = jo\<lparr>io_in := a, io_printed := b\<rparr>" unfolding sent_inv_def by blast
  from assms(3) obtain ko where ko: "sender_turn cid (pr_input t) jo = Inr (again, rest, ko)"
    "io1 = ko\<lparr>io_in := a, io_printed := b\<rparr>" by (auto simp: k(2) sender_turn_other_side bind_res_eq_Inr)
  from sender_passes_more [OF k(1) ko(1)] ko(2) show ?thesis by blast
qed

lemma printed_inv_turn:
  assumes "printed_inv junk io t" "pr_recv t = Looping" "receiver_turn junk (pr_io t) = Some (Inr (again, io1))"
  shows "\<exists>n jo a b. receiver_passes junk n io = Some (Inr (again, jo)) \<and> io1 = jo\<lparr>io_out := a, io_sent := b\<rparr>"
proof -
  from assms(1,2) obtain n jo a b where k: "receiver_passes junk n io = Some (Inr (True, jo))"
    "pr_io t = jo\<lparr>io_out := a, io_sent := b\<rparr>" unfolding printed_inv_def by blast
  from assms(3) obtain ko where ko: "receiver_turn junk jo = Some (Inr (again, ko))"
    "io1 = ko\<lparr>io_out := a, io_sent := b\<rparr>" by (auto simp: k(2) receiver_turn_other_side bind_run_eq_Inr)
  from receiver_passes_more [OF k(1) ko(1)] ko(2) show ?thesis by blast
qed

lemma sent_inv_step:
  assumes "proc_step junk cid t r" "r = Inr t'" "control_ok t" "sent_inv cid inp io t"
  shows "sent_inv cid inp io t'"
  using assms(1)
proof cases
  case (recv_turn again io1)
  from receiver_turn_keeps [OF recv_turn(4)] obtain a b where "io1 = (pr_io t)\<lparr>io_in := a, io_printed := io_printed (pr_io t) @ b\<rparr>"
    by blast
  with recv_turn(1) assms(2) show ?thesis by (intro sent_inv_other_side [OF assms(4)]) auto
next
  case (recv_cancelled io1 pd sc)
  obtain a b where "io1 = (pr_io t)\<lparr>io_in := a, io_printed := b\<rparr>"
    using recv_cancelled(4) that [where a = "io_in (pr_io t)" and b = "io_printed (pr_io t)"] that [where a = sc and b = pd] by auto
  with recv_cancelled(1) assms(2) show ?thesis by (intro sent_inv_other_side [OF assms(4)]) auto
next
  case (send_turn again rest io1)
  obtain n jo a b where x: "sender_passes cid n inp io = Inr (again, rest, jo)" "io1 = jo\<lparr>io_in := a, io_printed := b\<rparr>"
    using sent_inv_turn [OF assms(4) send_turn(2,4)] by blast
  have t': "t' = t\<lparr>pr_send := (if again then Looping else LeftLoop), pr_input := rest, pr_io := io1\<rparr>"
    using send_turn(1) assms(2) by simp
  have nc: "\<not> pr_recv_cancel t" using send_turn(2) assms(3) by (auto simp: control_ok_def)
  have p: "prefix (io_sent (pr_io t')) (io_sent jo)" by (simp add: t' x(2))
  show ?thesis
  proof (cases again)
    case True
    have "sender_passes cid n inp io = Inr (True, pr_input t', jo)" "pr_io t' = jo\<lparr>io_in := a, io_printed := b\<rparr>"
      "pr_send t' = Looping" "\<not> pr_recv_cancel t'" using x True nc by (simp_all add: t')
    with p show ?thesis unfolding sent_inv_def by (metis thread.distinct(7))
  next
    case False
    then have "client_sender cid inp io = Inr jo" "io_sent (pr_io t') = io_sent jo" "pr_send t' = LeftLoop"
      using sender_passes_all [of cid n inp io rest jo] x by (simp_all add: t')
    with p x(1) show ?thesis unfolding sent_inv_def by (metis thread.distinct(3,7))
  qed
next
  case (send_cancelled io1 sd os)
  have nc: "\<not> pr_recv_cancel t" using send_cancelled(2) assms(3) by (auto simp: control_ok_def)
  have t': "t' = t\<lparr>pr_send := Ended, pr_io := io1\<rparr>" using send_cancelled(1) assms(2) by simp
  have "\<exists>n again rest jo. sender_passes cid n inp io = Inr (again, rest, jo) \<and> prefix (io_sent io1) (io_sent jo)"
    using send_cancelled(4)
  proof
    assume "io1 = pr_io t"
    then show ?thesis using assms(4) unfolding sent_inv_def by simp
  next
    assume "\<exists>again rest full. sender_turn cid (pr_input t) (pr_io t) = Inr (again, rest, full)
       \<and> io1 = (pr_io t)\<lparr>io_out := os, io_sent := sd\<rparr> \<and> prefix (io_sent (pr_io t)) sd \<and> prefix sd (io_sent full)"
    then obtain again rest full where f: "sender_turn cid (pr_input t) (pr_io t) = Inr (again, rest, full)"
      "io_sent io1 = sd" "prefix sd (io_sent full)" by auto
    from sent_inv_turn [OF assms(4) send_cancelled(2) f(1)] f show ?thesis by fastforce
  qed
  then show ?thesis using nc by (simp add: t' sent_inv_def)
qed (insert assms(2,3,4), auto simp: sent_inv_def control_ok_def)

lemma printed_inv_step:
  assumes "proc_step junk cid t r" "r = Inr t'" "control_ok t" "printed_inv junk io t"
  shows "printed_inv junk io t'"
  using assms(1)
proof cases
  case (send_turn again rest io1)
  from sender_turn_keeps [OF send_turn(4)] obtain a b where "io1 = (pr_io t)\<lparr>io_out := a, io_sent := io_sent (pr_io t) @ b\<rparr>"
    by blast
  with send_turn(1) assms(2) show ?thesis by (intro printed_inv_other_side [OF assms(4)]) auto
next
  case (send_cancelled io1 sd os)
  obtain a b where "io1 = (pr_io t)\<lparr>io_out := a, io_sent := b\<rparr>"
    using send_cancelled(4) that [where a = "io_out (pr_io t)" and b = "io_sent (pr_io t)"] that [where a = os and b = sd] by auto
  with send_cancelled(1) assms(2) show ?thesis by (intro printed_inv_other_side [OF assms(4)]) auto
next
  case (recv_turn again io1)
  obtain n jo a b where x: "receiver_passes junk n io = Some (Inr (again, jo))" "io1 = jo\<lparr>io_out := a, io_sent := b\<rparr>"
    using printed_inv_turn [OF assms(4) recv_turn(2,4)] by blast
  have t': "t' = t\<lparr>pr_recv := (if again then Looping else LeftLoop), pr_io := io1\<rparr>"
    using recv_turn(1) assms(2) by simp
  have nc: "\<not> pr_send_cancel t" using recv_turn(2) assms(3) by (auto simp: control_ok_def)
  have p: "prefix (io_printed (pr_io t')) (io_printed jo)" by (simp add: t' x(2))
  show ?thesis
  proof (cases again)
    case True
    have "receiver_passes junk n io = Some (Inr (True, jo))" "pr_io t' = jo\<lparr>io_out := a, io_sent := b\<rparr>"
      "pr_recv t' = Looping" "\<not> pr_send_cancel t'" using x True nc by (simp_all add: t')
    with p show ?thesis unfolding printed_inv_def by (metis thread.distinct(7))
  next
    case False
    then have "client_receiver junk io = Some (Inr jo)" "io_printed (pr_io t') = io_printed jo" "pr_recv t' = LeftLoop"
      using receiver_passes_all [of junk n io jo] x by (simp_all add: t')
    with p x(1) show ?thesis unfolding printed_inv_def by (metis thread.distinct(3,7))
  qed
next
  case (recv_cancelled io1 pd sc)
  have nc: "\<not> pr_send_cancel t" using recv_cancelled(2) assms(3) by (auto simp: control_ok_def)
  have t': "t' = t\<lparr>pr_recv := Ended, pr_io := io1\<rparr>" using recv_cancelled(1) assms(2) by simp
  have "\<exists>n again jo. receiver_passes junk n io = Some (Inr (again, jo)) \<and> prefix (io_printed io1) (io_printed jo)"
    using recv_cancelled(4)
  proof
    assume "io1 = pr_io t"
    then show ?thesis using assms(4) unfolding printed_inv_def by simp
  next
    assume "\<exists>again full. receiver_turn junk (pr_io t) = Some (Inr (again, full))
       \<and> io1 = (pr_io t)\<lparr>io_in := sc, io_printed := pd\<rparr> \<and> prefix (io_printed (pr_io t)) pd \<and> prefix pd (io_printed full)"
    then obtain again full where f: "receiver_turn junk (pr_io t) = Some (Inr (again, full))"
      "io_printed io1 = pd" "prefix pd (io_printed full)" by auto
    from printed_inv_turn [OF assms(4) recv_cancelled(2) f(1)] f show ?thesis by fastforce
  qed
  then show ?thesis using nc by (simp add: t' printed_inv_def)
qed (insert assms(2,3,4), auto simp: printed_inv_def control_ok_def)

lemma start_inv: "sent_inv cid inp io (start_process inp io)" "printed_inv junk io (start_process inp io)"
proof -
  have "sender_passes cid 0 inp io = Inr (True, inp, io)" "receiver_passes junk 0 io = Some (Inr (True, io))"
    by simp_all
  moreover have "\<exists>a b. io = io\<lparr>io_in := a, io_printed := b\<rparr>" "\<exists>a b. io = io\<lparr>io_out := a, io_sent := b\<rparr>"
    by (rule exI [of _ "io_in io"], rule exI [of _ "io_printed io"], simp)
       (rule exI [of _ "io_out io"], rule exI [of _ "io_sent io"], simp)
  ultimately show "sent_inv cid inp io (start_process inp io)" "printed_inv junk io (start_process inp io)"
    unfolding sent_inv_def printed_inv_def start_process_def by (simp, blast)+
qed

lemma proc_reach_inv:
  assumes "proc_reach junk cid (start_process inp io) t"
  shows "sent_inv cid inp io t" and "printed_inv junk io t" and "control_ok t"
proof -
  have "control_ok t \<and> sent_inv cid inp io t \<and> printed_inv junk io t"
    using assms
  proof (induction rule: rtranclp_induct)
    case base
    show ?case by (simp add: control_ok_start start_inv)
  next
    case (step t t')
    then have "proc_step junk cid t (Inr t')" by (simp add: proc_next_def)
    with step.IH control_ok_step [OF this _ refl] sent_inv_step [OF this refl] printed_inv_step [OF this refl]
    show ?case by blast
  qed
  then show "sent_inv cid inp io t" "printed_inv junk io t" "control_ok t" by blast+
qed

section \<open>Shutting down\<close>

text \<open>How many steps a process can still take once a thread has ended.\<close>

fun thread_weight :: "thread \<Rightarrow> nat" where
  "thread_weight NotCreated = 3"
| "thread_weight Looping = 2"
| "thread_weight LeftLoop = 1"
| "thread_weight Ended = 0"

fun main_weight :: "main_pc \<Rightarrow> nat" where
  "main_weight Starting = 4"
| "main_weight RecvStarted = 3"
| "main_weight JoiningRecv = 2"
| "main_weight JoiningSend = 1"
| "main_weight Finished = 0"

definition weight :: "process \<Rightarrow> nat" where
  "weight t = main_weight (pr_main t) + thread_weight (pr_recv t) + thread_weight (pr_send t)"

definition one_ended :: "process \<Rightarrow> bool" where
  "one_ended t \<longleftrightarrow> pr_recv t = Ended \<or> pr_send t = Ended"

lemma one_ended_step:
  assumes "proc_step junk cid t r" "r = Inr t'" "control_ok t" "one_ended t"
  shows "one_ended t' \<and> weight t' < weight t"
  using assms(1)
proof cases
qed (insert assms(2,3,4), auto simp: control_ok_def one_ended_def weight_def)

lemma one_ended_weight: "control_ok t \<Longrightarrow> one_ended t \<Longrightarrow> weight t \<le> 4"
  by (cases "pr_main t"; cases "pr_recv t"; cases "pr_send t")
     (auto simp: control_ok_def one_ended_def weight_def recv_joined_def send_joined_def)

lemma one_ended_progress:
  assumes "control_ok t" "one_ended t" "pr_main t \<noteq> Finished"
  shows "\<exists>r. proc_step junk cid t r"
proof (cases "pr_recv t = LeftLoop \<or> pr_send t = LeftLoop")
  case True
  then show ?thesis
    by (cases "cancel_ok (pr_send t) (send_joined t)"; cases "cancel_ok (pr_recv t) (recv_joined t)")
       (auto intro: proc_step.intros)
next
  case False
  then consider "pr_recv t = Looping" | "pr_send t = Looping" | "pr_recv t = Ended" "pr_send t = Ended" | "pr_send t = NotCreated"
    using assms(1,2) by (cases "pr_recv t"; cases "pr_send t") (auto simp: control_ok_def one_ended_def)
  then show ?thesis
  proof cases
    case 1
    then have "pr_recv_cancel t" using assms(1,2) by (auto simp: control_ok_def one_ended_def)
    with 1 show ?thesis by (blast intro: proc_step.recv_cancelled)
  next
    case 2
    then have "pr_send_cancel t" using assms(1,2) by (auto simp: control_ok_def one_ended_def)
    with 2 show ?thesis by (blast intro: proc_step.send_cancelled)
  next
    case 3
    with assms(1,3) have "pr_main t = JoiningRecv \<or> pr_main t = JoiningSend"
      by (cases "pr_main t") (auto simp: control_ok_def)
    with 3 show ?thesis by (auto intro: proc_step.join_recv proc_step.join_send)
  next
    case 4
    with assms(1) have "pr_main t = Starting \<or> pr_main t = RecvStarted" by (auto simp: control_ok_def)
    then show ?thesis by (auto intro: proc_step.create_recv proc_step.create_send)
  qed
qed

lemma one_ended_run:
  assumes "(proc_next junk cid ^^ n) t t'" "control_ok t" "one_ended t"
  shows "control_ok t' \<and> one_ended t' \<and> n + weight t' \<le> weight t"
  using assms(1)
proof (induction n arbitrary: t')
  case 0
  with assms(2,3) show ?case by simp
next
  case (Suc n)
  then obtain u where u1: "(proc_next junk cid ^^ n) t u" "proc_next junk cid u t'" by auto
  then have u: "(proc_next junk cid ^^ n) t u" "proc_step junk cid u (Inr t')" by (simp_all add: proc_next_def)
  from one_ended_step [OF u(2) refl] control_ok_step [OF u(2) _ refl] Suc.IH [OF u(1)] show ?case by auto
qed

section \<open>Faults\<close>

text \<open>Besides the faults of the loops themselves there are the two cancellations that come at the wrong time.\<close>

lemma proc_fault:
  assumes "proc_step junk cid t r" "r = Inl e" "control_ok t"
  shows "receiver_turn junk (pr_io t) = Some (Inl e) \<or> sender_turn cid (pr_input t) (pr_io t) = Inl e
     \<or> e = BadPointer \<and> (pr_recv t = LeftLoop \<and> pr_main t = RecvStarted \<or> pr_send t = LeftLoop \<and> pr_main t = JoiningSend)"
  using assms(1)
proof cases
qed (insert assms(2,3), auto simp: control_ok_def cancel_ok_def recv_joined_def send_joined_def split: if_split_asm)

text \<open>Steps as rewriting of one state.\<close>

lemma next_create_recv: "pr_main t = Starting \<Longrightarrow> proc_next junk cid t (t\<lparr>pr_main := RecvStarted, pr_recv := Looping\<rparr>)"
  and next_create_send: "pr_main t = RecvStarted \<Longrightarrow> proc_next junk cid t (t\<lparr>pr_main := JoiningRecv, pr_send := Looping\<rparr>)"
  and next_join_recv: "pr_main t = JoiningRecv \<Longrightarrow> pr_recv t = Ended \<Longrightarrow> proc_next junk cid t (t\<lparr>pr_main := JoiningSend\<rparr>)"
  and next_join_send: "pr_main t = JoiningSend \<Longrightarrow> pr_send t = Ended \<Longrightarrow> proc_next junk cid t (t\<lparr>pr_main := Finished\<rparr>)"
  and next_recv_last: "pr_recv t = Looping \<Longrightarrow> \<not> pr_recv_cancel t \<Longrightarrow> receiver_turn junk (pr_io t) = Some (Inr (False, io)) \<Longrightarrow>
     proc_next junk cid t (t\<lparr>pr_recv := LeftLoop, pr_io := io\<rparr>)"
  and next_send_last: "pr_send t = Looping \<Longrightarrow> \<not> pr_send_cancel t \<Longrightarrow> sender_turn cid (pr_input t) (pr_io t) = Inr (False, rest, io) \<Longrightarrow>
     proc_next junk cid t (t\<lparr>pr_send := LeftLoop, pr_input := rest, pr_io := io\<rparr>)"
  and next_recv_cancels: "pr_recv t = LeftLoop \<Longrightarrow> pr_send t \<noteq> NotCreated \<Longrightarrow> pr_main t \<noteq> Finished \<Longrightarrow>
     proc_next junk cid t (t\<lparr>pr_recv := Ended, pr_send_cancel := True\<rparr>)"
  and next_send_cancels: "pr_send t = LeftLoop \<Longrightarrow> pr_recv t \<noteq> NotCreated \<Longrightarrow> pr_main t = JoiningRecv \<Longrightarrow>
     proc_next junk cid t (t\<lparr>pr_send := Ended, pr_recv_cancel := True\<rparr>)"
  unfolding proc_next_def
  by (simp_all add: proc_step.create_recv proc_step.create_send proc_step.join_recv proc_step.join_send
      proc_step.recv_cancels proc_step.send_cancels cancel_ok_def recv_joined_def send_joined_def
      proc_step.recv_turn [where again = False, simplified] proc_step.send_turn [where again = False, simplified])

lemma next_recv_cancelled: "pr_recv t = Looping \<Longrightarrow> pr_recv_cancel t \<Longrightarrow> proc_next junk cid t (t\<lparr>pr_recv := Ended, pr_io := pr_io t\<rparr>)"
  unfolding proc_next_def by (rule proc_step.recv_cancelled) simp_all

lemma next_send_cancelled: "pr_send t = Looping \<Longrightarrow> pr_send_cancel t \<Longrightarrow> proc_next junk cid t (t\<lparr>pr_send := Ended, pr_io := pr_io t\<rparr>)"
  unfolding proc_next_def by (rule proc_step.send_cancelled) simp_all

lemma next_reach: "proc_reach junk cid t u \<Longrightarrow> proc_next junk cid u v \<Longrightarrow> proc_reach junk cid t v"
  by (rule rtranclp.rtrancl_into_rtrancl)

lemma steps4: "proc_next junk cid t a \<Longrightarrow> proc_next junk cid a b \<Longrightarrow> proc_next junk cid b c \<Longrightarrow>
    proc_next junk cid c d \<Longrightarrow> proc_reach junk cid t d"
  by (rule next_reach [OF next_reach [OF next_reach [OF r_into_rtranclp]]])

lemma steps2: "proc_next junk cid t a \<Longrightarrow> proc_next junk cid a b \<Longrightarrow> proc_reach junk cid t b"
  by (rule next_reach [OF r_into_rtranclp])

text \<open>The last pass of each thread when the user quits and the server takes its leave.\<close>

lemma receiver_turn_bye:
  assumes "pending (io_in io) = header_bytes (create_message_header 0 0 MESG_DCON) @ rest"
  shows "\<exists>sc. receiver_turn junk io = Some (Inr (False, io\<lparr>io_in := sc, io_printed := io_printed io @ bye\<rparr>))"
proof -
  let ?d = "create_message_header 0 0 MESG_DCON"
  obtain sc where h: "recv_header (io_in io) = Some (Inr (Some (?d\<lparr>msg_payload := None\<rparr>), sc))"
    using recv_header_wire [of "io_in io" ?d rest] assms by auto
  have d: "?d\<lparr>msg_payload := None\<rparr> = ?d" by (simp add: create_message_header_def)
  have "print_message ?d = Inr bye" by (simp add: print_message_def bye_def)
  then show ?thesis using h unfolding d by (intro exI [of _ sc]) (simp add: receiver_turn_def io_print_def)
qed

lemma sender_turn_quit:
  assumes "SendErr \<notin> set (io_out io)"
  shows "\<exists>out'. sender_turn cid (bytes_of ''<<quit>>'' @ newline # inp) io = Inr (False, inp, io\<lparr>io_out := out',
       io_sent := io_sent io @ header_bytes (create_message_header 0 (word_of_int cid) MESG_DCON)\<rparr>)"
proof -
  obtain out' where "client_line cid (bytes_of ''<<quit>>'' @ [newline]) io = Inr (Quit, io\<lparr>io_out := out',
       io_sent := io_sent io @ header_bytes (create_message_header 0 (word_of_int cid) MESG_DCON)\<rparr>)"
    using client_line_quit [OF assms] by blast
  then show ?thesis
    by (intro exI [of _ out']) (simp add: sender_turn_def getline_line [OF quit_bytes(1)])
qed

definition both_running :: "process \<Rightarrow> bool" where
  "both_running t \<longleftrightarrow> pr_main t = JoiningRecv \<and> pr_recv t = Looping \<and> pr_send t = Looping
     \<and> \<not> pr_recv_cancel t \<and> \<not> pr_send_cancel t"

lemma reach_running:
  "\<exists>t. proc_reach junk cid (start_process inp io) t \<and> both_running t \<and> pr_input t = inp \<and> pr_io t = io"
proof -
  let ?t0 = "start_process inp io"
  have "proc_next junk cid ?t0 (?t0\<lparr>pr_main := RecvStarted, pr_recv := Looping\<rparr>)"
    by (rule next_create_recv) (simp add: start_process_def)
  moreover have "proc_next junk cid (?t0\<lparr>pr_main := RecvStarted, pr_recv := Looping\<rparr>)
      (?t0\<lparr>pr_main := RecvStarted, pr_recv := Looping, pr_main := JoiningRecv, pr_send := Looping\<rparr>)"
    by (rule next_create_send) simp
  ultimately have "proc_reach junk cid ?t0
      (?t0\<lparr>pr_main := RecvStarted, pr_recv := Looping, pr_main := JoiningRecv, pr_send := Looping\<rparr>)"
    by (rule steps2)
  then show ?thesis
    by (intro exI conjI) (assumption, simp_all add: both_running_def start_process_def)
qed

lemma running_receiver_first:
  assumes "both_running t" "receiver_turn junk (pr_io t) = Some (Inr (False, io))"
  shows "\<exists>u. proc_reach junk cid t u \<and> pr_main u = Finished \<and> pr_io u = io"
proof -
  let ?a = "t\<lparr>pr_recv := LeftLoop, pr_io := io\<rparr>"
  let ?b = "?a\<lparr>pr_recv := Ended, pr_send_cancel := True\<rparr>"
  let ?c = "?b\<lparr>pr_send := Ended, pr_io := pr_io ?b\<rparr>"
  let ?d = "?c\<lparr>pr_main := JoiningSend\<rparr>"
  note r = assms(1) [unfolded both_running_def]
  have "proc_next junk cid t ?a" using r assms(2) by (intro next_recv_last) simp_all
  moreover have "proc_next junk cid ?a ?b" using r by (intro next_recv_cancels) simp_all
  moreover have "proc_next junk cid ?b ?c" using r by (intro next_send_cancelled) simp_all
  moreover have "proc_next junk cid ?c ?d" using r by (intro next_join_recv) simp_all
  ultimately have "proc_reach junk cid t ?d" by (rule steps4)
  moreover have "proc_next junk cid ?d (?d\<lparr>pr_main := Finished\<rparr>)" using r by (intro next_join_send) simp_all
  ultimately have "proc_reach junk cid t (?d\<lparr>pr_main := Finished\<rparr>)" by (rule next_reach)
  then show ?thesis by (intro exI [of _ "?d\<lparr>pr_main := Finished\<rparr>"]) simp
qed

lemma running_sender_first:
  assumes "both_running t" "sender_turn cid (pr_input t) (pr_io t) = Inr (False, rest, io)"
  shows "\<exists>u. proc_reach junk cid t u \<and> pr_main u = Finished \<and> pr_io u = io"
proof -
  let ?a = "t\<lparr>pr_send := LeftLoop, pr_input := rest, pr_io := io\<rparr>"
  let ?b = "?a\<lparr>pr_send := Ended, pr_recv_cancel := True\<rparr>"
  let ?c = "?b\<lparr>pr_recv := Ended, pr_io := pr_io ?b\<rparr>"
  let ?d = "?c\<lparr>pr_main := JoiningSend\<rparr>"
  note r = assms(1) [unfolded both_running_def]
  have "proc_next junk cid t ?a" using r assms(2) by (intro next_send_last) simp_all
  moreover have "proc_next junk cid ?a ?b" using r by (intro next_send_cancels) simp_all
  moreover have "proc_next junk cid ?b ?c" using r by (intro next_recv_cancelled) simp_all
  moreover have "proc_next junk cid ?c ?d" using r by (intro next_join_recv) simp_all
  ultimately have "proc_reach junk cid t ?d" by (rule steps4)
  moreover have "proc_next junk cid ?d (?d\<lparr>pr_main := Finished\<rparr>)" using r by (intro next_join_send) simp_all
  ultimately have "proc_reach junk cid t (?d\<lparr>pr_main := Finished\<rparr>)" by (rule next_reach)
  then show ?thesis by (intro exI [of _ "?d\<lparr>pr_main := Finished\<rparr>"]) simp
qed

lemma running_both_leave:
  assumes "both_running t" "sender_turn cid (pr_input t) (pr_io t) = Inr (False, rest, io)"
    and "receiver_turn junk io = Some (Inr (False, io'))"
  shows "\<exists>u. proc_reach junk cid t u \<and> pr_main u = JoiningSend \<and> pr_io u = io' \<and> proc_step junk cid u (Inl BadPointer)"
proof -
  let ?a = "t\<lparr>pr_send := LeftLoop, pr_input := rest, pr_io := io\<rparr>"
  let ?b = "?a\<lparr>pr_recv := LeftLoop, pr_io := io'\<rparr>"
  let ?c = "?b\<lparr>pr_recv := Ended, pr_send_cancel := True\<rparr>"
  let ?d = "?c\<lparr>pr_main := JoiningSend\<rparr>"
  note r = assms(1) [unfolded both_running_def]
  have "proc_next junk cid t ?a" using r assms(2) by (intro next_send_last) simp_all
  moreover have "proc_next junk cid ?a ?b" using r assms(3) by (intro next_recv_last) simp_all
  moreover have "proc_next junk cid ?b ?c" using r by (intro next_recv_cancels) simp_all
  moreover have "proc_next junk cid ?c ?d" using r by (intro next_join_recv) simp_all
  ultimately have "proc_reach junk cid t ?d" by (rule steps4)
  moreover have "proc_step junk cid ?d (Inl BadPointer)"
    by (rule proc_step.send_cancels_bad) (simp_all add: cancel_ok_def recv_joined_def)
  ultimately show ?thesis by (intro exI [of _ ?d]) simp
qed

lemma early_leave:
  assumes "receiver_turn junk io = Some (Inr (False, io'))"
  shows "\<exists>u. proc_reach junk cid (start_process inp io) u \<and> pr_main u = RecvStarted \<and> proc_step junk cid u (Inl BadPointer)"
proof -
  let ?t = "start_process inp io"
  let ?a = "?t\<lparr>pr_main := RecvStarted, pr_recv := Looping\<rparr>"
  let ?b = "?a\<lparr>pr_recv := LeftLoop, pr_io := io'\<rparr>"
  have "proc_next junk cid ?t ?a" by (rule next_create_recv) (simp add: start_process_def)
  moreover have "proc_next junk cid ?a ?b" using assms by (intro next_recv_last) (simp_all add: start_process_def)
  ultimately have "proc_reach junk cid ?t ?b" by (rule steps2)
  moreover have "proc_step junk cid ?b (Inl BadPointer)"
    by (rule proc_step.recv_cancels_bad) (simp_all add: cancel_ok_def start_process_def)
  ultimately show ?thesis by (intro exI [of _ ?b]) simp
qed

text \<open>A concrete client: the user quits at once, and the server's farewell is at the socket.\<close>

definition farewell_io :: client_io where
  "farewell_io = fresh_io [Chunk (header_bytes (create_message_header 0 0 MESG_DCON))]"

definition quit_input :: "byte list" where
  "quit_input = bytes_of ''<<quit>>'' @ [newline]"

lemma farewell_io_simps [simp]:
  "pending (io_in farewell_io) = header_bytes (create_message_header 0 0 MESG_DCON)"
  "SendErr \<notin> set (io_out farewell_io)" "io_printed farewell_io = []" "io_sent farewell_io = []"
  by (simp_all add: farewell_io_def fresh_io_def)

lemma quit_finishes:
  "\<exists>t. proc_reach junk cid (start_process quit_input farewell_io) t \<and> pr_main t = Finished"
proof -
  obtain t where t: "proc_reach junk cid (start_process quit_input farewell_io) t" "both_running t"
    "pr_input t = quit_input" "pr_io t = farewell_io" using reach_running by blast
  obtain io2 where s: "sender_turn cid quit_input farewell_io = Inr (False, [], io2)"
    using sender_turn_quit [of farewell_io cid "[]"] by (auto simp: quit_input_def)
  obtain u where "proc_reach junk cid t u" "pr_main u = Finished"
    using running_sender_first [OF t(2), of cid "[]" io2 junk] s unfolding t(3,4) by blast
  with t(1) show ?thesis by (blast intro: rtranclp_trans)
qed

section \<open>Properties\<close>

text \<open>C9: the client as a process, in every interleaving of \<open>main\<close> and the two threads. While the sending thread
  loops, the input that is left and what has been sent are those after some number of its passes alone (a pass
  is a line); after a cancellation, what has been sent is still a prefix of what some number of its passes send.
  The same holds of the receiving thread and what has been printed (a pass is a message). A thread that
  has cancelled the other has run its loop to its end as it would have done alone: the sending thread up to the
  end of input, the quit command or a failed send, the receiving thread up to the server's farewell or a receive error. A
  process that has finished has such a thread.\<close>

theorem client_process:
  assumes "proc_reach junk cid (start_process inp io) t"
  shows "(\<exists>n again rest jo. sender_passes cid n inp io = Inr (again, rest, jo) \<and> prefix (io_sent (pr_io t)) (io_sent jo)
       \<and> (pr_send t = Looping \<longrightarrow> pr_input t = rest \<and> io_sent (pr_io t) = io_sent jo))
     \<and> (\<exists>n again jo. receiver_passes junk n io = Some (Inr (again, jo)) \<and> prefix (io_printed (pr_io t)) (io_printed jo)
       \<and> (pr_recv t = Looping \<longrightarrow> io_printed (pr_io t) = io_printed jo))
     \<and> (pr_recv_cancel t \<longrightarrow> (\<exists>jo. client_sender cid inp io = Inr jo \<and> io_sent (pr_io t) = io_sent jo))
     \<and> (pr_send_cancel t \<longrightarrow> (\<exists>jo. client_receiver junk io = Some (Inr jo) \<and> io_printed (pr_io t) = io_printed jo))
     \<and> (pr_main t = Finished \<longrightarrow> pr_recv_cancel t \<or> pr_send_cancel t)"
proof (intro conjI)
  note inv = proc_reach_inv [OF assms]
  show "\<exists>n again rest jo. sender_passes cid n inp io = Inr (again, rest, jo) \<and> prefix (io_sent (pr_io t)) (io_sent jo)
       \<and> (pr_send t = Looping \<longrightarrow> pr_input t = rest \<and> io_sent (pr_io t) = io_sent jo)"
    using inv(1) unfolding sent_inv_def by (cases "pr_send t = Looping") fastforce+
  show "\<exists>n again jo. receiver_passes junk n io = Some (Inr (again, jo)) \<and> prefix (io_printed (pr_io t)) (io_printed jo)
       \<and> (pr_recv t = Looping \<longrightarrow> io_printed (pr_io t) = io_printed jo)"
    using inv(2) unfolding printed_inv_def by (cases "pr_recv t = Looping") fastforce+
  show "pr_recv_cancel t \<longrightarrow> (\<exists>jo. client_sender cid inp io = Inr jo \<and> io_sent (pr_io t) = io_sent jo)"
    using inv(1) unfolding sent_inv_def by blast
  show "pr_send_cancel t \<longrightarrow> (\<exists>jo. client_receiver junk io = Some (Inr jo) \<and> io_printed (pr_io t) = io_printed jo)"
    using inv(2) unfolding printed_inv_def by blast
  show "pr_main t = Finished \<longrightarrow> pr_recv_cancel t \<or> pr_send_cancel t"
    using inv(3) by (auto simp: control_ok_def recv_joined_def)
qed

theorem client_process_witness:
  "\<exists>t. proc_reach (\<lambda>_. 0) 1 (start_process quit_input farewell_io) t \<and> pr_main t = Finished
     \<and> (io_sent (pr_io t) = header_bytes (create_message_header 0 1 MESG_DCON) \<or> io_printed (pr_io t) = bye)"
proof -
  obtain t where t: "proc_reach (\<lambda>_. 0) 1 (start_process quit_input farewell_io) t" "pr_main t = Finished"
    using quit_finishes by blast
  obtain jo where s: "client_sender 1 quit_input farewell_io = Inr jo"
    "io_sent jo = header_bytes (create_message_header 0 1 MESG_DCON)"
    using client_sender_ok [of "[]" farewell_io 1 "[]"] by (auto simp: quit_input_def all_bytes_def)
  obtain ko where r: "client_receiver (\<lambda>_. 0) farewell_io = Some (Inr ko)" "io_printed ko = bye"
    using client_receiver_ok [of "[]" farewell_io "[]" "\<lambda>_. 0"] by auto
  from client_process [OF t(1)] s r t show ?thesis by (intro exI [of _ t]) auto
qed

text \<open>C28: shutting down ends. Once one of the threads has ended, the process takes at most four more
  steps, and it can always take one until \<open>main\<close> has joined both threads and returned (a step may be the
  fault of the property that follows): the other thread is cancelled at its next call, however much input or how many messages it still has.\<close>

theorem client_shutdown:
  assumes "proc_reach junk cid (start_process inp io) t" "pr_recv t = Ended \<or> pr_send t = Ended"
    and "(proc_next junk cid ^^ n) t t'"
  shows "n \<le> 4 \<and> (pr_main t' = Finished \<or> (\<exists>r. proc_step junk cid t' r))"
proof -
  have t: "control_ok t" "one_ended t" using proc_reach_inv(3) [OF assms(1)] assms(2) by (simp_all add: one_ended_def)
  from one_ended_run [OF assms(3) t] one_ended_weight [OF t] one_ended_progress show ?thesis by fastforce
qed

theorem client_shutdown_witness:
  "\<exists>t t'. proc_reach (\<lambda>_. 0) 1 (start_process quit_input farewell_io) t \<and> pr_send t = Ended
     \<and> (proc_next (\<lambda>_. 0) 1 ^^ 1) t t' \<and> (pr_main t' = Finished \<or> (\<exists>r. proc_step (\<lambda>_. 0) 1 t' r))"
proof -
  obtain t where t: "proc_reach (\<lambda>_. 0) 1 (start_process quit_input farewell_io) t" "both_running t"
    "pr_input t = quit_input" "pr_io t = farewell_io" using reach_running by blast
  obtain io2 where s: "sender_turn 1 quit_input farewell_io = Inr (False, [], io2)"
    using sender_turn_quit [of farewell_io 1 "[]"] by (auto simp: quit_input_def)
  let ?a = "t\<lparr>pr_send := LeftLoop, pr_input := [], pr_io := io2\<rparr>"
  let ?b = "?a\<lparr>pr_send := Ended, pr_recv_cancel := True\<rparr>"
  let ?c = "?b\<lparr>pr_recv := Ended, pr_io := pr_io ?b\<rparr>"
  note r = t(2) [unfolded both_running_def]
  have "proc_next (\<lambda>_. 0) 1 t ?a" using r s t(3,4) by (intro next_send_last) simp_all
  moreover have "proc_next (\<lambda>_. 0) 1 ?a ?b" using r by (intro next_send_cancels) simp_all
  ultimately have b: "proc_reach (\<lambda>_. 0) 1 (start_process quit_input farewell_io) ?b"
    using rtranclp_trans [OF t(1) steps2] by blast
  have c: "proc_next (\<lambda>_. 0) 1 ?b ?c" using r by (intro next_recv_cancelled) simp_all
  have e1: "(proc_next (\<lambda>_. 0) 1 ^^ 1) ?b ?c" using c by (simp only: relpowp_1)
  have e: "pr_recv ?b = Ended \<or> pr_send ?b = Ended" by simp
  have "pr_send ?b = Ended" by simp
  with client_shutdown [OF b e e1] b e1 show ?thesis by blast
qed

text \<open>C23: the ends of a client whose user quits while the server's farewell is waiting at the socket. The
  process may return with the farewell printed or without it; and it may run into one of two faults: the receiver
  cancels the sending thread before \<open>main\<close> has created it, or the sender cancels the receiving thread after
  \<open>main\<close> has joined it. Apart from faults of the loops themselves, these two are the only ones.\<close>

theorem cancel_races:
  assumes "pending (io_in io) = header_bytes (create_message_header 0 0 MESG_DCON) @ rest" "SendErr \<notin> set (io_out io)"
    and "t0 = start_process (bytes_of ''<<quit>>'' @ newline # inp) io"
  shows "(\<exists>t. proc_reach junk cid t0 t \<and> pr_main t = Finished \<and> io_printed (pr_io t) = io_printed io @ bye)
     \<and> (\<exists>t. proc_reach junk cid t0 t \<and> pr_main t = Finished \<and> io_printed (pr_io t) = io_printed io)
     \<and> (\<exists>t. proc_reach junk cid t0 t \<and> pr_main t = RecvStarted \<and> proc_step junk cid t (Inl BadPointer))
     \<and> (\<exists>t. proc_reach junk cid t0 t \<and> pr_main t = JoiningSend \<and> proc_step junk cid t (Inl BadPointer))
     \<and> (\<forall>t e. proc_reach junk cid t0 t \<and> proc_step junk cid t (Inl e) \<longrightarrow>
          receiver_turn junk (pr_io t) = Some (Inl e) \<or> sender_turn cid (pr_input t) (pr_io t) = Inl e
          \<or> e = BadPointer \<and> (pr_recv t = LeftLoop \<and> pr_main t = RecvStarted \<or> pr_send t = LeftLoop \<and> pr_main t = JoiningSend))"
proof -
  obtain t where t: "proc_reach junk cid t0 t" "both_running t" "pr_input t = bytes_of ''<<quit>>'' @ newline # inp" "pr_io t = io"
    using reach_running unfolding assms(3) by blast
  obtain io1 where r: "receiver_turn junk io = Some (Inr (False, io1))" "io_printed io1 = io_printed io @ bye"
    using receiver_turn_bye [OF assms(1), of junk] by auto
  obtain io2 where s: "sender_turn cid (bytes_of ''<<quit>>'' @ newline # inp) io = Inr (False, inp, io2)"
    "io_printed io2 = io_printed io" "io_in io2 = io_in io"
    using sender_turn_quit [OF assms(2), of cid inp] by auto
  obtain io3 where r2: "receiver_turn junk io2 = Some (Inr (False, io3))"
    using receiver_turn_bye [of io2 rest junk] assms(1) s(3) by auto
  note go = rtranclp_trans [OF t(1)]
  note sq = s(1) [folded t(3)]
  have 1: "\<exists>t. proc_reach junk cid t0 t \<and> pr_main t = Finished \<and> pr_io t = io1"
    using running_receiver_first [OF t(2), of junk io1 cid] r(1) go unfolding t(4) by blast
  have 2: "\<exists>t. proc_reach junk cid t0 t \<and> pr_main t = Finished \<and> pr_io t = io2"
    using running_sender_first [OF t(2), of cid inp io2 junk] s(1) go unfolding t(3,4) by blast
  have 3: "\<exists>t. proc_reach junk cid t0 t \<and> pr_main t = RecvStarted \<and> proc_step junk cid t (Inl BadPointer)"
    unfolding assms(3) by (rule early_leave [OF r(1)])
  have 4: "\<exists>t. proc_reach junk cid t0 t \<and> pr_main t = JoiningSend \<and> proc_step junk cid t (Inl BadPointer)"
    using running_both_leave [OF t(2) _ r2, of cid inp] s(1) go unfolding t(3,4) by blast
  have 5: "receiver_turn junk (pr_io t) = Some (Inl e) \<or> sender_turn cid (pr_input t) (pr_io t) = Inl e
          \<or> e = BadPointer \<and> (pr_recv t = LeftLoop \<and> pr_main t = RecvStarted \<or> pr_send t = LeftLoop \<and> pr_main t = JoiningSend)"
    if "proc_reach junk cid t0 t" "proc_step junk cid t (Inl e)" for t e
    using that(1) unfolding assms(3) by (rule proc_fault [OF that(2) refl proc_reach_inv(3)])
  show ?thesis
  proof (intro conjI)
    show "\<exists>t. proc_reach junk cid t0 t \<and> pr_main t = Finished \<and> io_printed (pr_io t) = io_printed io @ bye"
      using 1 r(2) by auto
    show "\<exists>t. proc_reach junk cid t0 t \<and> pr_main t = Finished \<and> io_printed (pr_io t) = io_printed io"
      using 2 s(2) by auto
  qed (use 3 4 5 in blast)+
qed

theorem cancel_races_witness:
  "(\<exists>t. proc_reach (\<lambda>_. 0) 1 (start_process quit_input farewell_io) t \<and> pr_main t = Finished \<and> io_printed (pr_io t) = bye)
   \<and> (\<exists>t. proc_reach (\<lambda>_. 0) 1 (start_process quit_input farewell_io) t \<and> proc_step (\<lambda>_. 0) 1 t (Inl BadPointer))"
proof -
  have "pending (io_in farewell_io) = header_bytes (create_message_header 0 0 MESG_DCON) @ []" by simp
  moreover have "start_process quit_input farewell_io = start_process (bytes_of ''<<quit>>'' @ newline # []) farewell_io"
    by (simp add: quit_input_def)
  ultimately show ?thesis using cancel_races [of farewell_io "[]" _ "[]" "\<lambda>_. 0" 1] by auto
qed

end
