(* ===== verification/Utstring.thy ===== *)
theory Utstring
  imports Prelude
begin

text \<open>
  The dynamic strings of \<^verbatim>\<open>uthash/utstring.h\<close>: a buffer, its capacity and the index of the first unused byte. What
  the allocator does is an argument: for each size it either refuses or says what the new bytes contain.
\<close>

type_synonym u64 = "64 word"

text \<open>What the pointer \<open>d\<close> points to. \<open>utstring_done\<close> leaves it dangling.\<close>

datatype buffer = NoBuffer | Freed | Buffer "byte list"

record ut_string =
  us_d :: buffer
  us_n :: u64
  us_i :: u64

type_synonym allocator = "nat \<Rightarrow> (nat \<Rightarrow> byte) option"

section \<open>The code\<close>

definition realloc_buffer :: "allocator \<Rightarrow> buffer \<Rightarrow> nat \<Rightarrow> buffer res" where
  "realloc_buffer mem d sz =
     (case d of Freed \<Rightarrow> Inl BadFree
      | _ \<Rightarrow> (case mem sz of None \<Rightarrow> Inl Exit
              | Some junk \<Rightarrow> let old = (case d of Buffer bs \<Rightarrow> bs | _ \<Rightarrow> [])
                  in Inr (Buffer (map (\<lambda>k. if k < length old then old ! k else junk k) [0..<sz]))))"

text \<open>\<open>memcpy\<close> to the index \<open>k\<close> of the buffer.\<close>

definition write_buffer :: "buffer \<Rightarrow> nat \<Rightarrow> byte list \<Rightarrow> buffer res" where
  "write_buffer d k xs =
     (case d of NoBuffer \<Rightarrow> Inl NullDeref | Freed \<Rightarrow> Inl BadPointer
      | Buffer bs \<Rightarrow> if k + length xs \<le> length bs then Inr (Buffer (take k bs @ xs @ drop (k + length xs) bs)) else Inl OutOfBounds)"

definition utstring_reserve :: "allocator \<Rightarrow> ut_string \<Rightarrow> u64 \<Rightarrow> ut_string res" where
  "utstring_reserve mem s amt =
     (if us_n s - us_i s < amt then
        bind_res (realloc_buffer mem (us_d s) (unat (us_n s + amt))) (\<lambda>d. Inr (s\<lparr>us_d := d, us_n := us_n s + amt\<rparr>))
      else Inr s)"

text \<open>The terminator at the index of the first unused byte.\<close>

definition terminate :: "ut_string \<Rightarrow> ut_string res" where
  "terminate s = bind_res (write_buffer (us_d s) (unat (us_i s)) [0]) (\<lambda>d. Inr (s\<lparr>us_d := d\<rparr>))"

definition utstring_init :: "allocator \<Rightarrow> ut_string \<Rightarrow> ut_string res" where
  "utstring_init mem s = bind_res (utstring_reserve mem (s\<lparr>us_n := 0, us_i := 0, us_d := NoBuffer\<rparr>) 100) terminate"

definition utstring_done :: "ut_string \<Rightarrow> ut_string res" where
  "utstring_done s =
     (case us_d s of Freed \<Rightarrow> Inl BadFree
      | Buffer bs \<Rightarrow> Inr (s\<lparr>us_d := Freed, us_n := 0\<rparr>)
      | NoBuffer \<Rightarrow> Inr (s\<lparr>us_n := 0\<rparr>))"

text \<open>\<open>cell\<close> is what \<open>malloc\<close> returns for the structure, with whatever it contains.\<close>

definition utstring_new :: "ut_string option \<Rightarrow> allocator \<Rightarrow> ut_string res" where
  "utstring_new cell mem = (case cell of None \<Rightarrow> Inl Exit | Some s \<Rightarrow> utstring_init mem s)"

definition utstring_clear :: "ut_string \<Rightarrow> ut_string res" where
  "utstring_clear s = terminate (s\<lparr>us_i := 0\<rparr>)"

definition utstring_renew :: "ut_string option \<Rightarrow> allocator \<Rightarrow> ut_string option \<Rightarrow> ut_string res" where
  "utstring_renew cell mem s = (case s of Some s \<Rightarrow> utstring_clear s | None \<Rightarrow> utstring_new cell mem)"

text \<open>\<open>b\<close> is the \<open>l\<close> bytes that are copied.\<close>

definition utstring_bincpy :: "allocator \<Rightarrow> ut_string \<Rightarrow> byte list \<Rightarrow> u64 \<Rightarrow> ut_string res" where
  "utstring_bincpy mem s b l =
     bind_res (utstring_reserve mem s (l + 1)) (\<lambda>s1.
     bind_res (if l \<noteq> 0 then
                 if length b < unat l then Inl OutOfBounds else write_buffer (us_d s1) (unat (us_i s1)) (take (unat l) b)
               else Inr (us_d s1)) (\<lambda>d.
     terminate (s1\<lparr>us_d := d, us_i := us_i s1 + l\<rparr>)))"

definition buffer_bytes :: "buffer \<Rightarrow> byte list res" where
  "buffer_bytes d = (case d of NoBuffer \<Rightarrow> Inl NullDeref | Freed \<Rightarrow> Inl BadPointer | Buffer bs \<Rightarrow> Inr bs)"

definition utstring_concat :: "allocator \<Rightarrow> ut_string \<Rightarrow> ut_string \<Rightarrow> ut_string res" where
  "utstring_concat mem dst src =
     bind_res (utstring_reserve mem dst (us_i src + 1)) (\<lambda>s1.
     bind_res (if us_i src \<noteq> 0 then
                 bind_res (buffer_bytes (us_d src)) (\<lambda>bs.
                   if length bs < unat (us_i src) then Inl OutOfBounds
                   else write_buffer (us_d s1) (unat (us_i s1)) (take (unat (us_i src)) bs))
               else Inr (us_d s1)) (\<lambda>d.
     terminate (s1\<lparr>us_d := d, us_i := us_i s1 + us_i src\<rparr>)))"

definition utstring_len :: "ut_string \<Rightarrow> u64" where
  "utstring_len s = us_i s"

definition utstring_body :: "ut_string \<Rightarrow> buffer" where
  "utstring_body s = us_d s"

text \<open>
  \<open>vsnprintf\<close> on the rest of the buffer, when the format and its arguments come to the bytes \<open>out\<close> (\<open>None\<close>: they cannot be
  converted): as much as fits and a terminator, and the length of all, which is an error when an \<open>int\<close> cannot hold it.
\<close>

definition vsnprintf :: "byte list option \<Rightarrow> buffer \<Rightarrow> nat \<Rightarrow> u64 \<Rightarrow> (int \<times> buffer) res" where
  "vsnprintf out d k sz =
     (case out of None \<Rightarrow> Inr (-1, d)
      | Some xs \<Rightarrow>
          if 2 ^ 31 \<le> length xs then Inr (-1, d)
          else if sz = 0 then Inr (int (length xs), d)
          else bind_res (write_buffer d k (take (unat sz - 1) xs @ [0])) (\<lambda>d'. Inr (int (length xs), d')))"

partial_function (option) utstring_printf :: "allocator \<Rightarrow> ut_string \<Rightarrow> byte list option \<Rightarrow> ut_string run" where
  "utstring_printf mem s out =
     bind_run (Some (vsnprintf out (us_d s) (unat (us_i s)) (us_n s - us_i s))) (\<lambda>(n, d).
       let s1 = s\<lparr>us_d := d\<rparr> in
       if n > -1 \<and> word_of_int n < us_n s1 - us_i s1 then Some (Inr (s1\<lparr>us_i := us_i s1 + word_of_int n\<rparr>))
       else bind_run (Some (if n > -1 then utstring_reserve mem s1 (word_of_int (n + 1))
                            else utstring_reserve mem s1 (us_n s1 * 2))) (\<lambda>s2.
            utstring_printf mem s2 out))"

section \<open>What a string holds\<close>

definition str_rep :: "ut_string \<Rightarrow> byte list \<Rightarrow> bool" where
  "str_rep s xs \<longleftrightarrow> (\<exists>bs. us_d s = Buffer bs \<and> length bs = unat (us_n s) \<and> unat (us_i s) < length bs
     \<and> take (unat (us_i s)) bs = xs \<and> bs ! unat (us_i s) = 0)"

lemma str_rep_length: "str_rep s xs \<Longrightarrow> length xs = unat (us_i s)"
  by (auto simp: str_rep_def)

text \<open>A buffer with room behind the content, whatever the byte there is.\<close>

definition holds :: "ut_string \<Rightarrow> byte list \<Rightarrow> nat \<Rightarrow> bool" where
  "holds s xs room \<longleftrightarrow> (\<exists>bs. us_d s = Buffer bs \<and> length bs = unat (us_n s) \<and> unat (us_i s) + room \<le> length bs
     \<and> take (unat (us_i s)) bs = xs)"

lemma str_rep_holds: "str_rep s xs \<Longrightarrow> holds s xs 1"
  by (auto simp: str_rep_def holds_def)

lemma unat_add64: "unat (a::u64) + unat b < 2 ^ 64 \<Longrightarrow> unat (a + b) = unat a + unat b"
  by (simp add: unat_word_ariths)

lemma unat_diff64: "unat (b::u64) \<le> unat a \<Longrightarrow> unat (a - b) = unat a - unat b"
  by (simp add: unat_sub word_le_nat_alt)

lemma terminate_ok:
  assumes "holds s xs 1"
  shows "\<exists>s'. terminate s = Inr s' \<and> str_rep s' xs \<and> us_n s' = us_n s \<and> us_i s' = us_i s"
proof -
  from assms obtain bs where bs: "us_d s = Buffer bs" "length bs = unat (us_n s)" "unat (us_i s) + 1 \<le> length bs"
    "take (unat (us_i s)) bs = xs" by (auto simp: holds_def)
  let ?i = "unat (us_i s)"
  have "bs[?i := 0] = take ?i bs @ [0] @ drop (?i + length [0::byte]) bs"
    using bs(3) by (simp add: upd_conv_take_nth_drop)
  then have "terminate s = Inr (s\<lparr>us_d := Buffer (bs[?i := 0])\<rparr>)"
    using bs(1,3) by (simp add: terminate_def write_buffer_def)
  moreover have "str_rep (s\<lparr>us_d := Buffer (bs[?i := 0])\<rparr>) xs"
    using bs by (simp add: str_rep_def)
  ultimately show ?thesis by simp
qed

lemma reserve_ok:
  assumes "holds s xs 1" "unat (us_n s) + unat amt < 2 ^ 64" "\<forall>sz. mem sz \<noteq> None"
  shows "\<exists>s'. utstring_reserve mem s amt = Inr s' \<and> holds s' xs (unat amt) \<and> us_i s' = us_i s
    \<and> unat (us_n s') \<le> unat (us_n s) + unat amt"
proof -
  from assms(1) obtain bs where bs: "us_d s = Buffer bs" "length bs = unat (us_n s)" "unat (us_i s) < length bs"
    "take (unat (us_i s)) bs = xs" by (auto simp: holds_def)
  have d: "unat (us_n s - us_i s) = unat (us_n s) - unat (us_i s)" using bs(2,3) by (intro unat_diff64) simp
  show ?thesis
  proof (cases "us_n s - us_i s < amt")
    case True
    obtain junk where j: "mem (unat (us_n s + amt)) = Some junk" using assms(3) by blast
    have u: "unat (us_n s + amt) = unat (us_n s) + unat amt" by (rule unat_add64 [OF assms(2)])
    let ?bs = "map (\<lambda>k. if k < length bs then bs ! k else junk k) [0..<unat (us_n s + amt)]"
    let ?s = "s\<lparr>us_d := Buffer ?bs, us_n := us_n s + amt\<rparr>"
    have r: "utstring_reserve mem s amt = Inr ?s"
      using True bs(1) j by (simp add: utstring_reserve_def realloc_buffer_def)
    have "take (unat (us_i s)) ?bs = xs" using bs(2-4) u by (auto intro!: nth_equalityI)
    then have "holds ?s xs (unat amt)" using bs u by (simp add: holds_def)
    with r u show ?thesis by simp
  next
    case False
    then have "unat amt \<le> unat (us_n s) - unat (us_i s)" by (simp add: word_less_nat_alt d)
    then have "unat (us_i s) + unat amt \<le> length bs" using bs(2,3) by linarith
    with bs have "holds s xs (unat amt)" by (simp add: holds_def)
    with False show ?thesis by (simp add: utstring_reserve_def)
  qed
qed

lemma holds_length: "holds s xs room \<Longrightarrow> length xs = unat (us_i s)"
  by (auto simp: holds_def)

lemma write_ok:
  assumes "holds s xs (length ys + room)" "length ys = unat l"
  shows "\<exists>d. write_buffer (us_d s) (unat (us_i s)) ys = Inr d
    \<and> holds (s\<lparr>us_d := d, us_i := us_i s + l\<rparr>) (xs @ ys) room"
proof -
  from assms(1) obtain bs where bs: "us_d s = Buffer bs" "length bs = unat (us_n s)" "unat (us_i s) + (length ys + room) \<le> length bs"
    "take (unat (us_i s)) bs = xs" by (auto simp: holds_def)
  let ?i = "unat (us_i s)"
  let ?d = "take ?i bs @ ys @ drop (?i + length ys) bs"
  have "unat (us_n s) < 2 ^ LENGTH(64)" by (rule unsigned_less)
  then have "unat (us_i s) + unat l < 2 ^ 64" using bs(2,3) assms(2) by simp
  then have u: "unat (us_i s + l) = ?i + length ys" using unat_add64 assms(2) by simp
  have "length ?d = length bs" using bs(3) by simp
  moreover have "take (?i + length ys) ?d = xs @ ys" using bs(3,4) holds_length [OF assms(1)] by simp
  ultimately have "holds (s\<lparr>us_d := Buffer ?d, us_i := us_i s + l\<rparr>) (xs @ ys) room"
    using bs(2-4) u holds_length [OF assms(1)] by (simp add: holds_def)
  with bs(1,3) show ?thesis by (simp add: write_buffer_def)
qed

lemma holds_less: "holds s xs n \<Longrightarrow> m \<le> n \<Longrightarrow> holds s xs m"
  by (auto simp: holds_def)

lemma unat_succ64: "unat (l::u64) + 1 < 2 ^ 64 \<Longrightarrow> unat (l + 1) = unat l + 1"
  using unat_add64 [of l 1] by simp

lemma append_ok:
  assumes "str_rep s xs" "unat (us_n s) + (unat l + 1) < 2 ^ 64" "\<forall>sz. mem sz \<noteq> None" "length ys = unat l"
  shows "\<exists>s1 d s'. utstring_reserve mem s (l + 1) = Inr s1
    \<and> (if l \<noteq> 0 then write_buffer (us_d s1) (unat (us_i s1)) ys else Inr (us_d s1)) = Inr d
    \<and> terminate (s1\<lparr>us_d := d, us_i := us_i s1 + l\<rparr>) = Inr s' \<and> str_rep s' (xs @ ys)
    \<and> unat (us_n s') \<le> unat (us_n s) + (unat l + 1)"
proof -
  have l1: "unat (l + 1) = unat l + 1" using assms(2) by (intro unat_succ64) simp
  obtain s1 where s1: "utstring_reserve mem s (l + 1) = Inr s1" "holds s1 xs (unat l + 1)"
    "unat (us_n s1) \<le> unat (us_n s) + (unat l + 1)"
    using reserve_ok [OF str_rep_holds [OF assms(1)], of "l + 1" mem] assms(2,3) unfolding l1 by auto
  have "\<exists>d. (if l \<noteq> 0 then write_buffer (us_d s1) (unat (us_i s1)) ys else Inr (us_d s1)) = Inr d
      \<and> holds (s1\<lparr>us_d := d, us_i := us_i s1 + l\<rparr>) (xs @ ys) 1"
  proof (cases "l = 0")
    case True
    with s1(2) assms(4) show ?thesis by simp
  next
    case False
    with write_ok [of s1 xs ys 1 l] s1(2) assms(4) show ?thesis by simp
  qed
  then obtain d where d: "(if l \<noteq> 0 then write_buffer (us_d s1) (unat (us_i s1)) ys else Inr (us_d s1)) = Inr d"
    "holds (s1\<lparr>us_d := d, us_i := us_i s1 + l\<rparr>) (xs @ ys) 1" by blast
  from terminate_ok [OF d(2)] obtain s' where "terminate (s1\<lparr>us_d := d, us_i := us_i s1 + l\<rparr>) = Inr s'" "str_rep s' (xs @ ys)"
    "us_n s' = us_n s1" by auto
  with s1(1,3) d(1) show ?thesis by auto
qed

lemma utstring_bincpy_ok:
  assumes "str_rep s xs" "unat (us_n s) + (unat l + 1) < 2 ^ 64" "\<forall>sz. mem sz \<noteq> None" "length ys = unat l"
  shows "\<exists>s'. utstring_bincpy mem s ys l = Inr s' \<and> str_rep s' (xs @ ys) \<and> unat (us_n s') \<le> unat (us_n s) + (unat l + 1)"
proof -
  from append_ok [OF assms] obtain s1 d s' where a: "utstring_reserve mem s (l + 1) = Inr s1"
    "(if l \<noteq> 0 then write_buffer (us_d s1) (unat (us_i s1)) ys else Inr (us_d s1)) = Inr d"
    "terminate (s1\<lparr>us_d := d, us_i := us_i s1 + l\<rparr>) = Inr s'" "str_rep s' (xs @ ys)"
    "unat (us_n s') \<le> unat (us_n s) + (unat l + 1)" by blast
  have "utstring_bincpy mem s ys l = Inr s'"
  proof (cases "l = 0")
    case True
    with a(2) have "d = us_d s1" by simp
    with a(1,3) True show ?thesis by (simp add: utstring_bincpy_def)
  qed (use a(1-3) assms(4) in \<open>simp add: utstring_bincpy_def\<close>)
  with a(4,5) show ?thesis by blast
qed

lemma utstring_concat_ok:
  assumes "str_rep s xs" "str_rep t ys" "unat (us_n s) + (length ys + 1) < 2 ^ 64" "\<forall>sz. mem sz \<noteq> None"
  shows "\<exists>s'. utstring_concat mem s t = Inr s' \<and> str_rep s' (xs @ ys) \<and> unat (us_n s') \<le> unat (us_n s) + (length ys + 1)"
proof -
  from assms(2) obtain bs where bs: "us_d t = Buffer bs" "unat (us_i t) < length bs" "take (unat (us_i t)) bs = ys"
    by (auto simp: str_rep_def)
  have l: "length ys = unat (us_i t)" by (rule str_rep_length [OF assms(2)])
  have cap: "unat (us_n s) + (unat (us_i t) + 1) < 2 ^ 64" using assms(3) l by simp
  from append_ok [OF assms(1) cap assms(4) l] obtain s1 d s' where a: "utstring_reserve mem s (us_i t + 1) = Inr s1"
    "(if us_i t \<noteq> 0 then write_buffer (us_d s1) (unat (us_i s1)) ys else Inr (us_d s1)) = Inr d"
    "terminate (s1\<lparr>us_d := d, us_i := us_i s1 + us_i t\<rparr>) = Inr s'" "str_rep s' (xs @ ys)"
    "unat (us_n s') \<le> unat (us_n s) + (unat (us_i t) + 1)" by blast
  have "utstring_concat mem s t = Inr s'"
  proof (cases "us_i t = 0")
    case True
    with a(2) have "d = us_d s1" by simp
    with a(1,3) True show ?thesis by (simp add: utstring_concat_def)
  qed (use a(1-3) bs in \<open>simp add: utstring_concat_def buffer_bytes_def\<close>)
  with a(4,5) l show ?thesis by auto
qed

lemma utstring_clear_ok:
  assumes "str_rep s xs"
  shows "\<exists>s'. utstring_clear s = Inr s' \<and> str_rep s' [] \<and> us_n s' = us_n s"
proof -
  have "holds (s\<lparr>us_i := 0\<rparr>) [] 1" using assms by (auto simp: str_rep_def holds_def)
  from terminate_ok [OF this] show ?thesis by (auto simp: utstring_clear_def)
qed

lemma utstring_init_ok:
  assumes "\<forall>sz. mem sz \<noteq> None"
  shows "\<exists>s'. utstring_init mem s = Inr s' \<and> str_rep s' [] \<and> us_n s' = 100"
proof -
  let ?s = "s\<lparr>us_n := 0, us_i := 0, us_d := NoBuffer\<rparr>"
  obtain junk where j: "mem 100 = Some junk" using assms by blast
  let ?t = "?s\<lparr>us_d := Buffer (map junk [0..<100]), us_n := 100\<rparr>"
  have "utstring_reserve mem ?s 100 = Inr ?t" using j by (simp add: utstring_reserve_def realloc_buffer_def)
  moreover have "holds ?t [] 1" by (simp add: holds_def)
  from terminate_ok [OF this] obtain s' where "terminate ?t = Inr s'" "str_rep s' []" "us_n s' = 100" by auto
  ultimately show ?thesis by (simp add: utstring_init_def)
qed

section \<open>Formatted output\<close>

lemma vsnprintf_fits:
  assumes "holds s xs (length out + 1)" "length out < 2 ^ 31" "length out < unat (us_n s - us_i s)"
  shows "\<exists>d. vsnprintf (Some out) (us_d s) (unat (us_i s)) (us_n s - us_i s) = Inr (int (length out), d)
    \<and> str_rep (s\<lparr>us_d := d, us_i := us_i s + of_nat (length out)\<rparr>) (xs @ out)"
proof -
  from assms(1) obtain bs where bs: "us_d s = Buffer bs" "length bs = unat (us_n s)" "unat (us_i s) + (length out + 1) \<le> length bs"
    "take (unat (us_i s)) bs = xs" by (auto simp: holds_def)
  let ?i = "unat (us_i s)"
  let ?d = "take ?i bs @ (out @ [0]) @ drop (?i + (length out + 1)) bs"
  have "us_n s - us_i s \<noteq> 0" using assms(3) by auto
  then have "vsnprintf (Some out) (us_d s) ?i (us_n s - us_i s) = Inr (int (length out), Buffer ?d)"
    using assms(2,3) bs(1,3) by (simp add: vsnprintf_def write_buffer_def)
  moreover have "unat (us_n s) < 2 ^ LENGTH(64)" by (rule unsigned_less)
  then have "?i + unat (of_nat (length out) :: u64) < 2 ^ 64" "unat (of_nat (length out) :: u64) = length out"
    using bs(2,3) assms(2) by (simp_all add: unat_of_nat_small)
  then have u: "unat (us_i s + of_nat (length out)) = ?i + length out" using unat_add64 by metis
  have "length ?d = length bs" "take (?i + length out) ?d = xs @ out" "?d ! (?i + length out) = 0"
    using bs(3,4) holds_length [OF assms(1)] by (simp_all add: nth_append)
  then have "str_rep (s\<lparr>us_d := Buffer ?d, us_i := us_i s + of_nat (length out)\<rparr>) (xs @ out)"
    using bs(2-4) u holds_length [OF assms(1)] by (simp add: str_rep_def nth_append)
  ultimately show ?thesis by blast
qed

text \<open>Output that does not fit leaves the content as it was.\<close>

lemma vsnprintf_cut:
  assumes "holds s xs 1" "length out < 2 ^ 31" "unat (us_n s - us_i s) \<le> length out"
  shows "\<exists>d. vsnprintf (Some out) (us_d s) (unat (us_i s)) (us_n s - us_i s) = Inr (int (length out), d)
    \<and> holds (s\<lparr>us_d := d\<rparr>) xs 1"
proof -
  from assms(1) obtain bs where bs: "us_d s = Buffer bs" "length bs = unat (us_n s)" "unat (us_i s) < length bs"
    "take (unat (us_i s)) bs = xs" by (auto simp: holds_def)
  let ?i = "unat (us_i s)" and ?a = "unat (us_n s - us_i s)"
  have a: "?a = unat (us_n s) - ?i" using bs(2,3) by (intro unat_diff64) simp
  then have a0: "us_n s - us_i s \<noteq> 0" using bs(2,3) by auto
  let ?w = "take (?a - 1) out @ [0]"
  have l: "length ?w = ?a" using assms(3) a bs(2,3) by simp
  let ?d = "take ?i bs @ ?w @ drop (?i + ?a) bs"
  have "vsnprintf (Some out) (us_d s) ?i (us_n s - us_i s) = Inr (int (length out), Buffer ?d)"
    using assms(2) a0 bs(1-3) a l by (simp add: vsnprintf_def write_buffer_def)
  moreover have "length ?d = length bs" "take ?i ?d = xs" using bs(2-4) a l holds_length [OF assms(1)] by simp_all
  then have "holds (s\<lparr>us_d := Buffer ?d\<rparr>) xs 1" using bs(2,3) by (auto simp: holds_def)
  ultimately show ?thesis by blast
qed

lemma utstring_printf_fits:
  assumes "holds s xs (length out + 1)" "length out < 2 ^ 31"
  shows "\<exists>s'. utstring_printf mem s (Some out) = Some (Inr s') \<and> str_rep s' (xs @ out) \<and> us_n s' = us_n s"
proof -
  have "unat (us_n s - us_i s) = unat (us_n s) - unat (us_i s)" using assms(1) by (intro unat_diff64) (auto simp: holds_def)
  then have fits: "length out < unat (us_n s - us_i s)" using assms(1) by (auto simp: holds_def)
  obtain d where d: "vsnprintf (Some out) (us_d s) (unat (us_i s)) (us_n s - us_i s) = Inr (int (length out), d)"
    "str_rep (s\<lparr>us_d := d, us_i := us_i s + of_nat (length out)\<rparr>) (xs @ out)"
    using vsnprintf_fits [OF assms fits] by blast
  have "(of_nat (length out) :: u64) < us_n s - us_i s"
    using fits assms(2) by (simp add: word_less_nat_alt unat_of_nat_small)
  then have "utstring_printf mem s (Some out) = Some (Inr (s\<lparr>us_d := d, us_i := us_i s + of_nat (length out)\<rparr>))"
    using d(1) by (subst utstring_printf.simps) (simp add: Let_def)
  with d(2) show ?thesis by simp
qed

lemma utstring_printf_ok:
  assumes "str_rep s xs" "length out < 2 ^ 31" "unat (us_n s) + (length out + 1) < 2 ^ 64" "\<forall>sz. mem sz \<noteq> None"
  shows "\<exists>s'. utstring_printf mem s (Some out) = Some (Inr s') \<and> str_rep s' (xs @ out)
    \<and> unat (us_n s') \<le> unat (us_n s) + (length out + 1)"
proof -
  have h: "holds s xs 1" using assms(1) by (rule str_rep_holds)
  have u: "unat (us_n s - us_i s) = unat (us_n s) - unat (us_i s)" using h by (intro unat_diff64) (auto simp: holds_def)
  show ?thesis
  proof (cases "length out < unat (us_n s - us_i s)")
    case True
    then have "holds s xs (length out + 1)" using h u by (auto simp: holds_def)
    from utstring_printf_fits [OF this assms(2), of mem] show ?thesis by auto
  next
    case False
    then have "unat (us_n s - us_i s) \<le> length out" by simp
    from vsnprintf_cut [OF h assms(2) this] obtain d where
      d: "vsnprintf (Some out) (us_d s) (unat (us_i s)) (us_n s - us_i s) = Inr (int (length out), d)"
      "holds (s\<lparr>us_d := d\<rparr>) xs 1" by blast
    let ?amt = "of_nat (Suc (length out)) :: u64"
    have amt: "unat ?amt = length out + 1" using assms(2) by (simp add: unat_of_nat_small del: of_nat_Suc)
    have cap: "unat (us_n (s\<lparr>us_d := d\<rparr>)) + unat ?amt < 2 ^ 64" unfolding amt using assms(3) by simp
    obtain s1 where s1: "utstring_reserve mem (s\<lparr>us_d := d\<rparr>) ?amt = Inr s1" "holds s1 xs (length out + 1)"
      "unat (us_n s1) \<le> unat (us_n s) + (length out + 1)"
      using reserve_ok [OF d(2) cap assms(4)] unfolding amt by auto
    have "\<not> (of_nat (length out) :: u64) < us_n s - us_i s"
      using False assms(2) by (simp add: word_less_nat_alt unat_of_nat_small)
    then have "utstring_printf mem s (Some out) = utstring_printf mem s1 (Some out)"
      using d(1) s1(1) by (subst utstring_printf.simps) (simp add: Let_def add.commute)
    with utstring_printf_fits [OF s1(2) assms(2), of mem] s1(3) show ?thesis by auto
  qed
qed

text \<open>
  When the format cannot be converted, the capacity trebles until the allocator refuses and the process ends.
\<close>

lemma utstring_printf_bad:
  assumes "case out of None \<Rightarrow> True | Some xs \<Rightarrow> 2 ^ 31 \<le> length xs"
    and "holds s xs 1" "b \<le> 2 ^ 62" "\<And>sz. b \<le> sz \<Longrightarrow> mem sz = None" "unat (us_n s) < b"
  shows "utstring_printf mem s out = Some (Inl Exit)"
  using assms(2,5)
proof (induction "b - unat (us_n s)" arbitrary: s rule: less_induct)
  case less
  from less.prems obtain bs where bs: "us_d s = Buffer bs" "length bs = unat (us_n s)" "unat (us_i s) < length bs"
    "take (unat (us_i s)) bs = xs" by (auto simp: holds_def)
  have v: "vsnprintf out (us_d s) (unat (us_i s)) (us_n s - us_i s) = Inr (-1, us_d s)"
    using assms(1) by (auto simp: vsnprintf_def split: option.splits)
  have n: "unat (us_n s) < 2 ^ 62" using less.prems(2) assms(3) by simp
  have two: "unat (us_n s * 2) = 2 * unat (us_n s)" using n by (simp add: unat_word_ariths)
  have three: "unat (us_n s + us_n s * 2) = 3 * unat (us_n s)" using n two by (subst unat_add64) simp_all
  have "unat (us_n s - us_i s) = unat (us_n s) - unat (us_i s)" using bs(2,3) by (intro unat_diff64) simp
  then have small: "us_n s - us_i s < us_n s * 2" using two bs(2,3) by (simp add: word_less_nat_alt)
  show ?case
  proof (cases "mem (3 * unat (us_n s))")
    case None
    then have "utstring_reserve mem s (us_n s * 2) = Inl Exit"
      using small bs(1) three by (simp add: utstring_reserve_def realloc_buffer_def)
    then show ?thesis using v by (subst utstring_printf.simps) (simp add: Let_def)
  next
    case (Some junk)
    then have lt: "3 * unat (us_n s) < b" using assms(4) by (metis not_le option.distinct(1))
    let ?bs = "map (\<lambda>k. if k < length bs then bs ! k else junk k) [0..<3 * unat (us_n s)]"
    let ?s = "s\<lparr>us_d := Buffer ?bs, us_n := us_n s + us_n s * 2\<rparr>"
    have r: "utstring_reserve mem s (us_n s * 2) = Inr ?s"
      using small bs(1) three Some by (simp add: utstring_reserve_def realloc_buffer_def)
    have "take (unat (us_i s)) ?bs = xs" using bs(2-4) by (auto intro!: nth_equalityI)
    then have h: "holds ?s xs 1" using bs(2,3) three by (simp add: holds_def)
    have "utstring_printf mem ?s out = Some (Inl Exit)"
      using h lt three bs(2,3) less.prems(2) by (intro less.hyps) simp_all
    then show ?thesis using v r by (subst utstring_printf.simps) (simp add: Let_def)
  qed
qed

section \<open>Properties\<close>

text \<open>What a program does with a string, and what it means for the content.\<close>

datatype str_op = Bytes "byte list" | Append ut_string | Print "byte list" | Clear

definition content :: "ut_string \<Rightarrow> byte list" where
  "content s = (case us_d s of Buffer bs \<Rightarrow> take (unat (us_i s)) bs | _ \<Rightarrow> [])"

fun run_str_op :: "allocator \<Rightarrow> str_op \<Rightarrow> ut_string \<Rightarrow> ut_string run" where
  "run_str_op mem (Bytes b) s = Some (utstring_bincpy mem s b (of_nat (length b)))"
| "run_str_op mem (Append t) s = Some (utstring_concat mem s t)"
| "run_str_op mem (Print b) s = utstring_printf mem s (Some b)"
| "run_str_op mem Clear s = Some (utstring_clear s)"

primrec run_str_ops :: "allocator \<Rightarrow> str_op list \<Rightarrow> ut_string \<Rightarrow> ut_string run" where
  "run_str_ops mem [] s = Some (Inr s)"
| "run_str_ops mem (c # cs) s = bind_run (run_str_op mem c s) (run_str_ops mem cs)"

fun spec_str_op :: "str_op \<Rightarrow> byte list \<Rightarrow> byte list" where
  "spec_str_op (Bytes b) xs = xs @ b"
| "spec_str_op (Append t) xs = xs @ content t"
| "spec_str_op (Print b) xs = xs @ b"
| "spec_str_op Clear xs = []"

text \<open>An appended string is one itself, printed output is short enough for an \<open>int\<close>; and the room an operation may take.\<close>

fun str_op_ok :: "str_op \<Rightarrow> bool" where
  "str_op_ok (Append t) \<longleftrightarrow> str_rep t (content t)"
| "str_op_ok (Print b) \<longleftrightarrow> length b < 2 ^ 31"
| "str_op_ok _ \<longleftrightarrow> True"

fun str_op_cost :: "str_op \<Rightarrow> nat" where
  "str_op_cost (Bytes b) = length b + 1"
| "str_op_cost (Append t) = length (content t) + 1"
| "str_op_cost (Print b) = length b + 1"
| "str_op_cost Clear = 0"

lemma run_str_op_ok:
  assumes "str_rep s xs" "str_op_ok c" "unat (us_n s) + str_op_cost c < 2 ^ 64" "\<forall>sz. mem sz \<noteq> None"
  shows "\<exists>s'. run_str_op mem c s = Some (Inr s') \<and> str_rep s' (spec_str_op c xs)
    \<and> unat (us_n s') \<le> unat (us_n s) + str_op_cost c"
proof (cases c)
  case (Bytes b)
  have "unat (of_nat (length b) :: u64) = length b" using assms(3) Bytes by (intro unat_of_nat_small) simp
  with utstring_bincpy_ok [OF assms(1) _ assms(4), of "of_nat (length b)" b] assms(3) Bytes show ?thesis by auto
next
  case (Append t)
  with utstring_concat_ok [OF assms(1) _ _ assms(4), of t "content t"] assms(2,3) show ?thesis by auto
next
  case (Print b)
  with utstring_printf_ok [OF assms(1) _ _ assms(4), of b] assms(2,3) show ?thesis by auto
next
  case Clear
  with utstring_clear_ok [OF assms(1)] show ?thesis by auto
qed

lemma run_str_ops_ok:
  assumes "str_rep s xs" "\<forall>c \<in> set cs. str_op_ok c" "unat (us_n s) + sum_list (map str_op_cost cs) < 2 ^ 64"
    and "\<forall>sz. mem sz \<noteq> None"
  shows "\<exists>s'. run_str_ops mem cs s = Some (Inr s') \<and> str_rep s' (fold spec_str_op cs xs)"
  using assms(1-3)
proof (induction cs arbitrary: s xs)
  case (Cons c cs)
  from run_str_op_ok [OF Cons.prems(1) _ _ assms(4), of c] Cons.prems(2,3) obtain s1 where
    s1: "run_str_op mem c s = Some (Inr s1)" "str_rep s1 (spec_str_op c xs)" "unat (us_n s1) \<le> unat (us_n s) + str_op_cost c"
    by auto
  with Cons.IH [OF s1(2)] Cons.prems(2,3) show ?case by simp
qed simp



text \<open>Formatted output that cannot be produced ends the process. When \<open>vsnprintf\<close> reports an error, which
  is a character that cannot be converted or a result too long for an \<open>int\<close>, \<open>utstring_printf\<close> takes it for a
  lack of room, trebles the buffer and tries again until the allocator refuses.\<close>

theorem unprintable_ends_process:
  assumes "case out of None \<Rightarrow> True | Some xs \<Rightarrow> 2 ^ 31 \<le> length xs"
    and "str_rep s xs" "b \<le> 2 ^ 62" "unat (us_n s) < b" "\<forall>sz. b \<le> sz \<longrightarrow> mem sz = None"
  shows "utstring_printf mem s out = Some (Inl Exit)"
  using utstring_printf_bad [OF assms(1) str_rep_holds [OF assms(2)] assms(3) _ assms(4)] assms(5) by simp

theorem unprintable_ends_process_witness:
  "utstring_printf (\<lambda>sz. if sz < 1000 then Some (\<lambda>_. 0) else None) \<lparr>us_d = Buffer [65, 0], us_n = 2, us_i = 1\<rparr> None = Some (Inl Exit)"
  by (rule unprintable_ends_process [of None _ "[65]" 1000]) (simp_all add: str_rep_def)

end
