(* ===== verification/Utstring_Search.thy ===== *)
theory Utstring_Search
  imports Utstring
begin

text \<open>
  The substring search of \<^verbatim>\<open>uthash/utstring.h\<close>: Knuth, Morris and Pratt's algorithm with the table that also
  looks at the character after a border, once from left to right and once from right to left. The search from the right
  is shown to be the mirror image of the one from the left.
\<close>

section \<open>The code\<close>

text \<open>Reads and writes of an array through an index of type \<open>long\<close>.\<close>

definition elem :: "'a list \<Rightarrow> int \<Rightarrow> 'a res" where
  "elem xs i = (if 0 \<le> i \<and> i < int (length xs) then Inr (xs ! nat i) else Inl OutOfBounds)"

definition put_elem :: "'a list \<Rightarrow> int \<Rightarrow> 'a \<Rightarrow> 'a list res" where
  "put_elem xs i x = (if 0 \<le> i \<and> i < int (length xs) then Inr (xs[nat i := x]) else Inl OutOfBounds)"

text \<open>The casts of a \<open>size_t\<close> to \<open>int\<close>.\<close>

definition to_int :: "nat \<Rightarrow> int" where
  "to_int n = sint (of_nat n :: u32)"

text \<open>The inner loop of the table and of the search: along the table from \<open>j\<close> until the character matches.\<close>

partial_function (option) fall_back :: "byte list \<Rightarrow> int list \<Rightarrow> byte list \<Rightarrow> int \<Rightarrow> int \<Rightarrow> int run" where
  "fall_back needle table txt i j =
     (if j > -1 then
        bind_run (Some (elem txt i)) (\<lambda>a.
        bind_run (Some (elem needle j)) (\<lambda>b.
          if a \<noteq> b then bind_run (Some (elem table j)) (\<lambda>j'. fall_back needle table txt i j')
          else Some (Inr j)))
      else Some (Inr j))"

definition next_entry :: "byte list \<Rightarrow> int list \<Rightarrow> int \<Rightarrow> int \<Rightarrow> int res" where
  "next_entry needle table i j =
     (if i < int (length needle) then
        bind_res (elem needle i) (\<lambda>a. bind_res (elem needle j) (\<lambda>b. if a = b then elem table j else Inr j))
      else Inr j)"

partial_function (option) build_loop :: "byte list \<Rightarrow> int \<Rightarrow> int \<Rightarrow> int list \<Rightarrow> int list run" where
  "build_loop needle i j table =
     (if i < int (length needle) then
        bind_run (fall_back needle table needle i j) (\<lambda>j'.
        bind_run (Some (next_entry needle table (i + 1) (j' + 1))) (\<lambda>v.
        bind_run (Some (put_elem table (i + 1) v)) (\<lambda>table'.
        build_loop needle (i + 1) (j' + 1) table')))
      else Some (Inr table))"

definition BuildTable :: "byte list \<Rightarrow> int list \<Rightarrow> int list run" where
  "BuildTable needle table = bind_run (Some (put_elem table 0 (-1))) (build_loop needle 0 (-1))"

partial_function (option) find_loop ::
    "byte list \<Rightarrow> int list \<Rightarrow> byte list \<Rightarrow> int \<Rightarrow> nat \<Rightarrow> int \<Rightarrow> int \<Rightarrow> int run" where
  "find_loop needle table buf off hlen i j =
     (if j < to_int hlen \<and> int (length needle) \<le> (int hlen - j + i) mod 2 ^ 64 then
        bind_run (fall_back needle table buf (off + j) i) (\<lambda>i'.
          if i' + 1 \<ge> to_int (length needle) then Some (Inr (j + 1 - (i' + 1)))
          else find_loop needle table buf off hlen (i' + 1) (j + 1))
      else Some (Inr (-1)))"

definition kmp_find :: "byte list \<Rightarrow> int \<Rightarrow> nat \<Rightarrow> byte list \<Rightarrow> int list \<Rightarrow> int run" where
  "kmp_find buf off hlen needle table = find_loop needle table buf off hlen 0 0"

text \<open>The same from right to left: the table is shifted by one, \<open>lim\<close> is the length of the needle.\<close>

partial_function (option) fall_backR :: "byte list \<Rightarrow> int list \<Rightarrow> int \<Rightarrow> byte list \<Rightarrow> int \<Rightarrow> int \<Rightarrow> int run" where
  "fall_backR needle table lim txt i j =
     (if j < lim then
        bind_run (Some (elem txt i)) (\<lambda>a.
        bind_run (Some (elem needle j)) (\<lambda>b.
          if a \<noteq> b then bind_run (Some (elem table (j + 1))) (\<lambda>j'. fall_backR needle table lim txt i j')
          else Some (Inr j)))
      else Some (Inr j))"

definition next_entryR :: "byte list \<Rightarrow> int list \<Rightarrow> int \<Rightarrow> int \<Rightarrow> int res" where
  "next_entryR needle table i j =
     (if i \<ge> 0 then
        bind_res (elem needle i) (\<lambda>a. bind_res (elem needle j) (\<lambda>b. if a = b then elem table (j + 1) else Inr j))
      else Inr j)"

partial_function (option) build_loopR :: "byte list \<Rightarrow> int \<Rightarrow> int \<Rightarrow> int list \<Rightarrow> int list run" where
  "build_loopR needle i j table =
     (if i \<ge> 0 then
        bind_run (fall_backR needle table (int (length needle)) needle i j) (\<lambda>j'.
        bind_run (Some (next_entryR needle table (i - 1) (j' - 1))) (\<lambda>v.
        bind_run (Some (put_elem table (i - 1 + 1) v)) (\<lambda>table'.
        build_loopR needle (i - 1) (j' - 1) table')))
      else Some (Inr table))"

definition BuildTableR :: "byte list \<Rightarrow> int list \<Rightarrow> int list run" where
  "BuildTableR needle table =
     (let i = int (length needle) - 1
      in bind_run (Some (put_elem table (i + 1) (i + 1))) (build_loopR needle i (i + 1)))"

partial_function (option) find_loopR :: "byte list \<Rightarrow> int list \<Rightarrow> byte list \<Rightarrow> int \<Rightarrow> int \<Rightarrow> int run" where
  "find_loopR needle table buf i j =
     (if j \<ge> 0 \<and> j \<ge> i then
        bind_run (fall_backR needle table (to_int (length needle)) buf j i) (\<lambda>i'.
          if i' - 1 < 0 then Some (Inr (j - 1 + 1)) else find_loopR needle table buf (i' - 1) (j - 1))
      else Some (Inr (-1)))"

definition kmp_findR :: "byte list \<Rightarrow> nat \<Rightarrow> byte list \<Rightarrow> int list \<Rightarrow> int run" where
  "kmp_findR buf hlen needle table = find_loopR needle table buf (int (length needle) - 1) (int hlen - 1)"

text \<open>Conversion to a \<open>long\<close>, and the position a search starts from.\<close>

definition to_long :: "int \<Rightarrow> int" where
  "to_long x = (x + 2 ^ 63) mod 2 ^ 64 - 2 ^ 63"

definition start_position :: "ut_string \<Rightarrow> int \<Rightarrow> int" where
  "start_position s st = (if st < 0 then to_long (uint (us_i s) + st) else st)"

text \<open>\<open>mem\<close> is what \<open>malloc\<close> returns for the table. An absent buffer is an address no read from which succeeds.\<close>

definition utstring_find :: "ut_string \<Rightarrow> int \<Rightarrow> byte list \<Rightarrow> int list option \<Rightarrow> int run" where
  "utstring_find s st needle mem =
     (let vst = start_position s st; hlen = to_long (uint (us_i s) - vst)
      in if hlen \<ge> int (length needle) \<and> length needle > 0 then
           (case mem of None \<Rightarrow> Some (Inr (-1))
            | Some table \<Rightarrow>
                bind_run (BuildTable needle table) (\<lambda>table'.
                bind_run (Some (buffer_bytes (us_d s))) (\<lambda>buf.
                bind_run (kmp_find buf vst (nat hlen) needle table') (\<lambda>pos.
                Some (Inr (if pos \<ge> 0 then pos + vst else pos))))))
         else Some (Inr (-1)))"

definition utstring_findR :: "ut_string \<Rightarrow> int \<Rightarrow> byte list \<Rightarrow> int list option \<Rightarrow> int run" where
  "utstring_findR s st needle mem =
     (let vst = start_position s st; hlen = vst + 1
      in if hlen \<ge> int (length needle) \<and> length needle > 0 then
           (case mem of None \<Rightarrow> Some (Inr (-1))
            | Some table \<Rightarrow>
                bind_run (BuildTableR needle table) (\<lambda>table'.
                bind_run (Some (buffer_bytes (us_d s))) (\<lambda>buf.
                kmp_findR buf (nat hlen) needle table')))
         else Some (Inr (-1)))"

section \<open>Borders\<close>

text \<open>The first \<open>y\<close> characters of the needle end in the text before position \<open>i\<close>.\<close>

definition ends_at :: "'a list \<Rightarrow> 'a list \<Rightarrow> nat \<Rightarrow> nat \<Rightarrow> bool" where
  "ends_at ndl txt i y \<longleftrightarrow> y \<le> i \<and> (\<forall>t < y. ndl ! t = txt ! (i - y + t))"

lemma ends_at_0 [simp]: "ends_at ndl txt i 0"
  by (simp add: ends_at_def)

lemma ends_atD: "ends_at ndl txt i y \<Longrightarrow> t < y \<Longrightarrow> ndl ! t = txt ! (i - y + t)"
  by (simp add: ends_at_def)

lemma ends_at_trans:
  assumes "ends_at ndl txt i x" "ends_at ndl ndl x y"
  shows "ends_at ndl txt i y"
proof -
  have "ndl ! t = txt ! (i - y + t)" if "t < y" for t
  proof -
    have "ndl ! t = ndl ! (x - y + t)" using assms(2) that by (rule ends_atD)
    also have "\<dots> = txt ! (i - x + (x - y + t))"
    proof (rule ends_atD [OF assms(1)])
      have "y \<le> x" using assms(2) by (simp add: ends_at_def)
      with that show "x - y + t < x" by linarith
    qed
    also have "i - x + (x - y + t) = i - y + t" using assms by (simp add: ends_at_def)
    finally show ?thesis .
  qed
  with assms show ?thesis by (auto simp: ends_at_def)
qed

lemma ends_at_shorter:
  assumes "ends_at ndl txt i x" "ends_at ndl txt i y" "y \<le> x"
  shows "ends_at ndl ndl x y"
proof -
  have "ndl ! t = ndl ! (x - y + t)" if "t < y" for t
  proof -
    have "ndl ! (x - y + t) = txt ! (i - x + (x - y + t))"
      using assms that by (intro ends_atD [OF assms(1)]) simp
    also have "i - x + (x - y + t) = i - y + t" using assms by (simp add: ends_at_def)
    finally show ?thesis using assms(2) that by (simp add: ends_at_def)
  qed
  with assms(3) show ?thesis by (simp add: ends_at_def)
qed

lemma ends_at_Suc: "ends_at ndl txt (Suc i) (Suc y) \<longleftrightarrow> ends_at ndl txt i y \<and> ndl ! y = txt ! i"
  by (auto simp: ends_at_def less_Suc_eq)

text \<open>
  The entry \<open>a - 1\<close> at \<open>x\<close> is the longest proper border of the first \<open>x\<close> characters after which the needle goes on
  differently than at \<open>x\<close>, or \<open>-1\<close>.
\<close>

definition entry_ok :: "'a list \<Rightarrow> nat \<Rightarrow> int \<Rightarrow> bool" where
  "entry_ok ndl x v \<longleftrightarrow> (\<exists>a. v = int a - 1 \<and> a \<le> x
     \<and> (\<forall>b. a = Suc b \<longrightarrow> ends_at ndl ndl x b \<and> ndl ! b \<noteq> ndl ! x)
     \<and> (\<forall>y. a \<le> y \<and> y < x \<and> ends_at ndl ndl x y \<longrightarrow> ndl ! y = ndl ! x))"

definition table_ok :: "'a list \<Rightarrow> int list \<Rightarrow> nat \<Rightarrow> bool" where
  "table_ok ndl table n \<longleftrightarrow> length table = Suc (length ndl) \<and> (\<forall>x < n. entry_ok ndl x (table ! x))"

lemma fall_back_ok:
  assumes "i < length txt" "a \<le> length needle" "\<And>b. a = Suc b \<Longrightarrow> ends_at needle txt i b"
    and "length table = Suc (length needle)" "\<And>x. x < a \<Longrightarrow> entry_ok needle x (table ! x)"
  shows "\<exists>r. fall_back needle table txt (int i) (int a - 1) = Some (Inr (int r - 1)) \<and> r \<le> a
    \<and> (\<forall>b. r = Suc b \<longrightarrow> ends_at needle txt i b \<and> needle ! b = txt ! i)
    \<and> (\<forall>y. r \<le> y \<and> y < a \<and> ends_at needle txt i y \<longrightarrow> needle ! y \<noteq> txt ! i)"
  using assms(2,3,5)
proof (induction a rule: less_induct)
  case (less a)
  show ?case
  proof (cases a)
    case 0
    then show ?thesis by (subst fall_back.simps) simp
  next
    case (Suc b)
    have e: "ends_at needle txt i b" by (rule less.prems(2) [OF Suc])
    have b: "b < length needle" using less.prems(1) Suc by simp
    have rd: "elem txt (int i) = Inr (txt ! i)" "elem needle (int b) = Inr (needle ! b)" "elem table (int b) = Inr (table ! b)"
      using assms(1,4) b by (simp_all add: elem_def)
    have j: "int a - 1 = int b" using Suc by simp
    have step: "fall_back needle table txt (int i) (int a - 1) =
        (if txt ! i \<noteq> needle ! b then fall_back needle table txt (int i) (table ! b) else Some (Inr (int b)))"
      unfolding j by (subst fall_back.simps) (simp add: rd)
    show ?thesis
    proof (cases "txt ! i = needle ! b")
      case True
      then show ?thesis using step e unfolding Suc by (intro exI [of _ "Suc b"]) auto
    next
      case False
      have "entry_ok needle b (table ! b)" using less.prems(3) Suc by simp
      then obtain c where c: "table ! b = int c - 1" "c \<le> b" "\<And>d. c = Suc d \<Longrightarrow> ends_at needle needle b d"
        "\<And>y. c \<le> y \<Longrightarrow> y < b \<Longrightarrow> ends_at needle needle b y \<Longrightarrow> needle ! y = needle ! b"
        unfolding entry_ok_def by blast
      have "\<exists>r. fall_back needle table txt (int i) (int c - 1) = Some (Inr (int r - 1)) \<and> r \<le> c
        \<and> (\<forall>b. r = Suc b \<longrightarrow> ends_at needle txt i b \<and> needle ! b = txt ! i)
        \<and> (\<forall>y. r \<le> y \<and> y < c \<and> ends_at needle txt i y \<longrightarrow> needle ! y \<noteq> txt ! i)"
        using c(2) Suc b less.prems(3) ends_at_trans [OF e c(3)] by (intro less.IH) simp_all
      then obtain r where r: "fall_back needle table txt (int i) (int c - 1) = Some (Inr (int r - 1))" "r \<le> c"
        "\<And>b. r = Suc b \<Longrightarrow> ends_at needle txt i b \<and> needle ! b = txt ! i"
        "\<And>y. r \<le> y \<Longrightarrow> y < c \<Longrightarrow> ends_at needle txt i y \<Longrightarrow> needle ! y \<noteq> txt ! i" by blast
      have "needle ! y \<noteq> txt ! i" if y: "r \<le> y" "y < a" "ends_at needle txt i y" for y
      proof -
        consider "y < c" | "c \<le> y" "y < b" | "y = b" using y(2) Suc by linarith
        then show ?thesis
        proof cases
          case 1
          then show ?thesis by (rule r(4) [OF y(1) _ y(3)])
        next
          case 2
          have "ends_at needle needle b y" using ends_at_shorter [OF e y(3)] 2 by simp
          then show ?thesis using c(4) [OF 2] False by simp
        next
          case 3
          with False show ?thesis by simp
        qed
      qed
      then show ?thesis using step False r(1,2,3) c Suc by (intro exI [of _ r]) simp
    qed
  qed
qed

section \<open>The table\<close>

text \<open>\<open>j\<close> is the longest proper border of the first \<open>i\<close> characters, \<open>-1\<close> for \<open>i = 0\<close>.\<close>

definition longest :: "'a list \<Rightarrow> nat \<Rightarrow> nat \<Rightarrow> bool" where
  "longest ndl i a \<longleftrightarrow> a \<le> i \<and> (\<forall>b. a = Suc b \<longrightarrow> ends_at ndl ndl i b) \<and> (\<forall>y. a \<le> y \<and> y < i \<longrightarrow> \<not> ends_at ndl ndl i y)"

lemma longest_0: "longest ndl 0 0"
  by (simp add: longest_def)

lemma longest_Suc:
  assumes "longest ndl i a" "r \<le> a" "\<And>b. r = Suc b \<Longrightarrow> ends_at ndl ndl i b \<and> ndl ! b = ndl ! i"
    and "\<And>y. r \<le> y \<Longrightarrow> y < a \<Longrightarrow> ends_at ndl ndl i y \<Longrightarrow> ndl ! y \<noteq> ndl ! i"
  shows "longest ndl (Suc i) (Suc r)"
  unfolding longest_def
proof (intro conjI allI impI)
  show "Suc r \<le> Suc i" using assms(1,2) by (simp add: longest_def)
  show "ends_at ndl ndl (Suc i) b" if "Suc r = Suc b" for b
  proof (cases b)
    case (Suc c)
    then have "r = Suc c" using that by simp
    from assms(3) [OF this] show ?thesis unfolding Suc ends_at_Suc by simp
  qed simp
  show "\<not> ends_at ndl ndl (Suc i) y" if y: "Suc r \<le> y \<and> y < Suc i" for y
  proof
    assume *: "ends_at ndl ndl (Suc i) y"
    obtain z where z: "y = Suc z" using y by (cases y) auto
    with * have e: "ends_at ndl ndl i z" "ndl ! z = ndl ! i" by (simp_all add: ends_at_Suc)
    show False
    proof (cases "z < a")
      case True
      with e y z show False using assms(4) [of z] by simp
    next
      case False
      with e y z assms(1) show False by (simp add: longest_def)
    qed
  qed
qed

lemma next_entry_ok:
  assumes "table_ok ndl table i" "longest ndl i (Suc j)" "j < i" "i < length ndl"
  shows "\<exists>v. next_entry ndl table (int i) (int j) = Inr v \<and> entry_ok ndl i v"
proof -
  have b: "ends_at ndl ndl i j" "\<And>y. j < y \<Longrightarrow> y < i \<Longrightarrow> \<not> ends_at ndl ndl i y"
    using assms(2) by (simp_all add: longest_def)
  have rd: "elem ndl (int i) = Inr (ndl ! i)" "elem ndl (int j) = Inr (ndl ! j)" "elem table (int j) = Inr (table ! j)"
    using assms(1,3,4) by (simp_all add: elem_def table_ok_def)
  show ?thesis
  proof (cases "ndl ! i = ndl ! j")
    case False
    have "entry_ok ndl i (int j)" unfolding entry_ok_def
      using assms(3) b False by (intro exI [of _ "Suc j"]) auto
    with rd False assms(4) show ?thesis by (simp add: next_entry_def)
  next
    case True
    from assms(1,3) have "entry_ok ndl j (table ! j)" by (simp add: table_ok_def)
    then obtain c where c: "table ! j = int c - 1" "c \<le> j" "\<And>d. c = Suc d \<Longrightarrow> ends_at ndl ndl j d \<and> ndl ! d \<noteq> ndl ! j"
      "\<And>y. c \<le> y \<Longrightarrow> y < j \<Longrightarrow> ends_at ndl ndl j y \<Longrightarrow> ndl ! y = ndl ! j"
      unfolding entry_ok_def by blast
    have 1: "ends_at ndl ndl i d \<and> ndl ! d \<noteq> ndl ! i" if "c = Suc d" for d
      using ends_at_trans [OF b(1)] c(3) [OF that] True by simp
    have 2: "ndl ! y = ndl ! i" if "c \<le> y" "y < i" "ends_at ndl ndl i y" for y
    proof -
      have "y \<le> j" using b(2) that(2,3) by (meson not_le)
      show ?thesis
      proof (cases "y = j")
        case True
        with \<open>ndl ! i = ndl ! j\<close> show ?thesis by simp
      next
        case False
        with \<open>y \<le> j\<close> have "y < j" by simp
        with c(4) [OF that(1) this] ends_at_shorter [OF b(1) that(3) \<open>y \<le> j\<close>] True show ?thesis by simp
      qed
    qed
    have "entry_ok ndl i (table ! j)" unfolding entry_ok_def
      using c(1,2) assms(3) 1 2 by (intro exI [of _ c]) auto
    with rd True assms(4) show ?thesis by (simp add: next_entry_def)
  qed
qed

lemma build_loop_ok:
  assumes "table_ok ndl table (Suc i)" "longest ndl i a" "i \<le> length ndl"
  shows "\<exists>table'. build_loop ndl (int i) (int a - 1) table = Some (Inr table') \<and> table_ok ndl table' (length ndl)"
  using assms
proof (induction "length ndl - i" arbitrary: i a table)
  case 0
  then have "i = length ndl" by simp
  with 0 show ?case by (subst build_loop.simps) (auto simp: table_ok_def)
next
  case (Suc n)
  then have i: "i < length ndl" by simp
  have a: "a \<le> i" "\<And>b. a = Suc b \<Longrightarrow> ends_at ndl ndl i b" using Suc.prems(2) by (auto simp: longest_def)
  have t: "length table = Suc (length ndl)" "\<And>x. x < a \<Longrightarrow> entry_ok ndl x (table ! x)"
    using Suc.prems(1) a(1) by (simp_all add: table_ok_def)
  have al: "a \<le> length ndl" using a(1) i by simp
  obtain r where r: "fall_back ndl table ndl (int i) (int a - 1) = Some (Inr (int r - 1))" "r \<le> a"
    "\<And>b. r = Suc b \<Longrightarrow> ends_at ndl ndl i b \<and> ndl ! b = ndl ! i"
    "\<And>y. r \<le> y \<Longrightarrow> y < a \<Longrightarrow> ends_at ndl ndl i y \<Longrightarrow> ndl ! y \<noteq> ndl ! i"
    using fall_back_ok [of i ndl a ndl table, OF i al] a(2) t by auto
  have l: "longest ndl (Suc i) (Suc r)" by (rule longest_Suc [OF Suc.prems(2) r(2-4)])
  have ri: "r < Suc i" using r(2) a(1) by simp
  have "\<exists>v. next_entry ndl table (int (Suc i)) (int r) = Inr v \<and> (Suc i < length ndl \<longrightarrow> entry_ok ndl (Suc i) v)"
  proof (cases "Suc i < length ndl")
    case True
    with next_entry_ok [OF Suc.prems(1) l ri] show ?thesis by blast
  next
    case False
    then show ?thesis by (auto simp: next_entry_def)
  qed
  then obtain v where v: "next_entry ndl table (int (Suc i)) (int r) = Inr v" "Suc i < length ndl \<Longrightarrow> entry_ok ndl (Suc i) v"
    by blast
  let ?t = "table[Suc i := v]"
  have p: "put_elem table (int (Suc i)) v = Inr ?t" using t(1) i by (simp add: put_elem_def del: of_nat_Suc)
  have ok: "table_ok ndl ?t (if Suc i < length ndl then Suc (Suc i) else Suc i)"
    using Suc.prems(1) v(2) by (auto simp: table_ok_def nth_list_update less_Suc_eq)
  have step: "build_loop ndl (int i) (int a - 1) table = build_loop ndl (int (Suc i)) (int (Suc r) - 1) ?t"
    using i r(1) v(1) p by (subst build_loop.simps) (simp add: add.commute)
  show ?case
  proof (cases "Suc i < length ndl")
    case True
    with ok have "table_ok ndl ?t (Suc (Suc i))" by simp
    from Suc.hyps(1) [OF _ this l] True Suc.hyps(2) step show ?thesis by auto
  next
    case False
    with i have n: "Suc i = length ndl" by simp
    have "build_loop ndl (int (Suc i)) (int (Suc r) - 1) ?t = Some (Inr ?t)"
      unfolding n by (subst build_loop.simps) simp
    with ok step n show ?thesis by simp
  qed
qed

lemma BuildTable_ok:
  assumes "length table = Suc (length ndl)"
  shows "\<exists>table'. BuildTable ndl table = Some (Inr table') \<and> table_ok ndl table' (length ndl)"
proof -
  let ?t = "table[0 := -1]"
  have "entry_ok ndl 0 (-1)" by (simp add: entry_ok_def)
  with assms have "table_ok ndl ?t (Suc 0)" by (simp add: table_ok_def)
  from build_loop_ok [OF this longest_0] assms show ?thesis by (simp add: BuildTable_def put_elem_def)
qed

section \<open>The search\<close>

text \<open>The needle is at position \<open>p\<close> of the \<open>hlen\<close> characters from \<open>off\<close> on.\<close>

definition occ_at :: "'a list \<Rightarrow> 'a list \<Rightarrow> nat \<Rightarrow> nat \<Rightarrow> nat \<Rightarrow> bool" where
  "occ_at ndl buf off hlen p \<longleftrightarrow> p + length ndl \<le> hlen \<and> ends_at ndl buf (off + p + length ndl) (length ndl)"

lemma occ_atD:
  assumes "occ_at ndl buf off hlen p" "t < length ndl"
  shows "ndl ! t = buf ! (off + p + t)"
  using ends_atD [of ndl buf _ _ t] assms by (fastforce simp: occ_at_def)

lemma occ_ends_at:
  assumes "occ_at ndl buf off hlen p" "y < length ndl"
  shows "ends_at ndl buf (off + p + y) y"
  using occ_atD [OF assms(1)] assms(2) by (simp add: ends_at_def)

lemma to_int_small: "n < 2 ^ 31 \<Longrightarrow> to_int n = int n"
  by (simp add: to_int_def sint32 unat_of_nat_small)

lemma find_loop_ok:
  assumes tab: "table_ok ndl table (length ndl)" and small: "length ndl < 2 ^ 31" "hlen < 2 ^ 31"
    and buf: "off + hlen \<le> length buf"
    and "i < length ndl" "i \<le> j" "j \<le> hlen" "ends_at ndl buf (off + j) i"
    and "\<And>p. occ_at ndl buf off hlen p \<Longrightarrow> j \<le> p + i"
  shows "\<exists>r. find_loop ndl table buf (int off) hlen (int i) (int j) = Some (Inr r)
    \<and> (r = -1 \<and> (\<forall>p. \<not> occ_at ndl buf off hlen p)
       \<or> (\<exists>p. r = int p \<and> occ_at ndl buf off hlen p \<and> (\<forall>q < p. \<not> occ_at ndl buf off hlen q)))"
  using assms(5-9)
proof (induction "hlen - j" arbitrary: i j rule: less_induct)
  case less
  let ?occ = "occ_at ndl buf off hlen"
  have tl: "to_int hlen = int hlen" "to_int (length ndl) = int (length ndl)" using small by (simp_all add: to_int_small)
  have md: "(int hlen - int j + int i) mod 2 ^ 64 = int hlen - int j + int i"
    using less.prems(1,2,3) small by (intro mod_pos_pos_trivial) simp_all
  have cond: "(int j < to_int hlen \<and> int (length ndl) \<le> (int hlen - int j + int i) mod 2 ^ 64)
      = (j < hlen \<and> length ndl + j \<le> hlen + i)"
    unfolding md tl by linarith
  show ?case
  proof (cases "j < hlen \<and> length ndl + j \<le> hlen + i")
    case False
    have "\<not> ?occ p" for p
    proof
      assume o: "?occ p"
      with less.prems(5) have "j \<le> p + i" by blast
      moreover have "p + length ndl \<le> hlen" using o by (simp add: occ_at_def)
      ultimately show False using False less.prems(1) by linarith
    qed
    moreover have "find_loop ndl table buf (int off) hlen (int i) (int j) = Some (Inr (-1))"
      using False by (subst find_loop.simps) (simp only: cond if_False)
    ultimately show ?thesis by blast
  next
    case True
    have pos: "off + j < length buf" using True buf by simp
    have a: "Suc i \<le> length ndl" "\<And>b. Suc i = Suc b \<Longrightarrow> ends_at ndl buf (off + j) b" using less.prems(1,4) by simp_all
    have t: "length table = Suc (length ndl)" "\<And>x. x < Suc i \<Longrightarrow> entry_ok ndl x (table ! x)"
      using tab less.prems(1) by (simp_all add: table_ok_def)
    obtain r where r: "fall_back ndl table buf (int (off + j)) (int i) = Some (Inr (int r - 1))" "r \<le> Suc i"
      "\<And>b. r = Suc b \<Longrightarrow> ends_at ndl buf (off + j) b \<and> ndl ! b = buf ! (off + j)"
      "\<And>y. r \<le> y \<Longrightarrow> y < Suc i \<Longrightarrow> ends_at ndl buf (off + j) y \<Longrightarrow> ndl ! y \<noteq> buf ! (off + j)"
      using fall_back_ok [of "off + j" buf "Suc i" ndl table, OF pos a(1)] a(2) t by auto
    have step: "find_loop ndl table buf (int off) hlen (int i) (int j) = (if length ndl \<le> r
        then Some (Inr (int j + 1 - int r)) else find_loop ndl table buf (int off) hlen (int r) (int (Suc j)))"
      using True r(1) by (subst find_loop.simps, unfold cond) (simp add: tl add.commute)
    have before: "Suc j \<le> p + r" if o: "?occ p" for p
    proof (rule ccontr)
      assume "\<not> Suc j \<le> p + r"
      then have le: "p + r \<le> j" by simp
      define y where "y = j - p"
      have y: "j = p + y" "r \<le> y" "y < Suc i" using le less.prems(5) [OF o] by (auto simp: y_def)
      then have ym: "y < length ndl" using less.prems(1) by simp
      have "ends_at ndl buf (off + j) y" using occ_ends_at [OF o ym] y(1) by (simp add: add.assoc)
      with r(4) y(2,3) have "ndl ! y \<noteq> buf ! (off + j)" by blast
      with occ_atD [OF o ym] y(1) show False by (simp add: add.assoc)
    qed
    have e: "ends_at ndl buf (off + Suc j) r"
    proof (cases r)
      case (Suc b)
      with r(3) show ?thesis by (simp add: ends_at_Suc)
    qed simp
    show ?thesis
    proof (cases "length ndl \<le> r")
      case True
      with r(2) less.prems(1) have rm: "r = length ndl" by simp
      define p where "p = Suc j - r"
      have p: "Suc j = p + r" using r(2) less.prems(2) by (simp add: p_def)
      have "off + p + length ndl = off + Suc j" using p rm by simp
      then have "?occ p" using e p rm \<open>j < hlen \<and> _\<close> by (simp add: occ_at_def add.assoc)
      moreover have "\<not> ?occ q" if "q < p" for q using before [of q] that p by auto
      moreover have "int j + 1 - int r = int p" using p by linarith
      ultimately show ?thesis using step True by auto
    next
      case False
      have "hlen - Suc j < hlen - j" "r < length ndl" "r \<le> Suc j" "Suc j \<le> hlen"
        using False \<open>j < hlen \<and> _\<close> r(2) less.prems(2) by auto
      from less.hyps [OF this e before] step False show ?thesis by simp
    qed
  qed
qed

section \<open>Right to left\<close>

text \<open>The table of the mirror image.\<close>

definition mirrored :: "int list \<Rightarrow> int list" where
  "mirrored table = map (\<lambda>v. int (length table) - 2 - v) (rev table)"

lemma length_mirrored [simp]: "length (mirrored table) = length table"
  by (simp add: mirrored_def)

lemma elem_nat: "k < length xs \<Longrightarrow> elem xs (int k) = Inr (xs ! k)"
  by (simp add: elem_def)

lemma elem_rev: "k < length xs \<Longrightarrow> elem (rev xs) (int k) = elem xs (int (length xs) - 1 - int k)"
proof -
  assume k: "k < length xs"
  then have "int (length xs) - 1 - int k = int (length xs - 1 - k)" by simp
  with k show ?thesis by (simp only: elem_nat length_rev) (simp add: elem_nat rev_nth)
qed

lemma elem_mirrored:
  assumes "k < length table"
  shows "elem (mirrored table) (int (length table) - 1 - int k) = Inr (int (length table) - 2 - table ! k)"
proof -
  have "int (length table) - 1 - int k = int (length table - 1 - k)" using assms by simp
  with assms show ?thesis by (simp only: elem_nat length_mirrored) (simp add: elem_nat mirrored_def rev_nth)
qed

lemma put_mirrored:
  assumes "k < length table"
  shows "put_elem (mirrored table) (int (length table) - 1 - int k) (int (length table) - 2 - v) = Inr (mirrored (table[k := v]))"
proof -
  have i: "int (length table) - 1 - int k = int (length table - 1 - k)" using assms by simp
  have "mirrored (table[k := v]) = (mirrored table)[length table - 1 - k := int (length table) - 2 - v]"
    using assms by (simp add: mirrored_def rev_update map_update)
  moreover have "length table - Suc k < length table" using assms by linarith
  ultimately show ?thesis unfolding i by (simp add: put_elem_def)
qed

text \<open>Entries point back.\<close>

definition points_back :: "int list \<Rightarrow> nat \<Rightarrow> bool" where
  "points_back table n \<longleftrightarrow> (\<forall>x < n. \<exists>a \<le> x. table ! x = int a - 1)"

lemma table_points_back: "table_ok ndl table n \<Longrightarrow> points_back table n"
  by (auto simp: table_ok_def points_back_def entry_ok_def)

lemma fall_back_mirror:
  assumes "length table = Suc (length ndl)" "i < length txt" "a \<le> length ndl" "points_back table a"
  shows "\<exists>r \<le> a. fall_back (rev ndl) table (rev txt) (int i) (int a - 1) = Some (Inr (int r - 1))
    \<and> fall_backR ndl (mirrored table) (int (length ndl)) txt (int (length txt) - 1 - int i) (int (length ndl) - int a)
      = Some (Inr (int (length ndl) - int r))"
  using assms(3,4)
proof (induction a rule: less_induct)
  case (less a)
  show ?case
  proof (cases a)
    case 0
    then show ?thesis by (subst fall_back.simps, subst fall_backR.simps) simp
  next
    case (Suc b)
    have b: "b < length ndl" using less.prems(1) Suc by simp
    have ja: "int a - 1 = int b" "int (length ndl) - int a = int (length ndl) - 1 - int b" using Suc by simp_all
    define c d where "c = rev txt ! i" and "d = rev ndl ! b"
    have rd: "elem (rev txt) (int i) = Inr c" "elem (rev ndl) (int b) = Inr d" "elem table (int b) = Inr (table ! b)"
      using assms(1,2) b by (simp_all add: elem_nat c_def d_def)
    have rdR: "elem txt (int (length txt) - 1 - int i) = Inr c" "elem ndl (int (length ndl) - 1 - int b) = Inr d"
      using rd(1,2) elem_rev [OF assms(2)] elem_rev [OF b] by simp_all
    have rdT: "elem (mirrored table) (int (length ndl) - 1 - int b + 1) = Inr (int (length ndl) - 1 - table ! b)"
      using elem_mirrored [of b table] assms(1) b by simp
    have stepL: "fall_back (rev ndl) table (rev txt) (int i) (int a - 1)
        = (if c \<noteq> d then fall_back (rev ndl) table (rev txt) (int i) (table ! b) else Some (Inr (int b)))"
      unfolding ja(1) by (subst fall_back.simps) (simp add: rd)
    have stepR: "fall_backR ndl (mirrored table) (int (length ndl)) txt (int (length txt) - 1 - int i) (int (length ndl) - int a)
        = (if c \<noteq> d then fall_backR ndl (mirrored table) (int (length ndl)) txt (int (length txt) - 1 - int i) (int (length ndl) - 1 - table ! b)
           else Some (Inr (int (length ndl) - 1 - int b)))"
      unfolding ja(2) using rdT by (subst fall_backR.simps) (simp add: rdR)
    obtain e where e: "e \<le> b" "table ! b = int e - 1" using less.prems(2) Suc by (auto simp: points_back_def)
    have je: "int (length ndl) - 1 - (int e - 1) = int (length ndl) - int e" by simp
    have "points_back table e" using less.prems(2) e(1) Suc by (simp add: points_back_def)
    then obtain r where r: "r \<le> e" "fall_back (rev ndl) table (rev txt) (int i) (int e - 1) = Some (Inr (int r - 1))"
      "fall_backR ndl (mirrored table) (int (length ndl)) txt (int (length txt) - 1 - int i) (int (length ndl) - int e)
        = Some (Inr (int (length ndl) - int r))"
      using less.IH [of e] e(1) b Suc by auto
    show ?thesis
    proof (cases "c = d")
      case True
      then show ?thesis using stepL stepR Suc by (intro exI [of _ a]) simp
    next
      case False
      with stepL stepR r e(1) Suc show ?thesis
        unfolding e(2) je by (intro exI [of _ r]) simp
    qed
  qed
qed

lemma next_entry_mirror:
  assumes "length table = Suc (length ndl)" "j < i" "i \<le> length ndl" "points_back table i"
  shows "\<exists>v. next_entry (rev ndl) table (int i) (int j) = Inr v
    \<and> next_entryR ndl (mirrored table) (int (length ndl) - 1 - int i) (int (length ndl) - 1 - int j) = Inr (int (length ndl) - 1 - v)
    \<and> (\<exists>a \<le> i. v = int a - 1)"
proof (cases "i < length ndl")
  case False
  then show ?thesis using assms(2,3) by (intro exI [of _ "int j"]) (auto simp: next_entry_def next_entryR_def intro!: exI [of _ "Suc j"])
next
  case True
  then have j: "j < length ndl" using assms(2) by simp
  define c d where "c = rev ndl ! i" and "d = rev ndl ! j"
  have rd: "elem (rev ndl) (int i) = Inr c" "elem (rev ndl) (int j) = Inr d" "elem table (int j) = Inr (table ! j)"
    using assms(1) True j by (simp_all add: elem_nat c_def d_def)
  have rdR: "elem ndl (int (length ndl) - 1 - int i) = Inr c" "elem ndl (int (length ndl) - 1 - int j) = Inr d"
    using rd(1,2) elem_rev [OF True] elem_rev [OF j] by simp_all
  have rdT: "elem (mirrored table) (int (length ndl) - 1 - int j + 1) = Inr (int (length ndl) - 1 - table ! j)"
    using elem_mirrored [of j table] assms(1) j by simp
  obtain e where e: "e \<le> j" "table ! j = int e - 1" using assms(2,4) by (auto simp: points_back_def)
  let ?v = "if c = d then table ! j else int j"
  have "\<exists>a \<le> i. ?v = int a - 1"
  proof (cases "c = d")
    case True
    with e assms(2) show ?thesis by (intro exI [of _ e]) simp
  next
    case False
    with assms(2) show ?thesis by (intro exI [of _ "Suc j"]) simp
  qed
  then show ?thesis using True rd rdR rdT by (intro exI [of _ ?v]) (simp add: next_entry_def next_entryR_def)
qed

lemma build_mirror:
  assumes "length table = Suc (length ndl)" "points_back table (Suc i)" "a \<le> i" "i \<le> length ndl"
  shows "\<exists>table'. build_loop (rev ndl) (int i) (int a - 1) table = Some (Inr table')
    \<and> build_loopR ndl (int (length ndl) - 1 - int i) (int (length ndl) - int a) (mirrored table) = Some (Inr (mirrored table'))"
  using assms
proof (induction "length ndl - i" arbitrary: i a table)
  case 0
  then have "i = length ndl" by simp
  then show ?case by (subst build_loop.simps, subst build_loopR.simps) simp
next
  case (Suc n)
  then have i: "i < length ndl" by simp
  let ?M = "int (length ndl)"
  have "points_back table a" using Suc.prems(2,3) by (simp add: points_back_def)
  then obtain r where r: "r \<le> a" "fall_back (rev ndl) table (rev ndl) (int i) (int a - 1) = Some (Inr (int r - 1))"
    "fall_backR ndl (mirrored table) ?M ndl (?M - 1 - int i) (?M - int a) = Some (Inr (?M - int r))"
    using fall_back_mirror [OF Suc.prems(1) i, of a] Suc.prems(3,4) by auto
  have ri: "r < Suc i" using r(1) Suc.prems(3) by simp
  obtain v where v: "next_entry (rev ndl) table (int (Suc i)) (int r) = Inr v"
    "next_entryR ndl (mirrored table) (?M - 1 - int (Suc i)) (?M - 1 - int r) = Inr (?M - 1 - v)" "\<exists>a \<le> Suc i. v = int a - 1"
    using next_entry_mirror [OF Suc.prems(1) ri _ Suc.prems(2)] i by auto
  let ?t = "table[Suc i := v]"
  have p: "put_elem table (int (Suc i)) v = Inr ?t"
    using Suc.prems(1) i by (simp add: put_elem_def del: of_nat_Suc)
  have pR: "put_elem (mirrored table) (?M - 1 - int i) (?M - 1 - v) = Inr (mirrored ?t)"
    using put_mirrored [of "Suc i" table v] Suc.prems(1) i by (simp add: algebra_simps)
  have a1: "int i + 1 = int (Suc i)" "int r - 1 + 1 = int r" "int r = int (Suc r) - 1"
    "?M - 1 - int i - 1 = ?M - 1 - int (Suc i)" "?M - int r - 1 = ?M - 1 - int r" "?M - 1 - int (Suc i) + 1 = ?M - 1 - int i"
    "?M - 1 - int r = ?M - int (Suc r)" by simp_all
  have stepL: "build_loop (rev ndl) (int i) (int a - 1) table = build_loop (rev ndl) (int (Suc i)) (int (Suc r) - 1) ?t"
    using i r(2) v(1) p by (subst build_loop.simps) (simp only: a1(1,2) length_rev of_nat_less_iff if_True bind_run_simps a1(3) [symmetric])
  have stepR: "build_loopR ndl (?M - 1 - int i) (?M - int a) (mirrored table)
      = build_loopR ndl (?M - 1 - int (Suc i)) (?M - int (Suc r)) (mirrored ?t)"
  proof -
    have "0 \<le> ?M - 1 - int i" using i by simp
    then show ?thesis using r(3) v(2) pR
      by (subst build_loopR.simps) (simp only: if_True bind_run_simps a1(4,5,6) a1(7) [symmetric])
  qed
  have len: "length ?t = Suc (length ndl)" using Suc.prems(1) by simp
  have pb: "points_back ?t (Suc (Suc i))"
  proof -
    have "\<exists>a \<le> x. ?t ! x = int a - 1" if "x < Suc (Suc i)" for x
    proof (cases "x = Suc i")
      case True
      with Suc.prems(1) i v(3) show ?thesis by simp
    next
      case False
      with that Suc.prems(2) show ?thesis by (simp add: points_back_def)
    qed
    then show ?thesis by (simp add: points_back_def)
  qed
  have n: "n = length ndl - Suc i" "Suc r \<le> Suc i" "Suc i \<le> length ndl" using Suc.hyps(2) ri i by simp_all
  from Suc.hyps(1) [OF n(1) len pb n(2,3)] show ?case unfolding stepL stepR .
qed

lemma BuildTableR_ok:
  assumes "length table = Suc (length ndl)" "0 < length ndl"
  shows "\<exists>table'. BuildTableR ndl table = Some (Inr (mirrored table')) \<and> table_ok (rev ndl) table' (length ndl)"
proof -
  let ?u = "mirrored table"
  have m: "mirrored ?u = table" using assms(1) by (intro nth_equalityI) (simp_all add: mirrored_def rev_nth)
  let ?t = "?u[0 := -1]"
  have "entry_ok (rev ndl) 0 (-1)" by (simp add: entry_ok_def)
  with assms have ok: "table_ok (rev ndl) ?t (Suc 0)" by (simp add: table_ok_def)
  obtain t1 where t1: "build_loop (rev ndl) 0 (-1) ?t = Some (Inr t1)" "table_ok (rev ndl) t1 (length ndl)"
    using build_loop_ok [OF ok longest_0] by auto
  obtain t2 where "build_loop (rev ndl) 0 (-1) ?t = Some (Inr t2)"
    "build_loopR ndl (int (length ndl) - 1) (int (length ndl)) (mirrored ?t) = Some (Inr (mirrored t2))"
    using build_mirror [of ?t ndl 0 0, OF _ table_points_back [OF ok]] assms(1) by auto
  with t1 have b: "build_loopR ndl (int (length ndl) - 1) (int (length ndl)) (mirrored ?t) = Some (Inr (mirrored t1))" by simp
  have "put_elem table (int (length ndl)) (int (length ndl)) = Inr (mirrored ?t)"
  proof -
    have l: "0 < length ?u" "int (length ?u) - 1 - int 0 = int (length ndl)" "int (length ?u) - 2 - (-1) = int (length ndl)"
      using assms(1) by simp_all
    show ?thesis using put_mirrored [OF l(1), of "-1"] unfolding m l(2,3) .
  qed
  with b t1(2) show ?thesis by (intro exI [of _ t1]) (simp add: BuildTableR_def Let_def)
qed

lemma find_mirror:
  assumes t: "length table = Suc (length ndl)" "points_back table (length ndl)"
    and small: "length ndl < 2 ^ 31" "hlen < 2 ^ 31" and buf: "hlen \<le> length buf"
    and "i < length ndl" "i \<le> j" "j \<le> hlen"
  shows "\<exists>r. find_loop (rev ndl) table (rev buf) (int (length buf) - int hlen) hlen (int i) (int j) = Some (Inr r)
    \<and> find_loopR ndl (mirrored table) buf (int (length ndl) - 1 - int i) (int hlen - 1 - int j)
      = Some (Inr (if r = -1 then -1 else int hlen - int (length ndl) - r)) \<and> (r = -1 \<or> 0 \<le> r)"
  using assms(6-8)
proof (induction "hlen - j" arbitrary: i j rule: less_induct)
  case less
  let ?M = "int (length ndl)"
  have tl: "to_int hlen = int hlen" "to_int (length ndl) = ?M" using small by (simp_all add: to_int_small)
  have md: "(int hlen - int j + int i) mod 2 ^ 64 = int hlen - int j + int i"
    using less.prems small by (intro mod_pos_pos_trivial) simp_all
  have cond: "(int j < to_int hlen \<and> int (length (rev ndl)) \<le> (int hlen - int j + int i) mod 2 ^ 64)
      = (j < hlen \<and> length ndl + j \<le> hlen + i)" unfolding md tl length_rev by linarith
  have condR: "(0 \<le> int hlen - 1 - int j \<and> ?M - 1 - int i \<le> int hlen - 1 - int j) = (j < hlen \<and> length ndl + j \<le> hlen + i)"
    by linarith
  show ?case
  proof (cases "j < hlen \<and> length ndl + j \<le> hlen + i")
    case False
    then show ?thesis
      by (subst find_loop.simps, subst find_loopR.simps) (simp only: cond condR if_False, simp)
  next
    case True
    let ?k = "length buf - hlen + j"
    have k: "?k < length buf" using True buf by linarith
    have ks: "int (length buf) - int hlen + int j = int ?k" "int (length buf) - 1 - int ?k = int hlen - 1 - int j"
      using buf by simp_all
    have a: "Suc i \<le> length ndl" using less.prems(1) by simp
    have pb: "points_back table (Suc i)" using t(2) a by (simp add: points_back_def)
    have mi: "int (Suc i) - 1 = int i" "?M - int (Suc i) = ?M - 1 - int i" by simp_all
    from fall_back_mirror [OF t(1) k a pb] obtain r where r: "r \<le> Suc i"
      "fall_back (rev ndl) table (rev buf) (int ?k) (int i) = Some (Inr (int r - 1))"
      "fall_backR ndl (mirrored table) ?M buf (int hlen - 1 - int j) (?M - 1 - int i) = Some (Inr (?M - int r))"
      unfolding ks(2) mi by blast
    have stepL: "find_loop (rev ndl) table (rev buf) (int (length buf) - int hlen) hlen (int i) (int j) = (if length ndl \<le> r
        then Some (Inr (int j + 1 - int r))
        else find_loop (rev ndl) table (rev buf) (int (length buf) - int hlen) hlen (int r) (int (Suc j)))"
      using True r(2) by (subst find_loop.simps, unfold cond ks(1)) (simp add: tl add.commute)
    have stepR: "find_loopR ndl (mirrored table) buf (?M - 1 - int i) (int hlen - 1 - int j) = (if length ndl \<le> r
        then Some (Inr (int hlen - 1 - int j))
        else find_loopR ndl (mirrored table) buf (?M - 1 - int r) (int hlen - 1 - int (Suc j)))"
      using True r(3) by (subst find_loopR.simps, unfold condR tl) (auto simp: algebra_simps)
    show ?thesis
    proof (cases "length ndl \<le> r")
      case True
      with r(1) a have "r = length ndl" by simp
      with stepL stepR True less.prems r(1) show ?thesis by (intro exI [of _ "int j + 1 - int r"]) auto
    next
      case False
      have "hlen - Suc j < hlen - j" "r < length ndl" "r \<le> Suc j" "Suc j \<le> hlen"
        using False \<open>j < hlen \<and> _\<close> r(1) less.prems(2) by auto
      from less.hyps [OF this] False show ?thesis unfolding stepL stepR by simp
    qed
  qed
qed

section \<open>What the searches find\<close>

definition occurs :: "'a list \<Rightarrow> 'a list \<Rightarrow> nat \<Rightarrow> bool" where
  "occurs ndl xs p \<longleftrightarrow> p + length ndl \<le> length xs \<and> take (length ndl) (drop p xs) = ndl"

definition first_occurrence :: "'a list \<Rightarrow> 'a list \<Rightarrow> nat \<Rightarrow> int" where
  "first_occurrence ndl xs st = (case find (occurs ndl xs) [st..<Suc (length xs)] of None \<Rightarrow> -1 | Some p \<Rightarrow> int p)"

definition last_occurrence :: "'a list \<Rightarrow> 'a list \<Rightarrow> int" where
  "last_occurrence ndl xs = (case find (occurs ndl xs) (rev [0..<Suc (length xs)]) of None \<Rightarrow> -1 | Some p \<Rightarrow> int p)"

lemma occ_at_occurs:
  assumes "off + hlen \<le> length buf"
  shows "occ_at ndl buf off hlen p \<longleftrightarrow> occurs ndl (take hlen (drop off buf)) p"
proof -
  have len: "length (take hlen (drop off buf)) = hlen" using assms by simp
  have "take (length ndl) (drop p (take hlen (drop off buf))) = ndl \<longleftrightarrow> (\<forall>t < length ndl. ndl ! t = buf ! (off + p + t))"
    if "p + length ndl \<le> hlen"
    using that assms by (auto simp: list_eq_iff_nth_eq add.assoc min_def)
  then show ?thesis unfolding occ_at_def occurs_def len by (auto simp: ends_at_def)
qed

lemma find_upt_least:
  assumes "a \<le> p" "p < b" "P p" "\<And>q. a \<le> q \<Longrightarrow> q < p \<Longrightarrow> \<not> P q"
  shows "find P [a..<b] = Some p"
  unfolding find_Some_iff using assms by (intro exI [of _ "p - a"]) simp

lemma occurs_drop: "occurs ndl (drop a xs) p \<longleftrightarrow> (if a \<le> length xs then occurs ndl xs (a + p) else occurs ndl [] p)"
  by (auto simp: occurs_def add.commute)

lemma occurs_rev:
  assumes "q + length ndl \<le> length xs"
  shows "occurs (rev ndl) (rev xs) q \<longleftrightarrow> occurs ndl xs (length xs - length ndl - q)"
proof -
  have "take (length ndl) (drop q (rev xs)) = rev (take (length ndl) (drop (length xs - length ndl - q) xs))"
    using assms by (simp add: drop_rev take_rev drop_take add.commute)
  then show ?thesis using assms by (auto simp: occurs_def)
qed

lemma find_rev_upt: "find P (rev [0..<n]) = Some p \<longleftrightarrow> p < n \<and> P p \<and> (\<forall>q. p < q \<and> q < n \<longrightarrow> \<not> P q)"
  by (induction n) (auto simp: less_Suc_eq)

lemma first_occurrence_eq:
  assumes "occurs ndl xs p" "st \<le> p" "\<And>q. st \<le> q \<Longrightarrow> q < p \<Longrightarrow> \<not> occurs ndl xs q"
  shows "first_occurrence ndl xs st = int p"
proof -
  have "p < Suc (length xs)" using assms(1) by (simp add: occurs_def)
  then have "find (occurs ndl xs) [st..<Suc (length xs)] = Some p" using assms by (intro find_upt_least)
  then show ?thesis by (simp only: first_occurrence_def option.case)
qed

lemma last_occurrence_eq:
  assumes "occurs ndl xs p" "\<And>q. p < q \<Longrightarrow> \<not> occurs ndl xs q"
  shows "last_occurrence ndl xs = int p"
proof -
  have "p < Suc (length xs)" using assms(1) by (simp add: occurs_def)
  then have "find (occurs ndl xs) (rev [0..<Suc (length xs)]) = Some p" using assms by (simp only: find_rev_upt) blast
  then show ?thesis by (simp only: last_occurrence_def option.case)
qed

lemma no_occurrence:
  "(\<And>q. st \<le> q \<Longrightarrow> \<not> occurs ndl xs q) \<Longrightarrow> first_occurrence ndl xs st = -1"
  "(\<And>q. \<not> occurs ndl xs q) \<Longrightarrow> last_occurrence ndl xs = -1"
proof -
  assume "\<And>q. st \<le> q \<Longrightarrow> \<not> occurs ndl xs q"
  then have "find (occurs ndl xs) [st..<Suc (length xs)] = None" by (auto simp: find_None_iff simp del: upt_Suc)
  then show "first_occurrence ndl xs st = -1" by (simp only: first_occurrence_def option.case)
next
  assume "\<And>q. \<not> occurs ndl xs q"
  then have "find (occurs ndl xs) (rev [0..<Suc (length xs)]) = None" by (simp add: find_None_iff)
  then show "last_occurrence ndl xs = -1" by (simp only: last_occurrence_def option.case)
qed

lemma to_long_small: "- (2 ^ 63) \<le> x \<Longrightarrow> x < 2 ^ 63 \<Longrightarrow> to_long x = x"
  by (simp add: to_long_def)

lemma kmp_find_ok:
  assumes "table_ok ndl table (length ndl)" "length ndl < 2 ^ 31" "hlen < 2 ^ 31" "off + hlen \<le> length buf" "0 < length ndl"
  shows "\<exists>r. kmp_find buf (int off) hlen ndl table = Some (Inr r)
    \<and> (if r \<ge> 0 then r + int off else r) = first_occurrence ndl (take (off + hlen) buf) off"
proof -
  let ?w = "take (off + hlen) buf"
  have o: "occ_at ndl buf off hlen p \<longleftrightarrow> occurs ndl ?w (off + p)" for p
  proof -
    have "take hlen (drop off buf) = drop off ?w" by (simp add: take_drop add.commute)
    with occ_at_occurs [OF assms(4)] assms(4) show ?thesis by (simp add: occurs_drop)
  qed
  have e: "ends_at ndl buf (off + 0) 0" by simp
  from find_loop_ok [OF assms(1-4) assms(5) le0 le0 e] obtain r where r:
    "find_loop ndl table buf (int off) hlen (int 0) (int 0) = Some (Inr r)"
    "r = -1 \<and> (\<forall>p. \<not> occ_at ndl buf off hlen p)
       \<or> (\<exists>p. r = int p \<and> occ_at ndl buf off hlen p \<and> (\<forall>q < p. \<not> occ_at ndl buf off hlen q))" by auto
  have "(if r \<ge> 0 then r + int off else r) = first_occurrence ndl ?w off"
    using r(2)
  proof (elim disjE exE conjE)
    assume none: "r = -1" "\<forall>p. \<not> occ_at ndl buf off hlen p"
    have "\<not> occurs ndl ?w q" if "off \<le> q" for q using none(2) o [of "q - off"] that by simp
    then have "first_occurrence ndl ?w off = -1" by (rule no_occurrence(1))
    with none(1) show ?thesis by simp
  next
    fix p assume "r = int p" "occ_at ndl buf off hlen p" "\<forall>q < p. \<not> occ_at ndl buf off hlen q"
    moreover from this have "first_occurrence ndl ?w off = int (off + p)"
      by (intro first_occurrence_eq) (auto simp: o dest!: le_Suc_ex)
    ultimately show ?thesis by simp
  qed
  with r(1) show ?thesis by (simp add: kmp_find_def)
qed

lemma kmp_findR_ok:
  assumes "table_ok (rev ndl) table (length ndl)" "length ndl < 2 ^ 31" "hlen < 2 ^ 31" "hlen \<le> length buf" "0 < length ndl"
  shows "kmp_findR buf hlen ndl (mirrored table) = Some (Inr (last_occurrence ndl (take hlen buf)))"
proof -
  let ?off = "length buf - hlen" and ?w = "take hlen buf"
  have lt: "length table = Suc (length ndl)" using assms(1) by (simp add: table_ok_def)
  have len: "length ?w = hlen" using assms(4) by simp
  have bounds: "?off + hlen \<le> length (rev buf)" "int ?off = int (length buf) - int hlen" using assms(4) by simp_all
  have win: "take hlen (drop ?off (rev buf)) = rev ?w" using assms(4) by (simp add: drop_rev)
  have o: "occ_at (rev ndl) (rev buf) ?off hlen q \<longleftrightarrow> occurs ndl ?w (hlen - length ndl - q)" if "q + length ndl \<le> hlen" for q
    using occ_at_occurs [OF bounds(1), of "rev ndl" q] occurs_rev [of q ndl ?w] that unfolding win len by simp
  obtain r where r: "find_loop (rev ndl) table (rev buf) (int ?off) hlen 0 0 = Some (Inr r)"
    "r = -1 \<and> (\<forall>p. \<not> occ_at (rev ndl) (rev buf) ?off hlen p)
     \<or> (\<exists>p. r = int p \<and> occ_at (rev ndl) (rev buf) ?off hlen p \<and> (\<forall>q < p. \<not> occ_at (rev ndl) (rev buf) ?off hlen q))"
    using find_loop_ok [of "rev ndl" table hlen ?off "rev buf" 0 0] assms bounds(1) by auto
  have m: "find_loopR ndl (mirrored table) buf (int (length ndl) - 1) (int hlen - 1)
      = Some (Inr (if r = -1 then -1 else int hlen - int (length ndl) - r))"
    using find_mirror [of table ndl hlen buf 0 0, OF lt table_points_back [OF assms(1)] assms(2-4)] assms(5) r(1)
    unfolding bounds(2) by auto
  have "(if r = -1 then -1 else int hlen - int (length ndl) - r) = last_occurrence ndl ?w"
    using r(2)
  proof (elim disjE exE conjE)
    assume none: "r = -1" "\<forall>p. \<not> occ_at (rev ndl) (rev buf) ?off hlen p"
    have "\<not> occurs ndl ?w q" for q
    proof
      assume q: "occurs ndl ?w q"
      then have "q + length ndl \<le> hlen" using len by (simp add: occurs_def)
      with o [of "hlen - length ndl - q"] q none(2) show False by simp
    qed
    then have "last_occurrence ndl ?w = -1" by (rule no_occurrence(2))
    with none(1) show ?thesis by simp
  next
    fix p assume p: "r = int p" "occ_at (rev ndl) (rev buf) ?off hlen p" "\<forall>q < p. \<not> occ_at (rev ndl) (rev buf) ?off hlen q"
    then have le: "p + length ndl \<le> hlen" by (simp add: occ_at_def)
    have "\<not> occurs ndl ?w q" if "hlen - length ndl - p < q" for q
    proof
      assume q: "occurs ndl ?w q"
      then have lq: "q + length ndl \<le> hlen" using len by (simp add: occurs_def)
      then have "occ_at (rev ndl) (rev buf) ?off hlen (hlen - length ndl - q)" using o [of "hlen - length ndl - q"] q by simp
      moreover have "hlen - length ndl - q < p" using that lq le by linarith
      ultimately show False using p(3) by blast
    qed
    then have "last_occurrence ndl ?w = int (hlen - length ndl - p)"
      using p(2) o [OF le] by (intro last_occurrence_eq) simp_all
    with p(1) le show ?thesis by simp
  qed
  with m show ?thesis by (simp add: kmp_findR_def)
qed

text \<open>Where a search starts: from the end for a negative position.\<close>

definition resolved :: "int \<Rightarrow> 'a list \<Rightarrow> int" where
  "resolved st xs = (if st < 0 then int (length xs) + st else st)"

lemma start_resolved:
  assumes "str_rep s xs" "length xs < 2 ^ 62" "\<bar>st\<bar> < 2 ^ 62"
  shows "start_position s st = resolved st xs" "uint (us_i s) = int (length xs)"
proof -
  show l: "uint (us_i s) = int (length xs)" using str_rep_length [OF assms(1)] by simp
  show "start_position s st = resolved st xs"
    using assms(2,3) unfolding start_position_def resolved_def l by (auto intro!: to_long_small)
qed

text \<open>C15: \<open>utstring_find\<close> finds the first occurrence. For every needle that is not empty, every content shorter than
  \<open>2 ^ 31\<close> bytes and every start from the beginning of the string on, counted from the end when it is
  negative, the search with the failure table returns the least position from the start on where the needle occurs, and
  \<open>-1\<close> when there is none; it reads nothing outside the string, the needle and the table. An
  empty needle is found nowhere: the result is \<open>-1\<close>. (The lengths are cast to \<open>int\<close>, hence the bound; the
  table has room for one entry more than the needle has bytes, as the search allocates it; that the allocation
  succeeds is assumed.)\<close>

theorem find_first:
  assumes "str_rep s xs" "length xs < 2 ^ 31"
    and "- int (length xs) \<le> st" "st < 2 ^ 62" "length table = Suc (length needle)"
  shows "utstring_find s st needle (Some table)
    = Some (Inr (if needle = [] then -1 else first_occurrence needle xs (nat (resolved st xs))))"
proof -
  have sp: "start_position s st = resolved st xs" "uint (us_i s) = int (length xs)"
    using start_resolved [OF assms(1), of st] assms(2-4) by auto
  have v0: "0 \<le> resolved st xs" "resolved st xs < 2 ^ 62" using assms(2-4) by (auto simp: resolved_def)
  define v where "v = nat (resolved st xs)"
  have v: "resolved st xs = int v" using v0 by (simp add: v_def)
  have h: "to_long (int (length xs) - int v) = int (length xs) - int v" using v0(2) assms(2) v by (intro to_long_small) simp_all
  consider "needle = []" | "needle \<noteq> []" "\<not> v + length needle \<le> length xs"
    | "needle \<noteq> []" "v + length needle \<le> length xs" by blast
  then show ?thesis
  proof cases
    case 1
    then show ?thesis unfolding utstring_find_def sp v h Let_def by simp
  next
    case 2
    then have "first_occurrence needle xs v = -1" by (intro no_occurrence(1)) (simp add: occurs_def)
    moreover have "\<not> int (length needle) \<le> int (length xs) - int v" using 2(2) by simp
    ultimately show ?thesis using 2(1) unfolding utstring_find_def sp v h Let_def by simp
  next
    case 3
    note ne = 3(1) and True = 3(2)
    obtain bs where bs: "us_d s = Buffer bs" "length xs < length bs" "take (length xs) bs = xs"
      using assms(1) str_rep_length [OF assms(1)] by (auto simp: str_rep_def)
    obtain t where t: "BuildTable needle table = Some (Inr t)" "table_ok needle t (length needle)"
      using BuildTable_ok [OF assms(5)] by blast
    have n: "0 < length needle" "length needle < 2 ^ 31" using ne True assms(2) by simp_all
    have w: "v + (length xs - v) = length xs" using True by simp
    have "v + (length xs - v) \<le> length bs" "length xs - v < 2 ^ 31" using bs(2) assms(2) w by simp_all
    from kmp_find_ok [OF t(2) n(2) this(2,1) n(1)] obtain r where
      r: "kmp_find bs (int v) (length xs - v) needle t = Some (Inr r)"
      "(if r \<ge> 0 then r + int v else r) = first_occurrence needle xs v" unfolding w bs(3) by blast
    have "int (length needle) \<le> int (length xs) - int v" "nat (int (length xs) - int v) = length xs - v" using True by simp_all
    then show ?thesis using r t(1) bs(1) ne
      unfolding utstring_find_def sp v h Let_def by (simp add: buffer_bytes_def)
  qed
qed

theorem find_first_witness:
  "utstring_find \<lparr>us_d = Buffer [1, 2, 1, 2, 1, 3, 0], us_n = 7, us_i = 6\<rparr> (-5) [1, 2, 1, 3] (Some [0, 0, 0, 0, 0]) = Some (Inr 2)"
proof -
  let ?s = "\<lparr>us_d = Buffer [1, 2, 1, 2, 1, 3, 0], us_n = 7, us_i = 6\<rparr>" and ?xs = "[1, 2, 1, 2, 1, 3 :: byte]"
  have "str_rep ?s ?xs" by (simp add: str_rep_def)
  moreover have "first_occurrence [1, 2, 1, 3 :: byte] ?xs 1 = 2" by code_simp
  ultimately show ?thesis using find_first [of ?s ?xs "-5" "[0, 0, 0, 0, 0]" "[1, 2, 1, 3]"] by (simp add: resolved_def)
qed

text \<open>C16: \<open>utstring_findR\<close> finds the last occurrence: for every needle that is not empty, every content shorter than
  \<open>2 ^ 31\<close> bytes and every start inside the string, counted from the end when it is negative, it returns the greatest
  position where the needle occurs and ends no later than the start position, and \<open>-1\<close> when there is none.\<close>

theorem find_last:
  assumes "str_rep s xs" "length xs < 2 ^ 31" "0 < length needle"
    and "- int (length xs) \<le> st" "st < int (length xs)" "length table = Suc (length needle)"
  shows "utstring_findR s st needle (Some table)
    = Some (Inr (last_occurrence needle (take (nat (resolved st xs + 1)) xs)))"
proof -
  have sp: "start_position s st = resolved st xs" using start_resolved [OF assms(1), of st] assms(2,4,5) by auto
  have v0: "0 \<le> resolved st xs" "resolved st xs < int (length xs)" using assms(4,5) by (auto simp: resolved_def)
  define v where "v = nat (resolved st xs + 1)"
  have v: "resolved st xs + 1 = int v" "v \<le> length xs" using v0 by (simp_all add: v_def)
  show ?thesis
  proof (cases "length needle \<le> v")
    case False
    then have "last_occurrence needle (take v xs) = -1" by (intro no_occurrence(2)) (auto simp: occurs_def)
    with False show ?thesis unfolding utstring_findR_def sp v Let_def by simp
  next
    case True
    obtain bs where bs: "us_d s = Buffer bs" "length xs < length bs" "take (length xs) bs = xs"
      using assms(1) str_rep_length [OF assms(1)] by (auto simp: str_rep_def)
    obtain t where t: "BuildTableR needle table = Some (Inr (mirrored t))" "table_ok (rev needle) t (length needle)"
      using BuildTableR_ok [OF assms(6,3)] by blast
    have b: "length needle < 2 ^ 31" "v < 2 ^ 31" "v \<le> length bs" using True v(2) assms(2) bs(2) by simp_all
    have "take v xs = take v (take (length xs) bs)" by (simp only: bs(3))
    also have "\<dots> = take v bs" using v(2) by (simp only: take_take min_absorb1)
    finally have "take v bs = take v xs" ..
    with kmp_findR_ok [OF t(2) b assms(3)] True t(1) bs(1) assms(3) show ?thesis
      unfolding utstring_findR_def sp v Let_def by (simp add: buffer_bytes_def)
  qed
qed

theorem find_last_witness:
  "utstring_findR \<lparr>us_d = Buffer [1, 2, 1, 2, 1, 2, 0], us_n = 7, us_i = 6\<rparr> (-2) [1, 2, 1] (Some [0, 0, 0, 0]) = Some (Inr 2)"
proof -
  let ?s = "\<lparr>us_d = Buffer [1, 2, 1, 2, 1, 2, 0], us_n = 7, us_i = 6\<rparr>" and ?xs = "[1, 2, 1, 2, 1, 2 :: byte]"
  have "str_rep ?s ?xs" by (simp add: str_rep_def)
  moreover have "last_occurrence [1, 2, 1 :: byte] (take 5 ?xs) = 2" by code_simp
  ultimately show ?thesis using find_last [of ?s ?xs "[1, 2, 1]" "-2" "[0, 0, 0, 0]"] by (simp add: resolved_def)
qed

text \<open>The start of a search is not checked. A negative position beyond the beginning makes
  \<open>utstring_find\<close> read before the buffer, and a position beyond the capacity makes \<open>utstring_findR\<close> read
  behind it.\<close>

theorem search_outside_buffer:
  assumes "str_rep s xs" "length xs < 2 ^ 30" "0 < length needle" "length needle \<le> length xs"
    and "length table = Suc (length needle)" "- (2 ^ 30) < st" "st < - int (length xs)" "uint (us_n s) \<le> st'" "st' < 2 ^ 62"
  shows "utstring_find s st needle (Some table) = Some (Inl OutOfBounds)
    \<and> utstring_findR s st' needle (Some table) = Some (Inl OutOfBounds)"
proof -
  obtain bs where bs: "us_d s = Buffer bs" "length xs < length bs" "length bs = unat (us_n s)"
    using assms(1) str_rep_length [OF assms(1)] by (auto simp: str_rep_def)
  have sp: "start_position s st = int (length xs) + st" "uint (us_i s) = int (length xs)"
    using start_resolved [OF assms(1), of st] assms(2,6,7) by (auto simp: resolved_def)
  obtain t where t: "BuildTable needle table = Some (Inr t)" using BuildTable_ok [OF assms(5)] by blast
  have h: "to_long (int (length xs) - (int (length xs) + st)) = - st" using assms(6,7) by (intro to_long_small [THEN trans]) simp_all
  have "int (nat (- st)) mod 2 ^ 64 = int (nat (- st))" using assms(6) by (intro mod_pos_pos_trivial) simp_all
  moreover have "to_int (nat (- st)) = - st" using assms(6,7) by (subst to_int_small) auto
  moreover have "fall_back needle t bs (int (length xs) + st) 0 = Some (Inl OutOfBounds)"
    using assms(7) by (subst fall_back.simps) (simp add: elem_def)
  ultimately have k: "kmp_find bs (int (length xs) + st) (nat (- st)) needle t = Some (Inl OutOfBounds)"
    using assms(4,7) unfolding kmp_find_def by (subst find_loop.simps) simp
  have 1: "utstring_find s st needle (Some table) = Some (Inl OutOfBounds)"
    unfolding utstring_find_def sp h Let_def using t bs(1) assms(3,4,7) k by (simp add: buffer_bytes_def)
  obtain t' where t': "BuildTableR needle table = Some (Inr t')" using BuildTableR_ok [OF assms(5,3)] by blast
  have "0 \<le> uint (us_n s)" "int (length bs) = uint (us_n s)" using bs(3) by simp_all
  with assms(8) have st': "0 \<le> st'" "int (length bs) \<le> st'" by linarith+
  then have sp': "start_position s st' = st'" by (simp add: start_position_def)
  have "to_int (length needle) = int (length needle)" using assms(2,4) by (intro to_int_small) simp
  then have "fall_backR needle t' (to_int (length needle)) bs st' (int (length needle) - 1) = Some (Inl OutOfBounds)"
    using st'(2) by (subst fall_backR.simps) (simp add: elem_def)
  then have "kmp_findR bs (nat (st' + 1)) needle t' = Some (Inl OutOfBounds)"
    using st' assms(4) bs(2) unfolding kmp_findR_def by (subst find_loopR.simps) simp
  then have "utstring_findR s st' needle (Some table) = Some (Inl OutOfBounds)"
    unfolding utstring_findR_def sp' Let_def using t' bs(1,2) assms(3,4) st' by (simp add: buffer_bytes_def)
  with 1 show ?thesis ..
qed

theorem search_outside_buffer_witness:
  "utstring_find \<lparr>us_d = Buffer [1, 2, 0], us_n = 3, us_i = 2\<rparr> (-3) [1] (Some [0, 0]) = Some (Inl OutOfBounds)
   \<and> utstring_findR \<lparr>us_d = Buffer [1, 2, 0], us_n = 3, us_i = 2\<rparr> 3 [1] (Some [0, 0]) = Some (Inl OutOfBounds)"
  by (rule search_outside_buffer [of _ "[1, 2]"]) (simp_all add: str_rep_def)

end
