(* ===== verification/Utarray.thy ===== *)
theory Utarray
  imports Prelude
begin

text \<open>
  The dynamic arrays of \<^verbatim>\<open>uthash/utarray.h\<close>. An element is one value; the slots of the array hold elements or are not
  initialised, and a pointer to an element is the number of its slot. The functions the user gives for initialising,
  copying and destroying elements may act on the rest of the program's state, here \<open>'w\<close>.
\<close>

record ('e, 'w) ut_icd =
  icd_init :: "('w \<Rightarrow> 'e \<times> 'w) option"
  icd_copy :: "('e \<Rightarrow> 'w \<Rightarrow> 'e \<times> 'w) option"
  icd_dtor :: "('e \<Rightarrow> 'w \<Rightarrow> 'w) option"

record ('e, 'w) ut_array =
  ua_i :: u32
  ua_n :: u32
  ua_icd :: "('e, 'w) ut_icd"
  ua_d :: "'e option list"

section \<open>Slots\<close>

definition get_slot :: "'e option list \<Rightarrow> nat \<Rightarrow> 'e res" where
  "get_slot d k = (if k < length d then case d ! k of Some x \<Rightarrow> Inr x | None \<Rightarrow> Inl BadPointer else Inl OutOfBounds)"

definition put_slot :: "'e option list \<Rightarrow> nat \<Rightarrow> 'e \<Rightarrow> 'e option list res" where
  "put_slot d k x = (if k < length d then Inr (d[k := Some x]) else Inl OutOfBounds)"

text \<open>\<open>memmove\<close> of \<open>len\<close> slots.\<close>

definition move_slots :: "'e option list \<Rightarrow> nat \<Rightarrow> nat \<Rightarrow> nat \<Rightarrow> 'e option list res" where
  "move_slots d dst src len =
     (if src + len \<le> length d \<and> dst + len \<le> length d
      then Inr (take dst d @ take len (drop src d) @ drop (dst + len) d) else Inl OutOfBounds)"

text \<open>A copy of an element, with the user's function or byte by byte.\<close>

definition copy_elem :: "('e, 'w) ut_icd \<Rightarrow> 'e \<Rightarrow> 'w \<Rightarrow> 'e \<times> 'w" where
  "copy_elem icd p w = (case icd_copy icd of Some f \<Rightarrow> f p w | None \<Rightarrow> (p, w))"

text \<open>A new element: the user's function or zero bytes, which are the element \<open>z\<close>.\<close>

definition init_elem :: "'e \<Rightarrow> ('e, 'w) ut_icd \<Rightarrow> 'w \<Rightarrow> 'e \<times> 'w" where
  "init_elem z icd w = (case icd_init icd of Some f \<Rightarrow> f w | None \<Rightarrow> (z, w))"

text \<open>The loop that destroys the elements in the slots \<open>lo\<close> to \<open>hi - 1\<close>; \<open>bound\<close> is \<open>utarray_eltptr\<close>'s bound.\<close>

function dtor_slots :: "('e \<Rightarrow> 'w \<Rightarrow> 'w) \<Rightarrow> 'e option list \<Rightarrow> nat \<Rightarrow> nat \<Rightarrow> nat \<Rightarrow> 'w \<Rightarrow> 'w res" where
  "dtor_slots f d bound lo hi w =
     (if lo < hi then
        if lo < bound then bind_res (get_slot d lo) (\<lambda>x. dtor_slots f d bound (Suc lo) hi (f x w)) else Inl NullDeref
      else Inr w)"
  by pat_completeness auto
termination by (relation "measure (\<lambda>(f, d, bound, lo, hi, w). hi - lo)") auto

declare dtor_slots.simps [simp del]

definition destroy :: "('e, 'w) ut_icd \<Rightarrow> 'e option list \<Rightarrow> nat \<Rightarrow> nat \<Rightarrow> nat \<Rightarrow> 'w \<Rightarrow> 'w res" where
  "destroy icd d bound lo hi w = (case icd_dtor icd of Some f \<Rightarrow> dtor_slots f d bound lo hi w | None \<Rightarrow> Inr w)"

text \<open>The loop that initialises slots, and the one that copies slots of another array.\<close>

function init_slots :: "'e \<Rightarrow> ('e, 'w) ut_icd \<Rightarrow> nat \<Rightarrow> nat \<Rightarrow> 'e option list \<Rightarrow> 'w \<Rightarrow> ('e option list \<times> 'w) res" where
  "init_slots z icd lo hi d w =
     (if lo < hi then let (x, w') = init_elem z icd w in bind_res (put_slot d lo x) (\<lambda>d'. init_slots z icd (Suc lo) hi d' w')
      else Inr (d, w))"
  by pat_completeness auto
termination by (relation "measure (\<lambda>(z, icd, lo, hi, d, w). hi - lo)") auto

declare init_slots.simps [simp del]

primrec copy_slots :: "('e, 'w) ut_icd \<Rightarrow> nat \<Rightarrow> 'e option list \<Rightarrow> 'e option list \<Rightarrow> 'w \<Rightarrow> ('e option list \<times> 'w) res" where
  "copy_slots icd j [] d w = Inr (d, w)"
| "copy_slots icd j (s # src) d w =
     (case s of None \<Rightarrow> Inl BadPointer
      | Some p \<Rightarrow> let (x, w') = copy_elem icd p w in bind_res (put_slot d j x) (\<lambda>d'. copy_slots icd (Suc j) src d' w'))"

section \<open>Operations\<close>

definition utarray_init :: "('e, 'w) ut_icd \<Rightarrow> ('e, 'w) ut_array" where
  "utarray_init icd = \<lparr>ua_i = 0, ua_n = 0, ua_icd = icd, ua_d = []\<rparr>"

text \<open>\<open>mem\<close> says which numbers of slots the allocator provides.\<close>

partial_function (option) reserve_loop :: "u32 \<Rightarrow> u32 \<Rightarrow> u32 option" where
  "reserve_loop need n = (if need > n then reserve_loop need (if n \<noteq> 0 then 2 * n else 8) else Some n)"

definition utarray_reserve :: "(nat \<Rightarrow> bool) \<Rightarrow> ('e, 'w) ut_array \<Rightarrow> u32 \<Rightarrow> ('e, 'w) ut_array run" where
  "utarray_reserve mem a by =
     (if ua_i a + by > ua_n a then
        (case reserve_loop (ua_i a + by) (ua_n a) of None \<Rightarrow> None
         | Some n \<Rightarrow> if mem (unat n) then Some (Inr (a\<lparr>ua_n := n, ua_d := take (unat n) (ua_d a @ replicate (unat n) None)\<rparr>))
                    else Some (Inl Exit))
      else Some (Inr a))"

definition utarray_push_back :: "(nat \<Rightarrow> bool) \<Rightarrow> 'e \<Rightarrow> ('e, 'w) ut_array \<times> 'w \<Rightarrow> (('e, 'w) ut_array \<times> 'w) run" where
  "utarray_push_back mem p = (\<lambda>(a, w).
     bind_run (utarray_reserve mem a 1) (\<lambda>a.
     let (x, w) = copy_elem (ua_icd a) p w in
     bind_run (Some (put_slot (ua_d a) (unat (ua_i a)) x)) (\<lambda>d. Some (Inr (a\<lparr>ua_d := d, ua_i := ua_i a + 1\<rparr>, w)))))"

definition utarray_pop_back :: "('e, 'w) ut_array \<times> 'w \<Rightarrow> (('e, 'w) ut_array \<times> 'w) res" where
  "utarray_pop_back = (\<lambda>(a, w).
     case icd_dtor (ua_icd a) of
       Some f \<Rightarrow> bind_res (get_slot (ua_d a) (unat (ua_i a - 1))) (\<lambda>x. Inr (a\<lparr>ua_i := ua_i a - 1\<rparr>, f x w))
     | None \<Rightarrow> Inr (a\<lparr>ua_i := ua_i a - 1\<rparr>, w))"

definition utarray_extend_back :: "(nat \<Rightarrow> bool) \<Rightarrow> 'e \<Rightarrow> ('e, 'w) ut_array \<times> 'w \<Rightarrow> (('e, 'w) ut_array \<times> 'w) run" where
  "utarray_extend_back mem z = (\<lambda>(a, w).
     bind_run (utarray_reserve mem a 1) (\<lambda>a.
     let (x, w) = init_elem z (ua_icd a) w in
     bind_run (Some (put_slot (ua_d a) (unat (ua_i a)) x)) (\<lambda>d. Some (Inr (a\<lparr>ua_d := d, ua_i := ua_i a + 1\<rparr>, w)))))"

definition utarray_len :: "('e, 'w) ut_array \<Rightarrow> u32" where
  "utarray_len a = ua_i a"

definition utarray_eltptr :: "('e, 'w) ut_array \<Rightarrow> u32 \<Rightarrow> nat option" where
  "utarray_eltptr a j = (if j < ua_i a then Some (unat j) else None)"

definition utarray_resize :: "(nat \<Rightarrow> bool) \<Rightarrow> 'e \<Rightarrow> u32 \<Rightarrow> ('e, 'w) ut_array \<times> 'w \<Rightarrow> (('e, 'w) ut_array \<times> 'w) run" where
  "utarray_resize mem z num = (\<lambda>(a, w).
     if ua_i a > num then
       bind_run (Some (destroy (ua_icd a) (ua_d a) (length (ua_d a)) (unat num) (unat (ua_i a)) w)) (\<lambda>w.
       Some (Inr (a\<lparr>ua_i := num\<rparr>, w)))
     else if ua_i a < num then
       bind_run (utarray_reserve mem a (num - ua_i a)) (\<lambda>a.
       bind_run (Some (init_slots z (ua_icd a) (unat (ua_i a)) (unat num) (ua_d a) w)) (\<lambda>(d, w).
       Some (Inr (a\<lparr>ua_d := d, ua_i := num\<rparr>, w))))
     else Some (Inr (a\<lparr>ua_i := num\<rparr>, w)))"

definition utarray_insert ::
    "(nat \<Rightarrow> bool) \<Rightarrow> 'e \<Rightarrow> 'e \<Rightarrow> u32 \<Rightarrow> ('e, 'w) ut_array \<times> 'w \<Rightarrow> (('e, 'w) ut_array \<times> 'w) run" where
  "utarray_insert mem z p j = (\<lambda>(a, w).
     bind_run (if j > ua_i a then utarray_resize mem z j (a, w) else Some (Inr (a, w))) (\<lambda>(a, w).
     bind_run (utarray_reserve mem a 1) (\<lambda>a.
     bind_run (Some (if j < ua_i a then move_slots (ua_d a) (unat (j + 1)) (unat j) (unat (ua_i a - j)) else Inr (ua_d a))) (\<lambda>d.
     let (x, w) = copy_elem (ua_icd a) p w in
     bind_run (Some (put_slot d (unat j) x)) (\<lambda>d. Some (Inr (a\<lparr>ua_d := d, ua_i := ua_i a + 1\<rparr>, w)))))))"

definition utarray_inserta ::
    "(nat \<Rightarrow> bool) \<Rightarrow> 'e \<Rightarrow> ('e, 'w) ut_array \<Rightarrow> u32 \<Rightarrow> ('e, 'w) ut_array \<times> 'w \<Rightarrow> (('e, 'w) ut_array \<times> 'w) run" where
  "utarray_inserta mem z src j = (\<lambda>(a, w).
     if utarray_len src = 0 then Some (Inr (a, w))
     else
       bind_run (if j > ua_i a then utarray_resize mem z j (a, w) else Some (Inr (a, w))) (\<lambda>(a, w).
       bind_run (utarray_reserve mem a (utarray_len src)) (\<lambda>a.
       bind_run (Some (if j < ua_i a then move_slots (ua_d a) (unat (j + utarray_len src)) (unat j) (unat (ua_i a - j)) else Inr (ua_d a))) (\<lambda>d.
       bind_run (Some (if length (ua_d src) < unat (ua_i src) then Inl OutOfBounds
                       else copy_slots (ua_icd a) (unat j) (take (unat (ua_i src)) (ua_d src)) d w)) (\<lambda>(d, w).
       Some (Inr (a\<lparr>ua_d := d, ua_i := ua_i a + utarray_len src\<rparr>, w)))))))"

definition utarray_concat ::
    "(nat \<Rightarrow> bool) \<Rightarrow> 'e \<Rightarrow> ('e, 'w) ut_array \<Rightarrow> ('e, 'w) ut_array \<times> 'w \<Rightarrow> (('e, 'w) ut_array \<times> 'w) run" where
  "utarray_concat mem z src = (\<lambda>(a, w). utarray_inserta mem z src (utarray_len a) (a, w))"

definition utarray_erase :: "u32 \<Rightarrow> u32 \<Rightarrow> ('e, 'w) ut_array \<times> 'w \<Rightarrow> (('e, 'w) ut_array \<times> 'w) res" where
  "utarray_erase pos len = (\<lambda>(a, w).
     bind_res (destroy (ua_icd a) (ua_d a) (unat (ua_i a)) (unat pos) (unat pos + unat len) w) (\<lambda>w.
     bind_res (if ua_i a > pos + len
               then move_slots (ua_d a) (unat pos) (unat (pos + len)) (unat (ua_i a - (pos + len))) else Inr (ua_d a)) (\<lambda>d.
     Inr (a\<lparr>ua_d := d, ua_i := ua_i a - len\<rparr>, w))))"

definition utarray_clear :: "('e, 'w) ut_array \<times> 'w \<Rightarrow> (('e, 'w) ut_array \<times> 'w) res" where
  "utarray_clear = (\<lambda>(a, w).
     if ua_i a > 0 then
       bind_res (destroy (ua_icd a) (ua_d a) (length (ua_d a)) 0 (unat (ua_i a)) w) (\<lambda>w. Inr (a\<lparr>ua_i := 0\<rparr>, w))
     else Inr (a, w))"

definition utarray_done :: "('e, 'w) ut_array \<times> 'w \<Rightarrow> (('e, 'w) ut_array \<times> 'w) res" where
  "utarray_done = (\<lambda>(a, w).
     if ua_n a \<noteq> 0 then
       bind_res (destroy (ua_icd a) (ua_d a) (unat (ua_i a)) 0 (unat (ua_i a)) w) (\<lambda>w. Inr (a\<lparr>ua_d := [], ua_n := 0\<rparr>, w))
     else Inr (a\<lparr>ua_n := 0\<rparr>, w))"

text \<open>\<open>mem_header\<close>: whether there is memory for the array itself.\<close>

definition utarray_new :: "bool \<Rightarrow> ('e, 'w) ut_icd \<Rightarrow> ('e, 'w) ut_array res" where
  "utarray_new mem_header icd = (if mem_header then Inr (utarray_init icd) else Inl Exit)"

definition utarray_renew ::
    "bool \<Rightarrow> ('e, 'w) ut_icd \<Rightarrow> ('e, 'w) ut_array option \<times> 'w \<Rightarrow> (('e, 'w) ut_array \<times> 'w) res" where
  "utarray_renew mem_header icd = (\<lambda>(a, w).
     case a of Some a \<Rightarrow> utarray_clear (a, w) | None \<Rightarrow> bind_res (utarray_new mem_header icd) (\<lambda>a. Inr (a, w)))"

text \<open>\<open>qsort\<close> and \<open>bsearch\<close> of the C library, with the comparison, are parameters: what they make of the elements.\<close>

definition initialised :: "'e option list \<Rightarrow> 'e list res" where
  "initialised d = (case those d of Some xs \<Rightarrow> Inr xs | None \<Rightarrow> Inl BadPointer)"

definition utarray_sort :: "('e list \<Rightarrow> 'e list) \<Rightarrow> ('e, 'w) ut_array \<Rightarrow> ('e, 'w) ut_array res" where
  "utarray_sort qsort a = bind_res (initialised (take (unat (ua_i a)) (ua_d a))) (\<lambda>xs.
     Inr (a\<lparr>ua_d := map Some (qsort xs) @ drop (unat (ua_i a)) (ua_d a)\<rparr>))"

definition utarray_find :: "('e \<Rightarrow> 'e list \<Rightarrow> nat option) \<Rightarrow> ('e, 'w) ut_array \<Rightarrow> 'e \<Rightarrow> nat option res" where
  "utarray_find bsearch a v = bind_res (initialised (take (unat (ua_i a)) (ua_d a))) (\<lambda>xs. Inr (bsearch v xs))"

text \<open>Walking through the array: from the slot of one element to the slot of the next.\<close>

definition utarray_front :: "('e, 'w) ut_array \<Rightarrow> nat option" where
  "utarray_front a = (if ua_i a \<noteq> 0 then Some 0 else None)"

definition utarray_back :: "('e, 'w) ut_array \<Rightarrow> nat option" where
  "utarray_back a = (if ua_i a \<noteq> 0 then Some (unat (ua_i a - 1)) else None)"

definition utarray_next :: "('e, 'w) ut_array \<Rightarrow> nat option \<Rightarrow> nat option" where
  "utarray_next a e = (case e of None \<Rightarrow> utarray_front a | Some k \<Rightarrow> if unat (ua_i a) \<noteq> k + 1 then Some (k + 1) else None)"

definition utarray_prev :: "('e, 'w) ut_array \<Rightarrow> nat option \<Rightarrow> nat option" where
  "utarray_prev a e = (case e of None \<Rightarrow> utarray_back a | Some k \<Rightarrow> if k \<noteq> 0 then Some (k - 1) else None)"

section \<open>What an array holds\<close>

definition arr_rep :: "('e, 'w) ut_array \<Rightarrow> 'e list \<Rightarrow> bool" where
  "arr_rep a xs \<longleftrightarrow> unat (ua_i a) = length xs \<and> length (ua_d a) = unat (ua_n a)
     \<and> (\<exists>rest. ua_d a = map Some xs @ rest) \<and> (ua_n a = 0 \<or> (\<exists>k < 32. ua_n a = 2 ^ k))"

lemma unat_add32: "unat (a::u32) + unat b < 2 ^ 32 \<Longrightarrow> unat (a + b) = unat a + unat b"
  by (simp add: unat_word_ariths)

lemma unat_diff32: "unat (b::u32) \<le> unat a \<Longrightarrow> unat (a - b) = unat a - unat b"
  by (simp add: unat_sub word_le_nat_alt)

lemma double_pow: "n = 0 \<or> (\<exists>k < 32. n = (2::u32) ^ k) \<Longrightarrow> 2 * n = 0 \<or> (\<exists>k < 32. 2 * n = 2 ^ k)"
proof (elim disjE exE conjE)
  fix k assume k: "k < 32" "n = (2::u32) ^ k"
  show ?thesis
  proof (cases "Suc k < 32")
    case True
    with k show ?thesis by (intro disjI2 exI [of _ "Suc k"]) simp
  next
    case False
    with k have "k = 31" by simp
    with k show ?thesis by simp
  qed
qed simp

lemma pow_le: "n = 0 \<or> (\<exists>k < 32. n = (2::u32) ^ k) \<Longrightarrow> unat n \<le> 2 ^ 31"
proof (elim disjE exE conjE)
  fix k assume k: "k < 32" "n = (2::u32) ^ k"
  then have "unat n = 2 ^ k" by (simp add: unat_exp32)
  also have "\<dots> \<le> 2 ^ 31" using k(1) by (intro power_increasing) simp_all
  finally show ?thesis .
qed simp

lemma reserve_loop_ok:
  assumes "unat need \<le> 2 ^ 31" "n = 0 \<or> (\<exists>k < 32. n = 2 ^ k)"
  shows "\<exists>n'. reserve_loop need n = Some n' \<and> need \<le> n' \<and> unat n \<le> unat n' \<and> (n' = 0 \<or> (\<exists>k < 32. n' = 2 ^ k))"
  using assms(2)
proof (induction "unat need - unat n" arbitrary: n rule: less_induct)
  case less
  show ?case
  proof (cases "need > n")
    case False
    with less.prems show ?thesis by (subst reserve_loop.simps) auto
  next
    case True
    then have lt: "unat n < unat need" by (simp add: word_less_nat_alt)
    let ?m = "if n \<noteq> 0 then 2 * n else 8"
    have m: "unat n < unat ?m"
    proof (cases "n = 0")
      case False
      then have "0 < unat n" by (simp add: unat_gt_0)
      moreover have "unat (2 * n) = 2 * unat n" using lt assms(1) by (simp add: unat_word_ariths)
      ultimately show ?thesis using False by simp
    qed simp
    have pw: "?m = 0 \<or> (\<exists>k < 32. ?m = 2 ^ k)"
      using double_pow [OF less.prems] by (auto intro!: exI [of _ 3])
    have "unat need - unat ?m < unat need - unat n" using m lt by linarith
    from less.hyps [OF this pw] obtain n' where n': "reserve_loop need ?m = Some n'" "need \<le> n'" "unat ?m \<le> unat n'"
      "n' = 0 \<or> (\<exists>k < 32. n' = 2 ^ k)" by blast
    have "reserve_loop need n = reserve_loop need ?m" using True by (subst reserve_loop.simps) simp
    with n' m show ?thesis by (intro exI [of _ n']) simp
  qed
qed

lemma reserve_loop_endless:
  assumes "2 ^ 31 < unat need" "n = 0 \<or> (\<exists>k < 32. n = 2 ^ k)"
  shows "reserve_loop need n = None"
proof -
  have "2 ^ 31 < unat need \<longrightarrow> (n = 0 \<or> (\<exists>k < 32. n = 2 ^ k)) \<longrightarrow> False" if "reserve_loop need n = Some r" for need n r
  proof (rule reserve_loop.raw_induct [OF _ that], intro impI)
    fix rec :: "u32 \<Rightarrow> u32 \<Rightarrow> u32 option" and need n r
    assume ih: "\<And>need n r. rec need n = Some r \<Longrightarrow> 2 ^ 31 < unat need \<longrightarrow> (n = 0 \<or> (\<exists>k < 32. n = 2 ^ k)) \<longrightarrow> False"
      and b: "(if n < need then rec need (if n \<noteq> 0 then 2 * n else 8) else Some n) = Some r"
      and n: "2 ^ 31 < unat need" "n = 0 \<or> (\<exists>k < 32. n = 2 ^ k)"
    have lt: "n < need" using pow_le [OF n(2)] n(1) by (simp add: word_less_nat_alt)
    have pw: "(if n \<noteq> 0 then 2 * n else 8) = 0 \<or> (\<exists>k < 32. (if n \<noteq> 0 then 2 * n else 8) = (2::u32) ^ k)"
      using double_pow [OF n(2)] by (auto intro!: exI [of _ 3])
    from b lt have "rec need (if n \<noteq> 0 then 2 * n else 8) = Some r" by simp
    from ih [OF this] n(1) pw show False by blast
  qed
  with assms show ?thesis by (cases "reserve_loop need n") auto
qed

lemma utarray_reserve_ok:
  assumes "arr_rep a xs" "length xs + unat by \<le> 2 ^ 31" "\<forall>k. mem k"
  shows "\<exists>a'. utarray_reserve mem a by = Some (Inr a') \<and> arr_rep a' xs \<and> length xs + unat by \<le> length (ua_d a')
    \<and> ua_icd a' = ua_icd a \<and> ua_i a' = ua_i a"
proof -
  from assms(1) obtain rest where r: "unat (ua_i a) = length xs" "length (ua_d a) = unat (ua_n a)" "ua_d a = map Some xs @ rest"
    "ua_n a = 0 \<or> (\<exists>k < 32. ua_n a = 2 ^ k)" by (auto simp: arr_rep_def)
  have need: "unat (ua_i a + by) = length xs + unat by" using r(1) assms(2) by (subst unat_add32) simp_all
  show ?thesis
  proof (cases "ua_i a + by > ua_n a")
    case False
    with assms(1) need r(2) show ?thesis by (simp add: utarray_reserve_def word_less_nat_alt)
  next
    case True
    obtain n where n: "reserve_loop (ua_i a + by) (ua_n a) = Some n" "ua_i a + by \<le> n" "unat (ua_n a) \<le> unat n"
      "n = 0 \<or> (\<exists>k < 32. n = 2 ^ k)" using reserve_loop_ok [of "ua_i a + by", OF _ r(4)] assms(2) unfolding need by auto
    let ?a = "a\<lparr>ua_n := n, ua_d := take (unat n) (ua_d a @ replicate (unat n) None)\<rparr>"
    have "length xs \<le> unat n" using n(3) r(2,3) by simp
    then have "ua_d ?a = map Some xs @ take (unat n - length xs) (rest @ replicate (unat n) None)" using r(3) by simp
    then have "\<exists>rest. ua_d ?a = map Some xs @ rest" by blast
    moreover have "unat (ua_i ?a) = length xs" "length (ua_d ?a) = unat (ua_n ?a)" "ua_n ?a = 0 \<or> (\<exists>k < 32. ua_n ?a = 2 ^ k)"
      using r(1) n(4) by simp_all
    ultimately have "arr_rep ?a xs" unfolding arr_rep_def by blast
    moreover have "utarray_reserve mem a by = Some (Inr ?a)" using True n(1) assms(3) by (simp add: utarray_reserve_def)
    moreover have "length xs + unat by \<le> length (ua_d ?a)" using n(2) need by (simp add: word_le_nat_alt)
    ultimately show ?thesis by auto
  qed
qed

lemma utarray_reserve_endless:
  assumes "arr_rep a xs" "2 ^ 31 < length xs + unat by" "length xs + unat by < 2 ^ 32"
  shows "utarray_reserve mem a by = None"
proof -
  from assms(1) have r: "unat (ua_i a) = length xs" "ua_n a = 0 \<or> (\<exists>k < 32. ua_n a = 2 ^ k)" by (simp_all add: arr_rep_def)
  have need: "unat (ua_i a + by) = length xs + unat by" using r(1) assms(3) by (subst unat_add32) simp_all
  then have "ua_i a + by > ua_n a" using pow_le [OF r(2)] assms(2) by (simp add: word_less_nat_alt)
  moreover have "reserve_loop (ua_i a + by) (ua_n a) = None" using reserve_loop_endless [OF _ r(2)] need assms(2) by simp
  ultimately show ?thesis by (simp add: utarray_reserve_def)
qed

section \<open>Elements\<close>

text \<open>What the user's functions do to lists of elements.\<close>

definition destroy_all :: "('e, 'w) ut_icd \<Rightarrow> 'e list \<Rightarrow> 'w \<Rightarrow> 'w" where
  "destroy_all icd xs w = (case icd_dtor icd of Some f \<Rightarrow> fold f xs w | None \<Rightarrow> w)"

primrec new_elems :: "'e \<Rightarrow> ('e, 'w) ut_icd \<Rightarrow> nat \<Rightarrow> 'w \<Rightarrow> 'e list \<times> 'w" where
  "new_elems z icd 0 w = ([], w)"
| "new_elems z icd (Suc k) w = (let (x, w) = init_elem z icd w; (xs, w) = new_elems z icd k w in (x # xs, w))"

primrec copy_elems :: "('e, 'w) ut_icd \<Rightarrow> 'e list \<Rightarrow> 'w \<Rightarrow> 'e list \<times> 'w" where
  "copy_elems icd [] w = ([], w)"
| "copy_elems icd (p # ps) w = (let (x, w) = copy_elem icd p w; (xs, w) = copy_elems icd ps w in (x # xs, w))"

lemma length_new_elems: "length (fst (new_elems z icd k w)) = k"
  by (induction k arbitrary: w) (simp_all add: split_def Let_def)

lemma length_copy_elems: "length (fst (copy_elems icd ps w)) = length ps"
  by (induction ps arbitrary: w) (simp_all add: split_def Let_def)

lemma dtor_slots_ok:
  assumes "d = map Some us @ map Some ys @ rest" "lo = length us" "hi = lo + length ys" "hi \<le> bound"
  shows "dtor_slots f d bound lo hi w = Inr (fold f ys w)"
  using assms
proof (induction ys arbitrary: us lo w)
  case Nil
  then show ?case by (subst dtor_slots.simps) simp
next
  case (Cons y ys)
  have "get_slot d lo = Inr y" using Cons.prems(1,2) by (simp add: get_slot_def nth_append)
  moreover have "dtor_slots f d bound (Suc lo) hi (f y w) = Inr (fold f ys (f y w))"
    using Cons.prems by (intro Cons.IH [of "us @ [y]"]) simp_all
  ultimately show ?case using Cons.prems(3,4) by (subst dtor_slots.simps) simp
qed

lemma destroy_ok:
  assumes "d = map Some us @ map Some ys @ rest" "lo = length us" "hi = lo + length ys" "hi \<le> bound"
  shows "destroy icd d bound lo hi w = Inr (destroy_all icd ys w)"
  by (simp add: destroy_def destroy_all_def dtor_slots_ok [OF assms] split: option.split)

lemma init_slots_ok:
  assumes "hi = lo + k" "hi \<le> length d"
  shows "init_slots z icd lo hi d w = Inr (take lo d @ map Some (fst (new_elems z icd k w)) @ drop hi d, snd (new_elems z icd k w))"
  using assms
proof (induction k arbitrary: lo d w)
  case 0
  then show ?case by (subst init_slots.simps) simp
next
  case (Suc k)
  obtain x w' where x: "init_elem z icd w = (x, w')" by fastforce
  have p: "put_slot d lo x = Inr (d[lo := Some x])" using Suc.prems by (simp add: put_slot_def)
  have "init_slots z icd lo hi d w = init_slots z icd (Suc lo) hi (d[lo := Some x]) w'"
    using Suc.prems(1) by (subst init_slots.simps) (simp add: x p)
  moreover have "take (Suc lo) (d[lo := Some x]) = take lo d @ [Some x]" "drop hi (d[lo := Some x]) = drop hi d"
    using Suc.prems by (simp_all add: take_Suc_conv_app_nth)
  ultimately show ?case using Suc.IH [of "Suc lo" "d[lo := Some x]" w'] Suc.prems by (simp add: x split_def Let_def)
qed

lemma copy_slots_ok:
  assumes "j + length ps \<le> length d"
  shows "copy_slots icd j (map Some ps) d w
    = Inr (take j d @ map Some (fst (copy_elems icd ps w)) @ drop (j + length ps) d, snd (copy_elems icd ps w))"
  using assms
proof (induction ps arbitrary: j d w)
  case (Cons p ps)
  obtain x w' where x: "copy_elem icd p w = (x, w')" by fastforce
  have q: "put_slot d j x = Inr (d[j := Some x])" using Cons.prems by (simp add: put_slot_def)
  have "take (Suc j) (d[j := Some x]) = take j d @ [Some x]" "drop (Suc (j + length ps)) (d[j := Some x]) = drop (Suc (j + length ps)) d"
    using Cons.prems by (simp_all add: take_Suc_conv_app_nth)
  with Cons.IH [of "Suc j" "d[j := Some x]" w'] Cons.prems show ?case by (simp add: x q split_def Let_def)
qed simp

section \<open>The operations on lists\<close>

lemma arr_repI:
  "unat (ua_i a) = length xs \<Longrightarrow> length (ua_d a) = unat (ua_n a) \<Longrightarrow> ua_d a = map Some xs @ rest \<Longrightarrow>
   (ua_n a = 0 \<or> (\<exists>k < 32. ua_n a = 2 ^ k)) \<Longrightarrow> arr_rep a xs"
  unfolding arr_rep_def by blast

lemma arr_repE:
  assumes "arr_rep a xs"
  obtains rest where "unat (ua_i a) = length xs" "length (ua_d a) = unat (ua_n a)" "ua_d a = map Some xs @ rest"
    "ua_n a = 0 \<or> (\<exists>k < 32. ua_n a = 2 ^ k)"
  using assms unfolding arr_rep_def by blast

text \<open>Writing the slots behind the elements.\<close>

lemma arr_rep_extend:
  assumes "arr_rep a xs" "length xs + length ys \<le> length (ua_d a)" "unat i = length xs + length ys"
    and "d = map Some (xs @ ys) @ drop (length xs + length ys) (ua_d a)"
  shows "arr_rep (a\<lparr>ua_d := d, ua_i := i\<rparr>) (xs @ ys)"
  using assms(1)
proof (rule arr_repE)
  fix rest assume r: "unat (ua_i a) = length xs" "length (ua_d a) = unat (ua_n a)" "ua_d a = map Some xs @ rest"
    "ua_n a = 0 \<or> (\<exists>k < 32. ua_n a = 2 ^ k)"
  have "length d = length (ua_d a)" using assms(2,4) by simp
  with r(2,4) assms(3,4) show ?thesis by (intro arr_repI [where rest = "drop (length xs + length ys) (ua_d a)"]) simp_all
qed

definition spec_resize :: "'e \<Rightarrow> ('e, 'w) ut_icd \<Rightarrow> nat \<Rightarrow> 'e list \<times> 'w \<Rightarrow> 'e list \<times> 'w" where
  "spec_resize z icd n = (\<lambda>(xs, w).
     if n < length xs then (take n xs, destroy_all icd (drop n xs) w)
     else let (ys, w) = new_elems z icd (n - length xs) w in (xs @ ys, w))"

definition spec_inserta :: "'e \<Rightarrow> ('e, 'w) ut_icd \<Rightarrow> 'e list \<Rightarrow> nat \<Rightarrow> 'e list \<times> 'w \<Rightarrow> 'e list \<times> 'w" where
  "spec_inserta z icd ps j = (\<lambda>(xs, w).
     if ps = [] then (xs, w)
     else let (xs, w) = (if j > length xs then spec_resize z icd j (xs, w) else (xs, w)); (ys, w) = copy_elems icd ps w
          in (take j xs @ ys @ drop j xs, w))"

definition spec_erase :: "('e, 'w) ut_icd \<Rightarrow> nat \<Rightarrow> nat \<Rightarrow> 'e list \<times> 'w \<Rightarrow> 'e list \<times> 'w" where
  "spec_erase icd p l = (\<lambda>(xs, w). (take p xs @ drop (p + l) xs, destroy_all icd (take l (drop p xs)) w))"

lemma utarray_resize_ok:
  assumes "arr_rep a xs" "unat num \<le> 2 ^ 31" "\<forall>k. mem k"
  shows "\<exists>a'. utarray_resize mem z num (a, w) = Some (Inr (a', snd (spec_resize z (ua_icd a) (unat num) (xs, w))))
    \<and> arr_rep a' (fst (spec_resize z (ua_icd a) (unat num) (xs, w))) \<and> ua_icd a' = ua_icd a"
  using assms(1)
proof (rule arr_repE)
  fix rest assume r: "unat (ua_i a) = length xs" "length (ua_d a) = unat (ua_n a)" "ua_d a = map Some xs @ rest"
    "ua_n a = 0 \<or> (\<exists>k < 32. ua_n a = 2 ^ k)"
  consider "ua_i a > num" | "ua_i a < num" | "ua_i a = num" by fastforce
  then show ?thesis
  proof cases
    case 1
    then have lt: "unat num < length xs" using r(1) by (simp add: word_less_nat_alt)
    have d: "ua_d a = map Some (take (unat num) xs) @ map Some (drop (unat num) xs) @ rest"
      using r(3) by (metis append.assoc append_take_drop_id map_append)
    have "destroy (ua_icd a) (ua_d a) (length (ua_d a)) (unat num) (unat (ua_i a)) w
        = Inr (destroy_all (ua_icd a) (drop (unat num) xs) w)"
      using lt r(1,3) by (intro destroy_ok [OF d]) simp_all
    moreover have "arr_rep (a\<lparr>ua_i := num\<rparr>) (take (unat num) xs)"
      using r(2,4) d lt by (intro arr_repI [where rest = "map Some (drop (unat num) xs) @ rest"]) simp_all
    ultimately show ?thesis using 1 lt by (simp add: utarray_resize_def spec_resize_def)
  next
    case 2
    then have lt: "length xs < unat num" using r(1) by (simp add: word_less_nat_alt)
    have df: "unat (num - ua_i a) = unat num - length xs" using lt r(1) by (subst unat_diff32) simp_all
    obtain a1 where a1: "utarray_reserve mem a (num - ua_i a) = Some (Inr a1)" "arr_rep a1 xs" "unat num \<le> length (ua_d a1)"
      "ua_icd a1 = ua_icd a" "ua_i a1 = ua_i a"
      using utarray_reserve_ok [OF assms(1) _ assms(3), of "num - ua_i a"] lt assms(2) unfolding df by auto
    let ?ys = "fst (new_elems z (ua_icd a) (unat num - length xs) w)" and ?w = "snd (new_elems z (ua_icd a) (unat num - length xs) w)"
    let ?d = "take (length xs) (ua_d a1) @ map Some ?ys @ drop (unat num) (ua_d a1)"
    have i: "init_slots z (ua_icd a) (length xs) (unat num) (ua_d a1) w = Inr (?d, ?w)"
      using lt a1(3) by (intro init_slots_ok) simp_all
    obtain rest1 where r1: "ua_d a1 = map Some xs @ rest1" using a1(2) by (rule arr_repE)
    have ly: "length ?ys = unat num - length xs" by (rule length_new_elems)
    have "arr_rep (a1\<lparr>ua_d := ?d, ua_i := num\<rparr>) (xs @ ?ys)"
      using a1(3) lt ly r1 by (intro arr_rep_extend [OF a1(2)]) simp_all
    moreover have "utarray_resize mem z num (a, w) = Some (Inr (a1\<lparr>ua_d := ?d, ua_i := num\<rparr>, ?w))"
    proof -
      have "\<not> num < ua_i a" using 2 by simp
      then show ?thesis using 2 a1(1,4,5) i r(1) by (simp add: utarray_resize_def)
    qed
    ultimately show ?thesis using lt a1(4) by (simp add: spec_resize_def split_def Let_def)
  next
    case 3
    then have eq: "a\<lparr>ua_i := num\<rparr> = a" by (cases a) simp
    from 3 assms(1) r(1) show ?thesis by (simp add: utarray_resize_def spec_resize_def eq)
  qed
qed

text \<open>Making room at a place, and the elements put there.\<close>

lemma move_up_ok:
  assumes "d = map Some xs @ rest" "j \<le> length xs" "length xs + n \<le> length d"
  shows "\<exists>gap. length gap = n \<and> (if j < length xs then move_slots d (j + n) j (length xs - j) else Inr d)
    = Inr (map Some (take j xs) @ gap @ map Some (drop j xs) @ drop (length xs + n) d)"
proof (cases "j < length xs")
  case False
  with assms show ?thesis by (intro exI [of _ "take n rest"]) (simp add: append_eq_conv_conj)
next
  case True
  let ?gap = "take n (drop j d)"
  have "take (j + n) d = map Some (take j xs) @ ?gap" using assms(1) True by (simp add: take_add take_map drop_map add.commute)
  moreover have "take (length xs - j) (drop j d) = map Some (drop j xs)" using assms(1,2) by (simp add: drop_map)
  moreover have "j + n + (length xs - j) = length xs + n" using assms(2) by simp
  ultimately have "move_slots d (j + n) j (length xs - j)
      = Inr (map Some (take j xs) @ ?gap @ map Some (drop j xs) @ drop (length xs + n) d)"
    using assms(2,3) True by (simp add: move_slots_def add.commute)
  with assms(2,3) True show ?thesis by (intro exI [of _ ?gap]) simp
qed

lemma utarray_insert_copies:
  assumes "arr_rep a xs" "j \<le> length xs" "length xs + length ys \<le> length (ua_d a)" "length gap = length ys"
    and "unat i = length xs + length ys"
  shows "arr_rep (a\<lparr>ua_d := map Some (take j xs) @ map Some ys @ map Some (drop j xs) @ drop (length xs + length ys) (ua_d a), ua_i := i\<rparr>)
    (take j xs @ ys @ drop j xs)"
  using assms(1)
proof (rule arr_repE)
  fix rest assume r: "unat (ua_i a) = length xs" "length (ua_d a) = unat (ua_n a)" "ua_d a = map Some xs @ rest"
    "ua_n a = 0 \<or> (\<exists>k < 32. ua_n a = 2 ^ k)"
  show ?thesis using r(2,4) assms(2,3,5)
    by (intro arr_repI [where rest = "drop (length xs + length ys) (ua_d a)"]) simp_all
qed

lemma grow_before_insert:
  assumes "arr_rep a xs" "unat j \<le> 2 ^ 31" "\<forall>k. mem k"
  shows "\<exists>a' xs' w'. (if j > ua_i a then utarray_resize mem z j (a, w) else Some (Inr (a, w))) = Some (Inr (a', w'))
    \<and> arr_rep a' xs' \<and> ua_icd a' = ua_icd a \<and> unat j \<le> length xs' \<and> length xs' = max (unat j) (length xs)
    \<and> (xs', w') = (if unat j > length xs then spec_resize z (ua_icd a) (unat j) (xs, w) else (xs, w))"
proof -
  have i: "(j > ua_i a) = (unat j > length xs)" using assms(1) by (auto simp: arr_rep_def word_less_nat_alt)
  show ?thesis
  proof (cases "unat j > length xs")
    case False
    with assms(1) i show ?thesis by auto
  next
    case True
    from utarray_resize_ok [OF assms, of z w] obtain a' where a': "utarray_resize mem z j (a, w) = Some (Inr (a', snd (spec_resize z (ua_icd a) (unat j) (xs, w))))"
      "arr_rep a' (fst (spec_resize z (ua_icd a) (unat j) (xs, w)))" "ua_icd a' = ua_icd a" by blast
    have "length (fst (spec_resize z (ua_icd a) (unat j) (xs, w))) = unat j"
      using True by (simp add: spec_resize_def split_def Let_def length_new_elems)
    with True i a' show ?thesis by (intro exI [of _ a'] exI) auto
  qed
qed

lemma utarray_inserta_ok:
  assumes "arr_rep a xs" "arr_rep src ps" "max (unat j) (length xs) + length ps \<le> 2 ^ 31" "\<forall>k. mem k"
  shows "\<exists>a'. utarray_inserta mem z src j (a, w) = Some (Inr (a', snd (spec_inserta z (ua_icd a) ps (unat j) (xs, w))))
    \<and> arr_rep a' (fst (spec_inserta z (ua_icd a) ps (unat j) (xs, w))) \<and> ua_icd a' = ua_icd a"
proof -
  obtain rs where s: "unat (ua_i src) = length ps" "ua_d src = map Some ps @ rs" using assms(2) by (rule arr_repE)
  show ?thesis
  proof (cases "ps = []")
    case True
    then have "ua_i src = 0" using s(1) by (simp add: unat_eq_zero)
    with True assms(1) show ?thesis by (simp add: utarray_inserta_def utarray_len_def spec_inserta_def)
  next
    case False
    then have n0: "utarray_len src \<noteq> 0" using s(1) by (auto simp: utarray_len_def)
    have j31: "unat j \<le> 2 ^ 31" using assms(3) by linarith
    from grow_before_insert [OF assms(1) j31 assms(4), of z w] obtain a1 xs1 w1 where
      g: "(if j > ua_i a then utarray_resize mem z j (a, w) else Some (Inr (a, w))) = Some (Inr (a1, w1))"
      "arr_rep a1 xs1" "ua_icd a1 = ua_icd a" "unat j \<le> length xs1" "length xs1 = max (unat j) (length xs)"
      "(xs1, w1) = (if unat j > length xs then spec_resize z (ua_icd a) (unat j) (xs, w) else (xs, w))" by blast
    have cap: "length xs1 + unat (utarray_len src) \<le> 2 ^ 31" using assms(3) g(5) s(1) by (simp add: utarray_len_def)
    obtain a2 where a2: "utarray_reserve mem a1 (utarray_len src) = Some (Inr a2)" "arr_rep a2 xs1"
      "length xs1 + length ps \<le> length (ua_d a2)" "ua_icd a2 = ua_icd a" "ua_i a2 = ua_i a1"
      using utarray_reserve_ok [OF g(2) cap assms(4)] g(3) s(1) by (auto simp: utarray_len_def)
    obtain rest where r: "unat (ua_i a2) = length xs1" "ua_d a2 = map Some xs1 @ rest" using a2(2) by (rule arr_repE)
    have w: "unat (j + utarray_len src) = unat j + length ps" "unat (ua_i a2 + utarray_len src) = length xs1 + length ps"
      using cap g(4) r(1) s(1) by (simp_all add: unat_add32 utarray_len_def)
    have cond: "(j < ua_i a2) = (unat j < length xs1)" using r(1) by (simp add: word_less_nat_alt)
    have df: "unat j < length xs1 \<Longrightarrow> unat (ua_i a2 - j) = length xs1 - unat j" using r(1) by (subst unat_diff32) simp_all
    obtain gap where gap: "length gap = length ps"
      "(if unat j < length xs1 then move_slots (ua_d a2) (unat j + length ps) (unat j) (length xs1 - unat j) else Inr (ua_d a2))
        = Inr (map Some (take (unat j) xs1) @ gap @ map Some (drop (unat j) xs1) @ drop (length xs1 + length ps) (ua_d a2))"
      using move_up_ok [OF r(2) g(4) a2(3)] by blast
    let ?ys = "fst (copy_elems (ua_icd a) ps w1)" and ?w = "snd (copy_elems (ua_icd a) ps w1)"
    let ?rest = "map Some (drop (unat j) xs1) @ drop (length xs1 + length ps) (ua_d a2)"
    let ?g = "map Some (take (unat j) xs1) @ gap @ ?rest"
    let ?d = "map Some (take (unat j) xs1) @ map Some ?ys @ ?rest"
    have ly: "length ?ys = length ps" by (rule length_copy_elems)
    have mv: "(if j < ua_i a2 then move_slots (ua_d a2) (unat (j + utarray_len src)) (unat j) (unat (ua_i a2 - j)) else Inr (ua_d a2)) = Inr ?g"
      using gap(2) df by (simp add: cond w(1) split: if_splits)
    have cp: "copy_slots (ua_icd a) (unat j) (map Some ps) ?g w1 = Inr (?d, ?w)"
      using g(4) gap(1) by (subst copy_slots_ok) simp_all
    have sd: "take (unat (ua_i src)) (ua_d src) = map Some ps" "\<not> length (ua_d src) < unat (ua_i src)" using s by simp_all
    let ?a = "a2\<lparr>ua_d := ?d, ua_i := ua_i a2 + utarray_len src\<rparr>"
    have "utarray_inserta mem z src j (a, w) = Some (Inr (?a, ?w))"
      unfolding utarray_inserta_def prod.case g(1) bind_run_simps a2(1) mv sd a2(4) cp
      using n0 sd(2) by simp
    moreover have "arr_rep ?a (take (unat j) xs1 @ ?ys @ drop (unat j) xs1)"
      using utarray_insert_copies [OF a2(2) g(4), of ?ys gap "ua_i a2 + utarray_len src"] a2(3) gap(1) ly w(2) by simp
    moreover have "spec_inserta z (ua_icd a) ps (unat j) (xs, w) = (take (unat j) xs1 @ ?ys @ drop (unat j) xs1, ?w)"
      unfolding spec_inserta_def prod.case g(6) [symmetric] using False by (simp add: split_def Let_def)
    ultimately show ?thesis using a2(4) by simp
  qed
qed

lemma utarray_insert_ok:
  assumes "arr_rep a xs" "max (unat j) (length xs) + 1 \<le> 2 ^ 31" "\<forall>k. mem k"
  shows "\<exists>a'. utarray_insert mem z p j (a, w) = Some (Inr (a', snd (spec_inserta z (ua_icd a) [p] (unat j) (xs, w))))
    \<and> arr_rep a' (fst (spec_inserta z (ua_icd a) [p] (unat j) (xs, w))) \<and> ua_icd a' = ua_icd a"
proof -
  let ?src = "\<lparr>ua_i = 1, ua_n = 1, ua_icd = ua_icd a, ua_d = [Some p]\<rparr>"
  have src: "arr_rep ?src [p]" by (intro arr_repI [where rest = "[]"]) (auto intro!: exI [of _ 0])
  have "utarray_insert mem z p j (a, w) = utarray_inserta mem z ?src j (a, w)"
    unfolding utarray_insert_def utarray_inserta_def utarray_len_def
    by (auto simp: split_def Let_def bind_run_def bind_res_def split: option.split sum.split)
  with utarray_inserta_ok [OF assms(1) src _ assms(3)] assms(2) show ?thesis by simp
qed

lemma push_is_insert: "utarray_push_back mem p (a, w) = utarray_insert mem z p (ua_i a) (a, w)"
proof -
  have irr: "(ua_i a < ua_i a) = False" by simp
  show ?thesis
    unfolding utarray_push_back_def utarray_insert_def prod.case irr if_False bind_run_simps
  proof (rule bind_run_cong_fun)
  fix a1 assume "utarray_reserve mem a 1 = Some (Inr a1)"
  then have "ua_i a1 = ua_i a" by (auto simp: utarray_reserve_def split: if_splits option.splits)
  then show "(let (x, w) = copy_elem (ua_icd a1) p w in
      bind_run (Some (put_slot (ua_d a1) (unat (ua_i a1)) x)) (\<lambda>d. Some (Inr (a1\<lparr>ua_d := d, ua_i := ua_i a1 + 1\<rparr>, w)))) =
    bind_run (Some (if ua_i a < ua_i a1 then move_slots (ua_d a1) (unat (ua_i a + 1)) (unat (ua_i a)) (unat (ua_i a1 - ua_i a)) else Inr (ua_d a1))) (\<lambda>d.
      let (x, w) = copy_elem (ua_icd a1) p w in
      bind_run (Some (put_slot d (unat (ua_i a)) x)) (\<lambda>d. Some (Inr (a1\<lparr>ua_d := d, ua_i := ua_i a1 + 1\<rparr>, w))))" by simp
  qed
qed

lemma utarray_extend_back_ok:
  assumes "arr_rep a xs" "length xs + 1 \<le> 2 ^ 31" "\<forall>k. mem k"
  shows "\<exists>a'. utarray_extend_back mem z (a, w) = Some (Inr (a', snd (spec_resize z (ua_icd a) (length xs + 1) (xs, w))))
    \<and> arr_rep a' (fst (spec_resize z (ua_icd a) (length xs + 1) (xs, w))) \<and> ua_icd a' = ua_icd a"
proof -
  obtain a1 where a1: "utarray_reserve mem a 1 = Some (Inr a1)" "arr_rep a1 xs" "length xs + 1 \<le> length (ua_d a1)"
    "ua_icd a1 = ua_icd a" "ua_i a1 = ua_i a" using utarray_reserve_ok [OF assms(1) _ assms(3), of 1] assms(2) by auto
  obtain rest where r: "unat (ua_i a1) = length xs" "ua_d a1 = map Some xs @ rest" using a1(2) by (rule arr_repE)
  obtain x w' where x: "init_elem z (ua_icd a) w = (x, w')" by fastforce
  let ?d = "(ua_d a1)[length xs := Some x]"
  have "?d = map Some (xs @ [x]) @ drop (length xs + length [x]) (ua_d a1)" using a1(3) r(2)
    by (cases rest) (simp_all add: list_update_append)
  moreover have "unat (ua_i a1 + 1) = length xs + length [x]" using r(1) assms(2) by (subst unat_add32) simp_all
  ultimately have "arr_rep (a1\<lparr>ua_d := ?d, ua_i := ua_i a1 + 1\<rparr>) (xs @ [x])"
    using a1(3) by (intro arr_rep_extend [OF a1(2)]) simp_all
  moreover have "utarray_extend_back mem z (a, w) = Some (Inr (a1\<lparr>ua_d := ?d, ua_i := ua_i a1 + 1\<rparr>, w'))"
    using a1(1,3,4) x r(1) by (simp add: utarray_extend_back_def put_slot_def)
  moreover have "spec_resize z (ua_icd a) (length xs + 1) (xs, w) = (xs @ [x], w')" by (simp add: spec_resize_def x)
  ultimately show ?thesis using a1(4) by simp
qed

lemma utarray_pop_back_ok:
  assumes "arr_rep a (xs @ [x])"
  shows "\<exists>a'. utarray_pop_back (a, w) = Inr (a', destroy_all (ua_icd a) [x] w) \<and> arr_rep a' xs \<and> ua_icd a' = ua_icd a"
  using assms
proof (rule arr_repE)
  fix rest assume r: "unat (ua_i a) = length (xs @ [x])" "length (ua_d a) = unat (ua_n a)" "ua_d a = map Some (xs @ [x]) @ rest"
    "ua_n a = 0 \<or> (\<exists>k < 32. ua_n a = 2 ^ k)"
  have i: "unat (ua_i a - 1) = length xs" using r(1) by (subst unat_diff32) simp_all
  have "get_slot (ua_d a) (length xs) = Inr x" using r(3) by (simp add: get_slot_def nth_append)
  then have "utarray_pop_back (a, w) = Inr (a\<lparr>ua_i := ua_i a - 1\<rparr>, destroy_all (ua_icd a) [x] w)"
    by (simp add: utarray_pop_back_def i destroy_all_def split: option.split)
  moreover have "arr_rep (a\<lparr>ua_i := ua_i a - 1\<rparr>) xs" using r i by (intro arr_repI [where rest = "Some x # rest"]) simp_all
  ultimately show ?thesis by simp
qed

lemma utarray_erase_ok:
  assumes "arr_rep a xs" "unat p + unat l \<le> length xs"
  shows "\<exists>a'. utarray_erase p l (a, w) = Inr (a', snd (spec_erase (ua_icd a) (unat p) (unat l) (xs, w)))
    \<and> arr_rep a' (fst (spec_erase (ua_icd a) (unat p) (unat l) (xs, w))) \<and> ua_icd a' = ua_icd a"
  using assms(1)
proof (rule arr_repE)
  fix rest assume r: "unat (ua_i a) = length xs" "length (ua_d a) = unat (ua_n a)" "ua_d a = map Some xs @ rest"
    "ua_n a = 0 \<or> (\<exists>k < 32. ua_n a = 2 ^ k)"
  let ?p = "unat p" and ?l = "unat l"
  have "unat (ua_i a) < 2 ^ LENGTH(32)" by (rule unsigned_less)
  then have pl: "unat (p + l) = ?p + ?l" using assms(2) r(1) by (subst unat_add32) simp_all
  have xs: "xs = take ?p xs @ take ?l (drop ?p xs) @ drop (?p + ?l) xs"
    by (metis append_take_drop_id drop_drop add.commute)
  have d: "ua_d a = map Some (take ?p xs) @ map Some (take ?l (drop ?p xs)) @ map Some (drop (?p + ?l) xs) @ rest"
    unfolding r(3) by (subst xs) (simp only: map_append append_assoc)
  have ds: "destroy (ua_icd a) (ua_d a) (unat (ua_i a)) ?p (?p + ?l) w = Inr (destroy_all (ua_icd a) (take ?l (drop ?p xs)) w)"
    using assms(2) r(1) by (intro destroy_ok [OF d]) simp_all
  have cond: "(p + l < ua_i a) = (?p + ?l < length xs)" using r(1) pl by (simp add: word_less_nat_alt)
  have len: "unat (ua_i a - (p + l)) = length xs - (?p + ?l)" using r(1) pl assms(2) by (subst unat_diff32) simp_all
  have i': "unat (ua_i a - l) = length xs - ?l" using r(1) assms(2) by (subst unat_diff32) simp_all
  have "\<exists>rest'. (if p + l < ua_i a then move_slots (ua_d a) ?p (unat (p + l)) (unat (ua_i a - (p + l))) else Inr (ua_d a))
      = Inr (map Some (take ?p xs @ drop (?p + ?l) xs) @ rest') \<and> length (map Some (take ?p xs @ drop (?p + ?l) xs) @ rest') = length (ua_d a)"
  proof (cases "?p + ?l < length xs")
    case False
    then have "drop (?p + ?l) xs = []" by simp
    then show ?thesis using d False cond by (intro exI [of _ "map Some (take ?l (drop ?p xs)) @ rest"]) simp
  next
    case True
    have t: "take ?p (ua_d a) = map Some (take ?p xs)" "take (length xs - (?p + ?l)) (drop (?p + ?l) (ua_d a)) = map Some (drop (?p + ?l) xs)"
      using r(3) True by (simp_all add: take_map drop_map)
    have "length xs \<le> length (ua_d a)" using r(3) by simp
    then show ?thesis using True cond t
      by (intro exI [of _ "drop (length xs - ?l) (ua_d a)"]) (simp add: pl len move_slots_def)
  qed
  then obtain rest' where mv: "(if p + l < ua_i a then move_slots (ua_d a) ?p (unat (p + l)) (unat (ua_i a - (p + l))) else Inr (ua_d a))
      = Inr (map Some (take ?p xs @ drop (?p + ?l) xs) @ rest')" "length (map Some (take ?p xs @ drop (?p + ?l) xs) @ rest') = length (ua_d a)"
    by blast
  let ?a = "a\<lparr>ua_d := map Some (take ?p xs @ drop (?p + ?l) xs) @ rest', ua_i := ua_i a - l\<rparr>"
  have "utarray_erase p l (a, w) = Inr (?a, destroy_all (ua_icd a) (take ?l (drop ?p xs)) w)"
    unfolding utarray_erase_def prod.case ds bind_res_Inr mv(1) ..
  moreover have "arr_rep ?a (take ?p xs @ drop (?p + ?l) xs)"
    using r(2,4) mv(2) i' assms(2) by (intro arr_repI [where rest = rest']) simp_all
  ultimately show ?thesis by (simp add: spec_erase_def)
qed

lemma utarray_clear_ok:
  assumes "arr_rep a xs"
  shows "\<exists>a'. utarray_clear (a, w) = Inr (a', destroy_all (ua_icd a) xs w) \<and> arr_rep a' [] \<and> ua_icd a' = ua_icd a"
  using assms
proof (rule arr_repE)
  fix rest assume r: "unat (ua_i a) = length xs" "length (ua_d a) = unat (ua_n a)" "ua_d a = map Some xs @ rest"
    "ua_n a = 0 \<or> (\<exists>k < 32. ua_n a = 2 ^ k)"
  show ?thesis
  proof (cases "ua_i a > 0")
    case True
    have d: "ua_d a = map Some [] @ map Some xs @ rest" using r(3) by simp
    have "destroy (ua_icd a) (ua_d a) (length (ua_d a)) 0 (unat (ua_i a)) w = Inr (destroy_all (ua_icd a) xs w)"
      using r(1,3) by (intro destroy_ok [OF d]) simp_all
    moreover have "arr_rep (a\<lparr>ua_i := 0\<rparr>) []" using r by (intro arr_repI [where rest = "ua_d a"]) simp_all
    ultimately show ?thesis using True by (simp add: utarray_clear_def)
  next
    case False
    then have "ua_i a = 0" by (simp add: word_less_nat_alt unat_eq_zero)
    with r(1) have "xs = []" by simp
    with False assms show ?thesis by (auto simp: utarray_clear_def destroy_all_def split: option.split)
  qed
qed

lemma utarray_walk:
  assumes "arr_rep a xs"
  shows "k \<le> length xs \<Longrightarrow> utarray_next a (if k = 0 then None else Some (k - 1)) = (if k < length xs then Some k else None)"
    and "k \<le> length xs \<Longrightarrow> utarray_prev a (if k = length xs then None else Some k) = (if k = 0 then None else Some (k - 1))"
    and "unat j < length xs \<Longrightarrow> utarray_eltptr a j = Some (unat j) \<and> get_slot (ua_d a) (unat j) = Inr (xs ! unat j)"
  using assms
proof -
  obtain rest where r: "unat (ua_i a) = length xs" "ua_d a = map Some xs @ rest" using assms by (rule arr_repE)
  have z: "(ua_i a = 0) = (xs = [])" using r(1) by (metis length_0_conv unat_eq_zero)
  have l: "xs \<noteq> [] \<Longrightarrow> unat (ua_i a - 1) = length xs - 1" using r(1) by (subst unat_diff32) (auto simp: Suc_le_eq)
  show "k \<le> length xs \<Longrightarrow> utarray_next a (if k = 0 then None else Some (k - 1)) = (if k < length xs then Some k else None)"
    using r(1) z by (auto simp: utarray_next_def utarray_front_def)
  show "k \<le> length xs \<Longrightarrow> utarray_prev a (if k = length xs then None else Some k) = (if k = 0 then None else Some (k - 1))"
    using z l by (auto simp: utarray_prev_def utarray_back_def)
  show "unat j < length xs \<Longrightarrow> utarray_eltptr a j = Some (unat j) \<and> get_slot (ua_d a) (unat j) = Inr (xs ! unat j)"
    using r by (simp add: utarray_eltptr_def get_slot_def word_less_nat_alt nth_append)
qed

lemma those_map_Some [simp]: "those (map Some xs) = Some xs"
  by (induction xs) simp_all

lemma initialised_rep: "arr_rep a xs \<Longrightarrow> initialised (take (unat (ua_i a)) (ua_d a)) = Inr xs"
  by (auto simp: arr_rep_def initialised_def)

lemma utarray_find_ok: "arr_rep a xs \<Longrightarrow> utarray_find bsearch a v = Inr (bsearch v xs)"
  by (simp add: utarray_find_def initialised_rep)

lemma utarray_sort_ok:
  assumes "arr_rep a xs" "length (qsort xs) = length xs"
  shows "\<exists>a'. utarray_sort qsort a = Inr a' \<and> arr_rep a' (qsort xs) \<and> ua_icd a' = ua_icd a"
  using assms(1)
proof (rule arr_repE)
  fix rest assume r: "unat (ua_i a) = length xs" "length (ua_d a) = unat (ua_n a)" "ua_d a = map Some xs @ rest"
    "ua_n a = 0 \<or> (\<exists>k < 32. ua_n a = 2 ^ k)"
  have "utarray_sort qsort a = Inr (a\<lparr>ua_d := map Some (qsort xs) @ rest\<rparr>)"
    using r(1,3) initialised_rep [OF assms(1)] by (simp add: utarray_sort_def)
  moreover have "arr_rep (a\<lparr>ua_d := map Some (qsort xs) @ rest\<rparr>) (qsort xs)"
    using r assms(2) by (intro arr_repI [where rest = rest]) simp_all
  ultimately show ?thesis by simp
qed

section \<open>Properties\<close>

text \<open>What a program does with an array, and the same on a list; \<open>'w\<close> is what the user's functions act on.\<close>

datatype ('e, 'w) arr_op =
    Push 'e
  | Pop
  | Extend
  | Insert 'e u32
  | Insert_All "('e, 'w) ut_array" u32
  | Concat "('e, 'w) ut_array"
  | Resize u32
  | Erase u32 u32
  | Sort "'e list \<Rightarrow> 'e list"
  | Clear
  | Renew "('e, 'w) ut_icd"

definition elements :: "('e, 'w) ut_array \<Rightarrow> 'e list" where
  "elements a = map the (take (unat (ua_i a)) (ua_d a))"

fun run_arr_op :: "(nat \<Rightarrow> bool) \<Rightarrow> 'e \<Rightarrow> ('e, 'w) arr_op \<Rightarrow> ('e, 'w) ut_array \<times> 'w \<Rightarrow> (('e, 'w) ut_array \<times> 'w) run" where
  "run_arr_op mem z (Push p) t = utarray_push_back mem p t"
| "run_arr_op mem z Pop t = Some (utarray_pop_back t)"
| "run_arr_op mem z Extend t = utarray_extend_back mem z t"
| "run_arr_op mem z (Insert p j) t = utarray_insert mem z p j t"
| "run_arr_op mem z (Insert_All src j) t = utarray_inserta mem z src j t"
| "run_arr_op mem z (Concat src) t = utarray_concat mem z src t"
| "run_arr_op mem z (Resize n) t = utarray_resize mem z n t"
| "run_arr_op mem z (Erase p l) t = Some (utarray_erase p l t)"
| "run_arr_op mem z (Sort qsort) t = Some (bind_res (utarray_sort qsort (fst t)) (\<lambda>a. Inr (a, snd t)))"
| "run_arr_op mem z Clear t = Some (utarray_clear t)"
| "run_arr_op mem z (Renew icd) t = Some (utarray_renew False icd (Some (fst t), snd t))"

primrec run_arr_ops :: "(nat \<Rightarrow> bool) \<Rightarrow> 'e \<Rightarrow> ('e, 'w) arr_op list \<Rightarrow> ('e, 'w) ut_array \<times> 'w \<Rightarrow> (('e, 'w) ut_array \<times> 'w) run" where
  "run_arr_ops mem z [] t = Some (Inr t)"
| "run_arr_ops mem z (c # cs) t = bind_run (run_arr_op mem z c t) (run_arr_ops mem z cs)"

fun spec_arr_op :: "'e \<Rightarrow> ('e, 'w) ut_icd \<Rightarrow> ('e, 'w) arr_op \<Rightarrow> 'e list \<times> 'w \<Rightarrow> 'e list \<times> 'w" where
  "spec_arr_op z icd (Push p) (xs, w) = (let (x, w) = copy_elem icd p w in (xs @ [x], w))"
| "spec_arr_op z icd Pop (xs, w) = (butlast xs, destroy_all icd [last xs] w)"
| "spec_arr_op z icd Extend (xs, w) = spec_resize z icd (length xs + 1) (xs, w)"
| "spec_arr_op z icd (Insert p j) (xs, w) = spec_inserta z icd [p] (unat j) (xs, w)"
| "spec_arr_op z icd (Insert_All src j) (xs, w) = spec_inserta z icd (elements src) (unat j) (xs, w)"
| "spec_arr_op z icd (Concat src) (xs, w) = spec_inserta z icd (elements src) (length xs) (xs, w)"
| "spec_arr_op z icd (Resize n) (xs, w) = spec_resize z icd (unat n) (xs, w)"
| "spec_arr_op z icd (Erase p l) (xs, w) = spec_erase icd (unat p) (unat l) (xs, w)"
| "spec_arr_op z icd (Sort qsort) (xs, w) = (qsort xs, w)"
| "spec_arr_op z icd Clear (xs, w) = ([], destroy_all icd xs w)"
| "spec_arr_op z icd (Renew _) (xs, w) = ([], destroy_all icd xs w)"

text \<open>Only elements that are there are removed, and no array is to hold more than \<open>2 ^ 31\<close> elements.\<close>

fun arr_op_ok :: "('e, 'w) arr_op \<Rightarrow> 'e list \<Rightarrow> bool" where
  "arr_op_ok (Push p) xs \<longleftrightarrow> length xs + 1 \<le> 2 ^ 31"
| "arr_op_ok Pop xs \<longleftrightarrow> xs \<noteq> []"
| "arr_op_ok Extend xs \<longleftrightarrow> length xs + 1 \<le> 2 ^ 31"
| "arr_op_ok (Insert p j) xs \<longleftrightarrow> max (unat j) (length xs) + 1 \<le> 2 ^ 31"
| "arr_op_ok (Insert_All src j) xs \<longleftrightarrow> arr_rep src (elements src) \<and> max (unat j) (length xs) + length (elements src) \<le> 2 ^ 31"
| "arr_op_ok (Concat src) xs \<longleftrightarrow> arr_rep src (elements src) \<and> length xs + length (elements src) \<le> 2 ^ 31"
| "arr_op_ok (Resize n) xs \<longleftrightarrow> unat n \<le> 2 ^ 31"
| "arr_op_ok (Erase p l) xs \<longleftrightarrow> unat p + unat l \<le> length xs"
| "arr_op_ok (Sort qsort) xs \<longleftrightarrow> length (qsort xs) = length xs"
| "arr_op_ok Clear xs \<longleftrightarrow> True"
| "arr_op_ok (Renew _) xs \<longleftrightarrow> True"

primrec arr_ops_ok :: "'e \<Rightarrow> ('e, 'w) ut_icd \<Rightarrow> ('e, 'w) arr_op list \<Rightarrow> 'e list \<times> 'w \<Rightarrow> bool" where
  "arr_ops_ok z icd [] t \<longleftrightarrow> True"
| "arr_ops_ok z icd (c # cs) t \<longleftrightarrow> arr_op_ok c (fst t) \<and> arr_ops_ok z icd cs (spec_arr_op z icd c t)"

lemma spec_push: "spec_arr_op z icd (Push p) (xs, w) = spec_inserta z icd [p] (length xs) (xs, w)"
  by (simp add: spec_inserta_def split_def Let_def)

lemma run_arr_op_ok:
  assumes "arr_rep a xs" "arr_op_ok c xs" "\<forall>k. mem k"
  shows "\<exists>a'. run_arr_op mem z c (a, w) = Some (Inr (a', snd (spec_arr_op z (ua_icd a) c (xs, w))))
    \<and> arr_rep a' (fst (spec_arr_op z (ua_icd a) c (xs, w))) \<and> ua_icd a' = ua_icd a"
proof -
  have i: "unat (ua_i a) = length xs" using assms(1) by (simp add: arr_rep_def)
  show ?thesis
  proof (cases c)
    case (Push p)
    with utarray_insert_ok [OF assms(1) _ assms(3), of "ua_i a" z p w] assms(2) i show ?thesis
      by (simp only: run_arr_op.simps push_is_insert [where z = z] spec_push) simp
  next
    case Pop
    with assms(2) have "xs = butlast xs @ [last xs]" by simp
    with assms(1) have "arr_rep a (butlast xs @ [last xs])" by simp
    from utarray_pop_back_ok [OF this] Pop show ?thesis by simp
  next
    case Extend
    with utarray_extend_back_ok [OF assms(1) _ assms(3), of z w] assms(2) show ?thesis by simp
  next
    case (Insert p j)
    with utarray_insert_ok [OF assms(1) _ assms(3), of j z p w] assms(2) show ?thesis by simp
  next
    case (Insert_All src j)
    with utarray_inserta_ok [OF assms(1) _ _ assms(3), of src "elements src" j z w] assms(2) show ?thesis by simp
  next
    case (Concat src)
    with utarray_inserta_ok [OF assms(1) _ _ assms(3), of src "elements src" "ua_i a" z w] assms(2) i show ?thesis
      by (simp add: utarray_concat_def utarray_len_def)
  next
    case (Resize n)
    with utarray_resize_ok [OF assms(1) _ assms(3), of n z w] assms(2) show ?thesis by simp
  next
    case (Erase p l)
    with utarray_erase_ok [OF assms(1), of p l w] assms(2) show ?thesis by simp
  next
    case Clear
    with utarray_clear_ok [OF assms(1), of w] show ?thesis by simp
  next
    case (Renew icd)
    with utarray_clear_ok [OF assms(1), of w] show ?thesis by (simp add: utarray_renew_def)
  next
    case (Sort qsort)
    with utarray_sort_ok [OF assms(1), of qsort] assms(2) show ?thesis by (auto simp: bind_res_Inr)
  qed
qed

lemma run_arr_ops_ok:
  assumes "arr_rep a xs" "arr_ops_ok z (ua_icd a) cs (xs, w)" "\<forall>k. mem k"
  shows "\<exists>a'. run_arr_ops mem z cs (a, w) = Some (Inr (a', snd (fold (spec_arr_op z (ua_icd a)) cs (xs, w))))
    \<and> arr_rep a' (fst (fold (spec_arr_op z (ua_icd a)) cs (xs, w)))"
  using assms(1,2)
proof (induction cs arbitrary: a xs w)
  case (Cons c cs)
  obtain a1 where a1: "run_arr_op mem z c (a, w) = Some (Inr (a1, snd (spec_arr_op z (ua_icd a) c (xs, w))))"
    "arr_rep a1 (fst (spec_arr_op z (ua_icd a) c (xs, w)))" "ua_icd a1 = ua_icd a"
    using run_arr_op_ok [OF Cons.prems(1) _ assms(3), of c z w] Cons.prems(2) by auto
  from Cons.IH [OF a1(2), of "snd (spec_arr_op z (ua_icd a) c (xs, w))"] Cons.prems(2) a1(1,3) show ?case by simp
qed auto

text \<open>C17: a dynamic array is a list. However insertions of elements and of whole arrays, at any place and
  beyond the end too, removals, erasures and changes of size follow each other, the slots hold the elements of the same
  operations on lists, and the user's functions are called on exactly the elements that come and go, in order. The
  capacity is doubled as often as it takes.\<close>

theorem arrays_are_lists:
  assumes "arr_ops_ok z icd cs ([], w)" "\<forall>k. mem k"
  shows "\<exists>a. run_arr_ops mem z cs (utarray_init icd, w) = Some (Inr (a, snd (fold (spec_arr_op z icd) cs ([], w))))
    \<and> arr_rep a (fst (fold (spec_arr_op z icd) cs ([], w)))"
proof -
  have "arr_rep (utarray_init icd) []" by (simp add: arr_rep_def utarray_init_def)
  from run_arr_ops_ok [OF this _ assms(2)] assms(1) show ?thesis by (simp add: utarray_init_def)
qed

text \<open>Destroyed elements are written to a list.\<close>

theorem arrays_are_lists_witness:
  "\<exists>a. run_arr_ops (\<lambda>_. True) 0 [Push 1, Push 2, Insert 7 1, Resize 5, Erase 1 2, Pop, Insert 9 4]
      (utarray_init \<lparr>icd_init = None, icd_copy = None, icd_dtor = Some (#)\<rparr>, []) = Some (Inr (a, [0, 2, 7]))
    \<and> arr_rep a [1, 0, 0, 0, 9 :: nat]"
proof -
  let ?cs = "[Push 1, Push 2, Insert 7 1, Resize 5, Erase 1 2, Pop, Insert 9 4] :: (nat, nat list) arr_op list"
  let ?icd = "\<lparr>icd_init = None, icd_copy = None, icd_dtor = Some (#)\<rparr> :: (nat, nat list) ut_icd"
  have steps: "spec_arr_op 0 ?icd (Push 1) ([], []) = ([1], [])" "spec_arr_op 0 ?icd (Push 2) ([1], []) = ([1, 2], [])"
    "spec_arr_op 0 ?icd (Insert 7 1) ([1, 2], []) = ([1, 7, 2], [])"
    "spec_arr_op 0 ?icd (Resize 5) ([1, 7, 2], []) = ([1, 7, 2, 0, 0], [])"
    "spec_arr_op 0 ?icd (Erase 1 2) ([1, 7, 2, 0, 0], []) = ([1, 0, 0], [2, 7])"
    "spec_arr_op 0 ?icd Pop ([1, 0, 0], [2, 7]) = ([1, 0], [0, 2, 7])" by code_simp+
  have "arr_ops_ok 0 ?icd ?cs ([], [])"
    by (simp only: arr_ops_ok.simps steps fst_conv) simp
  moreover have "fold (spec_arr_op 0 ?icd) ?cs ([], []) = ([1, 0, 0, 0, 9], [0, 2, 7])" by code_simp
  ultimately show ?thesis using arrays_are_lists [of 0 ?icd ?cs "[]" "\<lambda>_. True"] by simp
qed

text \<open>C40: an array cannot be resized (\<open>utarray_resize\<close>) beyond \<open>2 ^ 31\<close> elements, and trying to does not end. The capacity is doubled
  from 8, so it is \<open>2 ^ 31\<close>, then 0, then 8 again, and \<open>utarray_reserve\<close> never sees one that is enough.\<close>

theorem array_growth_endless:
  assumes "arr_rep a xs" "2 ^ 31 < unat num"
  shows "utarray_resize mem z num (a, w) = None"
proof -
  have "length xs \<le> 2 ^ 31" using assms(1) pow_le [of "ua_n a"] by (auto simp: arr_rep_def)
  then have lt: "length xs < unat num" using assms(2) by simp
  have i: "unat (ua_i a) = length xs" using assms(1) by (simp add: arr_rep_def)
  have df: "length xs + unat (num - ua_i a) = unat num" using lt i by (subst unat_diff32) simp_all
  have "unat num < 2 ^ LENGTH(32)" by (rule unsigned_less)
  then have "utarray_reserve mem a (num - ua_i a) = None"
    using utarray_reserve_endless [OF assms(1), of "num - ua_i a"] df assms(2) by simp
  moreover have "ua_i a < num" "\<not> num < ua_i a" using lt i by (simp_all add: word_less_nat_alt)
  ultimately show ?thesis by (simp add: utarray_resize_def)
qed

theorem array_growth_endless_witness:
  "utarray_resize (\<lambda>_. True) 0 (2 ^ 31 + 1)
     (\<lparr>ua_i = 1, ua_n = 8, ua_icd = \<lparr>icd_init = None, icd_copy = None, icd_dtor = None\<rparr>,
        ua_d = [Some (3 :: nat), None, None, None, None, None, None, None]\<rparr>, ()) = None"
  by (rule array_growth_endless [of _ "[3]"]) (auto simp: arr_rep_def intro!: exI [of _ 3])

end
