(* ===== verification/Utringbuffer.thy ===== *)
theory Utringbuffer
  imports Utarray
begin

text \<open>
  The ring buffers of \<^verbatim>\<open>uthash/utringbuffer.h\<close>: a fixed number of slots; when all are taken, a new element takes the
  place of the oldest. Elements, slots and the user's functions are those of \<open>Utarray\<close>. Indices are unsigned: where the
  macros add two of them the width is that of the wider one, 32 bits for what the user counts with and 64 for the
  difference of two pointers.
\<close>

record ('e, 'w) ut_ringbuffer =
  ub_i :: u32
  ub_n :: u32
  ub_f :: bool
  ub_icd :: "('e, 'w) ut_icd"
  ub_d :: "'e option list"

section \<open>Operations\<close>

text \<open>The result of \<open>malloc\<close> is not checked; without memory there are no slots.\<close>

definition utringbuffer_init :: "(nat \<Rightarrow> bool) \<Rightarrow> u32 \<Rightarrow> ('e, 'w) ut_icd \<Rightarrow> ('e, 'w) ut_ringbuffer" where
  "utringbuffer_init mem n icd =
     \<lparr>ub_i = 0, ub_n = n, ub_f = False, ub_icd = icd,
      ub_d = (if n \<noteq> 0 \<and> mem (unat n) then replicate (unat n) None else [])\<rparr>"

definition utringbuffer_len :: "('e, 'w) ut_ringbuffer \<Rightarrow> u32" where
  "utringbuffer_len a = (if ub_f a then ub_n a else ub_i a)"

definition utringbuffer_empty :: "('e, 'w) ut_ringbuffer \<Rightarrow> bool" where
  "utringbuffer_empty a \<longleftrightarrow> ub_i a = 0 \<and> \<not> ub_f a"

definition utringbuffer_full :: "('e, 'w) ut_ringbuffer \<Rightarrow> bool" where
  "utringbuffer_full a \<longleftrightarrow> ub_f a"

text \<open>The slot of the \<open>j\<close>-th element, computed with \<open>wd\<close> bits, and back.\<close>

definition real_idx :: "nat \<Rightarrow> ('e, 'w) ut_ringbuffer \<Rightarrow> nat \<Rightarrow> nat" where
  "real_idx wd a j = (if ub_f a then ((j + unat (ub_i a)) mod 2 ^ wd) mod unat (ub_n a) else j)"

definition utringbuffer_eltptr :: "nat \<Rightarrow> ('e, 'w) ut_ringbuffer \<Rightarrow> nat \<Rightarrow> nat option" where
  "utringbuffer_eltptr wd a j = (if j < unat (utringbuffer_len a) then Some (real_idx wd a j) else None)"

definition utringbuffer_eltidx :: "('e, 'w) ut_ringbuffer \<Rightarrow> nat \<Rightarrow> nat" where
  "utringbuffer_eltidx a k =
     (if ub_f a then nat ((int k + int (unat (ub_n a)) - int (unat (ub_i a))) mod 2 ^ 64) mod unat (ub_n a) else k)"

function clear_loop :: "('e \<Rightarrow> 'w \<Rightarrow> 'w) \<Rightarrow> ('e, 'w) ut_ringbuffer \<Rightarrow> nat \<Rightarrow> nat \<Rightarrow> 'w \<Rightarrow> 'w res" where
  "clear_loop f a k m w =
     (if k < m then
        case utringbuffer_eltptr 32 a k of None \<Rightarrow> Inl NullDeref
        | Some s \<Rightarrow> bind_res (get_slot (ub_d a) s) (\<lambda>x. clear_loop f a (Suc k) m (f x w))
      else Inr w)"
  by pat_completeness auto
termination by (relation "measure (\<lambda>(f, a, k, m, w). m - k)") auto

declare clear_loop.simps [simp del]

definition utringbuffer_clear :: "('e, 'w) ut_ringbuffer \<times> 'w \<Rightarrow> (('e, 'w) ut_ringbuffer \<times> 'w) res" where
  "utringbuffer_clear = (\<lambda>(a, w).
     bind_res (case icd_dtor (ub_icd a) of
                 Some f \<Rightarrow> if ub_f a then clear_loop f a 0 (unat (ub_n a)) w else clear_loop f a 0 (unat (ub_i a)) w
               | None \<Rightarrow> Inr w) (\<lambda>w.
     Inr (a\<lparr>ub_i := 0, ub_f := False\<rparr>, w)))"

definition utringbuffer_done :: "('e, 'w) ut_ringbuffer \<times> 'w \<Rightarrow> (('e, 'w) ut_ringbuffer \<times> 'w) res" where
  "utringbuffer_done st = bind_res (utringbuffer_clear st) (\<lambda>(a, w). Inr (a\<lparr>ub_d := [], ub_n := 0\<rparr>, w))"

definition utringbuffer_push_back :: "'e \<Rightarrow> ('e, 'w) ut_ringbuffer \<times> 'w \<Rightarrow> (('e, 'w) ut_ringbuffer \<times> 'w) res" where
  "utringbuffer_push_back p = (\<lambda>(a, w).
     bind_res (case icd_dtor (ub_icd a) of
                 Some f \<Rightarrow> if ub_f a then bind_res (get_slot (ub_d a) (unat (ub_i a))) (\<lambda>x. Inr (f x w)) else Inr w
               | None \<Rightarrow> Inr w) (\<lambda>w.
     let (x, w) = copy_elem (ub_icd a) p w in
     bind_res (put_slot (ub_d a) (unat (ub_i a)) x) (\<lambda>d.
     let i = ub_i a + 1 in
     if i = ub_n a then Inr (a\<lparr>ub_d := d, ub_i := 0, ub_f := True\<rparr>, w) else Inr (a\<lparr>ub_d := d, ub_i := i\<rparr>, w))))"

definition utringbuffer_front :: "('e, 'w) ut_ringbuffer \<Rightarrow> nat option" where
  "utringbuffer_front a = utringbuffer_eltptr 32 a 0"

definition utringbuffer_back :: "('e, 'w) ut_ringbuffer \<Rightarrow> nat option" where
  "utringbuffer_back a = (if utringbuffer_empty a then None else utringbuffer_eltptr 32 a (unat (utringbuffer_len a - 1)))"

definition utringbuffer_next :: "('e, 'w) ut_ringbuffer \<Rightarrow> nat option \<Rightarrow> nat option" where
  "utringbuffer_next a e = (case e of None \<Rightarrow> utringbuffer_front a
     | Some k \<Rightarrow> utringbuffer_eltptr 64 a ((utringbuffer_eltidx a k + 1) mod 2 ^ 64))"

definition utringbuffer_prev :: "('e, 'w) ut_ringbuffer \<Rightarrow> nat option \<Rightarrow> nat option" where
  "utringbuffer_prev a e = (case e of None \<Rightarrow> utringbuffer_back a
     | Some k \<Rightarrow> utringbuffer_eltptr 64 a (nat ((int (utringbuffer_eltidx a k) - 1) mod 2 ^ 64)))"

section \<open>What a ring buffer holds\<close>

text \<open>The elements from the oldest on: once the buffer is full, the slots in order, turned by the index of the oldest.\<close>

definition ring_rep :: "('e, 'w) ut_ringbuffer \<Rightarrow> 'e list \<Rightarrow> bool" where
  "ring_rep a xs \<longleftrightarrow> length (ub_d a) = unat (ub_n a) \<and> unat (ub_i a) < unat (ub_n a) \<and>
     (if ub_f a then \<exists>ys. ub_d a = map Some ys \<and> xs = rotate (unat (ub_i a)) ys
      else unat (ub_i a) = length xs \<and> (\<exists>rest. ub_d a = map Some xs @ rest))"

definition spec_push :: "('e, 'w) ut_icd \<Rightarrow> nat \<Rightarrow> 'e \<Rightarrow> 'e list \<times> 'w \<Rightarrow> 'e list \<times> 'w" where
  "spec_push icd n p = (\<lambda>(xs, w).
     let over = length xs + 1 - n;
         (x, w) = copy_elem icd p (destroy_all icd (take over xs) w)
     in (drop over xs @ [x], w))"

lemma rotate_update:
  assumes "i < length ys" shows "rotate (Suc i) (ys[i := x]) = tl (rotate i ys) @ [x]"
proof -
  obtain as y bs where ys: "ys = as @ y # bs" "length as = i" using id_take_nth_drop [OF assms] assms by (metis length_take min.absorb4)
  have "rotate i (as @ zs) = zs @ as" for zs using rotate_append [of as zs] ys(2) by simp
  moreover have "ys[i := x] = as @ x # bs" using ys by (simp add: list_update_append)
  ultimately show ?thesis using ys(1) by (simp only: rotate_Suc) simp
qed

lemma hd_rotate_nth: "i < length ys \<Longrightarrow> rotate i ys \<noteq> [] \<and> hd (rotate i ys) = ys ! i"
  by (cases "ys = []") (simp_all add: hd_rotate_conv_nth)

lemma ring_full:
  assumes "ring_rep a xs" "ub_f a"
  shows "length xs = unat (ub_n a)" "xs \<noteq> []" "ub_d a ! unat (ub_i a) = Some (hd xs)"
proof -
  obtain ys where ys: "ub_d a = map Some ys" "xs = rotate (unat (ub_i a)) ys" "length ys = unat (ub_n a)" "unat (ub_i a) < unat (ub_n a)"
    using assms by (auto simp: ring_rep_def)
  then show "length xs = unat (ub_n a)" "xs \<noteq> []" "ub_d a ! unat (ub_i a) = Some (hd xs)"
    using hd_rotate_nth [of "unat (ub_i a)" ys] by simp_all
qed

lemma utringbuffer_push_back_ok:
  assumes "ring_rep a xs"
  shows "\<exists>a'. utringbuffer_push_back p (a, w) = Inr (a', snd (spec_push (ub_icd a) (unat (ub_n a)) p (xs, w)))
    \<and> ring_rep a' (fst (spec_push (ub_icd a) (unat (ub_n a)) p (xs, w))) \<and> ub_icd a' = ub_icd a \<and> ub_n a' = ub_n a"
proof -
  let ?i = "unat (ub_i a)" and ?n = "unat (ub_n a)"
  have r: "length (ub_d a) = ?n" "?i < ?n" using assms by (simp_all add: ring_rep_def)
  have "?n < 2 ^ LENGTH(32)" by (rule unsigned_less)
  then have i1: "unat (ub_i a + 1) = Suc ?i" using r(2) by (subst unat_add32) simp_all
  then have wrap: "ub_i a + 1 = ub_n a \<longleftrightarrow> Suc ?i = ?n" by (metis unsigned_word_eqI)
  let ?over = "length xs + 1 - ?n"
  have over: "?over = (if ub_f a then 1 else 0)"
    using ring_full(1) [OF assms] assms r(2) by (auto simp: ring_rep_def)
  have ds: "(case icd_dtor (ub_icd a) of
                 Some f \<Rightarrow> if ub_f a then bind_res (get_slot (ub_d a) ?i) (\<lambda>x. Inr (f x w)) else Inr w
               | None \<Rightarrow> Inr w) = Inr (destroy_all (ub_icd a) (take ?over xs) w)"
    using ring_full(2,3) [OF assms] r unfolding over
    by (cases xs) (auto simp: destroy_all_def get_slot_def split: option.splits)
  obtain x w' where x: "copy_elem (ub_icd a) p (destroy_all (ub_icd a) (take ?over xs) w) = (x, w')" by fastforce
  have sp: "spec_push (ub_icd a) ?n p (xs, w) = (drop ?over xs @ [x], w')" unfolding spec_push_def prod.case Let_def x ..
  let ?d = "(ub_d a)[?i := Some x]"
  let ?a = "if Suc ?i = ?n then a\<lparr>ub_d := ?d, ub_i := 0, ub_f := True\<rparr> else a\<lparr>ub_d := ?d, ub_i := ub_i a + 1\<rparr>"
  have "utringbuffer_push_back p (a, w) = Inr (?a, w')"
    unfolding utringbuffer_push_back_def prod.case ds bind_res_Inr x Let_def wrap using r by (simp add: put_slot_def)
  moreover have "ring_rep ?a (drop ?over xs @ [x])"
  proof (cases "ub_f a")
    case True
    obtain ys where ys: "ub_d a = map Some ys" "xs = rotate ?i ys" "length ys = ?n" using assms True by (auto simp: ring_rep_def)
    have rot: "rotate (Suc ?i) (ys[?i := x]) = tl xs @ [x]" using rotate_update [of ?i ys x] ys(2,3) r(2) by simp
    have d: "?d = map Some (ys[?i := x])" using ys(1) by (simp add: map_update)
    show ?thesis
    proof (cases "Suc ?i = ?n")
      case wrapped: True
      then have "rotate (Suc ?i) (ys[?i := x]) = ys[?i := x]" using ys(3) by simp
      moreover have "length xs = ?n" using ys(2,3) by simp
      ultimately show ?thesis using wrapped rot d r ys(3) True unfolding over by (auto simp: ring_rep_def drop_Suc)
    next
      case False
      then show ?thesis using rot d r i1 ys(3) True unfolding over by (auto simp: ring_rep_def drop_Suc)
    qed
  next
    case False
    then obtain rest where rest: "?i = length xs" "ub_d a = map Some xs @ rest" using assms by (auto simp: ring_rep_def)
    then obtain z rest' where z: "rest = z # rest'" using r by (cases rest) auto
    have d: "?d = map Some (xs @ [x]) @ rest'" using rest z by (simp add: list_update_append)
    show ?thesis
    proof (cases "Suc ?i = ?n")
      case True
      have "length (map Some xs @ z # rest') = Suc (length xs)" using r(1) rest z True by metis
      then have "rest' = []" by simp
      with True d r False rest show ?thesis unfolding over by (auto simp: ring_rep_def intro!: exI [of _ "xs @ [x]"])
    next
      case neq: False
      have "Suc (length xs + length rest') = ?n" using r(1) rest z by simp
      with neq d r i1 False rest show ?thesis unfolding over by (auto simp: ring_rep_def)
    qed
  qed
  ultimately show ?thesis unfolding sp by auto
qed

lemma utringbuffer_init_ok: "0 < n \<Longrightarrow> mem (unat n) \<Longrightarrow> ring_rep (utringbuffer_init mem n icd) []"
  by (auto simp: ring_rep_def utringbuffer_init_def unat_gt_0)

lemma ring_len: "ring_rep a xs \<Longrightarrow> unat (utringbuffer_len a) = length xs"
  using ring_full(1) [of a xs] by (auto simp: utringbuffer_len_def ring_rep_def)

lemma ring_small: "ring_rep a xs \<Longrightarrow> length xs \<le> unat (ub_n a) \<and> unat (ub_i a) < unat (ub_n a) \<and> unat (ub_n a) < 2 ^ 32"
proof (cases "ub_f a")
  case True
  assume r: "ring_rep a xs"
  with ring_full(1) [OF r True] unsigned_less [of "ub_n a"] show ?thesis by (auto simp: ring_rep_def)
next
  case False
  assume "ring_rep a xs"
  with False unsigned_less [of "ub_n a"] show ?thesis by (auto simp: ring_rep_def)
qed

lemma back_index:
  assumes "k < n" "i < n" "n < 2 ^ 32" shows "nat ((int k + int n - int i) mod 2 ^ 64) = k + n - i"
proof -
  have "(int k + int n - int i) mod 2 ^ 64 = int k + int n - int i" using assms by (intro mod_pos_pos_trivial) simp_all
  then show ?thesis using assms(2) by simp
qed

text \<open>The slot of every element, when the addition does not wrap, and the element of every slot.\<close>

lemma ring_slot:
  assumes "ring_rep a xs" "j < length xs" "j + unat (ub_i a) < 2 ^ wd"
  shows "utringbuffer_eltptr wd a j = Some (real_idx wd a j)" "get_slot (ub_d a) (real_idx wd a j) = Inr (xs ! j)"
    and "utringbuffer_eltidx a (real_idx wd a j) = j"
proof -
  let ?i = "unat (ub_i a)" and ?n = "unat (ub_n a)"
  show "utringbuffer_eltptr wd a j = Some (real_idx wd a j)"
    using assms(2) ring_len [OF assms(1)] by (simp add: utringbuffer_eltptr_def)
  have sm: "length xs \<le> ?n" "?i < ?n" "?n < 2 ^ 32" using ring_small [OF assms(1)] by blast+
  show "get_slot (ub_d a) (real_idx wd a j) = Inr (xs ! j)"
  proof (cases "ub_f a")
    case True
    obtain ys where ys: "ub_d a = map Some ys" "xs = rotate ?i ys" "length ys = ?n" using assms(1) True by (auto simp: ring_rep_def)
    have "xs ! j = ys ! ((?i + j) mod ?n)" using ys assms(2) by (simp add: nth_rotate)
    with True ys sm(2) assms(3) show ?thesis by (simp add: real_idx_def get_slot_def add.commute)
  next
    case False
    with assms(1,2) show ?thesis by (auto simp: ring_rep_def real_idx_def get_slot_def nth_append)
  qed
  show "utringbuffer_eltidx a (real_idx wd a j) = j"
  proof (cases "ub_f a")
    case True
    let ?k = "(j + ?i) mod ?n"
    have k: "real_idx wd a j = ?k" using True assms(3) by (simp add: real_idx_def)
    have kn: "?k < ?n" using sm(2) by simp
    have "nat ((int ?k + int ?n - int ?i) mod 2 ^ 64) = ?k + ?n - ?i" by (rule back_index [OF kn sm(2,3)])
    moreover have "(?k + ?n - ?i) mod ?n = j"
    proof (cases "j + ?i < ?n")
      case True
      then show ?thesis using assms(2) sm by simp
    next
      case False
      have "(j + ?i - ?n) mod ?n = j + ?i - ?n" using assms(2) sm by (intro mod_less) linarith
      then have "?k = j + ?i - ?n" using False by (simp add: le_mod_geq)
      then show ?thesis using False assms(2) sm by simp
    qed
    ultimately show ?thesis using True k by (simp add: utringbuffer_eltidx_def)
  next
    case False
    then show ?thesis by (simp add: utringbuffer_eltidx_def real_idx_def)
  qed
qed

section \<open>Walking\<close>

text \<open>What a program reads that goes from element to element, from the front or from the back.\<close>

partial_function (option) ring_walk :: "(nat option \<Rightarrow> nat option) \<Rightarrow> 'e option list \<Rightarrow> nat option \<Rightarrow> 'e list run" where
  "ring_walk next d e =
     (case next e of None \<Rightarrow> Some (Inr [])
      | Some k \<Rightarrow> bind_run (Some (get_slot d k)) (\<lambda>x. bind_run (ring_walk next d (Some k)) (\<lambda>xs. Some (Inr (x # xs)))))"

lemma ring_width: "ring_rep a xs \<Longrightarrow> j < length xs \<Longrightarrow> j + unat (ub_i a) < 2 ^ 64"
  using ring_small [of a xs] by auto

lemma ring_width32:
  assumes "ring_rep a xs" "unat (ub_n a) \<le> 2 ^ 31" "j < length xs" shows "j + unat (ub_i a) < 2 ^ 32"
proof -
  have "j < 2 ^ 31" "unat (ub_i a) < 2 ^ 31" using ring_small [OF assms(1)] assms(2,3) by linarith+
  then show ?thesis by simp
qed

lemma ring_next:
  assumes "ring_rep a xs" "j < length xs"
  shows "utringbuffer_next a (Some (real_idx 64 a j)) = (if Suc j < length xs then Some (real_idx 64 a (Suc j)) else None)"
proof -
  note w = ring_width [OF assms]
  have "j < 2 ^ 32" using ring_small [OF assms(1)] assms(2) by linarith
  then have "(j + 1) mod 2 ^ 64 = Suc j" by simp
  with ring_slot(3) [OF assms w] ring_len [OF assms(1)] show ?thesis
    by (simp add: utringbuffer_next_def utringbuffer_eltptr_def)
qed

lemma ring_prev:
  assumes "ring_rep a xs" "j < length xs"
  shows "utringbuffer_prev a (Some (real_idx 64 a j)) = (if j = 0 then None else Some (real_idx 64 a (j - 1)))"
proof -
  note w = ring_width [OF assms]
  have l: "length xs < 2 ^ 32" using ring_small [OF assms(1)] by linarith
  show ?thesis
  proof (cases j)
    case 0
    have "nat ((- 1) mod 2 ^ 64) = 2 ^ 64 - (1::nat)" by simp
    with 0 ring_slot(3) [OF assms w] ring_len [OF assms(1)] l show ?thesis
      by (simp add: utringbuffer_prev_def utringbuffer_eltptr_def)
  next
    case (Suc m)
    have "nat (int m mod 2 ^ 64) = m" using w Suc by simp
    with Suc assms(2) ring_slot(3) [OF assms w] ring_len [OF assms(1)] show ?thesis
      by (simp add: utringbuffer_prev_def utringbuffer_eltptr_def)
  qed
qed

lemma walk_on:
  assumes "ring_rep a xs" "j < length xs"
  shows "ring_walk (utringbuffer_next a) (ub_d a) (Some (real_idx 64 a j)) = Some (Inr (drop (Suc j) xs))"
  using assms(2)
proof (induction "length xs - j" arbitrary: j)
  case (Suc k)
  show ?case
  proof (cases "Suc j < length xs")
    case True
    have "k = length xs - Suc j" using Suc.hyps(2) by simp
    from Suc.hyps(1) [OF this True] ring_slot(2) [OF assms(1) True ring_width [OF assms(1) True]] True
    show ?thesis by (subst ring_walk.simps) (simp add: ring_next [OF assms(1) Suc.prems] Cons_nth_drop_Suc)
  next
    case False
    then show ?thesis by (subst ring_walk.simps) (simp add: ring_next [OF assms(1) Suc.prems])
  qed
qed simp

lemma walk_back:
  assumes "ring_rep a xs" "j < length xs"
  shows "ring_walk (utringbuffer_prev a) (ub_d a) (Some (real_idx 64 a j)) = Some (Inr (rev (take j xs)))"
  using assms(2)
proof (induction j)
  case 0
  then show ?case by (subst ring_walk.simps) (simp add: ring_prev [OF assms(1) 0])
next
  case (Suc j)
  then have j: "j < length xs" by simp
  from Suc.IH [OF j] ring_slot(2) [OF assms(1) j ring_width [OF assms(1) j]] j
  show ?case by (subst ring_walk.simps) (simp add: ring_prev [OF assms(1) Suc.prems] take_Suc_conv_app_nth)
qed

lemma real_idx_width: "j + unat (ub_i a) < 2 ^ 32 \<Longrightarrow> real_idx 32 a j = real_idx 64 a j"
  by (simp add: real_idx_def)

lemma walk_all:
  assumes "ring_rep a xs"
  shows "ring_walk (utringbuffer_next a) (ub_d a) None = Some (Inr xs)"
proof (cases xs)
  case Nil
  with ring_len [OF assms] show ?thesis
    by (subst ring_walk.simps) (simp add: utringbuffer_next_def utringbuffer_front_def utringbuffer_eltptr_def)
next
  case (Cons x ys)
  then have 0: "0 < length xs" by simp
  have "unat (ub_i a) < 2 ^ 32" using ring_small [OF assms] by linarith
  then have "utringbuffer_next a None = Some (real_idx 64 a 0)"
    using ring_slot(1) [OF assms 0, of 32] real_idx_width [of 0 a] by (simp add: utringbuffer_next_def utringbuffer_front_def)
  with ring_slot(2) [OF assms 0 ring_width [OF assms 0]] walk_on [OF assms 0] Cons show ?thesis
    by (subst ring_walk.simps) simp
qed

lemma walk_all_back:
  assumes "ring_rep a xs" "unat (ub_n a) \<le> 2 ^ 31"
  shows "ring_walk (utringbuffer_prev a) (ub_d a) None = Some (Inr (rev xs))"
proof (cases xs rule: rev_cases)
  case Nil
  then have "utringbuffer_empty a" using assms(1) ring_full(2) [OF assms(1)]
    by (cases "ub_f a") (auto simp: utringbuffer_empty_def ring_rep_def unat_eq_zero)
  with Nil show ?thesis by (subst ring_walk.simps) (simp add: utringbuffer_prev_def utringbuffer_back_def)
next
  case (snoc ys y)
  let ?j = "length xs - 1"
  have j: "?j < length xs" using snoc by simp
  have ne: "\<not> utringbuffer_empty a" using snoc ring_len [OF assms(1)]
    by (cases "ub_f a") (auto simp: utringbuffer_empty_def utringbuffer_len_def)
  have "unat (utringbuffer_len a - 1) = ?j" using snoc ring_len [OF assms(1)] by (subst unat_diff32) simp_all
  moreover have w: "?j + unat (ub_i a) < 2 ^ 32" by (rule ring_width32 [OF assms j])
  ultimately have "utringbuffer_prev a None = Some (real_idx 64 a ?j)"
    using ne ring_slot(1) [OF assms(1) j w] real_idx_width [OF w] by (simp add: utringbuffer_prev_def utringbuffer_back_def)
  with ring_slot(2) [OF assms(1) j ring_width [OF assms(1) j]] walk_back [OF assms(1) j] snoc show ?thesis
    by (subst ring_walk.simps) simp
qed

section \<open>Clearing\<close>

lemma clear_loop_ok:
  assumes "ring_rep a xs" "unat (ub_n a) \<le> 2 ^ 31" "k \<le> length xs"
  shows "clear_loop f a k (length xs) w = Inr (fold f (drop k xs) w)"
  using assms(3)
proof (induction "length xs - k" arbitrary: k w)
  case 0
  then show ?case by (subst clear_loop.simps) simp
next
  case (Suc m)
  then have k: "k < length xs" by simp
  note s = ring_slot(1,2) [OF assms(1) k ring_width32 [OF assms(1,2) k]]
  have "m = length xs - Suc k" "Suc k \<le> length xs" using Suc.hyps(2) k by simp_all
  from Suc.hyps(1) [OF this] s k show ?case
    by (subst clear_loop.simps) (simp add: Cons_nth_drop_Suc [OF k, symmetric])
qed

lemma utringbuffer_clear_ok:
  assumes "ring_rep a xs" "unat (ub_n a) \<le> 2 ^ 31"
  shows "\<exists>a'. utringbuffer_clear (a, w) = Inr (a', destroy_all (ub_icd a) xs w) \<and> ring_rep a' []
    \<and> ub_icd a' = ub_icd a \<and> ub_n a' = ub_n a"
proof -
  have l: "(if ub_f a then unat (ub_n a) else unat (ub_i a)) = length xs"
    using ring_full(1) [OF assms(1)] assms(1) by (auto simp: ring_rep_def)
  have "(case icd_dtor (ub_icd a) of
           Some f \<Rightarrow> if ub_f a then clear_loop f a 0 (unat (ub_n a)) w else clear_loop f a 0 (unat (ub_i a)) w
         | None \<Rightarrow> Inr w) = Inr (destroy_all (ub_icd a) xs w)"
    using clear_loop_ok [OF assms le0] l by (auto simp: destroy_all_def split: option.splits if_splits)
  then have "utringbuffer_clear (a, w) = Inr (a\<lparr>ub_i := 0, ub_f := False\<rparr>, destroy_all (ub_icd a) xs w)"
    by (simp add: utringbuffer_clear_def)
  moreover have "ring_rep (a\<lparr>ub_i := 0, ub_f := False\<rparr>) []" using assms(1) by (auto simp: ring_rep_def)
  ultimately show ?thesis by simp
qed

section \<open>Property\<close>

primrec push_all :: "'e list \<Rightarrow> ('e, 'w) ut_ringbuffer \<times> 'w \<Rightarrow> (('e, 'w) ut_ringbuffer \<times> 'w) res" where
  "push_all [] st = Inr st"
| "push_all (p # ps) st = bind_res (utringbuffer_push_back p st) (push_all ps)"

lemma push_all_ok:
  assumes "ring_rep a xs"
  shows "\<exists>a'. push_all ps (a, w) = Inr (a', snd (fold (spec_push (ub_icd a) (unat (ub_n a))) ps (xs, w)))
    \<and> ring_rep a' (fst (fold (spec_push (ub_icd a) (unat (ub_n a))) ps (xs, w))) \<and> ub_n a' = ub_n a \<and> ub_icd a' = ub_icd a"
  using assms
proof (induction ps arbitrary: a xs w)
  case (Cons p ps)
  obtain a1 where a1: "utringbuffer_push_back p (a, w) = Inr (a1, snd (spec_push (ub_icd a) (unat (ub_n a)) p (xs, w)))"
    "ring_rep a1 (fst (spec_push (ub_icd a) (unat (ub_n a)) p (xs, w)))" "ub_icd a1 = ub_icd a" "ub_n a1 = ub_n a"
    using utringbuffer_push_back_ok [OF Cons.prems, of p w] by blast
  from Cons.IH [OF a1(2), of "snd (spec_push (ub_icd a) (unat (ub_n a)) p (xs, w))"] a1(1,3,4) show ?case by simp
qed auto

lemma destroy_all_append: "destroy_all icd (xs @ ys) w = destroy_all icd ys (destroy_all icd xs w)"
  by (simp add: destroy_all_def split: option.split)

lemma destroy_all_Nil [simp]: "destroy_all icd [] w = w"
  by (simp add: destroy_all_def split: option.split)

text \<open>
  All elements that are ever put into the slots of a buffer of \<open>n\<close> slots when \<open>ps\<close> are pushed, after \<open>cs\<close>: each is the copy
  that the user's function makes of what is pushed (or that itself, without such a function), after the destructor
  has been called on the one of \<open>n\<close> pushes before, if there is one.
\<close>

primrec ring_copies :: "('e, 'w) ut_icd \<Rightarrow> nat \<Rightarrow> 'e list \<Rightarrow> 'e list \<Rightarrow> 'w \<Rightarrow> 'e list \<times> 'w" where
  "ring_copies icd n cs [] w = (cs, w)"
| "ring_copies icd n cs (p # ps) w =
     (let (c, w') = copy_elem icd p (if length cs < n then w else destroy_all icd [cs ! (length cs - n)] w)
      in ring_copies icd n (cs @ [c]) ps w')"

lemma ring_copies_length: "ring_copies icd n cs ps w = (cs', w') \<Longrightarrow> length cs' = length cs + length ps"
proof (induction ps arbitrary: cs w)
  case (Cons p ps)
  obtain c w1 where c: "copy_elem icd p (if length cs < n then w else destroy_all icd [cs ! (length cs - n)] w) = (c, w1)"
    by (rule prod.exhaust)
  with Cons.prems have "ring_copies icd n (cs @ [c]) ps w1 = (cs', w')" by (simp add: Let_def)
  from Cons.IH [OF this] show ?case by simp
qed simp

lemma spec_push_copies:
  assumes "0 < n" "ring_copies icd n cs ps w = (cs', w')"
  shows "fold (spec_push icd n) ps (drop (length cs - n) cs, w) = (drop (length cs' - n) cs', w')"
  using assms(2)
proof (induction ps arbitrary: cs w)
  case (Cons p ps)
  obtain c w1 where c: "copy_elem icd p (if length cs < n then w else destroy_all icd [cs ! (length cs - n)] w) = (c, w1)"
    by (rule prod.exhaust)
  then have r: "ring_copies icd n (cs @ [c]) ps w1 = (cs', w')" using Cons.prems by (simp add: Let_def)
  have "spec_push icd n p (drop (length cs - n) cs, w) = (drop (length (cs @ [c]) - n) (cs @ [c]), w1)"
  proof (cases "length cs < n")
    case True
    then show ?thesis using c by (simp add: spec_push_def)
  next
    case False
    let ?k = "length cs - n"
    have k: "?k < length cs" "length cs - ?k + 1 - n = 1" using False assms(1) by simp_all
    have "drop ?k cs = cs ! ?k # drop (Suc ?k) cs" using k(1) by (rule Cons_nth_drop_Suc [symmetric])
    then show ?thesis using c False k by (simp add: spec_push_def Suc_diff_le)
  qed
  with Cons.IH [OF r] show ?case by simp
qed simp

lemma ring_copies_plain:
  assumes "icd_copy icd = None" "0 < n"
  shows "ring_copies icd n cs ps w = (cs @ ps, destroy_all icd (drop (length cs - n) (take (length cs + length ps - n) (cs @ ps))) w)"
proof (induction ps arbitrary: cs w)
  case (Cons p ps)
  show ?case
  proof (cases "length cs < n")
    case True
    with Cons.IH [of "cs @ [p]" w] show ?thesis by (simp add: copy_elem_def assms(1))
  next
    case False
    let ?k = "length cs - n" and ?gone = "take (length cs + length (p # ps) - n) (cs @ p # ps)"
    have k: "?k < length ?gone" "?k < length cs" "Suc ?k = length (cs @ [p]) - n" using False assms(2) by simp_all
    have "drop ?k ?gone = ?gone ! ?k # drop (Suc ?k) ?gone" using k(1) by (rule Cons_nth_drop_Suc [symmetric])
    moreover have "?gone ! ?k = (cs @ p # ps) ! ?k" using k(1) by (intro nth_take) simp
    then have "?gone ! ?k = cs ! ?k" using k(2) by (simp add: nth_append)
    ultimately have d: "destroy_all icd (drop ?k ?gone) w = destroy_all icd (drop (Suc ?k) ?gone) (destroy_all icd [cs ! ?k] w)"
      by (simp only: destroy_all_append [of icd "[cs ! ?k]" "drop (Suc ?k) ?gone" w, symmetric]) simp
    show ?thesis unfolding d k(3) using Cons.IH [of "cs @ [p]" "destroy_all icd [cs ! ?k] w"] False
      by (simp add: copy_elem_def assms(1))
  qed
qed (simp add: destroy_all_def split: option.split)

text \<open>C22: a ring buffer holds the last elements that were pushed, and the destructor has been called, in order, on
  exactly those that had to make room. However many elements are pushed into a buffer of \<open>n\<close> slots (at least one and
  at most \<open>2 ^ 31\<close>), walking from the front gives the copies of the last \<open>n\<close> of them, oldest first, walking from the
  back gives them in reverse, and clearing the buffer destroys just these. The copies are what the user's copy function
  makes, each after the destructor has been called on the element whose slot it takes; without a copy function they are the
  elements pushed, and the destructor has been called on all but the last \<open>n\<close>.\<close>

theorem ring_buffer_keeps_last:
  assumes "0 < n" "unat n \<le> 2 ^ 31" "mem (unat n)" "ring_copies icd (unat n) [] ps w = (cs, w')"
    and "es = drop (length ps - unat n) cs"
  shows "length cs = length ps \<and> (\<exists>a. push_all ps (utringbuffer_init mem n icd, w) = Inr (a, w')
      \<and> ring_walk (utringbuffer_next a) (ub_d a) None = Some (Inr es)
      \<and> ring_walk (utringbuffer_prev a) (ub_d a) None = Some (Inr (rev es))
      \<and> (\<exists>a'. utringbuffer_clear (a, w') = Inr (a', destroy_all icd es w') \<and> utringbuffer_len a' = 0))
    \<and> (icd_copy icd = None \<longrightarrow> cs = ps \<and> w' = destroy_all icd (take (length ps - unat n) ps) w)"
proof -
  let ?a = "utringbuffer_init mem n icd"
  have n: "0 < unat n" using assms(1) by (simp add: unat_gt_0)
  have len: "length cs = length ps" using ring_copies_length [OF assms(4)] by simp
  have sp: "fold (spec_push icd (unat n)) ps ([], w) = (es, w')"
    using spec_push_copies [OF n assms(4)] assms(5) len by simp
  have i: "ub_icd ?a = icd" "ub_n ?a = n" by (simp_all add: utringbuffer_init_def)
  obtain a where a: "push_all ps (?a, w) = Inr (a, w')" "ring_rep a es" "ub_n a = n" "ub_icd a = icd"
    using push_all_ok [OF utringbuffer_init_ok [of n mem icd, OF assms(1,3)], of ps w] unfolding i sp by auto
  have n31: "unat (ub_n a) \<le> 2 ^ 31" using a(3) assms(2) by simp
  obtain a' where a': "utringbuffer_clear (a, w') = Inr (a', destroy_all icd es w')" "ring_rep a' []"
    using utringbuffer_clear_ok [OF a(2) n31] a(4) by metis
  have "utringbuffer_len a' = 0" using ring_len [OF a'(2)] by (simp add: unat_eq_zero)
  moreover have "icd_copy icd = None \<longrightarrow> cs = ps \<and> w' = destroy_all icd (take (length ps - unat n) ps) w"
    using assms(4) by (auto simp: ring_copies_plain [OF _ n])
  ultimately show ?thesis using len a(1) a' walk_all [OF a(2)] walk_all_back [OF a(2) n31] by auto
qed

text \<open>Once with plain copies and once with a copy function that numbers its copies; the destructor keeps a list.\<close>

theorem ring_buffer_keeps_last_witness:
  "(let icd = \<lparr>icd_init = None, icd_copy = None, icd_dtor = Some (#)\<rparr> in
   \<exists>a. push_all [1, 2, 3, 4, 5 :: nat] (utringbuffer_init (\<lambda>k. True) 3 icd, []) = Inr (a, [2, 1])
    \<and> ring_walk (utringbuffer_next a) (ub_d a) None = Some (Inr [3, 4, 5])
    \<and> ring_walk (utringbuffer_prev a) (ub_d a) None = Some (Inr [5, 4, 3])
    \<and> (\<exists>a'. utringbuffer_clear (a, [2, 1]) = Inr (a', [5, 4, 3, 2, 1]) \<and> utringbuffer_len a' = 0))
   \<and> (let icd = \<lparr>icd_init = None, icd_copy = Some (\<lambda>p w. (10 * p + length w, w)), icd_dtor = Some (#)\<rparr> in
   \<exists>a. push_all [1, 2, 3, 4, 5 :: nat] (utringbuffer_init (\<lambda>k. True) 3 icd, []) = Inr (a, [20, 10])
    \<and> ring_walk (utringbuffer_next a) (ub_d a) None = Some (Inr [30, 41, 52]))"
  using ring_buffer_keeps_last [of 3 "\<lambda>k. True" "\<lparr>icd_init = None, icd_copy = None, icd_dtor = Some (#)\<rparr>"
      "[1, 2, 3, 4, 5 :: nat]" "[]" "[1, 2, 3, 4, 5]" "[2, 1]" "[3, 4, 5]"]
    ring_buffer_keeps_last [of 3 "\<lambda>k. True" "\<lparr>icd_init = None, icd_copy = Some (\<lambda>p w. (10 * p + length w, w)), icd_dtor = Some (#)\<rparr>"
      "[1, 2, 3, 4, 5 :: nat]" "[]" "[10, 20, 30, 41, 52]" "[20, 10]" "[30, 41, 52]"]
  by (auto simp: destroy_all_def copy_elem_def)

end
