(* ===== verification/Utlist.thy ===== *)
theory Utlist
  imports Chains
begin

text \<open>
  The lists of \<^verbatim>\<open>uthash/utlist.h\<close>. The macros work on structures of the user with a field \<open>next\<close>, and
  for doubly linked lists a field \<open>prev\<close>; the heap has one map for each of the two fields. The state of a list is the
  variable that points to its head. This theory has the heap, what the three kinds of lists have in common, and the
  singly linked lists; a failed assertion ends the process. The macros with a 2 at the end of their names, to which the
  others expand, are the ones modelled, as they are with \<open>LDECLTYPE\<close>.
\<close>

record ul_heap =
  nxt :: "ptr \<rightharpoonup> ptr"
  prv :: "ptr \<rightharpoonup> ptr"

definition deref :: "(ptr \<rightharpoonup> ptr) \<Rightarrow> ptr \<Rightarrow> ptr res" where
  "deref f p = (if p = NULL then Inl NullDeref else case f p of None \<Rightarrow> Inl BadPointer | Some q \<Rightarrow> Inr q)"

definition read_next :: "ul_heap \<Rightarrow> ptr \<Rightarrow> ptr res" where
  "read_next h p = deref (nxt h) p"

definition read_prev :: "ul_heap \<Rightarrow> ptr \<Rightarrow> ptr res" where
  "read_prev h p = deref (prv h) p"

definition set_next :: "ul_heap \<Rightarrow> ptr \<Rightarrow> ptr \<Rightarrow> ul_heap res" where
  "set_next h p v = bind_res (deref (nxt h) p) (\<lambda>_. Inr (h\<lparr>nxt := (nxt h)(p \<mapsto> v)\<rparr>))"

definition set_prev :: "ul_heap \<Rightarrow> ptr \<Rightarrow> ptr \<Rightarrow> ul_heap res" where
  "set_prev h p v = bind_res (deref (prv h) p) (\<lambda>_. Inr (h\<lparr>prv := (prv h)(p \<mapsto> v)\<rparr>))"

definition assert_c :: "bool \<Rightarrow> unit res" where
  "assert_c b = (if b then Inr () else Inl Exit)"

text \<open>A state of a list: its head and the heap.\<close>

type_synonym ul_list = "ptr \<times> ul_heap"

section \<open>Walking\<close>

text \<open>The loops that follow \<open>next\<close> until the next element is \<open>stop\<close> or one where \<open>go\<close> does not hold.\<close>

partial_function (option) walk :: "ul_heap \<Rightarrow> ptr \<Rightarrow> (ptr \<Rightarrow> bool) \<Rightarrow> ptr \<Rightarrow> ptr run" where
  "walk h stop go t = bind_run (Some (read_next h t)) (\<lambda>q. if q \<noteq> stop \<and> go q then walk h stop go q else Some (Inr t))"

text \<open>\<open>LL_FOREACH\<close> and \<open>DL_FOREACH\<close>, with any body: \<open>next\<close> is read after the body, or before it in the safe variant.\<close>

partial_function (option) LL_FOREACH2 :: "('s \<Rightarrow> ul_heap) \<Rightarrow> (ptr \<Rightarrow> 's \<Rightarrow> 's run) \<Rightarrow> ptr \<Rightarrow> 's \<Rightarrow> 's run" where
  "LL_FOREACH2 hp body el s =
     (if el \<noteq> NULL then
        bind_run (body el s) (\<lambda>s'. bind_run (Some (read_next (hp s') el)) (\<lambda>q. LL_FOREACH2 hp body q s'))
      else Some (Inr s))"

partial_function (option) LL_FOREACH_SAFE2 :: "('s \<Rightarrow> ul_heap) \<Rightarrow> (ptr \<Rightarrow> 's \<Rightarrow> 's run) \<Rightarrow> ptr \<Rightarrow> 's \<Rightarrow> 's run" where
  "LL_FOREACH_SAFE2 hp body el s =
     (if el \<noteq> NULL then
        bind_run (Some (read_next (hp s) el)) (\<lambda>tmp. bind_run (body el s) (\<lambda>s'. LL_FOREACH_SAFE2 hp body tmp s'))
      else Some (Inr s))"

definition LL_COUNT2 :: "ul_list \<Rightarrow> nat run" where
  "LL_COUNT2 = (\<lambda>(head, h).
     bind_run (LL_FOREACH2 fst (\<lambda>_ (h, counter). Some (Inr (h, counter + 1))) head (h, 0)) (\<lambda>(h, counter). Some (Inr counter)))"

text \<open>\<open>LL_SEARCH\<close> and \<open>LL_SEARCH_SCALAR\<close>: \<open>found\<close> is the comparison that ends the loop.\<close>

partial_function (option) LL_SEARCH2 :: "ul_heap \<Rightarrow> (ptr \<Rightarrow> bool) \<Rightarrow> ptr \<Rightarrow> ptr run" where
  "LL_SEARCH2 h found out =
     (if out \<noteq> NULL then if found out then Some (Inr out) else bind_run (Some (read_next h out)) (LL_SEARCH2 h found)
      else Some (Inr NULL))"

section \<open>Singly linked lists\<close>

definition LL_PREPEND2 :: "ptr \<Rightarrow> ul_list \<Rightarrow> ul_list res" where
  "LL_PREPEND2 add = (\<lambda>(head, h). bind_res (set_next h add head) (\<lambda>h. Inr (add, h)))"

definition LL_CONCAT2 :: "ptr \<Rightarrow> ul_list \<Rightarrow> ul_list run" where
  "LL_CONCAT2 head2 = (\<lambda>(head1, h).
     if head1 \<noteq> NULL then
       bind_run (walk h NULL (\<lambda>_. True) head1) (\<lambda>tmp. bind_run (Some (set_next h tmp head2)) (\<lambda>h. Some (Inr (head1, h))))
     else Some (Inr (head2, h)))"

definition LL_APPEND2 :: "ptr \<Rightarrow> ul_list \<Rightarrow> ul_list run" where
  "LL_APPEND2 add = (\<lambda>(head, h).
     bind_run (Some (set_next h add NULL)) (\<lambda>h.
     if head \<noteq> NULL then
       bind_run (walk h NULL (\<lambda>_. True) head) (\<lambda>tmp. bind_run (Some (set_next h tmp add)) (\<lambda>h. Some (Inr (head, h))))
     else Some (Inr (add, h))))"

text \<open>\<open>cmp\<close> is the user's comparison of two elements.\<close>

definition LL_LOWER_BOUND2 :: "(ptr \<Rightarrow> ptr \<Rightarrow> int) \<Rightarrow> ptr \<Rightarrow> ul_list \<Rightarrow> ptr run" where
  "LL_LOWER_BOUND2 cmp like = (\<lambda>(head, h).
     if head = NULL \<or> cmp head like \<ge> 0 then Some (Inr NULL) else walk h NULL (\<lambda>q. \<not> cmp q like \<ge> 0) head)"

definition LL_APPEND_ELEM2 :: "ptr \<Rightarrow> ptr \<Rightarrow> ul_list \<Rightarrow> ul_list res" where
  "LL_APPEND_ELEM2 el add = (\<lambda>(head, h).
     if el \<noteq> NULL then
       bind_res (assert_c (head \<noteq> NULL)) (\<lambda>_. bind_res (assert_c (add \<noteq> NULL)) (\<lambda>_.
       bind_res (read_next h el) (\<lambda>q. bind_res (set_next h add q) (\<lambda>h. bind_res (set_next h el add) (\<lambda>h. Inr (head, h))))))
     else LL_PREPEND2 add (head, h))"

definition LL_INSERT_INORDER2 :: "(ptr \<Rightarrow> ptr \<Rightarrow> int) \<Rightarrow> ptr \<Rightarrow> ul_list \<Rightarrow> ul_list run" where
  "LL_INSERT_INORDER2 cmp add = (\<lambda>(head, h).
     if head \<noteq> NULL then bind_run (LL_LOWER_BOUND2 cmp add (head, h)) (\<lambda>tmp. Some (LL_APPEND_ELEM2 tmp add (head, h)))
     else bind_run (Some (set_next h add NULL)) (\<lambda>h. Some (Inr (add, h))))"

definition LL_DELETE2 :: "ptr \<Rightarrow> ul_list \<Rightarrow> ul_list run" where
  "LL_DELETE2 del = (\<lambda>(head, h).
     if head = del then bind_run (Some (read_next h head)) (\<lambda>q. Some (Inr (q, h)))
     else
       bind_run (walk h NULL (\<lambda>q. q \<noteq> del) head) (\<lambda>tmp. bind_run (Some (read_next h tmp)) (\<lambda>q.
       if q \<noteq> NULL then
         bind_run (Some (read_next h del)) (\<lambda>r. bind_run (Some (set_next h tmp r)) (\<lambda>h. Some (Inr (head, h))))
       else Some (Inr (head, h)))))"

definition LL_REPLACE_ELEM2 :: "ptr \<Rightarrow> ptr \<Rightarrow> ul_list \<Rightarrow> ul_list run" where
  "LL_REPLACE_ELEM2 el add = (\<lambda>(head, h).
     bind_run (Some (assert_c (head \<noteq> NULL))) (\<lambda>_. bind_run (Some (assert_c (el \<noteq> NULL))) (\<lambda>_.
     bind_run (Some (assert_c (add \<noteq> NULL))) (\<lambda>_.
     bind_run (Some (read_next h el)) (\<lambda>r. bind_run (Some (set_next h add r)) (\<lambda>h.
     if head = el then Some (Inr (add, h))
     else
       bind_run (walk h NULL (\<lambda>q. q \<noteq> el) head) (\<lambda>tmp. bind_run (Some (read_next h tmp)) (\<lambda>q.
       if q \<noteq> NULL then bind_run (Some (set_next h tmp add)) (\<lambda>h. Some (Inr (head, h))) else Some (Inr (head, h))))))))))"

definition LL_PREPEND_ELEM2 :: "ptr \<Rightarrow> ptr \<Rightarrow> ul_list \<Rightarrow> ul_list run" where
  "LL_PREPEND_ELEM2 el add = (\<lambda>(head, h).
     if el \<noteq> NULL then
       bind_run (Some (assert_c (head \<noteq> NULL))) (\<lambda>_. bind_run (Some (assert_c (add \<noteq> NULL))) (\<lambda>_.
       bind_run (Some (set_next h add el)) (\<lambda>h.
       if head = el then Some (Inr (add, h))
       else
         bind_run (walk h NULL (\<lambda>q. q \<noteq> el) head) (\<lambda>tmp. bind_run (Some (read_next h tmp)) (\<lambda>q.
         if q \<noteq> NULL then bind_run (Some (set_next h tmp add)) (\<lambda>h. Some (Inr (head, h))) else Some (Inr (head, h)))))))
     else LL_APPEND2 add (head, h))"

section \<open>What the operations do to lists\<close>

text \<open>The operations of all three kinds of lists; an element that is not there is null.\<close>

datatype list_op =
    Prepend ptr
  | Append ptr
  | In_Order ptr
  | Before ptr ptr
  | After ptr ptr
  | Replace ptr ptr
  | Delete ptr
  | Sort

primrec put_before :: "ptr \<Rightarrow> ptr \<Rightarrow> ptr list \<Rightarrow> ptr list" where
  "put_before el add [] = []"
| "put_before el add (x # xs) = (if x = el then add # x # xs else x # put_before el add xs)"

primrec put_after :: "ptr \<Rightarrow> ptr \<Rightarrow> ptr list \<Rightarrow> ptr list" where
  "put_after el add [] = []"
| "put_after el add (x # xs) = (if x = el then x # add # xs else x # put_after el add xs)"

text \<open>Elements are compared by a key; the comparison function of the user agrees with it.\<close>

fun spec_list_op :: "(ptr \<Rightarrow> 'k::linorder) \<Rightarrow> list_op \<Rightarrow> ptr list \<Rightarrow> ptr list" where
  "spec_list_op key (Prepend a) es = a # es"
| "spec_list_op key (Append a) es = es @ [a]"
| "spec_list_op key (In_Order a) es = takeWhile (\<lambda>x. key x < key a) es @ a # dropWhile (\<lambda>x. key x < key a) es"
| "spec_list_op key (Before el a) es = (if el = NULL then es @ [a] else put_before el a es)"
| "spec_list_op key (After el a) es = (if el = NULL then a # es else put_after el a es)"
| "spec_list_op key (Replace el a) es = map (\<lambda>x. if x = el then a else x) es"
| "spec_list_op key (Delete el) es = remove1 el es"
| "spec_list_op key Sort es = sort_key key es"

fun added :: "list_op \<Rightarrow> ptr option" where
  "added (Prepend a) = Some a"
| "added (Append a) = Some a"
| "added (In_Order a) = Some a"
| "added (Before el a) = Some a"
| "added (After el a) = Some a"
| "added (Replace el a) = Some a"
| "added (Delete el) = None"
| "added Sort = None"

text \<open>An operation is used as intended: what is added is a new element, what is named is in the list, and the counters of
  the sort can count the list.\<close>

fun list_op_ok :: "(ptr \<Rightarrow> bool) \<Rightarrow> list_op \<Rightarrow> ptr list \<Rightarrow> bool" where
  "list_op_ok cell (Prepend a) es \<longleftrightarrow> cell a \<and> a \<notin> set es"
| "list_op_ok cell (Append a) es \<longleftrightarrow> cell a \<and> a \<notin> set es"
| "list_op_ok cell (In_Order a) es \<longleftrightarrow> cell a \<and> a \<notin> set es"
| "list_op_ok cell (Before el a) es \<longleftrightarrow> cell a \<and> a \<notin> set es \<and> (el = NULL \<or> el \<in> set es)"
| "list_op_ok cell (After el a) es \<longleftrightarrow> cell a \<and> a \<notin> set es \<and> (el = NULL \<or> el \<in> set es)"
| "list_op_ok cell (Replace el a) es \<longleftrightarrow> cell a \<and> a \<notin> set es \<and> el \<in> set es"
| "list_op_ok cell (Delete el) es \<longleftrightarrow> el \<in> set es"
| "list_op_ok cell Sort es \<longleftrightarrow> length es \<le> 2 ^ 30"

primrec list_ops_ok :: "(ptr \<Rightarrow> bool) \<Rightarrow> (ptr \<Rightarrow> 'k::linorder) \<Rightarrow> list_op list \<Rightarrow> ptr list \<Rightarrow> bool" where
  "list_ops_ok cell key [] es \<longleftrightarrow> True"
| "list_ops_ok cell key (c # cs) es \<longleftrightarrow> list_op_ok cell c es \<and> list_ops_ok cell key cs (spec_list_op key c es)"

primrec run_list_ops :: "(list_op \<Rightarrow> ul_list \<Rightarrow> ul_list run) \<Rightarrow> list_op list \<Rightarrow> ul_list \<Rightarrow> ul_list run" where
  "run_list_ops step [] st = Some (Inr st)"
| "run_list_ops step (c # cs) st = bind_run (step c st) (run_list_ops step cs)"

text \<open>The comparison function of the user.\<close>

definition compares :: "(ptr \<Rightarrow> ptr \<Rightarrow> int) \<Rightarrow> (ptr \<Rightarrow> 'k::linorder) \<Rightarrow> bool" where
  "compares cmp key \<longleftrightarrow> (\<forall>a b. (cmp a b < 0 \<longleftrightarrow> key a < key b) \<and> (cmp a b \<le> 0 \<longleftrightarrow> key a \<le> key b))"

text \<open>No operation creates or frees a structure.\<close>

definition same_cells :: "ul_heap \<Rightarrow> ul_heap \<Rightarrow> bool" where
  "same_cells h h' \<longleftrightarrow> dom (nxt h') = dom (nxt h) \<and> dom (prv h') = dom (prv h)"

definition cell :: "ul_heap \<Rightarrow> ptr \<Rightarrow> bool" where
  "cell h p \<longleftrightarrow> p \<noteq> NULL \<and> p \<in> dom (nxt h) \<and> p \<in> dom (prv h)"

lemma same_cells_refl: "same_cells h h"
  by (simp add: same_cells_def)

lemma same_cells_cell: "same_cells h h' \<Longrightarrow> cell h' = cell h"
  by (simp add: same_cells_def cell_def fun_eq_iff)

text \<open>The element before a given one, and the part of a list that it ends.\<close>

lemma takeWhile_split: "e \<notin> set as \<Longrightarrow> takeWhile (\<lambda>x. x \<noteq> e) (as @ e # bs) = as"
  by (subst takeWhile_append2) auto

lemma map_replace: "e \<notin> set as \<Longrightarrow> e \<notin> set bs \<Longrightarrow> map (\<lambda>x. if x = e then a else x) (as @ e # bs) = as @ a # bs"
  by (auto intro!: map_idI)

lemma put_before_split: "e \<notin> set as \<Longrightarrow> put_before e a (as @ e # bs) = as @ a # e # bs"
  by (induction as) auto

lemma put_after_split: "e \<notin> set as \<Longrightarrow> put_after e a (as @ e # bs) = as @ e # a # bs"
  by (induction as) auto

text \<open>An element that is in the list, and what is before and after it.\<close>

lemma spec_at:
  assumes "el \<in> set es" "distinct es"
  obtains as bs where "es = as @ el # bs" "spec_list_op key (Before el a) es = (if el = NULL then es @ [a] else as @ a # el # bs)"
    "spec_list_op key (After el a) es = (if el = NULL then a # es else as @ el # a # bs)"
    "spec_list_op key (Replace el a) es = as @ a # bs" "spec_list_op key (Delete el) es = as @ bs"
proof -
  obtain as bs where es: "es = as @ el # bs" "el \<notin> set as" using assms(1) by (metis split_list_first)
  with assms(2) have "el \<notin> set bs" by simp
  with es show thesis
    by (intro that [of as bs]) (simp_all add: put_before_split put_after_split map_replace remove1_split del: map_append)
qed

lemma compares_lt: "compares cmp key \<Longrightarrow> (\<lambda>x. cmp x a < 0) = (\<lambda>x. key x < key a)"
  by (simp add: compares_def)

text \<open>What a program does with a list, for given operations.\<close>

fun list_step ::
    "(ptr \<Rightarrow> ul_list \<Rightarrow> ul_list run) \<Rightarrow> (ptr \<Rightarrow> ul_list \<Rightarrow> ul_list run) \<Rightarrow> (ptr \<Rightarrow> ul_list \<Rightarrow> ul_list run)
     \<Rightarrow> (ptr \<Rightarrow> ptr \<Rightarrow> ul_list \<Rightarrow> ul_list run) \<Rightarrow> (ptr \<Rightarrow> ptr \<Rightarrow> ul_list \<Rightarrow> ul_list run) \<Rightarrow> (ptr \<Rightarrow> ptr \<Rightarrow> ul_list \<Rightarrow> ul_list run)
     \<Rightarrow> (ptr \<Rightarrow> ul_list \<Rightarrow> ul_list run) \<Rightarrow> (ul_list \<Rightarrow> ul_list run) \<Rightarrow> list_op \<Rightarrow> ul_list \<Rightarrow> ul_list run" where
  "list_step add_first add_last add_ordered add_before add_after put_in remove order (Prepend a) st = add_first a st"
| "list_step add_first add_last add_ordered add_before add_after put_in remove order (Append a) st = add_last a st"
| "list_step add_first add_last add_ordered add_before add_after put_in remove order (In_Order a) st = add_ordered a st"
| "list_step add_first add_last add_ordered add_before add_after put_in remove order (Before el a) st = add_before el a st"
| "list_step add_first add_last add_ordered add_before add_after put_in remove order (After el a) st = add_after el a st"
| "list_step add_first add_last add_ordered add_before add_after put_in remove order (Replace el a) st = put_in el a st"
| "list_step add_first add_last add_ordered add_before add_after put_in remove order (Delete el) st = remove el st"
| "list_step add_first add_last add_ordered add_before add_after put_in remove order Sort st = order st"

text \<open>
  What the three kinds of lists promise: each operation that is used as intended ends, and does to the list that the
  heap represents what the specification does.
\<close>

definition op_result :: "(ul_list \<Rightarrow> ptr list \<Rightarrow> bool) \<Rightarrow> ul_heap \<Rightarrow> ul_list run \<Rightarrow> ptr list \<Rightarrow> bool" where
  "op_result rep h r es \<longleftrightarrow> (\<exists>head' h'. r = Some (Inr (head', h')) \<and> rep (head', h') es \<and> same_cells h h')"

locale pointer_list =
  fixes rep :: "ul_list \<Rightarrow> ptr list \<Rightarrow> bool"
    and add_first add_last :: "ptr \<Rightarrow> ul_list \<Rightarrow> ul_list run"
    and add_ordered :: "(ptr \<Rightarrow> ptr \<Rightarrow> int) \<Rightarrow> ptr \<Rightarrow> ul_list \<Rightarrow> ul_list run"
    and add_before add_after put_in :: "ptr \<Rightarrow> ptr \<Rightarrow> ul_list \<Rightarrow> ul_list run"
    and remove :: "ptr \<Rightarrow> ul_list \<Rightarrow> ul_list run"
    and order :: "(ptr \<Rightarrow> ptr \<Rightarrow> int) \<Rightarrow> ul_list \<Rightarrow> ul_list run"
    and count :: "ul_list \<Rightarrow> nat run"
    and search :: "(ptr \<Rightarrow> bool) \<Rightarrow> ul_list \<Rightarrow> ptr run"
    and key :: "ptr \<Rightarrow> 'k::linorder"
  assumes empty: "rep (NULL, h) []"
    and elements: "rep (head, h) es \<Longrightarrow> distinct es \<and> NULL \<notin> set es"
    and add_first_ok: "rep (head, h) es \<Longrightarrow> cell h a \<Longrightarrow> a \<notin> set es \<Longrightarrow> op_result rep h (add_first a (head, h)) (a # es)"
    and add_last_ok: "rep (head, h) es \<Longrightarrow> cell h a \<Longrightarrow> a \<notin> set es \<Longrightarrow> op_result rep h (add_last a (head, h)) (es @ [a])"
    and add_ordered_ok: "rep (head, h) es \<Longrightarrow> cell h a \<Longrightarrow> a \<notin> set es
      \<Longrightarrow> op_result rep h (add_ordered cmp a (head, h)) (takeWhile (\<lambda>x. cmp x a < 0) es @ a # dropWhile (\<lambda>x. cmp x a < 0) es)"
    and add_before_ok: "rep (head, h) (as @ e # bs) \<Longrightarrow> cell h a \<Longrightarrow> a \<notin> set (as @ e # bs)
      \<Longrightarrow> op_result rep h (add_before e a (head, h)) (as @ a # e # bs)"
    and add_after_ok: "rep (head, h) (as @ e # bs) \<Longrightarrow> cell h a \<Longrightarrow> a \<notin> set (as @ e # bs)
      \<Longrightarrow> op_result rep h (add_after e a (head, h)) (as @ e # a # bs)"
    and add_before_NULL: "add_before NULL a st = add_last a st"
    and add_after_NULL: "add_after NULL a st = add_first a st"
    and put_in_ok: "rep (head, h) (as @ e # bs) \<Longrightarrow> cell h a \<Longrightarrow> a \<notin> set (as @ e # bs)
      \<Longrightarrow> op_result rep h (put_in e a (head, h)) (as @ a # bs)"
    and remove_ok: "rep (head, h) (as @ e # bs) \<Longrightarrow> op_result rep h (remove e (head, h)) (as @ bs)"
    and order_ok: "rep (head, h) es \<Longrightarrow> length es \<le> 2 ^ 30 \<Longrightarrow> compares cmp key
      \<Longrightarrow> op_result rep h (order cmp (head, h)) (sort_key key es)"
    and count_ok: "rep (head, h) es \<Longrightarrow> count (head, h) = Some (Inr (length es))"
    and search_ok: "rep (head, h) es \<Longrightarrow> search found (head, h) = Some (Inr (case find found es of Some e \<Rightarrow> e | None \<Rightarrow> NULL))"
begin

abbreviation step :: "(ptr \<Rightarrow> ptr \<Rightarrow> int) \<Rightarrow> list_op \<Rightarrow> ul_list \<Rightarrow> ul_list run" where
  "step cmp \<equiv> list_step add_first add_last (add_ordered cmp) add_before add_after put_in remove (order cmp)"

lemma step_ok:
  assumes "rep (head, h) es" "list_op_ok (cell h) c es" "compares cmp key"
  shows "op_result rep h (step cmp c (head, h)) (spec_list_op key c es)"
proof -
  have d: "distinct es" "NULL \<notin> set es" using elements [OF assms(1)] by blast+
  show ?thesis
  proof (cases c)
    case (Prepend a)
    with add_first_ok [OF assms(1), of a] assms(2) show ?thesis by simp
  next
    case (Append a)
    with add_last_ok [OF assms(1), of a] assms(2) show ?thesis by simp
  next
    case (In_Order a)
    with add_ordered_ok [OF assms(1), of a cmp] assms(2) compares_lt [OF assms(3), of a] show ?thesis by simp
  next
    case (Before el a)
    show ?thesis
    proof (cases "el = NULL")
      case True
      with Before add_last_ok [OF assms(1), of a] assms(2) show ?thesis by (simp add: add_before_NULL)
    next
      case False
      with Before assms(2) d obtain as bs where "es = as @ el # bs" "spec_list_op key c es = as @ a # el # bs"
        by (auto elim: spec_at [of el es key a])
      with add_before_ok [of head h as el bs a] Before assms(1,2) show ?thesis by simp
    qed
  next
    case (After el a)
    show ?thesis
    proof (cases "el = NULL")
      case True
      with After add_first_ok [OF assms(1), of a] assms(2) show ?thesis by (simp add: add_after_NULL)
    next
      case False
      with After assms(2) d obtain as bs where "es = as @ el # bs" "spec_list_op key c es = as @ el # a # bs"
        by (auto elim: spec_at [of el es key a])
      with add_after_ok [of head h as el bs a] After assms(1,2) show ?thesis by simp
    qed
  next
    case (Replace el a)
    with assms(2) d obtain as bs where "es = as @ el # bs" "spec_list_op key c es = as @ a # bs"
      by (auto elim: spec_at [of el es key a])
    with put_in_ok [of head h as el bs a] Replace assms(1,2) show ?thesis by simp
  next
    case (Delete el)
    with assms(2) d obtain as bs where "es = as @ el # bs" "spec_list_op key c es = as @ bs"
      by (auto elim: spec_at [of el es key])
    with remove_ok [of head h as el bs] Delete assms(1) show ?thesis by simp
  next
    case Sort
    with order_ok [OF assms(1) _ assms(3)] assms(2) show ?thesis by simp
  qed
qed

lemma steps_ok:
  assumes "rep (head, h) es" "list_ops_ok (cell h) key cs es" "compares cmp key"
  shows "op_result rep h (run_list_ops (step cmp) cs (head, h)) (fold (spec_list_op key) cs es)"
  using assms(1,2)
proof (induction cs arbitrary: head h es)
  case Nil
  then show ?case by (simp add: op_result_def same_cells_refl)
next
  case (Cons c cs)
  then have "op_result rep h (step cmp c (head, h)) (spec_list_op key c es)" by (intro step_ok assms(3)) simp_all
  then obtain head1 h1 where 1: "step cmp c (head, h) = Some (Inr (head1, h1))" "rep (head1, h1) (spec_list_op key c es)"
    "same_cells h h1" by (auto simp: op_result_def)
  have "op_result rep h1 (run_list_ops (step cmp) cs (head1, h1)) (fold (spec_list_op key) (c # cs) es)"
    using Cons.IH [OF 1(2)] Cons.prems(2) same_cells_cell [OF 1(3)] by simp
  with 1 show ?case by (auto simp: op_result_def same_cells_def)
qed

text \<open>From the empty list, with elements that are in the heap: the list, its length, and what a search finds in it.\<close>

lemma from_empty:
  assumes "list_ops_ok (cell h) key cs []" "compares cmp key" "fold (spec_list_op key) cs [] = es"
  shows "\<exists>head' h'. run_list_ops (step cmp) cs (NULL, h) = Some (Inr (head', h')) \<and> rep (head', h') es
    \<and> count (head', h') = Some (Inr (length es))
    \<and> search found (head', h') = Some (Inr (case find found es of Some e \<Rightarrow> e | None \<Rightarrow> NULL))"
proof -
  obtain head' h' where "run_list_ops (step cmp) cs (NULL, h) = Some (Inr (head', h'))" "rep (head', h') es"
    using steps_ok [OF empty assms(1,2)] assms(3) by (auto simp: op_result_def)
  with count_ok search_ok show ?thesis by blast
qed

end

section \<open>Reading and writing\<close>

lemma deref_ok [heap_simps]: "f p = Some q \<Longrightarrow> p \<noteq> NULL \<Longrightarrow> deref f p = Inr q"
  by (simp add: deref_def)

lemma read_ok [heap_simps]:
  "nxt h p = Some q \<Longrightarrow> p \<noteq> NULL \<Longrightarrow> read_next h p = Inr q"
  "prv h p = Some q \<Longrightarrow> p \<noteq> NULL \<Longrightarrow> read_prev h p = Inr q"
  by (simp_all add: read_next_def read_prev_def deref_ok)

lemma set_ok [heap_simps]:
  "nxt h p \<noteq> None \<Longrightarrow> p \<noteq> NULL \<Longrightarrow> set_next h p v = Inr (h\<lparr>nxt := (nxt h)(p \<mapsto> v)\<rparr>)"
  "prv h p \<noteq> None \<Longrightarrow> p \<noteq> NULL \<Longrightarrow> set_prev h p v = Inr (h\<lparr>prv := (prv h)(p \<mapsto> v)\<rparr>)"
  by (auto simp: set_next_def set_prev_def deref_ok)

lemma assert_ok [heap_simps]: "b \<Longrightarrow> assert_c b = Inr ()"
  by (simp add: assert_c_def)

lemma walk_ok:
  assumes "chain (nxt h) t (t # es) stop" "stop \<notin> set es"
  shows "walk h stop go t = Some (Inr (last (t # takeWhile go es)))"
  using assms
proof (induction es arbitrary: t)
  case Nil
  then show ?case by (subst walk.simps) (simp add: read_ok)
next
  case (Cons e es)
  then have "read_next h t = Inr e" by (simp add: read_ok)
  with Cons show ?case by (subst walk.simps) simp
qed

lemma walk_end: "nchain (nxt h) head es \<Longrightarrow> es \<noteq> [] \<Longrightarrow> walk h NULL (\<lambda>_. True) head = Some (Inr (last es))"
  using walk_ok [of h head "tl es" NULL "\<lambda>_. True"] by (cases es) (auto simp: takeWhile_eq_all_conv [THEN iffD2] dest: chain_NULL_notin)

lemma LL_FOREACH2_count:
  "nchain (nxt h) el es \<Longrightarrow> LL_FOREACH2 fst (\<lambda>_ (h, counter). Some (Inr (h, counter + 1))) el (h, n) = Some (Inr (h, n + length es))"
proof (induction es arbitrary: el n)
  case Nil
  then show ?case by (subst LL_FOREACH2.simps) simp
next
  case (Cons e es)
  then show ?case by (subst LL_FOREACH2.simps) (auto simp: read_ok)
qed

lemma LL_COUNT2_ok: "nchain (nxt h) head es \<Longrightarrow> LL_COUNT2 (head, h) = Some (Inr (length es))"
  unfolding LL_COUNT2_def prod.case by (subst LL_FOREACH2_count) simp_all

lemma LL_SEARCH2_ok:
  "nchain (nxt h) out es \<Longrightarrow> LL_SEARCH2 h found out = Some (Inr (case find found es of Some e \<Rightarrow> e | None \<Rightarrow> NULL))"
proof (induction es arbitrary: out)
  case Nil
  then show ?case by (subst LL_SEARCH2.simps) simp
next
  case (Cons e es)
  then show ?case by (subst LL_SEARCH2.simps) (auto simp: read_ok)
qed

section \<open>The operations on singly linked lists\<close>

definition ll_rep :: "ul_list \<Rightarrow> ptr list \<Rightarrow> bool" where
  "ll_rep = (\<lambda>(head, h). nchain (nxt h) head)"

lemma LL_linkI:
  assumes "nchain (nxt h) head (as @ bs)" "b \<noteq> NULL" "b \<notin> set (as @ bs)"
    and "h' = h\<lparr>nxt := (if as = [] then nxt h else (nxt h)(last as \<mapsto> b))(b \<mapsto> first_of bs)\<rparr>" "head' = (if as = [] then b else head)"
    and "b \<in> dom (nxt h)" "r = Some (Inr (head', h'))"
  shows "op_result ll_rep h r (as @ b # bs)"
proof -
  have "distinct (as @ bs)" using assms(1) by (rule nchain_distinct)
  with assms(1-3) have "nchain ((if as = [] then nxt h else (nxt h)(last as \<mapsto> b))(b \<mapsto> first_of bs)) head' (as @ b # bs)"
    unfolding assms(5) by (intro chain_link) auto
  moreover have "last as \<in> dom (nxt h)" if "as \<noteq> []" using chain_dom [OF assms(1)] last_in_set [OF that] by auto
  ultimately show ?thesis using assms(4,6,7) by (auto simp: op_result_def ll_rep_def same_cells_def)
qed

lemma LL_PREPEND2_ok:
  assumes "ll_rep (head, h) es" "cell h b" "b \<notin> set es"
  shows "op_result ll_rep h (Some (LL_PREPEND2 b (head, h))) (b # es)"
proof -
  have "op_result ll_rep h (Some (LL_PREPEND2 b (head, h))) ([] @ b # es)"
    using assms by (intro LL_linkI) (auto simp: LL_PREPEND2_def cell_def ll_rep_def set_ok dest: chain_hd)
  then show ?thesis by simp
qed

lemma LL_APPEND_ELEM2_ok:
  assumes "ll_rep (head, h) (as @ e # bs)" "cell h b" "b \<notin> set (as @ e # bs)"
  shows "op_result ll_rep h (Some (LL_APPEND_ELEM2 e b (head, h))) (as @ e # b # bs)"
proof -
  have c: "nchain (nxt h) head ((as @ [e]) @ bs)" using assms(1) by (simp add: ll_rep_def)
  have f: "nxt h e = Some (first_of bs)" using nchain_field [of "nxt h" head as e bs] c by simp
  have e: "e \<noteq> NULL" "head \<noteq> NULL" using c chain_first [OF c] by auto
  have "op_result ll_rep h (Some (LL_APPEND_ELEM2 e b (head, h))) ((as @ [e]) @ b # bs)"
    using assms c e f by (intro LL_linkI)
      (auto simp: LL_APPEND_ELEM2_def cell_def read_ok set_ok assert_ok fun_upd_twist)
  then show ?thesis by simp
qed

lemma LL_APPEND2_ok:
  assumes "ll_rep (head, h) es" "cell h b" "b \<notin> set es"
  shows "op_result ll_rep h (LL_APPEND2 b (head, h)) (es @ [b])"
proof -
  let ?h = "h\<lparr>nxt := (nxt h)(b \<mapsto> NULL)\<rparr>"
  have c: "nchain (nxt h) head (es @ [])" using assms(1) by (simp add: ll_rep_def)
  then have c': "nchain (nxt ?h) head es" using assms(3) by simp
  show ?thesis
  proof (cases "es = []")
    case True
    with c assms show ?thesis by (intro LL_linkI [OF c]) (auto simp: LL_APPEND2_def cell_def set_ok)
  next
    case False
    have w: "walk ?h NULL (\<lambda>_. True) head = Some (Inr (last es))" by (rule walk_end [OF c' False])
    have l: "last es \<in> dom (nxt h)" "last es \<noteq> NULL" "last es \<noteq> b" "head \<noteq> NULL"
      using chain_last [OF c'] chain_last [OF c] chain_first [OF c] False assms(3) last_in_set [OF False] by auto
    show ?thesis
      using w l assms(2,3) False
      by (intro LL_linkI [OF c]) (auto simp: LL_APPEND2_def cell_def set_ok fun_upd_twist)
  qed
qed

lemma LL_LOWER_BOUND2_ok:
  assumes "ll_rep (head, h) es"
  shows "LL_LOWER_BOUND2 cmp like (head, h) = Some (Inr (last (NULL # takeWhile (\<lambda>x. cmp x like < 0) es)))"
proof (cases es)
  case Nil
  with assms show ?thesis by (simp add: LL_LOWER_BOUND2_def ll_rep_def)
next
  case (Cons a as)
  with assms have c: "chain (nxt h) head (head # as) NULL" "head = a" "head \<noteq> NULL" by (auto simp: ll_rep_def)
  then have "NULL \<notin> set as" using chain_NULL_notin [OF c(1)] by simp
  from walk_ok [OF c(1) this, of "\<lambda>x. \<not> cmp x like \<ge> 0"] c Cons show ?thesis
    by (auto simp: LL_LOWER_BOUND2_def not_le)
qed

lemma LL_INSERT_INORDER2_ok:
  assumes "ll_rep (head, h) es" "cell h b" "b \<notin> set es"
  shows "op_result ll_rep h (LL_INSERT_INORDER2 cmp b (head, h))
    (takeWhile (\<lambda>x. cmp x b < 0) es @ b # dropWhile (\<lambda>x. cmp x b < 0) es)"
proof (cases "es = []")
  case True
  with assms have "op_result ll_rep h (LL_INSERT_INORDER2 cmp b (head, h)) ([] @ b # [])"
    by (intro LL_linkI) (auto simp: LL_INSERT_INORDER2_def cell_def ll_rep_def set_ok)
  with True show ?thesis by simp
next
  case False
  let ?as = "takeWhile (\<lambda>x. cmp x b < 0) es" and ?bs = "dropWhile (\<lambda>x. cmp x b < 0) es"
  have "head \<noteq> NULL" using assms(1) False by (cases es) (auto simp: ll_rep_def)
  then have step: "LL_INSERT_INORDER2 cmp b (head, h) = Some (LL_APPEND_ELEM2 (last (NULL # ?as)) b (head, h))"
    by (simp add: LL_INSERT_INORDER2_def LL_LOWER_BOUND2_ok [OF assms(1)])
  show ?thesis
  proof (cases ?as rule: rev_cases)
    case Nil
    then have d: "?bs = es" by (metis append_Nil takeWhile_dropWhile_id)
    have "LL_APPEND_ELEM2 NULL b (head, h) = LL_PREPEND2 b (head, h)" by (simp add: LL_APPEND_ELEM2_def)
    with LL_PREPEND2_ok [OF assms] show ?thesis unfolding step Nil d by simp
  next
    case (snoc us u)
    have es: "es = us @ u # ?bs" using snoc by (metis append.assoc append_Cons append_Nil takeWhile_dropWhile_id)
    have "op_result ll_rep h (Some (LL_APPEND_ELEM2 u b (head, h))) (us @ u # b # ?bs)"
      using assms es by (intro LL_APPEND_ELEM2_ok) simp_all
    then show ?thesis unfolding step snoc by simp
  qed
qed

lemma walk_before:
  assumes "nchain (nxt h) head (as @ e # bs)" "as \<noteq> []"
  shows "walk h NULL (\<lambda>q. q \<noteq> e) head = Some (Inr (last as))"
proof -
  obtain u us where as: "as = u # us" using assms(2) by (cases as) auto
  have "distinct (as @ e # bs)" using assms(1) by (rule nchain_distinct)
  then have tw: "takeWhile (\<lambda>q. q \<noteq> e) (us @ e # bs) = us" using as by (intro takeWhile_split) auto
  have c: "chain (nxt h) head (head # us @ e # bs) NULL" "head = u" using assms(1) as by auto
  then have "NULL \<notin> set (us @ e # bs)" using chain_NULL_notin [OF c(1)] by simp
  from walk_ok [OF c(1) this, of "\<lambda>q. q \<noteq> e"] as c(2) show ?thesis unfolding tw by simp
qed

lemma LL_DELETE2_ok:
  assumes "ll_rep (head, h) (as @ e # bs)"
  shows "op_result ll_rep h (LL_DELETE2 e (head, h)) (as @ bs)"
proof -
  have c: "nchain (nxt h) head (as @ e # bs)" using assms by (simp add: ll_rep_def)
  have d: "distinct (as @ e # bs)" using c by (rule nchain_distinct)
  have f: "nxt h e = Some (first_of bs)" "e \<noteq> NULL" using nchain_field [OF c] c by auto
  have n: "nchain (if as = [] then nxt h else (nxt h)(last as \<mapsto> first_of bs)) (if as = [] then first_of bs else head) (as @ bs)"
    by (rule chain_unlink [OF c]) simp
  show ?thesis
  proof (cases "as = []")
    case True
    with c f n show ?thesis by (auto simp: LL_DELETE2_def read_ok op_result_def ll_rep_def same_cells_def)
  next
    case False
    then have l: "last as \<noteq> NULL" "nxt h (last as) = Some e" "head \<noteq> e"
      using c d chain_last [of "nxt h" head as e] chain_first [of "nxt h" head as e] by auto
    with walk_before [OF c False] f n False show ?thesis
      by (auto simp: LL_DELETE2_def read_ok set_ok op_result_def ll_rep_def same_cells_def)
  qed
qed

text \<open>Deleting an element that is not there changes nothing, unless the list is empty.\<close>

lemma LL_DELETE2_absent:
  assumes "ll_rep (head, h) es" "e \<notin> set es" "e \<noteq> NULL"
  shows "LL_DELETE2 e (head, h) = (if es = [] then Some (Inl NullDeref) else Some (Inr (head, h)))"
proof (cases es)
  case Nil
  with assms have "walk h NULL (\<lambda>q. q \<noteq> e) head = Some (Inl NullDeref)"
    by (subst walk.simps) (simp add: ll_rep_def read_next_def deref_def)
  with Nil assms show ?thesis by (simp add: LL_DELETE2_def ll_rep_def)
next
  case (Cons a as)
  with assms have c: "chain (nxt h) head (head # as) NULL" "head = a" by (auto simp: ll_rep_def)
  then have n: "NULL \<notin> set as" using chain_NULL_notin [OF c(1)] by simp
  have tw: "takeWhile (\<lambda>q. q \<noteq> e) as = as" using assms(2) Cons by (auto simp: takeWhile_eq_all_conv)
  have "walk h NULL (\<lambda>q. q \<noteq> e) head = Some (Inr (last es))"
    using walk_ok [OF c(1) n, of "\<lambda>q. q \<noteq> e"] c(2) Cons unfolding tw by simp
  moreover have "read_next h (last es) = Inr NULL" using chain_last [OF c(1)] Cons c(2) by (simp add: read_ok)
  ultimately show ?thesis using Cons assms(2) c(2) by (auto simp: LL_DELETE2_def)
qed

lemma LL_REPLACE_ELEM2_ok:
  assumes "ll_rep (head, h) (as @ e # bs)" "cell h b" "b \<notin> set (as @ e # bs)"
  shows "op_result ll_rep h (LL_REPLACE_ELEM2 e b (head, h)) (as @ b # bs)"
proof -
  have c: "nchain (nxt h) head (as @ e # bs)" using assms(1) by (simp add: ll_rep_def)
  have d: "distinct (as @ e # bs)" using c by (rule nchain_distinct)
  have f: "nxt h e = Some (first_of bs)" "e \<noteq> NULL" "head \<noteq> NULL" using nchain_field [OF c] c chain_first [OF c] by auto
  let ?h = "h\<lparr>nxt := (nxt h)(b \<mapsto> first_of bs)\<rparr>"
  have b: "b \<noteq> NULL" "b \<notin> set (as @ bs)" using assms(2,3) by (auto simp: cell_def)
  have n: "nchain ((if as = [] then nxt h else (nxt h)(last as \<mapsto> b))(b \<mapsto> first_of bs)) (if as = [] then b else head) (as @ b # bs)"
    by (rule chain_replace [OF c d b f(1)])
  show ?thesis
  proof (cases "as = []")
    case True
    with c f n assms(2) show ?thesis
      by (auto simp: LL_REPLACE_ELEM2_def read_ok set_ok assert_ok op_result_def ll_rep_def same_cells_def cell_def)
  next
    case False
    have c': "nchain (nxt ?h) head (as @ e # bs)" using c assms(3) by simp
    have l: "last as \<noteq> NULL" "nxt h (last as) = Some e" "head \<noteq> e" "last as \<noteq> b"
      using c d chain_last [of "nxt h" head as e] chain_first [of "nxt h" head as e] assms(3) False last_in_set [OF False] by auto
    from n False l(4) have "nchain ((nxt h)(b \<mapsto> first_of bs, last as \<mapsto> b)) head (as @ b # bs)"
      by (simp add: fun_upd_twist)
    with walk_before [OF c' False] f l False assms(2) show ?thesis
      by (auto simp: LL_REPLACE_ELEM2_def read_ok set_ok assert_ok op_result_def ll_rep_def same_cells_def cell_def)
  qed
qed

lemma LL_PREPEND_ELEM2_ok:
  assumes "ll_rep (head, h) (as @ e # bs)" "cell h b" "b \<notin> set (as @ e # bs)"
  shows "op_result ll_rep h (LL_PREPEND_ELEM2 e b (head, h)) (as @ b # e # bs)"
proof -
  have c: "nchain (nxt h) head (as @ e # bs)" using assms(1) by (simp add: ll_rep_def)
  have d: "distinct (as @ e # bs)" using c by (rule nchain_distinct)
  have e: "e \<noteq> NULL" "head \<noteq> NULL" using c chain_first [OF c] by auto
  let ?h = "h\<lparr>nxt := (nxt h)(b \<mapsto> e)\<rparr>"
  show ?thesis
  proof (cases "as = []")
    case True
    with c e assms show ?thesis
      by (intro LL_linkI [OF c]) (auto simp: LL_PREPEND_ELEM2_def set_ok assert_ok cell_def)
  next
    case False
    have c': "nchain (nxt ?h) head (as @ e # bs)" using c assms(3) by simp
    have l: "last as \<noteq> NULL" "nxt h (last as) = Some e" "head \<noteq> e" "last as \<noteq> b"
      using c d chain_last [of "nxt h" head as e] chain_first [of "nxt h" head as e] assms(3) False last_in_set [OF False] by auto
    with walk_before [OF c' False] e False assms(2,3) show ?thesis
      by (intro LL_linkI [OF c]) (auto simp: LL_PREPEND_ELEM2_def read_ok set_ok assert_ok cell_def fun_upd_twist)
  qed
qed

text \<open>Two lists with no element in common.\<close>

lemma LL_CONCAT2_ok:
  assumes "ll_rep (head, h) es" "ll_rep (head2, h) es2" "set es \<inter> set es2 = {}"
  shows "op_result ll_rep h (LL_CONCAT2 head2 (head, h)) (es @ es2)"
proof (cases es rule: rev_cases)
  case Nil
  with assms show ?thesis by (auto simp: LL_CONCAT2_def op_result_def ll_rep_def same_cells_def)
next
  case (snoc us u)
  have c: "nchain (nxt h) head (us @ [u])" "nchain (nxt h) head2 es2" using assms(1,2) snoc by (simp_all add: ll_rep_def)
  have "u \<notin> set us" using nchain_distinct [OF c(1)] by simp
  then have "nchain ((nxt h)(u \<mapsto> head2)) head ((us @ [u]) @ es2)" using c assms(3) snoc by auto
  with walk_end [OF c(1)] chain_last [OF c(1)] chain_first [OF c(1)] snoc show ?thesis
    by (auto simp: LL_CONCAT2_def set_ok op_result_def ll_rep_def same_cells_def)
qed

section \<open>Deleting while iterating\<close>

text \<open>What iteration relies on: a list that ends with null, and an operation that deletes.\<close>

locale deleting_list =
  fixes rep :: "ul_list \<Rightarrow> ptr list \<Rightarrow> bool"
    and delete :: "ptr \<Rightarrow> ul_list \<Rightarrow> ul_list run"
  assumes linked: "rep (head, h) es \<Longrightarrow> nchain (nxt h) head es"
    and delete_ok: "rep (head, h) (as @ e # bs) \<Longrightarrow> op_result rep h (delete e (head, h)) (as @ bs)"
begin

lemma sweep_from:
  assumes "rep (head, h) (as @ es)" "el = first_of es"
  shows "op_result rep h (LL_FOREACH_SAFE2 snd (\<lambda>e st. if P e then delete e st else Some (Inr st)) el (head, h))
    (as @ filter (\<lambda>e. \<not> P e) es)"
  using assms
proof (induction es arbitrary: as head h el)
  case Nil
  then show ?case by (subst LL_FOREACH_SAFE2.simps) (simp add: op_result_def same_cells_refl)
next
  case (Cons e es)
  have c: "nchain (nxt h) head (as @ e # es)" by (rule linked [OF Cons.prems(1)])
  then have q: "read_next h e = Inr (first_of es)" "e \<noteq> NULL" using nchain_field [OF c] by (auto simp: read_ok)
  show ?case
  proof (cases "P e")
    case True
    obtain head1 h1 where 1: "delete e (head, h) = Some (Inr (head1, h1))" "rep (head1, h1) (as @ es)" "same_cells h h1"
      using delete_ok [OF Cons.prems(1)] by (auto simp: op_result_def)
    from Cons.IH [OF 1(2) refl] 1 q True Cons.prems(2) show ?thesis
      by (subst LL_FOREACH_SAFE2.simps) (auto simp: op_result_def same_cells_def)
  next
    case False
    have "rep (head, h) ((as @ [e]) @ es)" using Cons.prems(1) by simp
    from Cons.IH [OF this refl] q False Cons.prems(2) show ?thesis
      by (subst LL_FOREACH_SAFE2.simps) (simp add: op_result_def)
  qed
qed

lemma sweep:
  assumes "rep (head, h) es"
  shows "op_result rep h (LL_FOREACH_SAFE2 snd (\<lambda>e st. if P e then delete e st else Some (Inr st)) head (head, h))
    (filter (\<lambda>e. \<not> P e) es)"
proof -
  have "head = first_of es" using chain_hd [OF linked [OF assms]] by simp
  with sweep_from [of head h "[]" es head P] assms show ?thesis by simp
qed

end

interpretation ll: deleting_list ll_rep LL_DELETE2
  by unfold_locales (simp add: ll_rep_def, rule LL_DELETE2_ok)

end
