(* ===== verification/Utlist_Double.thy ===== *)
theory Utlist_Double
  imports Utlist
begin

text \<open>
  The doubly linked lists of \<^verbatim>\<open>utlist.h\<close>: \<open>prev\<close> of an element is the element before it, \<open>prev\<close> of the head is the last
  element, and \<open>next\<close> of the last element is null.
\<close>

definition DL_PREPEND2 :: "ptr \<Rightarrow> ul_list \<Rightarrow> ul_list res" where
  "DL_PREPEND2 add = (\<lambda>(head, h).
     bind_res (set_next h add head) (\<lambda>h.
     bind_res (if head \<noteq> NULL then
                 bind_res (read_prev h head) (\<lambda>q. bind_res (set_prev h add q) (\<lambda>h. set_prev h head add))
               else set_prev h add add) (\<lambda>h.
     Inr (add, h))))"

definition DL_APPEND2 :: "ptr \<Rightarrow> ul_list \<Rightarrow> ul_list res" where
  "DL_APPEND2 add = (\<lambda>(head, h).
     if head \<noteq> NULL then
       bind_res (read_prev h head) (\<lambda>q. bind_res (set_prev h add q) (\<lambda>h.
       bind_res (read_prev h head) (\<lambda>q. bind_res (set_next h q add) (\<lambda>h.
       bind_res (set_prev h head add) (\<lambda>h. bind_res (set_next h add NULL) (\<lambda>h. Inr (head, h)))))))
     else bind_res (set_prev h add add) (\<lambda>h. bind_res (set_next h add NULL) (\<lambda>h. Inr (add, h))))"

definition DL_LOWER_BOUND2 :: "(ptr \<Rightarrow> ptr \<Rightarrow> int) \<Rightarrow> ptr \<Rightarrow> ul_list \<Rightarrow> ptr run" where
  "DL_LOWER_BOUND2 cmp like = (\<lambda>(head, h).
     if head = NULL \<or> cmp head like \<ge> 0 then Some (Inr NULL) else walk h NULL (\<lambda>q. \<not> cmp q like \<ge> 0) head)"

definition DL_APPEND_ELEM2 :: "ptr \<Rightarrow> ptr \<Rightarrow> ul_list \<Rightarrow> ul_list res" where
  "DL_APPEND_ELEM2 el add = (\<lambda>(head, h).
     if el \<noteq> NULL then
       bind_res (assert_c (head \<noteq> NULL)) (\<lambda>_. bind_res (assert_c (add \<noteq> NULL)) (\<lambda>_.
       bind_res (read_next h el) (\<lambda>q. bind_res (set_next h add q) (\<lambda>h.
       bind_res (set_prev h add el) (\<lambda>h. bind_res (set_next h el add) (\<lambda>h.
       bind_res (read_next h add) (\<lambda>q.
       bind_res (if q \<noteq> NULL then set_prev h q add else set_prev h head add) (\<lambda>h. Inr (head, h)))))))))
     else DL_PREPEND2 add (head, h))"

definition DL_INSERT_INORDER2 :: "(ptr \<Rightarrow> ptr \<Rightarrow> int) \<Rightarrow> ptr \<Rightarrow> ul_list \<Rightarrow> ul_list run" where
  "DL_INSERT_INORDER2 cmp add = (\<lambda>(head, h).
     if head \<noteq> NULL then bind_run (DL_LOWER_BOUND2 cmp add (head, h)) (\<lambda>tmp. Some (DL_APPEND_ELEM2 tmp add (head, h)))
     else Some (bind_res (set_prev h add add) (\<lambda>h. bind_res (set_next h add NULL) (\<lambda>h. Inr (add, h)))))"

definition DL_CONCAT2 :: "ptr \<Rightarrow> ul_list \<Rightarrow> ul_list res" where
  "DL_CONCAT2 head2 = (\<lambda>(head1, h).
     if head2 \<noteq> NULL then
       if head1 \<noteq> NULL then
         bind_res (read_prev h head2) (\<lambda>tmp.
         bind_res (read_prev h head1) (\<lambda>q. bind_res (set_prev h head2 q) (\<lambda>h.
         bind_res (read_prev h head1) (\<lambda>q. bind_res (set_next h q head2) (\<lambda>h.
         bind_res (set_prev h head1 tmp) (\<lambda>h. Inr (head1, h)))))))
       else Inr (head2, h)
     else Inr (head1, h))"

definition DL_DELETE2 :: "ptr \<Rightarrow> ul_list \<Rightarrow> ul_list res" where
  "DL_DELETE2 del = (\<lambda>(head, h).
     bind_res (assert_c (head \<noteq> NULL)) (\<lambda>_. bind_res (read_prev h del) (\<lambda>q. bind_res (assert_c (q \<noteq> NULL)) (\<lambda>_.
     if q = del then Inr (NULL, h)
     else if del = head then
       bind_res (read_next h del) (\<lambda>n. bind_res (set_prev h n q) (\<lambda>h.
       bind_res (read_next h del) (\<lambda>n. Inr (n, h))))
     else
       bind_res (read_next h del) (\<lambda>n. bind_res (set_next h q n) (\<lambda>h.
       bind_res (read_next h del) (\<lambda>n.
       bind_res (read_prev h del) (\<lambda>q.
       bind_res (if n \<noteq> NULL then set_prev h n q else set_prev h head q) (\<lambda>h. Inr (head, h))))))))))"

definition DL_REPLACE_ELEM2 :: "ptr \<Rightarrow> ptr \<Rightarrow> ul_list \<Rightarrow> ul_list res" where
  "DL_REPLACE_ELEM2 el add = (\<lambda>(head, h).
     bind_res (assert_c (head \<noteq> NULL)) (\<lambda>_. bind_res (assert_c (el \<noteq> NULL)) (\<lambda>_. bind_res (assert_c (add \<noteq> NULL)) (\<lambda>_.
     if head = el then
       bind_res (read_next h el) (\<lambda>n. bind_res (set_next h add n) (\<lambda>h.
       bind_res (read_next h el) (\<lambda>n.
       if n = NULL then bind_res (set_prev h add add) (\<lambda>h. Inr (add, h))
       else
         bind_res (read_prev h el) (\<lambda>q. bind_res (set_prev h add q) (\<lambda>h.
         bind_res (read_next h add) (\<lambda>n. bind_res (set_prev h n add) (\<lambda>h. Inr (add, h))))))))
     else
       bind_res (read_next h el) (\<lambda>n. bind_res (set_next h add n) (\<lambda>h.
       bind_res (read_prev h el) (\<lambda>q. bind_res (set_prev h add q) (\<lambda>h.
       bind_res (read_prev h add) (\<lambda>q. bind_res (set_next h q add) (\<lambda>h.
       bind_res (read_next h el) (\<lambda>n.
       bind_res (if n = NULL then set_prev h head add
                 else bind_res (read_next h add) (\<lambda>n. set_prev h n add)) (\<lambda>h. Inr (head, h)))))))))))))"

definition DL_PREPEND_ELEM2 :: "ptr \<Rightarrow> ptr \<Rightarrow> ul_list \<Rightarrow> ul_list res" where
  "DL_PREPEND_ELEM2 el add = (\<lambda>(head, h).
     if el \<noteq> NULL then
       bind_res (assert_c (head \<noteq> NULL)) (\<lambda>_. bind_res (assert_c (add \<noteq> NULL)) (\<lambda>_.
       bind_res (set_next h add el) (\<lambda>h.
       bind_res (read_prev h el) (\<lambda>q. bind_res (set_prev h add q) (\<lambda>h. bind_res (set_prev h el add) (\<lambda>h.
       if head = el then Inr (add, h)
       else bind_res (read_prev h add) (\<lambda>q. bind_res (set_next h q add) (\<lambda>h. Inr (head, h)))))))))
     else DL_APPEND2 add (head, h))"

section \<open>What a doubly linked list holds\<close>

definition dl_rep :: "ul_list \<Rightarrow> ptr list \<Rightarrow> bool" where
  "dl_rep = (\<lambda>(head, h) es. nchain (nxt h) head es \<and> backs (prv h) (last es) es)"

text \<open>The back link of the head follows the last element.\<close>

lemma backs_requeue: "backs g q es \<Longrightarrow> distinct es \<Longrightarrow> es \<noteq> [] \<Longrightarrow> backs (g(hd es \<mapsto> q')) q' es"
  by (cases es) auto

lemma backs_fields:
  assumes "backs g q es" "e \<in> set es" shows "\<exists>r. g e = Some r"
  using assms by (auto simp: in_set_conv_decomp)

lemma dl_resultI:
  assumes "nchain f' head' es'" "backs g' (last es') es'" "r = Some (Inr (head', h\<lparr>nxt := f', prv := g'\<rparr>))"
    and "dom f' = dom (nxt h)" "dom g' = dom (prv h)"
  shows "op_result dl_rep h r es'"
  using assms by (auto simp: op_result_def dl_rep_def same_cells_def)

lemma dl_head:
  assumes "dl_rep (head, h) es" "es \<noteq> []"
  shows "head \<noteq> NULL" "head = hd es" "prv h head = Some (last es)" "last es \<noteq> NULL" "nxt h (last es) = Some NULL"
  using assms chain_first [of "nxt h" head es NULL] chain_last [of "nxt h" head es NULL]
  by (auto simp: dl_rep_def neq_Nil_conv)

lemma dl_at:
  assumes "dl_rep (head, h) (as @ e # bs)"
  shows "nchain (nxt h) head (as @ e # bs)" "distinct (as @ e # bs)" "e \<noteq> NULL"
    and "nxt h e = Some (first_of bs)" "prv h e = Some (if as = [] then last (e # bs) else last as)"
    and "head \<noteq> NULL" "prv h head = Some (last (e # bs))" "head = e \<longleftrightarrow> as = []"
    and "as \<noteq> [] \<Longrightarrow> last as \<noteq> NULL" "as \<noteq> [] \<Longrightarrow> nxt h (last as) = Some e" "as \<noteq> [] \<Longrightarrow> last as \<noteq> e"
    and "bs \<noteq> [] \<Longrightarrow> hd bs \<noteq> NULL" "bs \<noteq> [] \<Longrightarrow> prv h (hd bs) = Some e"
    and "backs (prv h) (last (e # bs)) (as @ e # bs)"
proof -
  have c: "nchain (nxt h) head (as @ e # bs)" and b: "backs (prv h) (last (e # bs)) (as @ e # bs)"
    using assms by (simp_all add: dl_rep_def)
  have d: "distinct (as @ e # bs)" using c by (rule nchain_distinct)
  have n: "NULL \<notin> set (as @ e # bs)" using c by (rule chain_NULL_notin)
  show "nchain (nxt h) head (as @ e # bs)" "distinct (as @ e # bs)" "backs (prv h) (last (e # bs)) (as @ e # bs)" by fact+
  show "e \<noteq> NULL" using n by auto
  show "nxt h e = Some (first_of bs)" using nchain_field [OF c] by simp
  show "prv h e = Some (if as = [] then last (e # bs) else last as)" using backs_field [OF b] by (simp split: if_splits)
  show "head \<noteq> NULL" "prv h head = Some (last (e # bs))" using dl_head [OF assms] by simp_all
  show "head = e \<longleftrightarrow> as = []" using dl_head(2) [OF assms] d by (cases as) auto
  show "last as \<noteq> NULL" "nxt h (last as) = Some e" if "as \<noteq> []" using chain_last [OF _ that, of "nxt h" head e] c by auto
  show "last as \<noteq> e" if "as \<noteq> []" using last_in_set [OF that] d by auto
  show "hd bs \<noteq> NULL" "prv h (hd bs) = Some e" if "bs \<noteq> []" using n b that by (cases bs; auto)+
qed

lemma backs_snoc:
  assumes "backs g (last es) es" "es \<noteq> []" "distinct es" "b \<notin> set es"
  shows "backs (g(b \<mapsto> last es, hd es \<mapsto> b)) b (es @ [b])"
proof -
  have "backs (g(hd es \<mapsto> b)) b es" by (rule backs_requeue [OF assms(1,3,2)])
  moreover have "hd es \<noteq> b" using assms(2,4) by (cases es) auto
  moreover have "backs (g(hd es \<mapsto> b, b \<mapsto> last es)) b es" using calculation(1) assms(4) by simp
  ultimately show ?thesis using assms(2) by (simp add: fun_upd_twist)
qed

lemma DL_PREPEND2_ok:
  assumes "dl_rep (head, h) es" "cell h b" "b \<notin> set es"
  shows "op_result dl_rep h (Some (DL_PREPEND2 b (head, h))) (b # es)"
proof (cases "es = []")
  case True
  with assms show ?thesis
    by (intro dl_resultI [where f' = "(nxt h)(b \<mapsto> NULL)" and g' = "(prv h)(b \<mapsto> b)" and head' = b])
      (auto simp: DL_PREPEND2_def dl_rep_def cell_def set_ok)
next
  case False
  have c: "nchain (nxt h) head es" "backs (prv h) (last es) es" using assms(1) by (simp_all add: dl_rep_def)
  note hd = dl_head [OF assms(1) False]
  have hb: "head \<noteq> b" "head \<in> set es" using hd(2) False assms(3) by (cases es; auto)+
  have "backs ((prv h)(hd es \<mapsto> b)) b es" by (rule backs_requeue [OF c(2) nchain_distinct [OF c(1)] False])
  then have "backs ((prv h)(head \<mapsto> b, b \<mapsto> last es)) b es" using assms(3) hd(2) by simp
  then have g: "backs ((prv h)(b \<mapsto> last es, head \<mapsto> b)) (last (b # es)) (b # es)" using hb False by (simp add: fun_upd_twist)
  have f: "nchain ((nxt h)(b \<mapsto> head)) b (b # es)" using assms(2,3) c(1) by (simp add: cell_def)
  show ?thesis
    by (rule dl_resultI [OF f g]) (use hd hb assms(2) in \<open>auto simp: DL_PREPEND2_def cell_def read_ok set_ok\<close>)
qed

lemma DL_APPEND2_ok:
  assumes "dl_rep (head, h) es" "cell h b" "b \<notin> set es"
  shows "op_result dl_rep h (Some (DL_APPEND2 b (head, h))) (es @ [b])"
proof (cases "es = []")
  case True
  with assms show ?thesis
    by (intro dl_resultI [where f' = "(nxt h)(b \<mapsto> NULL)" and g' = "(prv h)(b \<mapsto> b)" and head' = b])
      (auto simp: DL_APPEND2_def dl_rep_def cell_def set_ok)
next
  case False
  have c: "nchain (nxt h) head es" "backs (prv h) (last es) es" using assms(1) by (simp_all add: dl_rep_def)
  note d = nchain_distinct [OF c(1)] and hd = dl_head [OF assms(1) False]
  have hb: "head \<noteq> b" "last es \<noteq> b" using hd(2) False assms(3) by auto
  have g: "backs ((prv h)(b \<mapsto> last es, head \<mapsto> b)) (last (es @ [b])) (es @ [b])"
    using backs_snoc [OF c(2) False d assms(3)] hd(2) by simp
  have f: "nchain ((nxt h)(last es \<mapsto> b, b \<mapsto> NULL)) head (es @ [b])"
    using chain_link [of "nxt h" head es "[]" NULL b NULL] c(1) d assms(2,3) False by (simp add: cell_def)
  show ?thesis
    by (rule dl_resultI [OF f g]) (use hd hb assms(2) in \<open>auto simp: DL_APPEND2_def cell_def read_ok set_ok\<close>)
qed

lemma DL_APPEND_ELEM2_ok:
  assumes "dl_rep (head, h) (as @ e # bs)" "cell h b" "b \<notin> set (as @ e # bs)"
  shows "op_result dl_rep h (Some (DL_APPEND_ELEM2 e b (head, h))) (as @ e # b # bs)"
proof -
  note at = dl_at [OF assms(1)]
  have b: "b \<noteq> NULL" "nxt h b \<noteq> None" "prv h b \<noteq> None" "e \<noteq> b" "head \<noteq> b" "bs \<noteq> [] \<Longrightarrow> hd bs \<noteq> b" "bs \<noteq> [] \<Longrightarrow> hd bs \<noteq> e"
    using assms(2,3) dl_head(2) [OF assms(1)] at(2) by (auto simp: cell_def hd_append neq_Nil_conv)
  have f: "nchain ((nxt h)(b \<mapsto> first_of bs, e \<mapsto> b)) head (as @ e # b # bs)"
    using chain_link [of "nxt h" head "as @ [e]" bs NULL b "first_of bs"] at(1,2) assms(3) b(1,4) by (simp add: fun_upd_twist)
  show ?thesis
  proof (cases "bs = []")
    case True
    have "backs ((prv h)(b \<mapsto> last (as @ [e]), hd (as @ [e]) \<mapsto> b)) b ((as @ [e]) @ [b])"
      using at(2,14) assms(3) True by (intro backs_snoc) simp_all
    then have g: "backs ((prv h)(b \<mapsto> e, head \<mapsto> b)) (last (as @ e # b # bs)) (as @ e # b # bs)"
      using True dl_head(2) [OF assms(1)] by simp
    show ?thesis
      by (rule dl_resultI [OF f g]) (use at b True in \<open>auto simp: DL_APPEND_ELEM2_def read_ok set_ok assert_ok\<close>)
  next
    case False
    have "backs ((prv h)(hd bs \<mapsto> b, b \<mapsto> last (last bs # as @ [e]))) (last bs) ((as @ [e]) @ b # bs)"
      using backs_link [of "prv h" "last bs" "as @ [e]" bs b] at(2,14) assms(3) False by simp
    then have g: "backs ((prv h)(b \<mapsto> e, hd bs \<mapsto> b)) (last (as @ e # b # bs)) (as @ e # b # bs)"
      using b(6) False by (simp add: fun_upd_twist)
    show ?thesis
      by (rule dl_resultI [OF f g]) (use at b False in \<open>auto simp: DL_APPEND_ELEM2_def read_ok set_ok assert_ok\<close>)
  qed
qed

lemma DL_LOWER_BOUND2_ok:
  "dl_rep (head, h) es \<Longrightarrow> DL_LOWER_BOUND2 cmp like (head, h) = Some (Inr (last (NULL # takeWhile (\<lambda>x. cmp x like < 0) es)))"
  using LL_LOWER_BOUND2_ok [of head h es cmp like] by (simp add: DL_LOWER_BOUND2_def LL_LOWER_BOUND2_def dl_rep_def ll_rep_def)

lemma DL_INSERT_INORDER2_ok:
  assumes "dl_rep (head, h) es" "cell h b" "b \<notin> set es"
  shows "op_result dl_rep h (DL_INSERT_INORDER2 cmp b (head, h))
    (takeWhile (\<lambda>x. cmp x b < 0) es @ b # dropWhile (\<lambda>x. cmp x b < 0) es)"
proof (cases "es = []")
  case True
  with assms show ?thesis
    by (intro dl_resultI [where f' = "(nxt h)(b \<mapsto> NULL)" and g' = "(prv h)(b \<mapsto> b)" and head' = b])
      (auto simp: DL_INSERT_INORDER2_def dl_rep_def cell_def set_ok)
next
  case False
  let ?as = "takeWhile (\<lambda>x. cmp x b < 0) es" and ?bs = "dropWhile (\<lambda>x. cmp x b < 0) es"
  have step: "DL_INSERT_INORDER2 cmp b (head, h) = Some (DL_APPEND_ELEM2 (last (NULL # ?as)) b (head, h))"
    using dl_head(1) [OF assms(1) False] by (simp add: DL_INSERT_INORDER2_def DL_LOWER_BOUND2_ok [OF assms(1)])
  show ?thesis
  proof (cases ?as rule: rev_cases)
    case Nil
    then have d: "?bs = es" by (metis append_Nil takeWhile_dropWhile_id)
    have "DL_APPEND_ELEM2 NULL b (head, h) = DL_PREPEND2 b (head, h)" by (simp add: DL_APPEND_ELEM2_def)
    with DL_PREPEND2_ok [OF assms] show ?thesis unfolding step Nil d by simp
  next
    case (snoc us u)
    have es: "es = us @ u # ?bs" using snoc by (metis append.assoc append_Cons append_Nil takeWhile_dropWhile_id)
    have "op_result dl_rep h (Some (DL_APPEND_ELEM2 u b (head, h))) (us @ u # b # ?bs)"
      using assms es by (intro DL_APPEND_ELEM2_ok) simp_all
    then show ?thesis unfolding step snoc by simp
  qed
qed

lemma DL_PREPEND_ELEM2_ok:
  assumes "dl_rep (head, h) (as @ e # bs)" "cell h b" "b \<notin> set (as @ e # bs)"
  shows "op_result dl_rep h (Some (DL_PREPEND_ELEM2 e b (head, h))) (as @ b # e # bs)"
proof -
  note at = dl_at [OF assms(1)]
  have b: "b \<noteq> NULL" "nxt h b \<noteq> None" "prv h b \<noteq> None" "e \<noteq> b" "as \<noteq> [] \<Longrightarrow> last as \<noteq> b" "distinct as" "set as \<inter> set (e # bs) = {}"
    using assms(2,3) at(2) last_in_set [of as] by (auto simp: cell_def)
  have "nchain ((if as = [] then nxt h else (nxt h)(last as \<mapsto> b))(b \<mapsto> e)) (if as = [] then b else head) (as @ b # e # bs)"
    using b at(1) assms(3) by (intro chain_link) auto
  then have f: "nchain (if as = [] then (nxt h)(b \<mapsto> e) else (nxt h)(b \<mapsto> e, last as \<mapsto> b)) (if as = [] then b else head) (as @ b # e # bs)"
    using b(5) by (cases "as = []") (simp_all add: fun_upd_twist [of "last as" b])
  have "backs ((prv h)(e \<mapsto> b, b \<mapsto> last (last (e # bs) # as))) (last (e # bs)) (as @ b # e # bs)"
    using backs_link [of "prv h" "last (e # bs)" as "e # bs" b] at(2,14) assms(3) by simp
  then have g: "backs ((prv h)(b \<mapsto> last (last (e # bs) # as), e \<mapsto> b)) (last (as @ b # e # bs)) (as @ b # e # bs)"
    using b(4) by (simp add: fun_upd_twist)
  show ?thesis
  proof (cases "as = []")
    case True
    show ?thesis
      by (rule dl_resultI [OF f g]) (use at b True in \<open>auto simp: DL_PREPEND_ELEM2_def read_ok set_ok assert_ok\<close>)
  next
    case False
    show ?thesis
      by (rule dl_resultI [OF f g])
        (use at(3,5,6,8) at(9,10) [OF False] b(1-4) b(5) [OF False] False in
          \<open>auto simp: DL_PREPEND_ELEM2_def read_ok set_ok assert_ok\<close>)
  qed
qed

lemma DL_REPLACE_ELEM2_ok:
  assumes "dl_rep (head, h) (as @ e # bs)" "cell h b" "b \<notin> set (as @ e # bs)"
  shows "op_result dl_rep h (Some (DL_REPLACE_ELEM2 e b (head, h))) (as @ b # bs)"
proof -
  note at = dl_at [OF assms(1)]
  have lb: "as \<noteq> [] \<Longrightarrow> last as \<noteq> b" using assms(3) last_in_set [of as] by auto
  have b: "b \<noteq> NULL" "nxt h b \<noteq> None" "prv h b \<noteq> None" "e \<noteq> b" "head \<noteq> b" "b \<notin> set (as @ bs)"
    "bs \<noteq> [] \<Longrightarrow> hd bs \<noteq> b" "bs \<noteq> [] \<Longrightarrow> hd bs \<noteq> e" "distinct (as @ bs)"
    using assms(2,3) at(2) dl_head(2) [OF assms(1)] by (auto simp: cell_def hd_append neq_Nil_conv)
  have "nchain ((if as = [] then nxt h else (nxt h)(last as \<mapsto> b))(b \<mapsto> first_of bs)) (if as = [] then b else head) (as @ b # bs)"
    by (rule chain_replace [OF at(1,2) b(1) b(6) at(4)])
  then have f: "nchain (if as = [] then (nxt h)(b \<mapsto> first_of bs) else (nxt h)(b \<mapsto> first_of bs, last as \<mapsto> b))
      (if as = [] then b else head) (as @ b # bs)"
    using lb by (cases "as = []") (simp_all add: fun_upd_twist [of "last as" b])
  show ?thesis
  proof (cases "bs = []")
    case False
    have "backs ((prv h)(hd bs \<mapsto> b, b \<mapsto> last (last bs # as))) (last bs) (as @ b # bs)"
      using backs_replace [of "prv h" "last bs" as e bs b] at(14) b(6,9) False by simp
    then have g: "backs ((prv h)(b \<mapsto> last (last bs # as), hd bs \<mapsto> b)) (last (as @ b # bs)) (as @ b # bs)"
      using b(7) False by (simp add: fun_upd_twist)
    show ?thesis
      by (rule dl_resultI [OF f g])
        (use at b lb False in \<open>auto simp: DL_REPLACE_ELEM2_def read_ok set_ok assert_ok\<close>)
  next
    case True
    show ?thesis
    proof (cases "as = []")
      case True
      have g: "backs ((prv h)(b \<mapsto> b)) (last (as @ b # bs)) (as @ b # bs)" using True \<open>bs = []\<close> by simp
      show ?thesis
        by (rule dl_resultI [OF f g])
          (use at b True \<open>bs = []\<close> in \<open>auto simp: DL_REPLACE_ELEM2_def read_ok set_ok assert_ok\<close>)
    next
      case False
      have "backs ((prv h)(hd as \<mapsto> last as)) (last as) as"
        using at(14) b(9) False by (intro backs_requeue [of _ e]) (simp_all add: \<open>bs = []\<close>)
      then have "backs (((prv h)(hd as \<mapsto> last as))(b \<mapsto> last as, hd as \<mapsto> b)) b (as @ [b])"
        using b(6,9) False by (intro backs_snoc) simp_all
      then have "backs ((prv h)(b \<mapsto> last as, head \<mapsto> b)) b (as @ [b])"
        using dl_head(2) [OF assms(1)] b(5) False by (simp add: fun_upd_twist)
      then have g: "backs ((prv h)(b \<mapsto> last as, head \<mapsto> b)) (last (as @ b # bs)) (as @ b # bs)" using \<open>bs = []\<close> by simp
      show ?thesis
        by (rule dl_resultI [OF f g])
          (use at b lb False \<open>bs = []\<close> in \<open>auto simp: DL_REPLACE_ELEM2_def read_ok set_ok assert_ok\<close>)
    qed
  qed
qed

lemma DL_DELETE2_ok:
  assumes "dl_rep (head, h) (as @ e # bs)"
  shows "op_result dl_rep h (Some (DL_DELETE2 e (head, h))) (as @ bs)"
proof -
  note at = dl_at [OF assms]
  have n: "nchain (if as = [] then nxt h else (nxt h)(last as \<mapsto> first_of bs)) (if as = [] then first_of bs else head) (as @ bs)"
    by (rule chain_unlink [OF at(1)]) simp
  show ?thesis
  proof (cases "as = []")
    case True
    show ?thesis
    proof (cases "bs = []")
      case True
      with \<open>as = []\<close> at show ?thesis
        by (auto simp: DL_DELETE2_def read_ok assert_ok op_result_def dl_rep_def same_cells_def)
    next
      case False
      have e: "last bs \<noteq> e" "last bs \<noteq> NULL"
        using at(2) False dl_head(4) [OF assms] last_in_set [OF False] by auto
      have "backs ((prv h)(hd bs \<mapsto> last bs)) (last bs) bs"
        using at(2,14) \<open>as = []\<close> False by (intro backs_requeue [of _ e]) simp_all
      with True n False at e show ?thesis
        by (auto simp: DL_DELETE2_def read_ok set_ok assert_ok op_result_def dl_rep_def same_cells_def)
    qed
  next
    case as: False
    show ?thesis
    proof (cases "bs = []")
      case True
      have f: "nchain ((nxt h)(last as \<mapsto> NULL)) head (as @ bs)" using n as True by simp
      have "backs ((prv h)(hd as \<mapsto> last as)) (last as) as"
        using at(2,14) True as by (intro backs_requeue [of _ e]) simp_all
      then have g: "backs ((prv h)(head \<mapsto> last as)) (last (as @ bs)) (as @ bs)"
        using True as dl_head(2) [OF assms] by simp
      show ?thesis
        by (rule dl_resultI [OF f g]) (use at as True in \<open>auto simp: DL_DELETE2_def read_ok set_ok assert_ok\<close>)
    next
      case False
      have f: "nchain ((nxt h)(last as \<mapsto> hd bs)) head (as @ bs)" using n as False by simp
      have g: "backs ((prv h)(hd bs \<mapsto> last as)) (last (as @ bs)) (as @ bs)"
        using backs_unlink [OF at(14,2)] as False by simp
      show ?thesis
        by (rule dl_resultI [OF f g])
          (use at(3-8) at(9-11) [OF as] at(12,13) [OF False] as False in \<open>auto simp: DL_DELETE2_def read_ok set_ok assert_ok\<close>)
    qed
  qed
qed

lemma DL_CONCAT2_ok:
  assumes "dl_rep (head, h) es" "dl_rep (head2, h) es2" "set es \<inter> set es2 = {}"
  shows "op_result dl_rep h (Some (DL_CONCAT2 head2 (head, h))) (es @ es2)"
proof (cases "es = [] \<or> es2 = []")
  case True
  with assms show ?thesis
    by (cases es; cases es2) (auto simp: DL_CONCAT2_def op_result_def dl_rep_def same_cells_def)
next
  case False
  then have ne: "es \<noteq> []" "es2 \<noteq> []" by simp_all
  note 1 = dl_head [OF assms(1) ne(1)] and 2 = dl_head [OF assms(2) ne(2)]
  have c: "nchain (nxt h) head es" "nchain (nxt h) head2 es2" "backs (prv h) (last es) es" "backs (prv h) (last es2) es2"
    using assms(1,2) by (simp_all add: dl_rep_def)
  note d = nchain_distinct [OF c(1)] nchain_distinct [OF c(2)]
  have m: "hd es \<in> set es" "last es \<in> set es" "hd es2 \<in> set es2" using ne by simp_all
  have ch: "chain (nxt h) head es NULL" by (rule c(1))
  obtain us u where es: "es = us @ [u]" using ne(1) by (cases es rule: rev_cases) auto
  have u: "u \<notin> set us" "u \<notin> set es2" using d(1) assms(3) es by auto
  then have f: "nchain ((nxt h)(last es \<mapsto> head2)) head (es @ es2)" using c(1,2) es by auto
  have x: "hd es \<notin> set es2" "hd es2 \<notin> set es" "hd es \<noteq> hd es2" using m assms(3) by auto
  let ?g = "(prv h)(hd es2 \<mapsto> last es, hd es \<mapsto> last es2)"
  have "backs ((prv h)(hd es2 \<mapsto> last es)) (last es) es2" by (rule backs_requeue [OF c(4) d(2) ne(2)])
  then have "backs ?g (last es) es2" using x(1) by simp
  moreover have "backs ((prv h)(hd es \<mapsto> last es2)) (last es2) es" by (rule backs_requeue [OF c(3) d(1) ne(1)])
  then have "backs ?g (last es2) es" unfolding fun_upd_twist [OF x(3) [symmetric]] using x(2) by simp
  ultimately have "backs ?g (last es2) (es @ es2)" using ne by simp
  then have g: "backs ((prv h)(head2 \<mapsto> last es, head \<mapsto> last es2)) (last (es @ es2)) (es @ es2)" using ne 1(2) 2(2) by simp
  show ?thesis
    by (rule dl_resultI [OF f g]) (use 1 2 x(3) in \<open>auto simp: DL_CONCAT2_def read_ok set_ok\<close>)
qed

interpretation dl: deleting_list dl_rep "\<lambda>e st. Some (DL_DELETE2 e st)"
  by unfold_locales (simp add: dl_rep_def, rule DL_DELETE2_ok)

end
