(* ===== verification/Utlist_Circular.thy ===== *)
theory Utlist_Circular
  imports Utlist_Double
begin

text \<open>
  The circular doubly linked lists of \<^verbatim>\<open>utlist.h\<close>: \<open>next\<close> of the last element is the head and \<open>prev\<close> of the head is the
  last element.
\<close>

text \<open>The two branches of appending and prepending differ in the head only.\<close>

definition CDL_APPEND2 :: "ptr \<Rightarrow> ul_list \<Rightarrow> ul_list res" where
  "CDL_APPEND2 add = (\<lambda>(head, h).
     if head \<noteq> NULL then
       bind_res (read_prev h head) (\<lambda>q. bind_res (set_prev h add q) (\<lambda>h.
       bind_res (set_next h add head) (\<lambda>h. bind_res (set_prev h head add) (\<lambda>h.
       bind_res (read_prev h add) (\<lambda>q. bind_res (set_next h q add) (\<lambda>h. Inr (head, h)))))))
     else bind_res (set_prev h add add) (\<lambda>h. bind_res (set_next h add add) (\<lambda>h. Inr (add, h))))"

definition CDL_PREPEND2 :: "ptr \<Rightarrow> ul_list \<Rightarrow> ul_list res" where
  "CDL_PREPEND2 add = (\<lambda>(head, h).
     bind_res (if head \<noteq> NULL then
                 bind_res (read_prev h head) (\<lambda>q. bind_res (set_prev h add q) (\<lambda>h.
                 bind_res (set_next h add head) (\<lambda>h. bind_res (set_prev h head add) (\<lambda>h.
                 bind_res (read_prev h add) (\<lambda>q. set_next h q add)))))
               else bind_res (set_prev h add add) (\<lambda>h. set_next h add add)) (\<lambda>h. Inr (add, h)))"

definition CDL_LOWER_BOUND2 :: "(ptr \<Rightarrow> ptr \<Rightarrow> int) \<Rightarrow> ptr \<Rightarrow> ul_list \<Rightarrow> ptr run" where
  "CDL_LOWER_BOUND2 cmp like = (\<lambda>(head, h).
     if head = NULL \<or> cmp head like \<ge> 0 then Some (Inr NULL) else walk h head (\<lambda>q. \<not> cmp q like \<ge> 0) head)"

definition CDL_APPEND_ELEM2 :: "ptr \<Rightarrow> ptr \<Rightarrow> ul_list \<Rightarrow> ul_list res" where
  "CDL_APPEND_ELEM2 el add = (\<lambda>(head, h).
     if el \<noteq> NULL then
       bind_res (assert_c (head \<noteq> NULL)) (\<lambda>_. bind_res (assert_c (add \<noteq> NULL)) (\<lambda>_.
       bind_res (read_next h el) (\<lambda>q. bind_res (set_next h add q) (\<lambda>h.
       bind_res (set_prev h add el) (\<lambda>h. bind_res (set_next h el add) (\<lambda>h.
       bind_res (read_next h add) (\<lambda>q. bind_res (set_prev h q add) (\<lambda>h. Inr (head, h)))))))))
     else CDL_PREPEND2 add (head, h))"

definition CDL_INSERT_INORDER2 :: "(ptr \<Rightarrow> ptr \<Rightarrow> int) \<Rightarrow> ptr \<Rightarrow> ul_list \<Rightarrow> ul_list run" where
  "CDL_INSERT_INORDER2 cmp add = (\<lambda>(head, h).
     if head \<noteq> NULL then bind_run (CDL_LOWER_BOUND2 cmp add (head, h)) (\<lambda>tmp. Some (CDL_APPEND_ELEM2 tmp add (head, h)))
     else Some (bind_res (set_next h add add) (\<lambda>h. bind_res (set_prev h add add) (\<lambda>h. Inr (add, h)))))"

definition CDL_DELETE2 :: "ptr \<Rightarrow> ul_list \<Rightarrow> ul_list res" where
  "CDL_DELETE2 del = (\<lambda>(head, h).
     bind_res (if head = del then bind_res (read_next h head) (\<lambda>n. Inr (n = head)) else Inr False) (\<lambda>only.
     if only then Inr (NULL, h)
     else
       bind_res (read_next h del) (\<lambda>n. bind_res (read_prev h del) (\<lambda>q. bind_res (set_prev h n q) (\<lambda>h.
       bind_res (read_prev h del) (\<lambda>q. bind_res (read_next h del) (\<lambda>n. bind_res (set_next h q n) (\<lambda>h.
       if del = head then bind_res (read_next h del) (\<lambda>n. Inr (n, h)) else Inr (head, h)))))))))"

definition CDL_REPLACE_ELEM2 :: "ptr \<Rightarrow> ptr \<Rightarrow> ul_list \<Rightarrow> ul_list res" where
  "CDL_REPLACE_ELEM2 el add = (\<lambda>(head, h).
     bind_res (assert_c (head \<noteq> NULL)) (\<lambda>_. bind_res (assert_c (el \<noteq> NULL)) (\<lambda>_. bind_res (assert_c (add \<noteq> NULL)) (\<lambda>_.
     bind_res (read_next h el) (\<lambda>n.
     if n = el then bind_res (set_next h add add) (\<lambda>h. bind_res (set_prev h add add) (\<lambda>h. Inr (add, h)))
     else
       bind_res (set_next h add n) (\<lambda>h. bind_res (read_prev h el) (\<lambda>q. bind_res (set_prev h add q) (\<lambda>h.
       bind_res (read_next h add) (\<lambda>n. bind_res (set_prev h n add) (\<lambda>h.
       bind_res (read_prev h add) (\<lambda>q. bind_res (set_next h q add) (\<lambda>h.
       Inr (if head = el then add else head, h)))))))))))))"

definition CDL_PREPEND_ELEM2 :: "ptr \<Rightarrow> ptr \<Rightarrow> ul_list \<Rightarrow> ul_list res" where
  "CDL_PREPEND_ELEM2 el add = (\<lambda>(head, h).
     if el \<noteq> NULL then
       bind_res (assert_c (head \<noteq> NULL)) (\<lambda>_. bind_res (assert_c (add \<noteq> NULL)) (\<lambda>_.
       bind_res (set_next h add el) (\<lambda>h.
       bind_res (read_prev h el) (\<lambda>q. bind_res (set_prev h add q) (\<lambda>h. bind_res (set_prev h el add) (\<lambda>h.
       bind_res (read_prev h add) (\<lambda>q. bind_res (set_next h q add) (\<lambda>h.
       Inr (if head = el then add else head, h)))))))))
     else CDL_APPEND2 add (head, h))"

text \<open>Iteration; the safe one remembers the last element before it starts.\<close>

partial_function (option) CDL_FOREACH2 :: "ptr \<Rightarrow> ('s \<Rightarrow> ul_heap) \<Rightarrow> (ptr \<Rightarrow> 's \<Rightarrow> 's run) \<Rightarrow> ptr \<Rightarrow> 's \<Rightarrow> 's run" where
  "CDL_FOREACH2 head hp body el s =
     (if el \<noteq> NULL then
        bind_run (body el s) (\<lambda>s'. bind_run (Some (read_next (hp s') el)) (\<lambda>q.
        CDL_FOREACH2 head hp body (if q = head then NULL else q) s'))
      else Some (Inr s))"

definition CDL_COUNT2 :: "ul_list \<Rightarrow> nat run" where
  "CDL_COUNT2 = (\<lambda>(head, h).
     bind_run (CDL_FOREACH2 head fst (\<lambda>_ (h, counter). Some (Inr (h, counter + 1))) head (h, 0)) (\<lambda>(h, counter). Some (Inr counter)))"

partial_function (option) CDL_SEARCH2 :: "ptr \<Rightarrow> ul_heap \<Rightarrow> (ptr \<Rightarrow> bool) \<Rightarrow> ptr \<Rightarrow> ptr run" where
  "CDL_SEARCH2 head h found out =
     (if out \<noteq> NULL then
        if found out then Some (Inr out)
        else bind_run (Some (read_next h out)) (\<lambda>q. CDL_SEARCH2 head h found (if q = head then NULL else q))
      else Some (Inr NULL))"

text \<open>
  The safe loop reads the last element before it starts and the next one before each body; \<open>hp\<close> gives the heap of
  the state that the body works on.
\<close>

partial_function (option) cdl_safe_loop :: "('s \<Rightarrow> ul_heap) \<Rightarrow> ptr \<Rightarrow> (ptr \<Rightarrow> 's \<Rightarrow> 's run) \<Rightarrow> ptr \<Rightarrow> 's \<Rightarrow> 's run" where
  "cdl_safe_loop hp tmp1 body el s =
     (if el \<noteq> NULL then
        bind_run (Some (read_next (hp s) el)) (\<lambda>tmp2. bind_run (body el s) (\<lambda>s'.
        cdl_safe_loop hp tmp1 body (if el = tmp1 then NULL else tmp2) s'))
      else Some (Inr s))"

definition CDL_FOREACH_SAFE2 :: "('s \<Rightarrow> ul_heap) \<Rightarrow> (ptr \<Rightarrow> 's \<Rightarrow> 's run) \<Rightarrow> ptr \<Rightarrow> 's \<Rightarrow> 's run" where
  "CDL_FOREACH_SAFE2 hp body head s =
     bind_run (Some (if head \<noteq> NULL then read_prev (hp s) head else Inr NULL)) (\<lambda>tmp1. cdl_safe_loop hp tmp1 body head s)"

section \<open>What a circular list holds\<close>

definition cdl_rep :: "ul_list \<Rightarrow> ptr list \<Rightarrow> bool" where
  "cdl_rep = (\<lambda>(head, h) es.
     if es = [] then head = NULL else distinct es \<and> chain (nxt h) head es head \<and> backs (prv h) (last es) es)"

lemma cdl_resultI:
  assumes "chain f' head' es' head'" "backs g' (last es') es'" "distinct es'" "es' \<noteq> []"
    and "r = Some (Inr (head', h\<lparr>nxt := f', prv := g'\<rparr>))" "dom f' = dom (nxt h)" "dom g' = dom (prv h)"
  shows "op_result cdl_rep h r es'"
  using assms by (auto simp: op_result_def cdl_rep_def same_cells_def)

lemma chain_end: "chain f p as q \<Longrightarrow> as \<noteq> [] \<Longrightarrow> distinct as \<Longrightarrow> chain (f(last as \<mapsto> r)) p as r"
  by (cases as rule: rev_cases) auto

lemma cdl_at:
  assumes "cdl_rep (head, h) (as @ e # bs)"
  shows "chain (nxt h) head (as @ e # bs) head" "distinct (as @ e # bs)" "e \<noteq> NULL" "head = hd (as @ e # bs)"
    and "nxt h e = Some (if bs = [] then head else hd bs)" "prv h e = Some (if as = [] then last (e # bs) else last as)"
    and "head \<noteq> NULL" "prv h head = Some (last (e # bs))" "head = e \<longleftrightarrow> as = []"
    and "as \<noteq> [] \<Longrightarrow> last as \<noteq> NULL" "as \<noteq> [] \<Longrightarrow> nxt h (last as) = Some e" "as \<noteq> [] \<Longrightarrow> last as \<noteq> e"
    and "bs \<noteq> [] \<Longrightarrow> hd bs \<noteq> NULL" "bs \<noteq> [] \<Longrightarrow> prv h (hd bs) = Some e" "bs \<noteq> [] \<Longrightarrow> hd bs \<noteq> e"
    and "backs (prv h) (last (e # bs)) (as @ e # bs)" "last (e # bs) \<noteq> NULL" "nxt h (last (e # bs)) = Some head"
    and "bs \<noteq> [] \<Longrightarrow> hd bs \<noteq> head" "as @ bs = [] \<longleftrightarrow> nxt h e = Some e"
proof -
  have c: "chain (nxt h) head (as @ e # bs) head" and b: "backs (prv h) (last (e # bs)) (as @ e # bs)"
    and d: "distinct (as @ e # bs)" using assms by (simp_all add: cdl_rep_def)
  have n: "NULL \<notin> set (as @ e # bs)" using c by (rule chain_NULL_notin)
  have ne: "as @ e # bs \<noteq> []" by simp
  show "chain (nxt h) head (as @ e # bs) head" "distinct (as @ e # bs)" "backs (prv h) (last (e # bs)) (as @ e # bs)" by fact+
  show "e \<noteq> NULL" using n by auto
  show hd: "head = hd (as @ e # bs)" using chain_first [OF c ne] by simp
  obtain r where r: "nxt h e = Some r" "chain (nxt h) r bs head" using c by auto
  show f: "nxt h e = Some (if bs = [] then head else hd bs)" using r chain_hd [OF r(2)] by simp
  show "prv h e = Some (if as = [] then last (e # bs) else last as)" using backs_field [OF b] by (simp split: if_splits)
  show "head \<noteq> NULL" using chain_first [OF c ne] by simp
  show "prv h head = Some (last (e # bs))" using b hd by (cases as) (auto split: if_splits)
  show he: "head = e \<longleftrightarrow> as = []" using hd d by (cases as) auto
  show "last as \<noteq> NULL" "nxt h (last as) = Some e" if "as \<noteq> []" using chain_last [OF _ that, of "nxt h" head e] c by auto
  show "last as \<noteq> e" if "as \<noteq> []" using last_in_set [OF that] d by auto
  show "hd bs \<noteq> NULL" "prv h (hd bs) = Some e" "hd bs \<noteq> e" if "bs \<noteq> []" using n b d that by (cases bs; auto)+
  show "last (e # bs) \<noteq> NULL" "nxt h (last (e # bs)) = Some head" using chain_last [OF c ne] by simp_all
  show hb: "hd bs \<noteq> head" if "bs \<noteq> []" using hd d that by (cases bs; cases as) auto
  show "as @ bs = [] \<longleftrightarrow> nxt h e = Some e"
  proof (cases "bs = []")
    case True
    with f he show ?thesis by simp
  next
    case False
    with f d show ?thesis by (cases bs) auto
  qed
qed

lemma cdl_nonempty:
  assumes "cdl_rep (head, h) es" "es \<noteq> []"
  shows "chain (nxt h) head es head" "distinct es" "backs (prv h) (last es) es" "head \<noteq> NULL" "head = hd es" "head \<in> set es"
    and "prv h head = Some (last es)" "last es \<noteq> NULL" "nxt h (last es) = Some head"
proof -
  obtain e bs where es: "es = e # bs" using assms(2) by (cases es) auto
  with assms(1) have r: "cdl_rep (head, h) ([] @ e # bs)" by simp
  note at = cdl_at [OF r]
  show "chain (nxt h) head es head" "distinct es" "backs (prv h) (last es) es" using assms by (simp_all add: cdl_rep_def)
  show "head \<noteq> NULL" "head = hd es" "head \<in> set es" "prv h head = Some (last es)" "last es \<noteq> NULL" "nxt h (last es) = Some head"
    using at(4,7,8,17,18) es by simp_all
qed

text \<open>An element between the last and the first: it is the last or the first, depending on where the head points.\<close>

lemma ring_link:
  assumes "chain f p es p" "es \<noteq> []" "distinct es" "b \<notin> set es" "b \<noteq> NULL"
  shows "chain (f(b \<mapsto> p, last es \<mapsto> b)) b (b # es) b" "chain (f(b \<mapsto> p, last es \<mapsto> b)) p (es @ [b]) p"
proof -
  have l: "last es \<noteq> b" using assms(2,4) last_in_set by metis
  have "chain (f(b \<mapsto> p)) p es p" using assms(1,4) by simp
  then have "chain (f(b \<mapsto> p, last es \<mapsto> b)) p es b" using assms(2,3) by (rule chain_end)
  with l assms(5) show "chain (f(b \<mapsto> p, last es \<mapsto> b)) b (b # es) b" "chain (f(b \<mapsto> p, last es \<mapsto> b)) p (es @ [b]) p" by auto
qed

lemma ring_back:
  assumes "backs g (last es) es" "es \<noteq> []" "distinct es" "b \<notin> set es"
  shows "backs (g(b \<mapsto> last es, hd es \<mapsto> b)) (last es) (b # es)" "backs (g(b \<mapsto> last es, hd es \<mapsto> b)) b (es @ [b])"
proof -
  have x: "hd es \<noteq> b" using assms(2,4) by auto
  have "backs (g(hd es \<mapsto> b)) b es" by (rule backs_requeue [OF assms(1,3,2)])
  then have "backs (g(hd es \<mapsto> b, b \<mapsto> last es)) b es" using assms(4) by simp
  then have "backs (g(b \<mapsto> last es, hd es \<mapsto> b)) b es" by (simp only: fun_upd_twist [OF x])
  with x assms(2) show "backs (g(b \<mapsto> last es, hd es \<mapsto> b)) (last es) (b # es)" "backs (g(b \<mapsto> last es, hd es \<mapsto> b)) b (es @ [b])"
    by simp_all
qed

lemma CDL_PREPEND2_ok:
  assumes "cdl_rep (head, h) es" "cell h b" "b \<notin> set es"
  shows "op_result cdl_rep h (Some (CDL_PREPEND2 b (head, h))) (b # es)"
    and "op_result cdl_rep h (Some (CDL_APPEND2 b (head, h))) (es @ [b])"
proof -
  have "op_result cdl_rep h (Some (CDL_PREPEND2 b (head, h))) (b # es) \<and> op_result cdl_rep h (Some (CDL_APPEND2 b (head, h))) (es @ [b])"
  proof (cases "es = []")
    case True
    with assms show ?thesis
      by (auto simp: CDL_PREPEND2_def CDL_APPEND2_def op_result_def same_cells_def cdl_rep_def cell_def set_ok)
  next
    case False
    note hd = cdl_nonempty [OF assms(1) False]
    have b: "head \<noteq> b" "last es \<noteq> b" "b \<noteq> NULL" using hd(6) last_in_set [OF False] assms(2,3) by (auto simp: cell_def)
    note f = ring_link [OF hd(1) False hd(2) assms(3) b(3)] and g = ring_back [OF hd(3) False hd(2) assms(3)]
    have "op_result cdl_rep h (Some (CDL_PREPEND2 b (head, h))) (b # es)"
      by (rule cdl_resultI [OF f(1), of "(prv h)(b \<mapsto> last es, hd es \<mapsto> b)"])
        (use g(1) hd b assms(2,3) False in \<open>auto simp: CDL_PREPEND2_def cell_def read_ok set_ok\<close>)
    moreover have "op_result cdl_rep h (Some (CDL_APPEND2 b (head, h))) (es @ [b])"
      by (rule cdl_resultI [OF f(2), of "(prv h)(b \<mapsto> last es, hd es \<mapsto> b)"])
        (use g(2) hd b assms(2,3) False in \<open>auto simp: CDL_APPEND2_def cell_def read_ok set_ok\<close>)
    ultimately show ?thesis ..
  qed
  then show "op_result cdl_rep h (Some (CDL_PREPEND2 b (head, h))) (b # es)"
    "op_result cdl_rep h (Some (CDL_APPEND2 b (head, h))) (es @ [b])" by blast+
qed

lemma CDL_APPEND_ELEM2_ok:
  assumes "cdl_rep (head, h) (as @ e # bs)" "cell h b" "b \<notin> set (as @ e # bs)"
  shows "op_result cdl_rep h (Some (CDL_APPEND_ELEM2 e b (head, h))) (as @ e # b # bs)"
proof -
  note at = cdl_at [OF assms(1)]
  have b: "b \<noteq> NULL" "nxt h b \<noteq> None" "prv h b \<noteq> None" "e \<noteq> b" "head \<noteq> b" "bs \<noteq> [] \<Longrightarrow> hd bs \<noteq> b"
    using assms(2,3) cdl_nonempty(6) [OF assms(1)] by (auto simp: cell_def)
  show ?thesis
  proof (cases "bs = []")
    case True
    have c: "chain (nxt h) head (as @ [e]) head" "backs (prv h) (last (as @ [e])) (as @ [e])" "distinct (as @ [e])" "b \<notin> set (as @ [e])"
      using at(1,2,16) assms(3) True by simp_all
    have f: "chain ((nxt h)(b \<mapsto> head, e \<mapsto> b)) head (as @ e # b # bs) head"
      using ring_link(2) [OF c(1) _ c(3,4) b(1)] True by simp
    have g: "backs ((prv h)(b \<mapsto> e, head \<mapsto> b)) (last (as @ e # b # bs)) (as @ e # b # bs)"
      using ring_back(2) [OF c(2) _ c(3,4)] at(4) True by simp
    show ?thesis
      by (rule cdl_resultI [OF f g])
        (use at(2,3,5,7,8) b(1-5) True assms(3) in \<open>auto simp: CDL_APPEND_ELEM2_def read_ok set_ok assert_ok\<close>)
  next
    case False
    have "chain ((nxt h)(e \<mapsto> b, b \<mapsto> hd bs)) head ((as @ [e]) @ b # bs) head"
      using chain_link [of "nxt h" head "as @ [e]" bs head b "hd bs"] at(1,2) assms(3) b(1) False by simp
    then have f: "chain ((nxt h)(b \<mapsto> hd bs, e \<mapsto> b)) head (as @ e # b # bs) head"
      using b(4) by (simp add: fun_upd_twist [of e b])
    have "backs ((prv h)(hd bs \<mapsto> b, b \<mapsto> e)) (last bs) ((as @ [e]) @ b # bs)"
      using backs_link [of "prv h" "last bs" "as @ [e]" bs b] at(2,16) assms(3) False by simp
    then have g: "backs ((prv h)(b \<mapsto> e, hd bs \<mapsto> b)) (last (as @ e # b # bs)) (as @ e # b # bs)"
      using b(6) False by (simp add: fun_upd_twist [of "hd bs" b])
    show ?thesis
      by (rule cdl_resultI [OF f g])
        (use at(2,3,5,7,8) at(13-15) [OF False] b(1-5) b(6) [OF False] False assms(3) in
          \<open>auto simp: CDL_APPEND_ELEM2_def read_ok set_ok assert_ok\<close>)
  qed
qed

lemma CDL_LOWER_BOUND2_ok:
  assumes "cdl_rep (head, h) es"
  shows "CDL_LOWER_BOUND2 cmp like (head, h) = Some (Inr (last (NULL # takeWhile (\<lambda>x. cmp x like < 0) es)))"
proof (cases es)
  case Nil
  with assms show ?thesis by (simp add: CDL_LOWER_BOUND2_def cdl_rep_def)
next
  case (Cons a as)
  then have c: "chain (nxt h) head (head # as) head" "head = a" "head \<noteq> NULL" "head \<notin> set as"
    using cdl_nonempty(1,2,4,5) [OF assms] by auto
  from walk_ok [OF c(1,4), of "\<lambda>x. \<not> cmp x like \<ge> 0"] c Cons show ?thesis
    by (auto simp: CDL_LOWER_BOUND2_def not_le)
qed

lemma CDL_INSERT_INORDER2_ok:
  assumes "cdl_rep (head, h) es" "cell h b" "b \<notin> set es"
  shows "op_result cdl_rep h (CDL_INSERT_INORDER2 cmp b (head, h))
    (takeWhile (\<lambda>x. cmp x b < 0) es @ b # dropWhile (\<lambda>x. cmp x b < 0) es)"
proof (cases "es = []")
  case True
  with assms show ?thesis
    by (auto simp: CDL_INSERT_INORDER2_def op_result_def same_cells_def cdl_rep_def cell_def set_ok)
next
  case False
  let ?as = "takeWhile (\<lambda>x. cmp x b < 0) es" and ?bs = "dropWhile (\<lambda>x. cmp x b < 0) es"
  have step: "CDL_INSERT_INORDER2 cmp b (head, h) = Some (CDL_APPEND_ELEM2 (last (NULL # ?as)) b (head, h))"
    using cdl_nonempty(4) [OF assms(1) False] by (simp add: CDL_INSERT_INORDER2_def CDL_LOWER_BOUND2_ok [OF assms(1)])
  show ?thesis
  proof (cases ?as rule: rev_cases)
    case Nil
    then have d: "?bs = es" by (metis append_Nil takeWhile_dropWhile_id)
    have "CDL_APPEND_ELEM2 NULL b (head, h) = CDL_PREPEND2 b (head, h)" by (simp add: CDL_APPEND_ELEM2_def)
    with CDL_PREPEND2_ok(1) [OF assms] show ?thesis unfolding step Nil d by simp
  next
    case (snoc us u)
    have es: "es = us @ u # ?bs" using snoc by (metis append.assoc append_Cons append_Nil takeWhile_dropWhile_id)
    have "op_result cdl_rep h (Some (CDL_APPEND_ELEM2 u b (head, h))) (us @ u # b # ?bs)"
      using assms es by (intro CDL_APPEND_ELEM2_ok) simp_all
    then show ?thesis unfolding step snoc by simp
  qed
qed

lemma CDL_PREPEND_ELEM2_ok:
  assumes "cdl_rep (head, h) (as @ e # bs)" "cell h b" "b \<notin> set (as @ e # bs)"
  shows "op_result cdl_rep h (Some (CDL_PREPEND_ELEM2 e b (head, h))) (as @ b # e # bs)"
proof -
  note at = cdl_at [OF assms(1)]
  have b: "b \<noteq> NULL" "nxt h b \<noteq> None" "prv h b \<noteq> None" "e \<noteq> b"
    "insert b (dom (nxt h)) = dom (nxt h)" "insert b (dom (prv h)) = dom (prv h)"
    using assms(2,3) by (auto simp: cell_def)
  show ?thesis
  proof (cases "as = []")
    case True
    have c: "chain (nxt h) head (e # bs) head" "backs (prv h) (last (e # bs)) (e # bs)" "distinct (e # bs)" "b \<notin> set (e # bs)"
      using at(1,2,16) assms(3) unfolding True append_Nil by - assumption+
    have he: "head = e" using at(9) True by simp
    have l: "last (e # bs) \<noteq> b" using c(4) last_in_set [of "e # bs"] by auto
    have f: "chain ((nxt h)(b \<mapsto> e, last (e # bs) \<mapsto> b)) b (as @ b # e # bs) b"
      using ring_link(1) [OF c(1) _ c(3,4) b(1)] he unfolding True append_Nil by simp
    have g: "backs ((prv h)(b \<mapsto> last (e # bs), e \<mapsto> b)) (last (as @ b # e # bs)) (as @ b # e # bs)"
      using ring_back(1) [OF c(2) _ c(3,4)] unfolding True append_Nil by simp
    show ?thesis
      by (rule cdl_resultI [OF f g])
        (use at(3,6,7,9,17,18) b l c(3,4) True in \<open>simp_all add: CDL_PREPEND_ELEM2_def read_ok set_ok assert_ok insert_absorb domI\<close>)
  next
    case False
    have lb: "last as \<noteq> b" using assms(3) last_in_set [OF False] by auto
    have "chain ((nxt h)(last as \<mapsto> b, b \<mapsto> e)) head (as @ b # e # bs) head"
      using chain_link [of "nxt h" head as "e # bs" head b e] at(1,2) assms(3) b(1) False by auto
    then have f: "chain ((nxt h)(b \<mapsto> e, last as \<mapsto> b)) head (as @ b # e # bs) head"
      using lb by (simp add: fun_upd_twist [of "last as" b])
    have "backs ((prv h)(e \<mapsto> b, b \<mapsto> last as)) (last (e # bs)) (as @ b # e # bs)"
      using backs_link [of "prv h" "last (e # bs)" as "e # bs" b] at(2,16) assms(3) False by simp
    then have g: "backs ((prv h)(b \<mapsto> last as, e \<mapsto> b)) (last (as @ b # e # bs)) (as @ b # e # bs)"
      using b(4) by (simp add: fun_upd_twist [of e b])
    have d: "distinct (as @ b # e # bs)" using at(2) assms(3) by auto
    show ?thesis
      by (rule cdl_resultI [OF f g d])
        (use at(3,6,7,9) at(10-12) [OF False] b lb False in
          \<open>simp_all add: CDL_PREPEND_ELEM2_def read_ok set_ok assert_ok insert_absorb domI\<close>)
  qed
qed

lemma CDL_REPLACE_ELEM2_ok:
  assumes "cdl_rep (head, h) (as @ e # bs)" "cell h b" "b \<notin> set (as @ e # bs)"
  shows "op_result cdl_rep h (Some (CDL_REPLACE_ELEM2 e b (head, h))) (as @ b # bs)"
proof -
  note at = cdl_at [OF assms(1)]
  have b: "b \<noteq> NULL" "nxt h b \<noteq> None" "prv h b \<noteq> None" "e \<noteq> b" "head \<noteq> b" "b \<notin> set (as @ bs)" "distinct (as @ bs)"
    using assms(2,3) cdl_nonempty(6) [OF assms(1)] at(2) by (auto simp: cell_def)
  have d: "distinct (as @ b # bs)" using b(6,7) by simp
  consider (only) "as = []" "bs = []" | (first) "as = []" "bs \<noteq> []" | (final) "as \<noteq> []" "bs = []" | (inside) "as \<noteq> []" "bs \<noteq> []"
    by blast
  then show ?thesis
  proof cases
    case only
    with at(3,5,7,9) b show ?thesis
      by (auto simp: CDL_REPLACE_ELEM2_def read_ok set_ok assert_ok op_result_def cdl_rep_def same_cells_def)
  next
    case first
    have lb: "last bs \<noteq> b" "last bs \<noteq> e" "hd bs \<noteq> b" using assms(3) at(2) last_in_set [OF first(2)] first(2) by auto
    obtain r where r: "nxt h e = Some r" "chain (nxt h) r bs head" using at(1) first(1) by auto
    have "chain ((nxt h)(last bs \<mapsto> b)) r bs b" using at(2) first by (intro chain_end [OF r(2)]) simp_all
    then have f: "chain ((nxt h)(b \<mapsto> hd bs, last bs \<mapsto> b)) b (as @ b # bs) b"
      using b(1,6) lb first at(5) r(1) by (auto simp: fun_upd_twist [of b "last bs"])
    have "backs ((prv h)(hd bs \<mapsto> b)) b bs" using at(2,16) first by (intro backs_requeue [of _ e]) simp_all
    then have g: "backs ((prv h)(b \<mapsto> last bs, hd bs \<mapsto> b)) (last (as @ b # bs)) (as @ b # bs)"
      using b(6) lb first by (simp add: fun_upd_twist [of b "hd bs"])
    show ?thesis
      by (rule cdl_resultI [OF f g d])
        (use at(3,5,6,7,9,17,18) at(13-15) [OF first(2)] b(1-5) lb first in
          \<open>auto simp: CDL_REPLACE_ELEM2_def read_ok set_ok assert_ok\<close>)
  next
    case final
    have lb: "last as \<noteq> b" using assms(3) last_in_set [OF final(1)] by auto
    have c: "chain (nxt h) head as e" using at(1) final by simp
    have "chain ((nxt h)(last as \<mapsto> b)) head as b" using at(2) final by (intro chain_end [OF c]) simp_all
    then have f: "chain ((nxt h)(b \<mapsto> head, last as \<mapsto> b)) head (as @ b # bs) head"
      using b(1,6) lb final by (simp add: fun_upd_twist [of b "last as"])
    have "backs ((prv h)(hd as \<mapsto> last as)) (last as) as" using at(2,16) final by (intro backs_requeue [of _ e]) simp_all
    then have "backs (((prv h)(hd as \<mapsto> last as))(b \<mapsto> last as, hd as \<mapsto> b)) b (as @ [b])"
      using b(6,7) final by (intro ring_back(2)) simp_all
    then have g: "backs ((prv h)(b \<mapsto> last as, head \<mapsto> b)) (last (as @ b # bs)) (as @ b # bs)"
      using at(4) b(5) final by (simp add: fun_upd_twist [of "hd as" b])
    show ?thesis
      by (rule cdl_resultI [OF f g d])
        (use at(3,5,6,7,8,9) at(10-12) [OF final(1)] b(1-5) lb final in
          \<open>auto simp: CDL_REPLACE_ELEM2_def read_ok set_ok assert_ok\<close>)
  next
    case inside
    have lb: "last as \<noteq> b" "hd bs \<noteq> b" using assms(3) last_in_set [OF inside(1)] inside(2) by auto
    have "chain ((nxt h)(last as \<mapsto> b, b \<mapsto> hd bs)) head (as @ b # bs) head"
      using chain_replace [OF at(1,2) b(1,6) at(5)] inside by simp
    then have f: "chain ((nxt h)(b \<mapsto> hd bs, last as \<mapsto> b)) head (as @ b # bs) head"
      using lb by (simp add: fun_upd_twist [of "last as" b])
    have "backs ((prv h)(hd bs \<mapsto> b, b \<mapsto> last as)) (last bs) (as @ b # bs)"
      using backs_replace [of "prv h" "last bs" as e bs b] at(16) b(6,7) inside by simp
    then have g: "backs ((prv h)(b \<mapsto> last as, hd bs \<mapsto> b)) (last (as @ b # bs)) (as @ b # bs)"
      using lb inside by (simp add: fun_upd_twist [of "hd bs" b])
    show ?thesis
      by (rule cdl_resultI [OF f g d])
        (use at(3,5,6,7,9) at(10-12) [OF inside(1)] at(13-15) [OF inside(2)] b(1-5) lb inside in
          \<open>auto simp: CDL_REPLACE_ELEM2_def read_ok set_ok assert_ok\<close>)
  qed
qed

lemma CDL_DELETE2_ok:
  assumes "cdl_rep (head, h) (as @ e # bs)"
  shows "op_result cdl_rep h (Some (CDL_DELETE2 e (head, h))) (as @ bs)"
proof -
  note at = cdl_at [OF assms]
  have d: "distinct (as @ bs)" using at(2) by simp
  consider (only) "as = []" "bs = []" | (first) "as = []" "bs \<noteq> []" | (final) "as \<noteq> []" "bs = []" | (inside) "as \<noteq> []" "bs \<noteq> []"
    by blast
  then show ?thesis
  proof cases
    case only
    with at(3,5,9) show ?thesis
      by (auto simp: CDL_DELETE2_def read_ok op_result_def cdl_rep_def same_cells_def)
  next
    case first
    have lb: "last bs \<noteq> e" "hd bs \<noteq> e" using at(2) last_in_set [OF first(2)] first(2) by auto
    obtain r where r: "nxt h e = Some r" "chain (nxt h) r bs head" using at(1) first(1) by auto
    have "chain ((nxt h)(last bs \<mapsto> hd bs)) r bs (hd bs)" using at(2) first by (intro chain_end [OF r(2)]) simp_all
    then have f: "chain ((nxt h)(last bs \<mapsto> hd bs)) (hd bs) (as @ bs) (hd bs)" using at(5) r(1) first by simp
    have g: "backs ((prv h)(hd bs \<mapsto> last bs)) (last (as @ bs)) (as @ bs)"
      using at(2,16) first by (simp, intro backs_requeue [of _ e]) simp_all
    show ?thesis
      by (rule cdl_resultI [OF f g d])
        (use at(3,5,6,7,9,17,18) at(13-15) [OF first(2)] lb first in
          \<open>simp_all add: CDL_DELETE2_def read_ok set_ok insert_absorb domI\<close>)
  next
    case final
    have c: "chain (nxt h) head as e" using at(1) final by simp
    have f: "chain ((nxt h)(last as \<mapsto> head)) head (as @ bs) head"
      using chain_end [OF c final(1), of head] at(2) final by simp
    have "backs ((prv h)(hd as \<mapsto> last as)) (last as) as" using at(2,16) final by (intro backs_requeue [of _ e]) simp_all
    then have g: "backs ((prv h)(head \<mapsto> last as)) (last (as @ bs)) (as @ bs)" using at(4) final by simp
    show ?thesis
      by (rule cdl_resultI [OF f g d])
        (use at(3,5,6,7,8,9) at(10-12) [OF final(1)] final in
          \<open>simp_all add: CDL_DELETE2_def read_ok set_ok insert_absorb domI\<close>)
  next
    case inside
    obtain r where r: "chain (nxt h) head as e" "nxt h e = Some r" "chain (nxt h) r bs head" using at(1) by auto
    have "last as \<notin> set bs" using at(2) last_in_set [OF inside(1)] by auto
    then have f: "chain ((nxt h)(last as \<mapsto> hd bs)) head (as @ bs) head"
      using chain_end [OF r(1) inside(1), of "hd bs"] at(2,5) r(2,3) inside by auto
    have g: "backs ((prv h)(hd bs \<mapsto> last as)) (last (as @ bs)) (as @ bs)"
      using backs_unlink [OF at(16,2)] inside by simp
    show ?thesis
      by (rule cdl_resultI [OF f g d])
        (use at(3,5,6,7,9) at(10-12) [OF inside(1)] at(13-15) [OF inside(2)] inside in
          \<open>simp_all add: CDL_DELETE2_def read_ok set_ok insert_absorb domI\<close>)
  qed
qed

section \<open>Iteration\<close>

lemma CDL_FOREACH2_count:
  assumes "chain (nxt h) el es head" "es \<noteq> []" "head \<notin> set (tl es)"
  shows "CDL_FOREACH2 head fst (\<lambda>_ (h, counter). Some (Inr (h, counter + 1))) el (h, n) = Some (Inr (h, n + length es))"
  using assms
proof (induction es arbitrary: el n)
  case (Cons e es)
  obtain q where q: "el = e" "e \<noteq> NULL" "nxt h e = Some q" "chain (nxt h) q es head" using Cons.prems(1) by auto
  show ?case
  proof (cases "es = []")
    case True
    with q show ?thesis
      by (subst CDL_FOREACH2.simps, simp add: read_ok) (subst CDL_FOREACH2.simps, simp)
  next
    case False
    then have "q \<noteq> head" "head \<notin> set (tl es)" using q(4) Cons.prems(3) by (cases es; auto)+
    with Cons.IH [OF q(4) False, of "n + 1"] q show ?thesis by (subst CDL_FOREACH2.simps) (simp add: read_ok)
  qed
qed simp

lemma CDL_COUNT2_ok:
  assumes "cdl_rep (head, h) es" shows "CDL_COUNT2 (head, h) = Some (Inr (length es))"
proof (cases es)
  case Nil
  with assms show ?thesis by (simp add: CDL_COUNT2_def cdl_rep_def) (subst CDL_FOREACH2.simps, simp)
next
  case (Cons e bs)
  then have ne: "es \<noteq> []" by simp
  have "head \<notin> set (tl es)" using cdl_nonempty(2,5) [OF assms ne] Cons by simp
  from CDL_FOREACH2_count [OF cdl_nonempty(1) [OF assms ne] ne this, of 0] show ?thesis
    unfolding CDL_COUNT2_def prod.case by simp
qed

lemma CDL_SEARCH2_from:
  assumes "chain (nxt h) out es head" "es \<noteq> []" "head \<notin> set (tl es)"
  shows "CDL_SEARCH2 head h found out = Some (Inr (case find found es of Some e \<Rightarrow> e | None \<Rightarrow> NULL))"
  using assms
proof (induction es arbitrary: out)
  case (Cons e es)
  obtain q where q: "out = e" "e \<noteq> NULL" "nxt h e = Some q" "chain (nxt h) q es head" using Cons.prems(1) by auto
  show ?case
  proof (cases "es = []")
    case True
    with q show ?thesis
      by (subst CDL_SEARCH2.simps, simp add: read_ok) (subst CDL_SEARCH2.simps, simp)
  next
    case False
    then have "q \<noteq> head" "head \<notin> set (tl es)" using q(4) Cons.prems(3) by (cases es; auto)+
    with Cons.IH [OF q(4) False] q show ?thesis by (subst CDL_SEARCH2.simps) (simp add: read_ok)
  qed
qed simp

lemma CDL_SEARCH2_ok:
  assumes "cdl_rep (head, h) es"
  shows "CDL_SEARCH2 head h found head = Some (Inr (case find found es of Some e \<Rightarrow> e | None \<Rightarrow> NULL))"
proof (cases es)
  case Nil
  with assms show ?thesis by (subst CDL_SEARCH2.simps) (simp add: cdl_rep_def)
next
  case (Cons e bs)
  then have ne: "es \<noteq> []" by simp
  have "head \<notin> set (tl es)" using cdl_nonempty(2,5) [OF assms ne] Cons by simp
  from CDL_SEARCH2_from [OF cdl_nonempty(1) [OF assms ne] ne this] show ?thesis .
qed

text \<open>A body that notes each visit and deletes the elements with a property; its state is what it has seen and the list.\<close>

definition cdl_visit :: "(ptr \<Rightarrow> bool) \<Rightarrow> ptr \<Rightarrow> ptr list \<times> ul_list \<Rightarrow> (ptr list \<times> ul_list) run" where
  "cdl_visit P e = (\<lambda>(seen, st).
     bind_run (if P e then Some (CDL_DELETE2 e st) else Some (Inr st)) (\<lambda>st'. Some (Inr (seen @ [e], st'))))"

lemma cdl_visit_ok:
  assumes "cdl_rep (head, h) (as @ e # bs)"
  shows "\<exists>head' h'. cdl_visit P e (seen, head, h) = Some (Inr (seen @ [e], head', h'))
    \<and> cdl_rep (head', h') (as @ (if P e then [] else [e]) @ bs)"
  using CDL_DELETE2_ok [OF assms] assms by (auto simp: cdl_visit_def op_result_def)

lemma cdl_sweep_from:
  assumes "cdl_rep (head, h) (as @ es)" "es \<noteq> []"
  shows "\<exists>head' h'. cdl_safe_loop (\<lambda>s. snd (snd s)) (last es) (cdl_visit P) (hd es) (seen, head, h) = Some (Inr (seen @ es, head', h'))
    \<and> cdl_rep (head', h') (as @ filter (\<lambda>e. \<not> P e) es)"
  using assms
proof (induction es arbitrary: as head h seen)
  case (Cons e es)
  note at = cdl_at [OF Cons.prems(1)]
  let ?q = "if es = [] then head else hd es"
  have q: "read_next h e = Inr ?q" using at(3,5) by (simp add: read_ok)
  have l: "e = last (e # es) \<longleftrightarrow> es = []" using at(2) last_in_set [of es] by auto
  have stop: "cdl_safe_loop hp t body NULL s = Some (Inr s)" for hp t body s by (subst cdl_safe_loop.simps) simp
  have step: "cdl_safe_loop (\<lambda>s. snd (snd s)) (last (e # es)) (cdl_visit P) e (seen, head, h) =
      bind_run (cdl_visit P e (seen, head, h)) (\<lambda>s'.
        if es = [] then Some (Inr s') else cdl_safe_loop (\<lambda>s. snd (snd s)) (last es) (cdl_visit P) (hd es) s')"
    using q l at(3) by (subst cdl_safe_loop.simps) (auto simp: stop intro!: bind_run_cong_fun)
  obtain head1 h1 where v: "cdl_visit P e (seen, head, h) = Some (Inr (seen @ [e], head1, h1))"
    "cdl_rep (head1, h1) ((as @ (if P e then [] else [e])) @ es)" using cdl_visit_ok [OF Cons.prems(1)] by fastforce
  show ?case
  proof (cases "es = []")
    case True
    with v show ?thesis unfolding list.sel step by auto
  next
    case False
    from Cons.IH [OF v(2) False, of "seen @ [e]"] v(1) False show ?thesis unfolding list.sel step by auto
  qed
qed simp

lemma cdl_sweep:
  assumes "cdl_rep (head, h) es"
  shows "\<exists>head' h'. CDL_FOREACH_SAFE2 (\<lambda>s. snd (snd s)) (cdl_visit P) head (seen, head, h) = Some (Inr (seen @ es, head', h'))
    \<and> cdl_rep (head', h') (filter (\<lambda>e. \<not> P e) es)"
proof (cases "es = []")
  case True
  with assms show ?thesis by (simp add: CDL_FOREACH_SAFE2_def cdl_rep_def cdl_safe_loop.simps)
next
  case False
  note ne = cdl_nonempty [OF assms False]
  have "CDL_FOREACH_SAFE2 (\<lambda>s. snd (snd s)) (cdl_visit P) head (seen, head, h)
      = cdl_safe_loop (\<lambda>s. snd (snd s)) (last es) (cdl_visit P) (hd es) (seen, head, h)"
    using ne(4,7) by (simp add: CDL_FOREACH_SAFE2_def read_ok ne(5) [symmetric])
  with cdl_sweep_from [of head h "[]" es P seen] assms False show ?thesis by simp
qed

end
