(* ===== verification/Utlist_Sort.thy ===== *)
theory Utlist_Sort
  imports Utlist_Circular Merge_Runs
begin

text \<open>
  The merge sorts of \<^verbatim>\<open>utlist.h\<close>. The three macros are one algorithm: in a circular list the walk along a run ends at the
  old head instead of null, only doubly linked lists have \<open>prev\<close> to write, and the list that a pass built is closed in
  three ways. Their counters are of type \<open>int\<close>: what leaves its range is undefined.
\<close>

definition int_range :: "int \<Rightarrow> int res" where
  "int_range x = (if - (2 ^ 31) \<le> x \<and> x < 2 ^ 31 then Inr x else Inl NotRepresentable)"

section \<open>The code\<close>

text \<open>The next element of a run: null after the last element, whose \<open>next\<close> is \<open>old\<close>.\<close>

definition ls_next :: "ul_heap \<Rightarrow> ptr \<Rightarrow> ptr \<Rightarrow> ptr res" where
  "ls_next h old p = bind_res (read_next h p) (\<lambda>q. Inr (if q = old then NULL else q))"

partial_function (option) ls_split :: "ul_heap \<Rightarrow> ptr \<Rightarrow> int \<Rightarrow> int \<Rightarrow> int \<Rightarrow> ptr \<Rightarrow> (int \<times> ptr) run" where
  "ls_split h old insize i psize q =
     (if i < insize then
        bind_run (Some (ls_next h old q)) (\<lambda>q'.
          if q' = NULL then Some (Inr (psize + 1, q')) else ls_split h old insize (i + 1) (psize + 1) q')
      else Some (Inr (psize, q)))"

definition ls_take_p :: "ul_heap \<Rightarrow> ptr \<Rightarrow> ptr \<Rightarrow> int \<Rightarrow> ptr \<Rightarrow> int \<Rightarrow> (ptr \<times> ptr \<times> int \<times> ptr \<times> int) res" where
  "ls_take_p h old p psize q qsize = bind_res (ls_next h old p) (\<lambda>p'. Inr (p, p', psize - 1, q, qsize))"

definition ls_take_q :: "ul_heap \<Rightarrow> ptr \<Rightarrow> ptr \<Rightarrow> int \<Rightarrow> ptr \<Rightarrow> int \<Rightarrow> (ptr \<times> ptr \<times> int \<times> ptr \<times> int) res" where
  "ls_take_q h old p psize q qsize = bind_res (ls_next h old q) (\<lambda>q'. Inr (q, p, psize, q', qsize - 1))"

definition ls_pick ::
    "(ptr \<Rightarrow> ptr \<Rightarrow> int) \<Rightarrow> ul_heap \<Rightarrow> ptr \<Rightarrow> ptr \<Rightarrow> int \<Rightarrow> ptr \<Rightarrow> int \<Rightarrow> (ptr \<times> ptr \<times> int \<times> ptr \<times> int) res" where
  "ls_pick cmp h old p psize q qsize =
     (if psize = 0 then ls_take_q h old p psize q qsize
      else if qsize = 0 \<or> q = NULL then ls_take_p h old p psize q qsize
      else if cmp p q \<le> 0 then ls_take_p h old p psize q qsize
      else ls_take_q h old p psize q qsize)"

definition ls_link :: "bool \<Rightarrow> ul_heap \<Rightarrow> ptr \<Rightarrow> ptr \<Rightarrow> ptr \<Rightarrow> (ptr \<times> ul_heap) res" where
  "ls_link dbl h lst tail e =
     bind_res (if tail \<noteq> NULL then bind_res (set_next h tail e) (\<lambda>h. Inr (lst, h)) else Inr (e, h)) (\<lambda>(lst, h).
     bind_res (if dbl then set_prev h e tail else Inr h) (\<lambda>h. Inr (lst, h)))"

partial_function (option) ls_merge ::
    "bool \<Rightarrow> (ptr \<Rightarrow> ptr \<Rightarrow> int) \<Rightarrow> ptr \<Rightarrow> ptr \<Rightarrow> int \<Rightarrow> ptr \<Rightarrow> int \<Rightarrow> ptr \<Rightarrow> ptr \<Rightarrow> ul_heap \<Rightarrow> (ptr \<times> ptr \<times> ptr \<times> ul_heap) run" where
  "ls_merge dbl cmp old p psize q qsize lst tail h =
     (if psize > 0 \<or> (qsize > 0 \<and> q \<noteq> NULL) then
        bind_run (Some (ls_pick cmp h old p psize q qsize)) (\<lambda>(e, p', psize', q', qsize').
        bind_run (Some (ls_link dbl h lst tail e)) (\<lambda>(lst', h').
        ls_merge dbl cmp old p' psize' q' qsize' lst' e h'))
      else Some (Inr (q, lst, tail, h)))"

partial_function (option) ls_pass ::
    "bool \<Rightarrow> (ptr \<Rightarrow> ptr \<Rightarrow> int) \<Rightarrow> ptr \<Rightarrow> int \<Rightarrow> ptr \<Rightarrow> ptr \<Rightarrow> ptr \<Rightarrow> int \<Rightarrow> ul_heap \<Rightarrow> (ptr \<times> ptr \<times> int \<times> ul_heap) run" where
  "ls_pass dbl cmp old insize p lst tail nmerges h =
     (if p = NULL then Some (Inr (lst, tail, nmerges, h))
      else
        bind_run (Some (int_range (nmerges + 1))) (\<lambda>nmerges'.
        bind_run (ls_split h old insize 0 0 p) (\<lambda>(psize, q).
        bind_run (ls_merge dbl cmp old p psize q insize lst tail h) (\<lambda>(p', lst', tail', h').
        ls_pass dbl cmp old insize p' lst' tail' nmerges' h'))))"

text \<open>\<open>close\<close> is what is done to the list and its tail after a pass.\<close>

partial_function (option) ls_loop ::
    "bool \<Rightarrow> bool \<Rightarrow> (ptr \<Rightarrow> ptr \<Rightarrow> ul_heap \<Rightarrow> ul_heap res) \<Rightarrow> (ptr \<Rightarrow> ptr \<Rightarrow> int) \<Rightarrow> int \<Rightarrow> ptr \<Rightarrow> ul_heap \<Rightarrow> ul_list run" where
  "ls_loop dbl circ close cmp insize lst h =
     bind_run (ls_pass dbl cmp (if circ then lst else NULL) insize lst NULL NULL 0 h) (\<lambda>(lst', tail, nmerges, h1).
     bind_run (Some (close lst' tail h1)) (\<lambda>h2.
     bind_run (Some (int_range (insize * 2))) (\<lambda>insize'.
     if nmerges \<le> 1 then Some (Inr (lst', h2)) else ls_loop dbl circ close cmp insize' lst' h2)))"

definition LL_close :: "ptr \<Rightarrow> ptr \<Rightarrow> ul_heap \<Rightarrow> ul_heap res" where
  "LL_close lst tail h = (if tail \<noteq> NULL then set_next h tail NULL else Inr h)"

definition DL_close :: "ptr \<Rightarrow> ptr \<Rightarrow> ul_heap \<Rightarrow> ul_heap res" where
  "DL_close lst tail h = bind_res (set_prev h lst tail) (\<lambda>h. set_next h tail NULL)"

definition CDL_close :: "ptr \<Rightarrow> ptr \<Rightarrow> ul_heap \<Rightarrow> ul_heap res" where
  "CDL_close lst tail h = bind_res (set_prev h lst tail) (\<lambda>h. set_next h tail lst)"

definition LL_SORT2 :: "(ptr \<Rightarrow> ptr \<Rightarrow> int) \<Rightarrow> ul_list \<Rightarrow> ul_list run" where
  "LL_SORT2 cmp = (\<lambda>(lst, h). if lst \<noteq> NULL then ls_loop False False LL_close cmp 1 lst h else Some (Inr (lst, h)))"

definition DL_SORT2 :: "(ptr \<Rightarrow> ptr \<Rightarrow> int) \<Rightarrow> ul_list \<Rightarrow> ul_list run" where
  "DL_SORT2 cmp = (\<lambda>(lst, h). if lst \<noteq> NULL then ls_loop True False DL_close cmp 1 lst h else Some (Inr (lst, h)))"

definition CDL_SORT2 :: "(ptr \<Rightarrow> ptr \<Rightarrow> int) \<Rightarrow> ul_list \<Rightarrow> ul_list run" where
  "CDL_SORT2 cmp = (\<lambda>(lst, h). if lst \<noteq> NULL then ls_loop True True CDL_close cmp 1 lst h else Some (Inr (lst, h)))"

section \<open>Runs on the heap\<close>

text \<open>The rest of the list from \<open>q\<close> on, and a run of it at \<open>p\<close>, of which nothing is left when it is used up.\<close>

definition rest_ok :: "(ptr \<rightharpoonup> ptr) \<Rightarrow> ptr \<Rightarrow> ptr \<Rightarrow> ptr list \<Rightarrow> bool" where
  "rest_ok f old q ys \<longleftrightarrow> q = first_of ys \<and> (ys \<noteq> [] \<longrightarrow> chain f q ys old \<and> old \<notin> set (tl ys))"

definition run_ok :: "(ptr \<rightharpoonup> ptr) \<Rightarrow> ptr \<Rightarrow> ptr \<Rightarrow> ptr list \<Rightarrow> bool" where
  "run_ok f old p ps \<longleftrightarrow> ps = [] \<or> (\<exists>x. chain f p ps x) \<and> old \<notin> set (tl ps)"

lemma rest_step:
  assumes "rest_ok f old q (e # ys)"
  obtains r where "q = e" "e \<noteq> NULL" "f e = Some r" "rest_ok f old (if r = old then NULL else r) ys"
proof -
  from assms obtain r where r: "q = e" "e \<noteq> NULL" "f e = Some r" "chain f r ys old" "old \<notin> set ys" by (auto simp: rest_ok_def)
  have "rest_ok f old (if r = old then NULL else r) ys"
    using r(4,5) chain_hd [OF r(4)] by (cases ys) (auto simp: rest_ok_def)
  with r(1-3) show thesis by (rule that)
qed

lemma run_step:
  assumes "run_ok f old p (e # ps)"
  obtains r where "p = e" "e \<noteq> NULL" "f e = Some r" "run_ok f old (if r = old then NULL else r) ps"
proof -
  from assms obtain r x where r: "p = e" "e \<noteq> NULL" "f e = Some r" "chain f r ps x" "old \<notin> set ps" by (auto simp: run_ok_def)
  have "run_ok f old (if r = old then NULL else r) ps"
    using r(4,5) chain_hd [OF r(4)] by (cases ps) (auto simp: run_ok_def)
  with r(1-3) show thesis by (rule that)
qed

lemma rest_split:
  assumes "rest_ok f old q ys" shows "run_ok f old q (take n ys)" "rest_ok f old (first_of (drop n ys)) (drop n ys)"
proof -
  show "run_ok f old q (take n ys)"
  proof (cases "take n ys = []")
    case False
    then have "ys \<noteq> []" by auto
    with assms have c: "chain f q ys old" "old \<notin> set (tl ys)" by (auto simp: rest_ok_def)
    obtain r where r: "chain f q (take n ys) r" using c(1) by (metis append_take_drop_id chain_append)
    have "tl (take n ys) = take (n - 1) (tl ys)" by (simp add: tl_take)
    then have "old \<notin> set (tl (take n ys))" using c(2) by (auto dest: in_set_takeD)
    with r show ?thesis by (auto simp: run_ok_def)
  qed (simp add: run_ok_def)
  show "rest_ok f old (first_of (drop n ys)) (drop n ys)"
  proof (cases "drop n ys = []")
    case False
    then have "ys \<noteq> []" by auto
    with assms have c: "chain f q ys old" "old \<notin> set (tl ys)" by (auto simp: rest_ok_def)
    obtain r where r: "chain f r (drop n ys) old" using c(1) by (metis append_take_drop_id chain_append)
    have "set (tl (drop n ys)) \<subseteq> set (tl ys)" by (metis drop_Suc drop_tl set_drop_subset tl_drop)
    then show ?thesis using r c(2) chain_hd [OF r] False by (auto simp: rest_ok_def)
  qed (simp add: rest_ok_def)
qed

lemma rest_off:
  assumes "rest_ok f old q ys" "set ys \<inter> set rs = {}" "\<And>p. p \<notin> set rs \<Longrightarrow> g p = f p" shows "rest_ok g old q ys"
  using assms chain_off [of f q ys old rs g] by (auto simp: rest_ok_def)

lemma run_off:
  assumes "run_ok f old p ps" "set ps \<inter> set rs = {}" "\<And>p. p \<notin> set rs \<Longrightarrow> g p = f p" shows "run_ok g old p ps"
  using assms chain_off [of f p ps _ rs g] by (auto simp: run_ok_def)

section \<open>The loops\<close>

lemma ls_next_ok: "nxt h p = Some r \<Longrightarrow> p \<noteq> NULL \<Longrightarrow> ls_next h old p = Inr (if r = old then NULL else r)"
  by (simp add: ls_next_def read_ok)

lemma ls_split_ok:
  assumes "rest_ok (nxt h) old q ys" "ys \<noteq> []" "j \<le> n"
  shows "ls_split h old (int n) (int j) c q = Some (Inr (c + int (min (n - j) (length ys)), first_of (drop (n - j) ys)))"
  using assms
proof (induction ys arbitrary: q j c)
  case (Cons y ys)
  obtain r where r: "q = y" "y \<noteq> NULL" "nxt h y = Some r" "rest_ok (nxt h) old (if r = old then NULL else r) ys"
    using Cons.prems(1) by (rule rest_step)
  let ?r = "if r = old then NULL else r"
  have n: "ls_next h old q = Inr ?r" using r(1-3) by (simp add: ls_next_ok)
  show ?case
  proof (cases "j < n")
    case True
    then obtain d where d: "n - j = Suc d" "n - Suc j = d" by (metis Suc_diff_Suc)
    show ?thesis
    proof (cases "ys = []")
      case True
      then have "?r = NULL" using r(4) by (simp add: rest_ok_def)
      with n True \<open>j < n\<close> d show ?thesis by (subst ls_split.simps) simp
    next
      case False
      then have "chain (nxt h) ?r ys old" using r(4) unfolding rest_ok_def by blast
      from chain_first [OF this False] have "?r \<noteq> NULL" by blast
      moreover have "ls_split h old (int n) (int j + 1) (c + 1) ?r = Some (Inr (c + 1 + int (min d (length ys)), first_of (drop d ys)))"
        using Cons.IH [OF r(4) False, of "Suc j" "c + 1"] \<open>j < n\<close> d by (simp add: add.commute)
      ultimately show ?thesis using n \<open>j < n\<close> d by (subst ls_split.simps) simp
    qed
  next
    case False
    with Cons.prems(3) show ?thesis by (subst ls_split.simps) (simp add: r(1))
  qed
qed simp

definition open_run :: "bool \<Rightarrow> ul_heap \<Rightarrow> ptr list \<Rightarrow> bool" where
  "open_run dbl h es \<longleftrightarrow> (\<exists>v. chain (nxt h) (first_of es) es v) \<and> (dbl \<longrightarrow> backs (prv h) NULL es)"

definition has_cell :: "bool \<Rightarrow> ul_heap \<Rightarrow> ptr \<Rightarrow> bool" where
  "has_cell dbl h p \<longleftrightarrow> p \<noteq> NULL \<and> p \<in> dom (nxt h) \<and> (dbl \<longrightarrow> p \<in> dom (prv h))"

lemma same_cells_has: "same_cells h h' \<Longrightarrow> has_cell dbl h' = has_cell dbl h"
  by (simp add: same_cells_def has_cell_def fun_eq_iff)

lemma same_cells_trans: "same_cells h h1 \<Longrightarrow> same_cells h1 h2 \<Longrightarrow> same_cells h h2"
  by (simp add: same_cells_def)

lemma ls_link_ok:
  assumes "open_run dbl h es" "distinct (es @ [e])" "has_cell dbl h e"
  shows "\<exists>h'. ls_link dbl h (first_of es) (last (NULL # es)) e = Inr (first_of (es @ [e]), h') \<and> open_run dbl h' (es @ [e])
    \<and> same_cells h h' \<and> (\<forall>p. p \<notin> set es \<longrightarrow> nxt h' p = nxt h p)"
proof -
  obtain v where v: "chain (nxt h) (first_of es) es v" "dbl \<longrightarrow> backs (prv h) NULL es" using assms(1) by (auto simp: open_run_def)
  have e: "e \<noteq> NULL" "nxt h e \<noteq> None" "dbl \<longrightarrow> prv h e \<noteq> None" "e \<notin> set es" using assms(2,3) by (auto simp: has_cell_def)
  show ?thesis
  proof (cases es rule: rev_cases)
    case Nil
    with e show ?thesis by (auto simp: ls_link_def set_ok open_run_def same_cells_def)
  next
    case (snoc us u)
    have u: "u \<noteq> NULL" "nxt h u = Some v" "u \<noteq> e" "u \<notin> set us" using v(1) assms(2) snoc by auto
    have c: "chain (nxt h) (hd es) (us @ [u]) v" using v(1) snoc by simp
    have "chain ((nxt h)(u \<mapsto> e)) (hd es) (us @ [u]) e" by (rule chain_redirect [OF c u(4)])
    then have "chain ((nxt h)(u \<mapsto> e)) (first_of (es @ [e])) (es @ [e]) (the (nxt h e))"
      using e u(3) snoc by (auto simp: hd_append)
    moreover have "dbl \<longrightarrow> backs ((prv h)(e \<mapsto> u)) NULL (es @ [e])" using v(2) e(4) snoc by auto
    moreover have "hd (us @ [u, e]) = hd (us @ [u])" by (cases us) simp_all
    ultimately show ?thesis using e u snoc
      by (auto simp: ls_link_def set_ok open_run_def same_cells_def)
  qed
qed

lemma ls_pick_ok:
  assumes "run_ok (nxt h) old p ps" "rest_ok (nxt h) old q ys" "ps \<noteq> [] \<or> take m ys \<noteq> []"
  obtains (left) e ps' p' where "ps = e # ps'" "run_ok (nxt h) old p' ps'"
      "ls_pick cmp h old p (int (length ps)) q (int m) = Inr (e, p', int (length ps'), q, int m)"
      "merge_by (le_of cmp) ps (take m ys) = e # merge_by (le_of cmp) ps' (take m ys)"
  | (right) e ys' q' m' where "ys = e # ys'" "m = Suc m'" "rest_ok (nxt h) old q' ys'"
      "ls_pick cmp h old p (int (length ps)) q (int m) = Inr (e, p, int (length ps), q', int m')"
      "merge_by (le_of cmp) ps (take m ys) = e # merge_by (le_of cmp) ps (take m' ys')"
proof -
  let ?le = "le_of cmp"
  have tp: "\<exists>r. ls_take_p h old p (int (length ps)) q (int m) = Inr (e, r, int (length ps'), q, int m)
      \<and> run_ok (nxt h) old r ps' \<and> p = e" if "ps = e # ps'" for e ps'
  proof -
    from assms(1) [unfolded that] obtain r where r: "p = e" "e \<noteq> NULL" "nxt h e = Some r"
      "run_ok (nxt h) old (if r = old then NULL else r) ps'" by (rule run_step)
    then show ?thesis using that by (auto simp: ls_take_p_def ls_next_ok)
  qed
  have tq: "\<exists>r. ls_take_q h old p (int (length ps)) q (int m) = Inr (e, p, int (length ps), r, int m')
      \<and> rest_ok (nxt h) old r ys' \<and> q = e \<and> e \<noteq> NULL" if "ys = e # ys'" "m = Suc m'" for e ys' m'
  proof -
    from assms(2) [unfolded that(1)] obtain r where r: "q = e" "e \<noteq> NULL" "nxt h e = Some r"
      "rest_ok (nxt h) old (if r = old then NULL else r) ys'" by (rule rest_step)
    then show ?thesis using that(2) by (auto simp: ls_take_q_def ls_next_ok)
  qed
  show thesis
  proof (cases "take m ys")
    case Nil
    then obtain e ps' where ps: "ps = e # ps'" using assms(3) by (cases ps) auto
    have "m = 0 \<or> q = NULL" using Nil assms(2) by (auto simp: rest_ok_def)
    then have "ls_pick cmp h old p (int (length ps)) q (int m) = ls_take_p h old p (int (length ps)) q (int m)"
      using ps by (auto simp: ls_pick_def)
    moreover have "merge_by ?le ps (take m ys) = e # merge_by ?le ps' (take m ys)" unfolding Nil ps by (cases ps') simp_all
    ultimately show thesis using tp [OF ps] left [OF ps] by auto
  next
    case (Cons b bs)
    then obtain ys' m' where ys: "ys = b # ys'" "m = Suc m'" "bs = take m' ys'" by (cases ys; cases m) auto
    obtain r where q: "ls_take_q h old p (int (length ps)) q (int m) = Inr (b, p, int (length ps), r, int m')"
      "rest_ok (nxt h) old r ys'" "q = b" "b \<noteq> NULL" using tq [OF ys(1,2)] by blast
    show thesis
    proof (cases ps)
      case Nil
      then have "ls_pick cmp h old p (int (length ps)) q (int m) = ls_take_q h old p (int (length ps)) q (int m)"
        by (simp add: ls_pick_def)
      with q Nil ys show thesis by (intro right [OF ys(1,2) q(2)]) auto
    next
      case ps: (Cons a as)
      obtain u where p: "ls_take_p h old p (int (length ps)) q (int m) = Inr (a, u, int (length as), q, int m)"
        "run_ok (nxt h) old u as" "p = a" using tp [OF ps] by blast
      have pk: "ls_pick cmp h old p (int (length ps)) q (int m) = (if ?le a b
          then ls_take_p h old p (int (length ps)) q (int m) else ls_take_q h old p (int (length ps)) q (int m))"
        using p q ps ys(2) unfolding ls_pick_def by simp
      show thesis
      proof (cases "?le a b")
        case True
        with p ps ys pk show thesis by (intro left [OF ps p(2)]) auto
      next
        case False
        with q ps ys pk show thesis by (intro right [OF ys(1,2) q(2)]) auto
      qed
    qed
  qed
qed

lemma ls_merge_ok:
  assumes "run_ok (nxt h) old p ps" "rest_ok (nxt h) old q ys" "open_run dbl h rs" "distinct (rs @ ps @ ys)"
    and "\<forall>x \<in> set (ps @ ys). has_cell dbl h x"
  shows "\<exists>h'. ls_merge dbl cmp old p (int (length ps)) q (int m) (first_of rs) (last (NULL # rs)) h
      = Some (Inr (first_of (drop m ys), first_of (rs @ merge_by (le_of cmp) ps (take m ys)),
                   last (NULL # rs @ merge_by (le_of cmp) ps (take m ys)), h'))
    \<and> same_cells h h' \<and> open_run dbl h' (rs @ merge_by (le_of cmp) ps (take m ys))
    \<and> rest_ok (nxt h') old (first_of (drop m ys)) (drop m ys)"
  using assms
proof (induction "length ps + length (take m ys)" arbitrary: p ps q ys m rs h)
  case 0
  from 0(1) have "length ps = 0" "length (take m ys) = 0" by linarith+
  then have e: "ps = []" "m = 0 \<or> ys = []" by (simp_all only: length_0_conv take_eq_Nil)
  have "q = first_of ys" using 0(3) by (simp add: rest_ok_def)
  then have "drop m ys = ys" "first_of (drop m ys) = q" "merge_by (le_of cmp) ps (take m ys) = []" "m = 0 \<or> q = NULL"
    using e by auto
  with e(1) 0(3,4) show ?case by (subst ls_merge.simps) (auto intro: same_cells_refl)
next
  case (Suc k)
  have more: "ps \<noteq> [] \<or> take m ys \<noteq> []" using Suc.hyps(2) by auto
  have go: "(int (length ps) > 0 \<or> int m > 0 \<and> q \<noteq> NULL) = True"
  proof -
    have "ys \<noteq> [] \<Longrightarrow> q \<noteq> NULL" using Suc.prems(2) chain_first [of "nxt h" q ys old] by (auto simp: rest_ok_def)
    then show ?thesis using more by auto
  qed
  let ?R = "\<lambda>rs ps ys m. rs @ merge_by (le_of cmp) ps (take m ys)"
  from Suc.prems(1,2) more show ?case
  proof (cases rule: ls_pick_ok [where cmp = cmp])
    case (left e ps' p')
    have "distinct (rs @ [e])" "has_cell dbl h e" using Suc.prems(4,5) left(1) by simp_all
    from ls_link_ok [OF Suc.prems(3) this] obtain h1 where h1:
      "ls_link dbl h (first_of rs) (last (NULL # rs)) e = Inr (first_of (rs @ [e]), h1)" "open_run dbl h1 (rs @ [e])"
      "same_cells h h1" "\<And>p. p \<notin> set rs \<Longrightarrow> nxt h1 p = nxt h p" by blast
    have "set ps' \<inter> set rs = {}" "set ys \<inter> set rs = {}" using Suc.prems(4) left(1) by auto
    then have c: "run_ok (nxt h1) old p' ps'" "rest_ok (nxt h1) old q ys"
      using run_off [OF left(2)] rest_off [OF Suc.prems(2)] h1(4) by blast+
    have pre: "k = length ps' + length (take m ys)" "distinct ((rs @ [e]) @ ps' @ ys)" "\<forall>x \<in> set (ps' @ ys). has_cell dbl h1 x"
      using Suc.hyps(2) Suc.prems(4,5) left(1) same_cells_has [OF h1(3)] by auto
    from Suc.hyps(1) [OF pre(1) c h1(2) pre(2,3)] obtain h2 where h2:
      "ls_merge dbl cmp old p' (int (length ps')) q (int m) (first_of (rs @ [e])) (last (NULL # rs @ [e])) h1
        = Some (Inr (first_of (drop m ys), first_of (?R (rs @ [e]) ps' ys m), last (NULL # ?R (rs @ [e]) ps' ys m), h2))"
      "same_cells h1 h2" "open_run dbl h2 (?R (rs @ [e]) ps' ys m)" "rest_ok (nxt h2) old (first_of (drop m ys)) (drop m ys)"
      by blast
    have R: "?R (rs @ [e]) ps' ys m = ?R rs ps ys m" using left(4) by simp
    have "last (NULL # rs @ [e]) = e" by simp
    with h2(1) have "ls_merge dbl cmp old p (int (length ps)) q (int m) (first_of rs) (last (NULL # rs)) h
        = Some (Inr (first_of (drop m ys), first_of (?R rs ps ys m), last (NULL # ?R rs ps ys m), h2))"
      unfolding R by (subst ls_merge.simps) (simp only: go if_True left(3) bind_run_simps prod.case h1(1))
    with h2(2-4) same_cells_trans [OF h1(3) h2(2)] show ?thesis unfolding R by (intro exI [of _ h2]) simp
  next
    case (right e ys' q' m')
    have "distinct (rs @ [e])" "has_cell dbl h e" using Suc.prems(4,5) right(1) by simp_all
    from ls_link_ok [OF Suc.prems(3) this] obtain h1 where h1:
      "ls_link dbl h (first_of rs) (last (NULL # rs)) e = Inr (first_of (rs @ [e]), h1)" "open_run dbl h1 (rs @ [e])"
      "same_cells h h1" "\<And>p. p \<notin> set rs \<Longrightarrow> nxt h1 p = nxt h p" by blast
    have "set ps \<inter> set rs = {}" "set ys' \<inter> set rs = {}" using Suc.prems(4) right(1) by auto
    then have c: "run_ok (nxt h1) old p ps" "rest_ok (nxt h1) old q' ys'"
      using run_off [OF Suc.prems(1)] rest_off [OF right(3)] h1(4) by blast+
    have pre: "k = length ps + length (take m' ys')" "distinct ((rs @ [e]) @ ps @ ys')" "\<forall>x \<in> set (ps @ ys'). has_cell dbl h1 x"
      using Suc.hyps(2) Suc.prems(4,5) right(1,2) same_cells_has [OF h1(3)] by auto
    from Suc.hyps(1) [OF pre(1) c h1(2) pre(2,3)] obtain h2 where h2:
      "ls_merge dbl cmp old p (int (length ps)) q' (int m') (first_of (rs @ [e])) (last (NULL # rs @ [e])) h1
        = Some (Inr (first_of (drop m' ys'), first_of (?R (rs @ [e]) ps ys' m'), last (NULL # ?R (rs @ [e]) ps ys' m'), h2))"
      "same_cells h1 h2" "open_run dbl h2 (?R (rs @ [e]) ps ys' m')" "rest_ok (nxt h2) old (first_of (drop m' ys')) (drop m' ys')"
      by blast
    have R: "?R (rs @ [e]) ps ys' m' = ?R rs ps ys m" using right(5) by simp
    have D: "drop m' ys' = drop m ys" using right(1,2) by simp
    have "last (NULL # rs @ [e]) = e" by simp
    with h2(1) have "ls_merge dbl cmp old p (int (length ps)) q (int m) (first_of rs) (last (NULL # rs)) h
        = Some (Inr (first_of (drop m ys), first_of (?R rs ps ys m), last (NULL # ?R rs ps ys m), h2))"
      unfolding R D by (subst ls_merge.simps) (simp only: go if_True right(4) bind_run_simps prod.case h1(1))
    with h2(2-4) same_cells_trans [OF h1(3) h2(2)] show ?thesis unfolding R D by (intro exI [of _ h2]) simp
  qed
qed

lemma ls_pass_ok:
  assumes "rest_ok (nxt h) old p xs" "open_run dbl h rs" "distinct (rs @ xs)" "\<forall>x \<in> set xs. has_cell dbl h x"
    and "0 \<le> nm" "nm + int (merges n xs) < 2 ^ 31"
  shows "\<exists>h'. ls_pass dbl cmp old (int (Suc n)) p (first_of rs) (last (NULL # rs)) nm h
      = Some (Inr (first_of (rs @ pass_by (le_of cmp) n xs), last (NULL # rs @ pass_by (le_of cmp) n xs),
                   nm + int (merges n xs), h'))
    \<and> same_cells h h' \<and> open_run dbl h' (rs @ pass_by (le_of cmp) n xs)"
  using assms
proof (induction xs arbitrary: p h rs nm rule: runs_induct [where n = n])
  case Nil
  then show ?case by (subst ls_pass.simps) (auto simp: rest_ok_def intro: same_cells_refl)
next
  case (runs xs)
  let ?N = "Suc n" and ?le = "le_of cmp"
  let ?a = "take ?N xs" and ?y = "drop ?N xs" and ?c = "drop (2 * ?N) xs"
  let ?m = "merge_by ?le ?a (take ?N ?y)"
  have c: "drop ?N ?y = ?c" by (simp add: mult_2)
  have p: "p \<noteq> NULL" using runs.prems(1) runs.hyps chain_first [of "nxt h" p xs old] unfolding rest_ok_def by blast
  have mg: "int (merges n xs) = 1 + int (merges n ?c)" by (simp only: merges_step [OF runs.hyps] of_nat_Suc)
  have nm: "int_range (nm + 1) = Inr (nm + 1)" using runs.prems(5,6) mg by (simp add: int_range_def)
  have sp: "ls_split h old (int ?N) 0 0 p = Some (Inr (int (length ?a), first_of ?y))"
    using ls_split_ok [OF runs.prems(1) runs.hyps le0, of ?N 0] by (simp add: min.commute)
  note ch = rest_split [OF runs.prems(1), of ?N]
  have st: "distinct (rs @ ?a @ ?y)" "\<forall>x \<in> set (?a @ ?y). has_cell dbl h x" using runs.prems(3,4) by simp_all
  from ls_merge_ok [OF ch runs.prems(2) st, where cmp = cmp and m = ?N] obtain h1 where h1:
    "ls_merge dbl cmp old p (int (length ?a)) (first_of ?y) (int ?N) (first_of rs) (last (NULL # rs)) h
      = Some (Inr (first_of ?c, first_of (rs @ ?m), last (NULL # rs @ ?m), h1))"
    "same_cells h h1" "open_run dbl h1 (rs @ ?m)" "rest_ok (nxt h1) old (first_of ?c) ?c"
    unfolding c by blast
  have "mset xs = mset (?a @ take ?N ?y @ ?c)" by (simp only: two_runs)
  then have "mset ((rs @ ?m) @ ?c) = mset (rs @ xs)" by (simp add: mset_merge_by)
  then have d: "distinct ((rs @ ?m) @ ?c)" using runs.prems(3) by (metis mset_eq_imp_distinct_iff)
  have hc: "\<forall>x \<in> set ?c. has_cell dbl h1 x" using runs.prems(4) same_cells_has [OF h1(2)] by (auto dest: in_set_dropD)
  have "0 \<le> nm + 1" "nm + 1 + int (merges n ?c) < 2 ^ 31" using runs.prems(5,6) mg by linarith+
  from runs.IH [OF h1(4,3) d hc this] obtain h2 where h2:
    "ls_pass dbl cmp old (int ?N) (first_of ?c) (first_of (rs @ ?m)) (last (NULL # rs @ ?m)) (nm + 1) h1
      = Some (Inr (first_of ((rs @ ?m) @ pass_by ?le n ?c), last (NULL # (rs @ ?m) @ pass_by ?le n ?c),
                   nm + 1 + int (merges n ?c), h2))"
    "same_cells h1 h2" "open_run dbl h2 ((rs @ ?m) @ pass_by ?le n ?c)"
    by blast
  have R: "(rs @ ?m) @ pass_by ?le n ?c = rs @ pass_by ?le n xs" by (simp only: pass_by_step [OF runs.hyps] append_assoc)
  have M: "nm + 1 + int (merges n ?c) = nm + int (merges n xs)" using mg by linarith
  have "ls_pass dbl cmp old (int ?N) p (first_of rs) (last (NULL # rs)) nm h
      = Some (Inr (first_of (rs @ pass_by ?le n xs), last (NULL # rs @ pass_by ?le n xs), nm + int (merges n xs), h2))"
    using p h2(1) unfolding R M by (subst ls_pass.simps) (simp only: if_False nm sp h1(1) bind_run_simps prod.case)
  with h2(2,3) same_cells_trans [OF h1(2) h2(2)] show ?case unfolding R by (intro exI [of _ h2]) simp
qed

section \<open>The sorts\<close>

text \<open>What the loop needs to know of a kind of list: what a pass starts from, and that closing gives a list again.\<close>

locale closed_list =
  fixes rep :: "ul_list \<Rightarrow> ptr list \<Rightarrow> bool"
    and dbl circ :: bool
    and close :: "ptr \<Rightarrow> ptr \<Rightarrow> ul_heap \<Rightarrow> ul_heap res"
  assumes start: "rep (head, h) es \<Longrightarrow> es \<noteq> [] \<Longrightarrow> head = hd es \<and> distinct es \<and> (\<forall>e \<in> set es. has_cell dbl h e)
      \<and> rest_ok (nxt h) (if circ then head else NULL) head es"
    and none: "rep (head, h) [] \<Longrightarrow> head = NULL"
    and closed: "open_run dbl h zs \<Longrightarrow> zs \<noteq> [] \<Longrightarrow> distinct zs \<Longrightarrow> \<forall>z \<in> set zs. has_cell dbl h z
      \<Longrightarrow> \<exists>h'. close (hd zs) (last zs) h = Inr h' \<and> rep (hd zs, h') zs \<and> same_cells h h'"
begin

lemma loop_ok:
  assumes "rep (lst, h) xs" "xs \<noteq> []" "length xs \<le> 2 ^ 30" "j = 0 \<or> 2 ^ j < length xs" "runs_sorted f (2 ^ j) xs"
    and "\<And>a b. cmp a b \<le> 0 \<longleftrightarrow> f a \<le> (f b :: 'k::linorder)"
  shows "op_result rep h (ls_loop dbl circ close cmp (int (2 ^ j)) lst h) (sort_key f xs)"
  using assms(1-5)
proof (induction "length xs - 2 ^ j" arbitrary: xs j lst h rule: less_induct)
  case less
  let ?le = "le_of cmp" and ?old = "if circ then lst else NULL"
  obtain n where n: "2 ^ j = Suc n" by (metis gr0_implies_Suc zero_less_numeral zero_less_power)
  let ?zs = "pass_by ?le n xs"
  from start [OF less.prems(1,2)] have st: "lst = hd xs" "distinct xs" "\<forall>x \<in> set xs. has_cell dbl h x" "rest_ok (nxt h) ?old lst xs"
    by blast+
  have dz: "distinct ?zs" using st(2) mset_eq_imp_distinct_iff [OF mset_pass_by [of ?le n xs]] by simp
  have ne: "?zs \<noteq> []" using less.prems(2) length_pass_by [of ?le n xs] by auto
  have "merges n xs \<le> length xs" by (rule merges_le)
  then have nm: "0 + int (merges n xs) < 2 ^ 31" using less.prems(3) by simp
  have "open_run dbl h []" "distinct ([] @ xs)" using st(2) by (simp_all add: open_run_def)
  from ls_pass_ok [OF st(4) this st(3) order_refl nm, of cmp] obtain h1 where h1:
    "ls_pass dbl cmp ?old (int (Suc n)) lst NULL NULL 0 h = Some (Inr (hd ?zs, last ?zs, int (merges n xs), h1))"
    "same_cells h h1" "open_run dbl h1 ?zs"
    using ne by auto
  have "\<forall>z \<in> set ?zs. has_cell dbl h1 z" using st(3) same_cells_has [OF h1(2)] by (simp add: set_pass_by)
  from closed [OF h1(3) ne dz this] obtain h2 where h2: "close (hd ?zs) (last ?zs) h1 = Inr h2" "rep (hd ?zs, h2) ?zs"
    "same_cells h1 h2" by blast
  have fr: "same_cells h h2" by (rule same_cells_trans [OF h1(2) h2(3)])
  have "(2::nat) ^ j \<le> 2 ^ 29"
  proof -
    have "j \<le> 29"
    proof (cases "j = 0")
      case False
      with less.prems(3,4) have "(2::nat) ^ j < 2 ^ 30" by linarith
      then have "j < 30" by (rule power_less_imp_less_exp [rotated]) simp
      then show ?thesis by simp
    qed simp
    then show ?thesis by (intro power_increasing) simp_all
  qed
  then have "int (Suc n) * 2 \<le> 2 ^ 30" unfolding n by simp
  then have rg: "int_range (int (Suc n) * 2) = Inr (int (Suc n) * 2)" by (simp add: int_range_def)
  have one: "(int (merges n xs) \<le> 1) = (length xs \<le> 2 * Suc n)" using merges_one [of n xs] by linarith
  have step: "ls_loop dbl circ close cmp (int (2 ^ j)) lst h = (if length xs \<le> 2 * Suc n
      then Some (Inr (hd ?zs, h2)) else ls_loop dbl circ close cmp (int (Suc n) * 2) (hd ?zs) h2)"
    unfolding n by (subst ls_loop.simps) (simp only: h1(1) h2(1) one rg bind_run_simps prod.case)
  have rs: "runs_sorted f (Suc n) xs" using less.prems(5) n by simp
  have sk1: "sort_key f ?zs = sort_key f xs" by (rule sort_key_pass(1) [OF assms(6) rs])
  show ?case
  proof (cases "length xs \<le> 2 * Suc n")
    case True
    have "?zs = sort_key f xs" by (rule sort_key_pass(2) [OF assms(6) rs True])
    with step True h2(2) fr show ?thesis by (simp only: if_True op_result_def) auto
  next
    case False
    have j: "2 ^ Suc j = 2 * Suc n" using n by simp
    have lz: "length ?zs = length xs" by (rule length_pass_by)
    have "length ?zs - 2 ^ Suc j < length xs - 2 ^ j" using False n by (simp add: length_pass_by)
    moreover have "Suc j = 0 \<or> 2 ^ Suc j < length ?zs" using False unfolding j lz by simp
    moreover have "runs_sorted f (2 ^ Suc j) ?zs" unfolding j by (rule pass_by_ok(1) [OF assms(6) rs])
    ultimately have "op_result rep h2 (ls_loop dbl circ close cmp (int (2 ^ Suc j)) (hd ?zs) h2) (sort_key f ?zs)"
      using less.hyps [of ?zs "Suc j" "hd ?zs" h2] h2(2) ne less.prems(3) lz by auto
    moreover have "int (2 ^ Suc j) = int (Suc n) * 2" unfolding j by simp
    ultimately show ?thesis unfolding step sk1 using False same_cells_trans [OF fr]
      by (auto simp: op_result_def)
  qed
qed

lemma sort_ok:
  assumes "rep (lst, h) es" "length es \<le> 2 ^ 30" "\<And>a b. cmp a b \<le> 0 \<longleftrightarrow> f a \<le> (f b :: 'k::linorder)"
  shows "op_result rep h (if lst \<noteq> NULL then ls_loop dbl circ close cmp 1 lst h else Some (Inr (lst, h))) (sort_key f es)"
proof (cases "es = []")
  case True
  with none [of lst h] assms(1) show ?thesis by (auto simp: op_result_def same_cells_refl)
next
  case False
  have "lst \<noteq> NULL" using start [OF assms(1) False] False by (auto simp: has_cell_def)
  with loop_ok [OF assms(1) False assms(2), of 0 f cmp] assms(3) runs_sorted_one [of f es] show ?thesis by simp
qed

end

lemma open_run_redirect:
  assumes "open_run dbl h zs" "zs \<noteq> []" "distinct zs"
  shows "chain ((nxt h)(last zs \<mapsto> w)) (hd zs) zs w"
proof -
  obtain v where v: "chain (nxt h) (hd zs) zs v" using assms(1,2) by (auto simp: open_run_def)
  show ?thesis by (rule chain_end [OF v assms(2,3)])
qed

lemma close_writes:
  assumes "zs \<noteq> []" "\<forall>z \<in> set zs. has_cell dbl h z"
  shows "nxt h (last zs) \<noteq> None" "last zs \<noteq> NULL" "dbl \<Longrightarrow> prv h (hd zs) \<noteq> None" "hd zs \<noteq> NULL"
  using assms last_in_set [OF assms(1)] hd_in_set [OF assms(1)] by (auto simp: has_cell_def)

lemma chain_cells: "chain f p es q \<Longrightarrow> \<forall>e \<in> set es. e \<noteq> NULL \<and> e \<in> dom f"
  using chain_NULL_notin [of f p es q] chain_dom [of f p es q] by (metis subsetD)

interpretation ll: closed_list ll_rep False False LL_close
proof unfold_locales
  fix head h es assume r: "ll_rep (head, h) es" "es \<noteq> []"
  then have c: "nchain (nxt h) head es" by (simp add: ll_rep_def)
  have "\<forall>e \<in> set es. e \<noteq> NULL \<and> e \<in> dom (nxt h)" "distinct es" by (rule chain_cells [OF c], rule nchain_distinct [OF c])
  moreover have "head = hd es" using chain_first [OF c r(2)] by blast
  moreover have "NULL \<notin> set (tl es)" using calculation(1) list.set_sel(2) r(2) by metis
  ultimately show "head = hd es \<and> distinct es \<and> (\<forall>e \<in> set es. has_cell False h e)
      \<and> rest_ok (nxt h) (if False then head else NULL) head es"
    using c r(2) by (auto simp: has_cell_def rest_ok_def)
next
  fix head h assume "ll_rep (head, h) []" then show "head = NULL" by (simp add: ll_rep_def)
next
  fix h zs assume a: "open_run False h zs" "zs \<noteq> []" "distinct zs" "\<forall>z \<in> set zs. has_cell False h z"
  note w = close_writes [OF a(2,4)] and c = open_run_redirect [OF a(1-3), of NULL]
  show "\<exists>h'. LL_close (hd zs) (last zs) h = Inr h' \<and> ll_rep (hd zs, h') zs \<and> same_cells h h'"
    using w(1,2) c by (auto simp: LL_close_def set_ok ll_rep_def same_cells_def)
qed

interpretation dl: closed_list dl_rep True False DL_close
proof unfold_locales
  fix head h es assume r: "dl_rep (head, h) es" "es \<noteq> []"
  then have c: "nchain (nxt h) head es" "backs (prv h) (last es) es" by (simp_all add: dl_rep_def)
  have "\<forall>e \<in> set es. e \<noteq> NULL \<and> e \<in> dom (nxt h)" "distinct es"
    by (rule chain_cells [OF c(1)], rule nchain_distinct [OF c(1)])
  moreover have "set es \<subseteq> dom (prv h)" using backs_fields [OF c(2)] by blast
  moreover have "head = hd es" using chain_first [OF c(1) r(2)] by blast
  moreover have "NULL \<notin> set (tl es)" using calculation(1) list.set_sel(2) r(2) by metis
  ultimately show "head = hd es \<and> distinct es \<and> (\<forall>e \<in> set es. has_cell True h e)
      \<and> rest_ok (nxt h) (if False then head else NULL) head es"
    using c(1) r(2) by (auto simp: has_cell_def rest_ok_def)
next
  fix head h assume "dl_rep (head, h) []" then show "head = NULL" by (simp add: dl_rep_def)
next
  fix h zs assume a: "open_run True h zs" "zs \<noteq> []" "distinct zs" "\<forall>z \<in> set zs. has_cell True h z"
  note w = close_writes [OF a(2,4)] and c = open_run_redirect [OF a(1-3), of NULL]
  have "backs ((prv h)(hd zs \<mapsto> last zs)) (last zs) zs"
    using a(1) by (intro backs_requeue [of _ NULL, OF _ a(3,2)]) (simp add: open_run_def)
  then show "\<exists>h'. DL_close (hd zs) (last zs) h = Inr h' \<and> dl_rep (hd zs, h') zs \<and> same_cells h h'"
    using w c by (auto simp: DL_close_def set_ok dl_rep_def same_cells_def)
qed

interpretation cdl: closed_list cdl_rep True True CDL_close
proof unfold_locales
  fix head h es assume r: "cdl_rep (head, h) es" "es \<noteq> []"
  note ne = cdl_nonempty [OF r]
  have "\<forall>e \<in> set es. e \<noteq> NULL \<and> e \<in> dom (nxt h)" by (rule chain_cells [OF ne(1)])
  moreover have "set es \<subseteq> dom (prv h)" using backs_fields [OF ne(3)] by blast
  moreover have "head \<notin> set (tl es)" using ne(2,5) r(2) by (cases es) auto
  ultimately show "head = hd es \<and> distinct es \<and> (\<forall>e \<in> set es. has_cell True h e)
      \<and> rest_ok (nxt h) (if True then head else NULL) head es"
    using ne(1,2,5) r(2) by (auto simp: has_cell_def rest_ok_def)
next
  fix head h assume "cdl_rep (head, h) []" then show "head = NULL" by (simp add: cdl_rep_def)
next
  fix h zs assume a: "open_run True h zs" "zs \<noteq> []" "distinct zs" "\<forall>z \<in> set zs. has_cell True h z"
  note w = close_writes [OF a(2,4)] and c = open_run_redirect [OF a(1-3), of "hd zs"]
  have "backs ((prv h)(hd zs \<mapsto> last zs)) (last zs) zs"
    using a(1) by (intro backs_requeue [of _ NULL, OF _ a(3,2)]) (simp add: open_run_def)
  then show "\<exists>h'. CDL_close (hd zs) (last zs) h = Inr h' \<and> cdl_rep (hd zs, h') zs \<and> same_cells h h'"
    using w c a(2,3) by (auto simp: CDL_close_def set_ok cdl_rep_def same_cells_def)
qed

section \<open>All operations together\<close>

lemma LL_SORT2_ok:
  "ll_rep (head, h) es \<Longrightarrow> length es \<le> 2 ^ 30 \<Longrightarrow> compares cmp (key :: ptr \<Rightarrow> 'k::linorder)
    \<Longrightarrow> op_result ll_rep h (LL_SORT2 cmp (head, h)) (sort_key key es)"
  using ll.sort_ok [of head h es cmp key] by (simp add: LL_SORT2_def compares_def)

lemma LL_special:
  "ll_rep (NULL, h) []" "LL_PREPEND_ELEM2 NULL a st = LL_APPEND2 a st" "Some (LL_APPEND_ELEM2 NULL a st) = Some (LL_PREPEND2 a st)"
  by (cases st, simp add: ll_rep_def LL_PREPEND_ELEM2_def LL_APPEND_ELEM2_def)+

interpretation lls: pointer_list ll_rep "\<lambda>a st. Some (LL_PREPEND2 a st)" LL_APPEND2 LL_INSERT_INORDER2
  LL_PREPEND_ELEM2 "\<lambda>e a st. Some (LL_APPEND_ELEM2 e a st)" LL_REPLACE_ELEM2 LL_DELETE2
  LL_SORT2 LL_COUNT2 "\<lambda>found (head, h). LL_SEARCH2 h found head" "key :: ptr \<Rightarrow> 'k::linorder" for key
proof unfold_locales
  fix head h es found assume r: "ll_rep (head, h) es"
  then have c: "nchain (nxt h) head es" by (simp add: ll_rep_def)
  show "distinct es \<and> NULL \<notin> set es" using nchain_distinct [OF c] chain_NULL_notin [OF c] by blast
  show "LL_COUNT2 (head, h) = Some (Inr (length es))" by (rule LL_COUNT2_ok [OF c])
  show "(case (head, h) of (head, h) \<Rightarrow> LL_SEARCH2 h found head)
    = Some (Inr (case find found es of Some e \<Rightarrow> e | None \<Rightarrow> NULL))"
    using LL_SEARCH2_ok [OF c] by simp
qed (rule LL_special LL_SORT2_ok LL_PREPEND2_ok LL_APPEND2_ok LL_INSERT_INORDER2_ok LL_PREPEND_ELEM2_ok LL_APPEND_ELEM2_ok
  LL_REPLACE_ELEM2_ok LL_DELETE2_ok; assumption)+

lemma DL_SORT2_ok:
  "dl_rep (head, h) es \<Longrightarrow> length es \<le> 2 ^ 30 \<Longrightarrow> compares cmp (key :: ptr \<Rightarrow> 'k::linorder)
    \<Longrightarrow> op_result dl_rep h (DL_SORT2 cmp (head, h)) (sort_key key es)"
  using dl.sort_ok [of head h es cmp key] by (simp add: DL_SORT2_def compares_def)

lemma DL_special:
  "dl_rep (NULL, h) []" "Some (DL_PREPEND_ELEM2 NULL a st) = Some (DL_APPEND2 a st)" "Some (DL_APPEND_ELEM2 NULL a st) = Some (DL_PREPEND2 a st)"
  by (cases st, simp add: dl_rep_def DL_PREPEND_ELEM2_def DL_APPEND_ELEM2_def)+

interpretation dls: pointer_list dl_rep "\<lambda>a st. Some (DL_PREPEND2 a st)" "\<lambda>a st. Some (DL_APPEND2 a st)" DL_INSERT_INORDER2
  "\<lambda>e a st. Some (DL_PREPEND_ELEM2 e a st)" "\<lambda>e a st. Some (DL_APPEND_ELEM2 e a st)"
  "\<lambda>e a st. Some (DL_REPLACE_ELEM2 e a st)" "\<lambda>e st. Some (DL_DELETE2 e st)"
  DL_SORT2 LL_COUNT2 "\<lambda>found (head, h). LL_SEARCH2 h found head" "key :: ptr \<Rightarrow> 'k::linorder" for key
proof unfold_locales
  fix head h es found assume r: "dl_rep (head, h) es"
  then have c: "nchain (nxt h) head es" by (simp add: dl_rep_def)
  show "distinct es \<and> NULL \<notin> set es" using nchain_distinct [OF c] chain_NULL_notin [OF c] by blast
  show "LL_COUNT2 (head, h) = Some (Inr (length es))" by (rule LL_COUNT2_ok [OF c])
  show "(case (head, h) of (head, h) \<Rightarrow> LL_SEARCH2 h found head)
    = Some (Inr (case find found es of Some e \<Rightarrow> e | None \<Rightarrow> NULL))"
    using LL_SEARCH2_ok [OF c] by simp
qed (rule DL_special DL_SORT2_ok DL_PREPEND2_ok DL_APPEND2_ok DL_INSERT_INORDER2_ok DL_PREPEND_ELEM2_ok DL_APPEND_ELEM2_ok
  DL_REPLACE_ELEM2_ok DL_DELETE2_ok; assumption)+

lemma CDL_SORT2_ok:
  "cdl_rep (head, h) es \<Longrightarrow> length es \<le> 2 ^ 30 \<Longrightarrow> compares cmp (key :: ptr \<Rightarrow> 'k::linorder)
    \<Longrightarrow> op_result cdl_rep h (CDL_SORT2 cmp (head, h)) (sort_key key es)"
  using cdl.sort_ok [of head h es cmp key] by (simp add: CDL_SORT2_def compares_def)

lemma CDL_special:
  "cdl_rep (NULL, h) []" "Some (CDL_PREPEND_ELEM2 NULL a st) = Some (CDL_APPEND2 a st)" "Some (CDL_APPEND_ELEM2 NULL a st) = Some (CDL_PREPEND2 a st)"
  by (cases st, simp add: cdl_rep_def CDL_PREPEND_ELEM2_def CDL_APPEND_ELEM2_def)+

interpretation cdls: pointer_list cdl_rep "\<lambda>a st. Some (CDL_PREPEND2 a st)" "\<lambda>a st. Some (CDL_APPEND2 a st)" CDL_INSERT_INORDER2
  "\<lambda>e a st. Some (CDL_PREPEND_ELEM2 e a st)" "\<lambda>e a st. Some (CDL_APPEND_ELEM2 e a st)"
  "\<lambda>e a st. Some (CDL_REPLACE_ELEM2 e a st)" "\<lambda>e st. Some (CDL_DELETE2 e st)"
  CDL_SORT2 CDL_COUNT2 "\<lambda>found (head, h). CDL_SEARCH2 head h found head" "key :: ptr \<Rightarrow> 'k::linorder" for key
proof unfold_locales
  fix head h es found assume r: "cdl_rep (head, h) es"
  show "distinct es \<and> NULL \<notin> set es"
  proof (cases "es = []")
    case False
    with cdl_nonempty(1,2) [OF r False] chain_NULL_notin show ?thesis by blast
  qed simp
  show "CDL_COUNT2 (head, h) = Some (Inr (length es))" by (rule CDL_COUNT2_ok [OF r])
  show "(case (head, h) of (head, h) \<Rightarrow> CDL_SEARCH2 head h found head)
    = Some (Inr (case find found es of Some e \<Rightarrow> e | None \<Rightarrow> NULL))"
    using CDL_SEARCH2_ok [OF r] by simp
qed (rule CDL_special CDL_SORT2_ok CDL_PREPEND2_ok CDL_INSERT_INORDER2_ok CDL_PREPEND_ELEM2_ok CDL_APPEND_ELEM2_ok
  CDL_REPLACE_ELEM2_ok CDL_DELETE2_ok; assumption)+

definition LL_step :: "(ptr \<Rightarrow> ptr \<Rightarrow> int) \<Rightarrow> list_op \<Rightarrow> ul_list \<Rightarrow> ul_list run" where
  "LL_step cmp = list_step (\<lambda>a st. Some (LL_PREPEND2 a st)) LL_APPEND2 (LL_INSERT_INORDER2 cmp) LL_PREPEND_ELEM2
     (\<lambda>e a st. Some (LL_APPEND_ELEM2 e a st)) LL_REPLACE_ELEM2 LL_DELETE2 (LL_SORT2 cmp)"

definition DL_step :: "(ptr \<Rightarrow> ptr \<Rightarrow> int) \<Rightarrow> list_op \<Rightarrow> ul_list \<Rightarrow> ul_list run" where
  "DL_step cmp = list_step (\<lambda>a st. Some (DL_PREPEND2 a st)) (\<lambda>a st. Some (DL_APPEND2 a st)) (DL_INSERT_INORDER2 cmp)
     (\<lambda>e a st. Some (DL_PREPEND_ELEM2 e a st)) (\<lambda>e a st. Some (DL_APPEND_ELEM2 e a st))
     (\<lambda>e a st. Some (DL_REPLACE_ELEM2 e a st)) (\<lambda>e st. Some (DL_DELETE2 e st)) (DL_SORT2 cmp)"

definition CDL_step :: "(ptr \<Rightarrow> ptr \<Rightarrow> int) \<Rightarrow> list_op \<Rightarrow> ul_list \<Rightarrow> ul_list run" where
  "CDL_step cmp = list_step (\<lambda>a st. Some (CDL_PREPEND2 a st)) (\<lambda>a st. Some (CDL_APPEND2 a st)) (CDL_INSERT_INORDER2 cmp)
     (\<lambda>e a st. Some (CDL_PREPEND_ELEM2 e a st)) (\<lambda>e a st. Some (CDL_APPEND_ELEM2 e a st))
     (\<lambda>e a st. Some (CDL_REPLACE_ELEM2 e a st)) (\<lambda>e st. Some (CDL_DELETE2 e st)) (CDL_SORT2 cmp)"

section \<open>Properties\<close>

text \<open>Five structures, a program and the list it makes, for the examples.\<close>

definition some_heap :: ul_heap where
  "some_heap = \<lparr>nxt = (\<lambda>p. if p \<le> 5 then Some NULL else None), prv = (\<lambda>p. if p \<le> 5 then Some NULL else None)\<rparr>"

lemma sample_ops_ok:
  "list_ops_ok (cell some_heap) id [Append 3, In_Order 1, Prepend 4, Before 3 2, Replace 4 5, After 5 4, Delete 1, Sort] []"
  by (simp add: cell_def some_heap_def domIff)

lemma sample_compares: "compares (\<lambda>a b. int a - int b) id"
  by (simp add: compares_def)

lemma sample_result:
  "fold (spec_list_op id) [Append 3, In_Order 1, Prepend 4, Before 3 2, Replace 4 5, After 5 4, Delete 1, Sort] [] = [2, 3, 4, 5 :: ptr]"
  by code_simp

lemma sample_length: "length [2, 3, 4, 5 :: ptr] = 4" and sample_find: "find ((<) 3) [2, 3, 4, 5 :: ptr] = Some 4"
  by simp_all

text \<open>C21: the singly linked lists of \<^verbatim>\<open>utlist.h\<close> are lists. However insertions at both ends, in order, before and after
  given elements, replacements, deletions and sorts follow each other, every operation returns without a fault, and the
  heap links exactly the elements that the same operations on lists give, in their order; the sort is stable, and counting
  and searching see the same list.\<close>

theorem singly_linked_lists:
  assumes "list_ops_ok (cell h) key cs []" "compares cmp (key :: ptr \<Rightarrow> 'k::linorder)" "fold (spec_list_op key) cs [] = es"
  shows "\<exists>head' h'. run_list_ops (LL_step cmp) cs (NULL, h) = Some (Inr (head', h')) \<and> ll_rep (head', h') es
    \<and> LL_COUNT2 (head', h') = Some (Inr (length es))
    \<and> LL_SEARCH2 h' found head' = Some (Inr (case find found es of Some e \<Rightarrow> e | None \<Rightarrow> NULL))"
  using lls.from_empty [OF assms, of found] by (simp add: LL_step_def)

theorem singly_linked_lists_witness:
  "\<exists>head' h'. run_list_ops (LL_step (\<lambda>a b. int a - int b))
        [Append 3, In_Order 1, Prepend 4, Before 3 2, Replace 4 5, After 5 4, Delete 1, Sort] (NULL, some_heap) = Some (Inr (head', h'))
    \<and> ll_rep (head', h') [2, 3, 4, 5] \<and> LL_COUNT2 (head', h') = Some (Inr 4)
    \<and> LL_SEARCH2 h' ((<) 3) head' = Some (Inr 4)"
  using singly_linked_lists [OF sample_ops_ok sample_compares sample_result, of "(<) 3"] unfolding sample_length sample_find option.case .

text \<open>C20: so are the doubly linked lists, with their links in both directions: the head's back link is the last
  element after every operation, at the ends as in the middle.\<close>

theorem doubly_linked_lists:
  assumes "list_ops_ok (cell h) key cs []" "compares cmp (key :: ptr \<Rightarrow> 'k::linorder)" "fold (spec_list_op key) cs [] = es"
  shows "\<exists>head' h'. run_list_ops (DL_step cmp) cs (NULL, h) = Some (Inr (head', h')) \<and> dl_rep (head', h') es
    \<and> LL_COUNT2 (head', h') = Some (Inr (length es))
    \<and> LL_SEARCH2 h' found head' = Some (Inr (case find found es of Some e \<Rightarrow> e | None \<Rightarrow> NULL))"
  using dls.from_empty [OF assms, of found] by (simp add: DL_step_def)

theorem doubly_linked_lists_witness:
  "\<exists>head' h'. run_list_ops (DL_step (\<lambda>a b. int a - int b))
        [Append 3, In_Order 1, Prepend 4, Before 3 2, Replace 4 5, After 5 4, Delete 1, Sort] (NULL, some_heap) = Some (Inr (head', h'))
    \<and> dl_rep (head', h') [2, 3, 4, 5] \<and> LL_COUNT2 (head', h') = Some (Inr 4)
    \<and> LL_SEARCH2 h' ((<) 3) head' = Some (Inr 4)"
  using doubly_linked_lists [OF sample_ops_ok sample_compares sample_result, of "(<) 3"] unfolding sample_length sample_find option.case .

text \<open>C19: so are the circular lists: the ring is closed in both directions after every operation, also when the head is
  deleted or replaced and after a sort.\<close>

theorem circular_lists:
  assumes "list_ops_ok (cell h) key cs []" "compares cmp (key :: ptr \<Rightarrow> 'k::linorder)" "fold (spec_list_op key) cs [] = es"
  shows "\<exists>head' h'. run_list_ops (CDL_step cmp) cs (NULL, h) = Some (Inr (head', h')) \<and> cdl_rep (head', h') es
    \<and> CDL_COUNT2 (head', h') = Some (Inr (length es))
    \<and> CDL_SEARCH2 head' h' found head' = Some (Inr (case find found es of Some e \<Rightarrow> e | None \<Rightarrow> NULL))"
  using cdls.from_empty [OF assms, of found] by (simp add: CDL_step_def)

theorem circular_lists_witness:
  "\<exists>head' h'. run_list_ops (CDL_step (\<lambda>a b. int a - int b))
        [Append 3, In_Order 1, Prepend 4, Before 3 2, Replace 4 5, After 5 4, Delete 1, Sort] (NULL, some_heap) = Some (Inr (head', h'))
    \<and> cdl_rep (head', h') [2, 3, 4, 5] \<and> CDL_COUNT2 (head', h') = Some (Inr 4)
    \<and> CDL_SEARCH2 head' h' ((<) 3) head' = Some (Inr 4)"
  using circular_lists [OF sample_ops_ok sample_compares sample_result, of "(<) 3"] unfolding sample_length sample_find option.case .

text \<open>C27: the elements of a circular list may be deleted while it is iterated over. The safe loop, with a body that notes each
  element it is given and deletes those with a property, visits every element of the list once, in order, and ends, even when
  the head goes and when all go; what is left is a circular list of the others.\<close>

theorem delete_while_iterating:
  assumes "cdl_rep (head, h) es"
  shows "\<exists>head' h'. CDL_FOREACH_SAFE2 (\<lambda>s. snd (snd s)) (cdl_visit P) head ([], head, h) = Some (Inr (es, head', h'))
    \<and> cdl_rep (head', h') (filter (\<lambda>e. \<not> P e) es)"
  using cdl_sweep [OF assms, of P "[]"] by simp

theorem delete_while_iterating_witness:
  "\<exists>head' h'. CDL_FOREACH_SAFE2 (\<lambda>s. snd (snd s)) (cdl_visit odd) 1
      ([], 1, \<lparr>nxt = [1 \<mapsto> 2, 2 \<mapsto> 3, 3 \<mapsto> 1], prv = [1 \<mapsto> 3, 2 \<mapsto> 1, 3 \<mapsto> 2]\<rparr>) = Some (Inr ([1, 2, 3], head', h'))
    \<and> cdl_rep (head', h') [2]"
proof -
  have "cdl_rep (1, \<lparr>nxt = [1 \<mapsto> 2, 2 \<mapsto> 3, 3 \<mapsto> 1], prv = [1 \<mapsto> 3, 2 \<mapsto> 1, 3 \<mapsto> 2]\<rparr>) [1, 2, 3]"
    by (simp add: cdl_rep_def)
  from delete_while_iterating [OF this, of odd] show ?thesis by simp
qed

end
