(* ===== verification/Utstack.thy ===== *)
theory Utstack
  imports Utlist
begin

text \<open>
  The stacks of \<^verbatim>\<open>uthash/utstack.h\<close>: macros on a singly linked list, whose head is the top. Nothing is checked: popping from
  an empty stack reads the field \<open>next\<close> of the null pointer.
\<close>

definition STACK_TOP :: "ul_list \<Rightarrow> ptr" where
  "STACK_TOP = (\<lambda>(head, h). head)"

definition STACK_EMPTY :: "ul_list \<Rightarrow> bool" where
  "STACK_EMPTY = (\<lambda>(head, h). head = NULL)"

definition STACK_PUSH2 :: "ptr \<Rightarrow> ul_list \<Rightarrow> ul_list res" where
  "STACK_PUSH2 add = (\<lambda>(head, h). bind_res (set_next h add head) (\<lambda>h. Inr (add, h)))"

definition STACK_POP2 :: "ul_list \<Rightarrow> (ptr \<times> ul_list) res" where
  "STACK_POP2 = (\<lambda>(head, h). bind_res (read_next h head) (\<lambda>q. Inr (head, (q, h))))"

definition STACK_COUNT2 :: "ul_list \<Rightarrow> nat run" where
  "STACK_COUNT2 = (\<lambda>(head, h).
     bind_run (LL_FOREACH2 fst (\<lambda>_ (h, counter). Some (Inr (h, counter + 1))) head (h, 0)) (\<lambda>(h, counter). Some (Inr counter)))"

datatype stack_op = Push ptr | Pop

text \<open>A run of the operations: the stack they leave and what was popped, in order.\<close>

fun run_stack :: "stack_op list \<Rightarrow> ul_list \<times> ptr list \<Rightarrow> (ul_list \<times> ptr list) res" where
  "run_stack [] st = Inr st"
| "run_stack (Push a # cs) (s, out) = bind_res (STACK_PUSH2 a s) (\<lambda>s. run_stack cs (s, out))"
| "run_stack (Pop # cs) (s, out) = bind_res (STACK_POP2 s) (\<lambda>(r, s). run_stack cs (s, out @ [r]))"

fun spec_stack :: "stack_op list \<Rightarrow> ptr list \<times> ptr list \<Rightarrow> (ptr list \<times> ptr list) option" where
  "spec_stack [] st = Some st"
| "spec_stack (Push a # cs) (es, out) = spec_stack cs (a # es, out)"
| "spec_stack (Pop # cs) ([], out) = None"
| "spec_stack (Pop # cs) (e # es, out) = spec_stack cs (es, out @ [e])"

text \<open>Only elements that are in the heap and not on the stack are pushed.\<close>

fun pushes_ok :: "(ptr \<Rightarrow> bool) \<Rightarrow> stack_op list \<Rightarrow> ptr list \<Rightarrow> bool" where
  "pushes_ok ok [] es \<longleftrightarrow> True"
| "pushes_ok ok (Push a # cs) es \<longleftrightarrow> ok a \<and> a \<notin> set es \<and> pushes_ok ok cs (a # es)"
| "pushes_ok ok (Pop # cs) es \<longleftrightarrow> pushes_ok ok cs (tl es)"

lemma STACK_PUSH2_prepends: "STACK_PUSH2 = LL_PREPEND2"
  by (simp add: fun_eq_iff STACK_PUSH2_def LL_PREPEND2_def)

lemma STACK_COUNT2_counts: "STACK_COUNT2 = LL_COUNT2"
  by (simp add: fun_eq_iff STACK_COUNT2_def LL_COUNT2_def)

lemma STACK_PUSH2_ok:
  assumes "ll_rep (head, h) es" "cell h a" "a \<notin> set es"
  shows "\<exists>s'. STACK_PUSH2 a (head, h) = Inr s' \<and> ll_rep s' (a # es) \<and> same_cells h (snd s')"
  using LL_PREPEND2_ok [OF assms] unfolding STACK_PUSH2_prepends by (auto simp: op_result_def)

lemma STACK_POP2_empty: "STACK_POP2 (NULL, h) = Inl NullDeref"
  by (simp add: STACK_POP2_def read_next_def deref_def)

lemma STACK_POP2_ok: "ll_rep (head, h) (e # es) \<Longrightarrow> \<exists>q. STACK_POP2 (head, h) = Inr (e, (q, h)) \<and> ll_rep (q, h) es"
  by (auto simp: ll_rep_def STACK_POP2_def heap_simps)

lemma run_stack_ok:
  assumes "ll_rep (head, h) es" "pushes_ok (cell h) cs es"
  shows "case spec_stack cs (es, out) of
      None \<Rightarrow> run_stack cs ((head, h), out) = Inl NullDeref
    | Some (es', out') \<Rightarrow> \<exists>s'. run_stack cs ((head, h), out) = Inr (s', out') \<and> ll_rep s' es'"
  using assms
proof (induction cs "(es, out)" arbitrary: head h es out rule: spec_stack.induct)
  case (2 a cs es out)
  then obtain head1 h1 where s: "STACK_PUSH2 a (head, h) = Inr (head1, h1)" "ll_rep (head1, h1) (a # es)" "same_cells h h1"
    using STACK_PUSH2_ok [of head h es a] by auto
  with 2(1) [OF s(2)] 2(3) show ?case by (auto simp: same_cells_cell split: option.splits)
next
  case (3 cs out)
  then show ?case by (simp add: ll_rep_def STACK_POP2_empty)
next
  case (4 cs e es out)
  then obtain q where q: "STACK_POP2 (head, h) = Inr (e, (q, h))" "ll_rep (q, h) es" using STACK_POP2_ok [of head h e es] by blast
  with 4(1) [OF q(2)] 4(3) show ?case by (auto split: option.splits)
qed auto

text \<open>A stack gives back the elements in the reverse of the order in which they were pushed. From an empty stack any
  sequence of pushes and pops pops what the specification pops, and leaves a stack with its elements, which is
  counted right and has the last pushed of them on top; one that pops more than was pushed dereferences the null pointer.\<close>

theorem stack_last_in_first_out:
  assumes "pushes_ok (cell h) cs []"
  shows "case spec_stack cs ([], []) of
      None \<Rightarrow> run_stack cs ((NULL, h), []) = Inl NullDeref
    | Some (es, out) \<Rightarrow> \<exists>s. run_stack cs ((NULL, h), []) = Inr (s, out) \<and> STACK_COUNT2 s = Some (Inr (length es))
        \<and> STACK_EMPTY s = (es = []) \<and> STACK_TOP s = (case es of [] \<Rightarrow> NULL | e # _ \<Rightarrow> e)"
proof -
  have count: "STACK_COUNT2 s = Some (Inr (length es)) \<and> STACK_EMPTY s = (es = [])
      \<and> STACK_TOP s = (case es of [] \<Rightarrow> NULL | e # _ \<Rightarrow> e)" if "ll_rep s es" for s es
    using that LL_COUNT2_ok [of "snd s" "fst s" es]
    by (cases s) (auto simp: ll_rep_def STACK_COUNT2_counts STACK_EMPTY_def STACK_TOP_def split: list.splits)
  show ?thesis using run_stack_ok [of NULL h "[]" cs "[]"] assms count by (fastforce simp: ll_rep_def split: option.splits)
qed

theorem stack_last_in_first_out_witness:
  "\<exists>s. run_stack [Push 1, Push 2, Pop, Push 3, Push 2] ((NULL, \<lparr>nxt = \<lambda>_. Some 0, prv = \<lambda>_. Some 0\<rparr>), []) = Inr (s, [2])
    \<and> STACK_COUNT2 s = Some (Inr 3) \<and> STACK_TOP s = 2"
  using stack_last_in_first_out [of "\<lparr>nxt = \<lambda>_. Some 0, prv = \<lambda>_. Some 0\<rparr>" "[Push 1, Push 2, Pop, Push 3, Push 2]"]
  by (auto simp: cell_def)

end
